(* ===== verification/Kprelude.thy ===== *)
theory Kprelude
  imports Main "HOL-Library.Word"
begin

text \<open>
  Prelude of the xv6 development. It holds
  \<^item> the machine types of the C sources (\<open>types.h\<close>): \<open>uint\<close>, \<open>ushort\<close>, \<open>uchar\<close> as words;
  \<^item> the outcome of a kernel function: it returns a value and a new state, or it calls
    \<open>panic\<close>, or it hands the CPU to the scheduler (\<open>sched\<close> in \<open>proc.c\<close>) and does not return;
  \<^item> the sequencing of kernel functions (\<open>ret\<close>, \<open>bnd\<close>, \<open>sq\<close>) and the calculus of postconditions
    (\<open>post\<close>, \<open>gives\<close>) that carries the invariant of the whole kernel;
  \<^item> byte slices (\<open>sub_arr\<close>, \<open>put_arr\<close>): reading and overwriting a range of a C array;
  \<^item> the interfaces (locales) shared by several components: invariants of step relations
    and fixed width byte encodings.
\<close>

unbundle bit_operations_syntax

section \<open>Machine types\<close>

type_synonym u8 = "8 word"
type_synonym u16 = "16 word"
type_synonym u32 = "32 word"
type_synonym bytes = "8 word list"

section \<open>Outcomes of kernel functions\<close>

datatype ('s, 'a) outcome = Ok 'a 's | Panic string | Switch 's

type_synonym ('s, 'a) km = "'s \<Rightarrow> ('s, 'a) outcome"

definition ret :: "'a \<Rightarrow> ('s, 'a) km" where
  "ret x s = Ok x s"

definition bnd :: "('s, 'a) km \<Rightarrow> ('a \<Rightarrow> ('s, 'b) km) \<Rightarrow> ('s, 'b) km" where
  "bnd m f s = (case m s of Ok x t \<Rightarrow> f x t | Panic e \<Rightarrow> Panic e | Switch t \<Rightarrow> Switch t)"

definition sq :: "('s, 'a) km \<Rightarrow> ('s, 'b) km \<Rightarrow> ('s, 'b) km" where
  "sq m n s = (case m s of Ok x t \<Rightarrow> n t | Panic e \<Rightarrow> Panic e | Switch t \<Rightarrow> Switch t)"

definition kpanic :: "string \<Rightarrow> ('s, 'a) km" where
  "kpanic msg s = Panic msg"

definition getk :: "('s \<Rightarrow> 'a) \<Rightarrow> ('s, 'a) km" where
  "getk f s = Ok (f s) s"

definition modk :: "('s \<Rightarrow> 's) \<Rightarrow> ('s, unit) km" where
  "modk f s = Ok () (f s)"

definition whenk :: "bool \<Rightarrow> ('s, unit) km \<Rightarrow> ('s, unit) km" where
  "whenk c m s = (if c then m s else Ok () s)"

text \<open>A \<open>for\<close> loop over an explicit list of indices.\<close>

primrec for_each :: "'i list \<Rightarrow> ('i \<Rightarrow> ('s, unit) km) \<Rightarrow> ('s, unit) km" where
  "for_each [] f = ret ()"
| "for_each (i # is) f = sq (f i) (for_each is f)"

text \<open>An access outside an array, which C leaves undefined.\<close>

definition undefined_behaviour :: "('s, 'a) km" where
  "undefined_behaviour = kpanic ''undefined behaviour''"

text \<open>
  A loop that has used up the number of iterations the model allows it; no function of the kernel panics with this message, so a
  theorem can state that a loop ends.
\<close>

definition out_of_fuel :: "('s, 'a) km" where
  "out_of_fuel = kpanic ''out of fuel''"

text \<open>
  \<open>post m Q W E s\<close>: run from \<open>s\<close>, \<open>m\<close> returns with \<open>Q\<close>, or gives up the CPU in a state with \<open>W\<close>,
  or panics with a message with \<open>E\<close>.
\<close>

definition post ::
  "('s, 'a) km \<Rightarrow> ('a \<Rightarrow> 's \<Rightarrow> bool) \<Rightarrow> ('s \<Rightarrow> bool) \<Rightarrow> (string \<Rightarrow> bool) \<Rightarrow> 's \<Rightarrow> bool" where
  "post m Q W E s = (case m s of Ok x t \<Rightarrow> Q x t | Panic e \<Rightarrow> E e | Switch t \<Rightarrow> W t)"

text \<open>
  \<open>gives I Q m\<close>: wherever \<open>m\<close> stops without a panic, the invariant \<open>I\<close> still holds, and a value that \<open>m\<close> returns satisfies \<open>Q\<close>.
\<close>

definition gives :: "('s \<Rightarrow> bool) \<Rightarrow> ('a \<Rightarrow> bool) \<Rightarrow> ('s, 'a) km \<Rightarrow> bool" where
  "gives I Q m \<longleftrightarrow> (\<forall>s. I s \<longrightarrow> post m (\<lambda>x t. I t \<and> Q x) I (\<lambda>_. True) s)"

named_theorems km_defs \<open>the sequencing combinators, for running a kernel function on a state\<close>
named_theorems gives_rules \<open>invariants kept by kernel functions\<close>
named_theorems bind_rules \<open>the same for the first part of a sequence, with what is known of its result\<close>

section \<open>Byte ranges of arrays\<close>

definition sub_arr :: "nat \<Rightarrow> nat \<Rightarrow> 'a list \<Rightarrow> 'a list" where
  "sub_arr off n xs = take n (drop off xs)"

definition put_arr :: "nat \<Rightarrow> 'a list \<Rightarrow> 'a list \<Rightarrow> 'a list" where
  "put_arr off ys xs = take off xs @ ys @ drop (off + length ys) xs"

section \<open>First index of a table with a property\<close>

text \<open>The loops \<open>for(p = table; p < &table[N]; p++) if(free(p)) goto found\<close>.\<close>

fun find_idx :: "('a \<Rightarrow> bool) \<Rightarrow> 'a list \<Rightarrow> nat option" where
  "find_idx P [] = None"
| "find_idx P (x # xs) = (if P x then Some 0 else map_option Suc (find_idx P xs))"

section \<open>Reachable states of a step relation\<close>

inductive reachable :: "('s \<Rightarrow> bool) \<Rightarrow> ('s \<Rightarrow> 's \<Rightarrow> bool) \<Rightarrow> 's \<Rightarrow> bool"
  for init :: "'s \<Rightarrow> bool" and step :: "'s \<Rightarrow> 's \<Rightarrow> bool" where
  reach_init: "init s \<Longrightarrow> reachable init step s"
| reach_step: "reachable init step s \<Longrightarrow> step s t \<Longrightarrow> reachable init step t"

section \<open>Running kernel functions\<close>

lemma ret_run [simp, km_defs]: "ret x s = Ok x s"
  by (simp add: ret_def)

lemma kpanic_run [simp, km_defs]: "kpanic e s = Panic e"
  by (simp add: kpanic_def)

lemma getk_run [simp, km_defs]: "getk f s = Ok (f s) s"
  by (simp add: getk_def)

lemma modk_run [simp, km_defs]: "modk f s = Ok () (f s)"
  by (simp add: modk_def)

lemma whenk_True [simp, km_defs]: "whenk True m = m"
  by (rule ext) (simp add: whenk_def)

lemma whenk_False [simp, km_defs]: "whenk False m = ret ()"
  by (rule ext) (simp add: whenk_def)

lemma bnd_Ok [simp]: "m s = Ok x t \<Longrightarrow> bnd m f s = f x t"
  by (simp add: bnd_def)

lemma bnd_Panic [simp]: "m s = Panic e \<Longrightarrow> bnd m f s = Panic e"
  by (simp add: bnd_def)

lemma bnd_Switch [simp]: "m s = Switch t \<Longrightarrow> bnd m f s = Switch t"
  by (simp add: bnd_def)

lemma sq_Ok [simp]: "m s = Ok x t \<Longrightarrow> sq m n s = n t"
  by (simp add: sq_def)

lemma sq_Panic [simp]: "m s = Panic e \<Longrightarrow> sq m n s = Panic e"
  by (simp add: sq_def)

lemma sq_Switch [simp]: "m s = Switch t \<Longrightarrow> sq m n s = Switch t"
  by (simp add: sq_def)

lemma bnd_ret [simp]: "bnd (ret x) f = f x"
  by (rule ext) simp

lemma bnd_eq_Ok: "bnd m f s = Ok y t \<longleftrightarrow> (\<exists>x u. m s = Ok x u \<and> f x u = Ok y t)"
  by (auto simp: bnd_def split: outcome.splits)

lemma sq_eq_Ok: "sq m n s = Ok y t \<longleftrightarrow> (\<exists>x u. m s = Ok x u \<and> n u = Ok y t)"
  by (auto simp: sq_def split: outcome.splits)

lemma sq_bnd: "sq m n = bnd m (\<lambda>_. n)"
  by (rule ext) (simp add: sq_def bnd_def)

section \<open>Postconditions\<close>

lemma post_ret [simp]: "post (ret x) Q W E s = Q x s"
  by (simp add: post_def)

lemma post_bnd [simp]: "post (bnd m f) Q W E s = post m (\<lambda>x. post (f x) Q W E) W E s"
  by (simp add: post_def bnd_def split: outcome.splits)

lemma post_sq [simp]: "post (sq m n) Q W E s = post m (\<lambda>_. post n Q W E) W E s"
  by (simp add: sq_bnd)

lemma post_kpanic [simp]: "post (kpanic e) Q W E s = E e"
  by (simp add: post_def)

lemma post_getk [simp]: "post (getk f) Q W E s = Q (f s) s"
  by (simp add: post_def)

lemma post_modk [simp]: "post (modk f) Q W E s = Q () (f s)"
  by (simp add: post_def)

lemma post_whenk [simp]: "post (whenk c m) Q W E s = (if c then post m Q W E s else Q () s)"
  by (simp add: post_def whenk_def)

lemma post_mono:
  assumes "post m Q W E s"
    and "\<And>x t. m s = Ok x t \<Longrightarrow> Q x t \<Longrightarrow> Q' x t"
    and "\<And>t. m s = Switch t \<Longrightarrow> W t \<Longrightarrow> W' t"
    and "\<And>e. m s = Panic e \<Longrightarrow> E e \<Longrightarrow> E' e"
  shows "post m Q' W' E' s"
  using assms by (auto simp: post_def split: outcome.splits)

section \<open>Kept invariants\<close>

lemma gives_mono: "gives I P m \<Longrightarrow> (\<And>x. P x \<Longrightarrow> Q x) \<Longrightarrow> gives I Q m"
  unfolding gives_def by (blast intro: post_mono)

lemma gives_any: "gives I P m \<Longrightarrow> gives I (\<lambda>_. True) m"
  by (erule gives_mono) simp

lemma gives_bind:
  assumes "gives I P m" and "\<And>x. P x \<Longrightarrow> gives I Q (f x)"
  shows "gives I Q (bnd m f)"
  unfolding gives_def
proof (intro allI impI)
  fix s assume "I s"
  with assms(1) have "post m (\<lambda>x t. I t \<and> P x) I (\<lambda>_. True) s" by (simp add: gives_def)
  then have "post m (\<lambda>x. post (f x) (\<lambda>x t. I t \<and> Q x) I (\<lambda>_. True)) I (\<lambda>_. True) s"
    by (rule post_mono) (use assms(2) in \<open>simp_all add: gives_def\<close>)
  then show "post (bnd m f) (\<lambda>x t. I t \<and> Q x) I (\<lambda>_. True) s" by simp
qed

lemma gives_bnd_getk [bind_rules]: "(\<And>s. I s \<Longrightarrow> gives I Q (g (f s))) \<Longrightarrow> gives I Q (bnd (getk f) g)"
  by (simp add: gives_def)

lemma gives_bnd_ret [bind_rules]: "gives I Q (g x) \<Longrightarrow> gives I Q (bnd (ret x) g)"
  by simp

lemma gives_ret [gives_rules]: "Q x \<Longrightarrow> gives I Q (ret x)"
  by (simp add: gives_def)

lemma gives_kpanic [gives_rules]: "gives I Q (kpanic e)" "gives I Q undefined_behaviour" "gives I Q out_of_fuel"
  by (simp_all add: gives_def undefined_behaviour_def out_of_fuel_def)

lemma gives_getk [gives_rules]: "(\<And>s. I s \<Longrightarrow> Q (f s)) \<Longrightarrow> gives I Q (getk f)"
  by (simp add: gives_def)

lemma gives_modk [gives_rules]: "(\<And>s. I s \<Longrightarrow> I (f s)) \<Longrightarrow> Q () \<Longrightarrow> gives I Q (modk f)"
  by (simp add: gives_def)

lemma gives_bnd [gives_rules]: "gives I (\<lambda>_. True) m \<Longrightarrow> (\<And>x. gives I Q (f x)) \<Longrightarrow> gives I Q (bnd m f)"
  by (rule gives_bind)

lemma gives_sq [gives_rules]: "gives I (\<lambda>_. True) m \<Longrightarrow> gives I Q n \<Longrightarrow> gives I Q (sq m n)"
  by (simp add: sq_bnd gives_bnd)

lemma gives_if [gives_rules]:
  "(c \<Longrightarrow> gives I Q m) \<Longrightarrow> (\<not> c \<Longrightarrow> gives I Q n) \<Longrightarrow> gives I Q (if c then m else n)"
  by simp

lemma gives_whenk [gives_rules]: "(c \<Longrightarrow> gives I Q m) \<Longrightarrow> Q () \<Longrightarrow> gives I Q (whenk c m)"
  by (cases c) (simp_all add: gives_ret)

lemma gives_case_option [gives_rules]:
  "(x = None \<Longrightarrow> gives I Q m) \<Longrightarrow> (\<And>y. x = Some y \<Longrightarrow> gives I Q (f y)) \<Longrightarrow> gives I Q (case x of None \<Rightarrow> m | Some y \<Rightarrow> f y)"
  by (cases x) simp_all

lemma gives_case_list [gives_rules]:
  "(xs = [] \<Longrightarrow> gives I Q m) \<Longrightarrow> (\<And>y ys. xs = y # ys \<Longrightarrow> gives I Q (f y ys)) \<Longrightarrow>
   gives I Q (case xs of [] \<Rightarrow> m | y # ys \<Rightarrow> f y ys)"
  by (cases xs) simp_all

lemma gives_case_prod [gives_rules]:
  "(\<And>x y. p = (x, y) \<Longrightarrow> gives I Q (f x y)) \<Longrightarrow> gives I Q (case p of (x, y) \<Rightarrow> f x y)"
  by (cases p) simp

lemma gives_let [gives_rules]: "(\<And>x. x = y \<Longrightarrow> gives I Q (f x)) \<Longrightarrow> gives I Q (let x = y in f x)"
  by simp

lemma gives_bind_case:
  assumes "x = None \<Longrightarrow> gives I P m" and "\<And>y. x = Some y \<Longrightarrow> gives I P (f y)" and "\<And>z. P z \<Longrightarrow> gives I Q (g z)"
  shows "gives I Q (bnd (case x of None \<Rightarrow> m | Some y \<Rightarrow> f y) g)"
  using assms by (cases x) (auto intro: gives_bind)

lemma for_each_append: "for_each (is @ js) f = sq (for_each is f) (for_each js f)"
  by (induction "is") (simp_all add: fun_eq_iff sq_def ret_def split: outcome.split)

lemma gives_for_each [gives_rules]: "(\<And>i. i \<in> set is \<Longrightarrow> gives I (\<lambda>_. True) (f i)) \<Longrightarrow> Q () \<Longrightarrow> gives I Q (for_each is f)"
proof (induction "is" arbitrary: Q)
  case Nil
  then show ?case by (simp only: for_each.simps) (rule gives_ret)
next
  case (Cons i js)
  then show ?case by (simp only: for_each.simps) (intro gives_sq; simp)
qed

text \<open>
  The same at a known state, for functions whose steps depend on what they have read: a sequence of reads, tests and updates is followed with its states.
\<close>

lemma gives_at: "(\<And>s. I s \<Longrightarrow> post m (\<lambda>x t. I t \<and> Q x) I (\<lambda>_. True) s) \<Longrightarrow> gives I Q m"
  by (simp add: gives_def)

lemma post_at:
  "gives I Q m \<Longrightarrow> I s \<Longrightarrow> post m (\<lambda>x t. I t \<and> Q x) I (\<lambda>_. True) s"
  "post (g (f s)) R W E s \<Longrightarrow> post (bnd (getk f) g) R W E s"
  "post n R W E (h s) \<Longrightarrow> post (sq (modk h) n) R W E s"
  "(c \<Longrightarrow> post m R W E s) \<Longrightarrow> (\<not> c \<Longrightarrow> post k R W E s) \<Longrightarrow> post (if c then m else k) R W E s"
  "(c \<Longrightarrow> post l V W E s) \<Longrightarrow> (\<not> c \<Longrightarrow> V () s) \<Longrightarrow> post (whenk c l) V W E s"
  "(\<And>x y. p = (x, y) \<Longrightarrow> post (j x y) R W E s) \<Longrightarrow> post (case p of (x, y) \<Rightarrow> j x y) R W E s"
  "(c \<Longrightarrow> post n R W E (h s)) \<Longrightarrow> (\<not> c \<Longrightarrow> post n R W E s) \<Longrightarrow> post (sq (whenk c (modk h)) n) R W E s"
  "(\<And>x. x = y \<Longrightarrow> post (d x) R W E s) \<Longrightarrow> post (let x = y in d x) R W E s"
  by (simp_all add: gives_def case_prod_unfold)

section \<open>Slices\<close>

lemma length_sub_arr [simp]: "length (sub_arr off n xs) = min n (length xs - off)"
  by (simp add: sub_arr_def)

lemma length_put_arr [simp]:
  "off + length ys \<le> length xs \<Longrightarrow> length (put_arr off ys xs) = length xs"
  by (simp add: put_arr_def)

lemma sub_arr_all [simp]: "length xs \<le> n \<Longrightarrow> sub_arr 0 n xs = xs"
  by (simp add: sub_arr_def)

lemma sub_put_same [simp]:
  "off + length ys \<le> length xs \<Longrightarrow> n = length ys \<Longrightarrow> sub_arr off n (put_arr off ys xs) = ys"
  by (simp add: sub_arr_def put_arr_def)

lemma nth_put_arr:
  "off + length ys \<le> length xs \<Longrightarrow> i < length xs \<Longrightarrow>
     put_arr off ys xs ! i = (if off \<le> i \<and> i < off + length ys then ys ! (i - off) else xs ! i)"
  by (auto simp: put_arr_def nth_append)

lemma nth_sub_arr [simp]: "i < n \<Longrightarrow> off + i < length xs \<Longrightarrow> sub_arr off n xs ! i = xs ! (off + i)"
  by (simp add: sub_arr_def)

lemma sub_put_disjoint:
  assumes "off + length ys \<le> length xs" and "a + n \<le> off \<or> off + length ys \<le> a"
  shows "sub_arr a n (put_arr off ys xs) = sub_arr a n xs"
  using assms by (intro nth_equalityI) (auto simp: nth_put_arr)

lemma put_put_same:
  "length ys = length zs \<Longrightarrow> off + length ys \<le> length xs \<Longrightarrow>
     put_arr off ys (put_arr off zs xs) = put_arr off ys xs"
  by (intro nth_equalityI) (auto simp: nth_put_arr)

lemma put_sub_id [simp]: "off + n \<le> length xs \<Longrightarrow> put_arr off (sub_arr off n xs) xs = xs"
  by (intro nth_equalityI) (auto simp: nth_put_arr)

section \<open>Searching tables\<close>

lemma find_idx_Some:
  "find_idx P xs = Some i \<longleftrightarrow> i < length xs \<and> P (xs ! i) \<and> (\<forall>j < i. \<not> P (xs ! j))"
proof (induction xs arbitrary: i)
  case Nil
  then show ?case by simp
next
  case (Cons x xs)
  show ?case by (cases i) (auto simp: All_less_Suc2 Cons.IH)
qed

lemma find_idx_None: "find_idx P xs = None \<longleftrightarrow> (\<forall>x \<in> set xs. \<not> P x)"
  by (induction xs) auto

lemma find_idx_SomeD:
  assumes "find_idx P xs = Some i"
  shows "i < length xs" and "P (xs ! i)"
  using assms by (simp_all add: find_idx_Some)

section \<open>Interfaces\<close>

text \<open>An invariant of a step relation holds in every reachable state.\<close>

locale invariant_system =
  fixes init :: "'s \<Rightarrow> bool" and step :: "'s \<Rightarrow> 's \<Rightarrow> bool" and inv :: "'s \<Rightarrow> bool"
  assumes inv_init: "init s \<Longrightarrow> inv s"
    and inv_step: "inv s \<Longrightarrow> step s t \<Longrightarrow> inv t"
begin

lemma reachable_inv: "reachable init step s \<Longrightarrow> inv s"
  by (induction rule: reachable.induct) (auto intro: inv_init inv_step)

end

text \<open>
  A fixed width encoding of values as bytes: a C struct stored at an index of an array of
  such structs inside a block of bytes.
\<close>

locale codec =
  fixes enc :: "'a \<Rightarrow> bytes" and dec :: "bytes \<Rightarrow> 'a" and width :: nat and wf :: "'a \<Rightarrow> bool"
  assumes enc_length: "wf x \<Longrightarrow> length (enc x) = width"
    and dec_enc: "wf x \<Longrightarrow> dec (enc x) = x"
begin

lemma at_same:
  "wf x \<Longrightarrow> off + width \<le> length blk \<Longrightarrow> dec (sub_arr off width (put_arr off (enc x) blk)) = x"
  by (simp add: enc_length dec_enc)

lemma at_other:
  assumes "wf x" and "(i + 1) * width \<le> length blk" and "i \<noteq> j"
  shows "sub_arr (j * width) width (put_arr (i * width) (enc x) blk) = sub_arr (j * width) width blk"
proof (cases "j < i")
  case True
  then have "(j + 1) * width \<le> i * width" by (intro mult_right_mono) auto
  with assms show ?thesis by (intro sub_put_disjoint) (auto simp: enc_length)
next
  case False
  with assms(3) have "(i + 1) * width \<le> j * width" by (intro mult_right_mono) auto
  with assms show ?thesis by (intro sub_put_disjoint) (auto simp: enc_length)
qed

lemma at_length:
  "wf x \<Longrightarrow> off + width \<le> length blk \<Longrightarrow> length (put_arr off (enc x) blk) = length blk"
  by (simp add: enc_length)

lemma enc_inj: "wf x \<Longrightarrow> wf y \<Longrightarrow> enc x = enc y \<Longrightarrow> x = y"
  using dec_enc by metis

end

end
