(* ===== verification/Kstring.thy ===== *)
theory Kstring
  imports Kprelude
begin

text \<open>
  The kernel's memory and string routines (\<open>string.c\<close>). A pointer to bytes that are only read
  is a function from the offset to the byte (\<open>ptr\<close>); a buffer that is written is a list of
  bytes. \<open>memmove\<close> and \<open>memset\<close>, whose behaviour depends on addresses (overlap, alignment),
  work on a memory indexed by addresses.

  The lemmas show that \<open>memmove\<close> copies correctly for overlapping areas, that the word-wise
  and the byte-wise \<open>memset\<close> agree, that \<open>strncmp\<close> decides equality of bounded C strings,
  that \<open>strncpy\<close> and \<open>safestrcpy\<close> copy and terminate them, and that \<open>strlen\<close> returns for a
  terminated string.
\<close>

type_synonym ptr = "nat \<Rightarrow> u8"
type_synonym memory = "nat \<Rightarrow> u8"

text \<open>Pointer arithmetic \<open>p + 1\<close>, and the address of a byte array followed by a NUL.\<close>

definition nextp :: "ptr \<Rightarrow> ptr" where
  "nextp p = (\<lambda>i. p (Suc i))"

definition cptr :: "bytes \<Rightarrow> ptr" where
  "cptr xs = (\<lambda>i. if i < length xs then xs ! i else 0)"

section \<open>Block operations\<close>

text \<open>\<open>rep stosb\<close> and \<open>rep stosl\<close> (\<open>x86.h\<close>).\<close>

fun stosb :: "memory \<Rightarrow> nat \<Rightarrow> u8 \<Rightarrow> nat \<Rightarrow> memory" where
  "stosb m a c 0 = m"
| "stosb m a c (Suc n) = stosb (m(a := c)) (a + 1) c n"

fun stosl :: "memory \<Rightarrow> nat \<Rightarrow> u32 \<Rightarrow> nat \<Rightarrow> memory" where
  "stosl m a d 0 = m"
| "stosl m a d (Suc n) =
     stosl (m(a := ucast d, a + 1 := ucast (drop_bit 8 d), a + 2 := ucast (drop_bit 16 d),
              a + 3 := ucast (drop_bit 24 d))) (a + 4) d n"

definition memset :: "memory \<Rightarrow> nat \<Rightarrow> u32 \<Rightarrow> nat \<Rightarrow> memory" where
  "memset m dst c n =
     (if dst mod 4 = 0 \<and> n mod 4 = 0
      then let c' = c AND 0xFF
           in stosl m dst (push_bit 24 c' OR push_bit 16 c' OR push_bit 8 c' OR c') (n div 4)
      else stosb m dst (ucast c) n)"

fun memcmp :: "ptr \<Rightarrow> ptr \<Rightarrow> nat \<Rightarrow> int" where
  "memcmp s1 s2 0 = 0"
| "memcmp s1 s2 (Suc n) =
     (if s1 0 \<noteq> s2 0 then uint (s1 0) - uint (s2 0) else memcmp (nextp s1) (nextp s2) n)"

text \<open>The two copy loops of \<open>memmove\<close>; the downward one is entered with the end addresses.\<close>

fun copy_up :: "memory \<Rightarrow> nat \<Rightarrow> nat \<Rightarrow> nat \<Rightarrow> memory" where
  "copy_up m d s 0 = m"
| "copy_up m d s (Suc n) = copy_up (m(d := m s)) (d + 1) (s + 1) n"

fun copy_down :: "memory \<Rightarrow> nat \<Rightarrow> nat \<Rightarrow> nat \<Rightarrow> memory" where
  "copy_down m d s 0 = m"
| "copy_down m d s (Suc n) = copy_down (m(d - 1 := m (s - 1))) (d - 1) (s - 1) n"

definition memmove :: "memory \<Rightarrow> nat \<Rightarrow> nat \<Rightarrow> nat \<Rightarrow> memory" where
  "memmove m dst src n =
     (if src < dst \<and> src + n > dst then copy_down m (dst + n) (src + n) n
      else copy_up m dst src n)"

section \<open>Strings\<close>

fun strncmp :: "ptr \<Rightarrow> ptr \<Rightarrow> nat \<Rightarrow> int" where
  "strncmp p q 0 = 0"
| "strncmp p q (Suc n) =
     (if p 0 \<noteq> 0 \<and> p 0 = q 0 then strncmp (nextp p) (nextp q) n
      else uint (p 0) - uint (q 0))"

text \<open>
  The bytes \<open>strncpy\<close> and \<open>safestrcpy\<close> write, in order. When the source ends, \<open>strncpy\<close> pads
  with NULs up to \<open>n\<close> bytes; \<open>safestrcpy\<close> has copied the NUL and writes one more at the next
  position.
\<close>

fun strncpy_out :: "ptr \<Rightarrow> nat \<Rightarrow> bytes" where
  "strncpy_out t 0 = []"
| "strncpy_out t (Suc n) =
     (if t 0 \<noteq> 0 then t 0 # strncpy_out (nextp t) n else t 0 # replicate n 0)"

definition strncpy :: "bytes \<Rightarrow> ptr \<Rightarrow> nat \<Rightarrow> bytes" where
  "strncpy s t n = put_arr 0 (strncpy_out t n) s"

fun safestrcpy_out :: "ptr \<Rightarrow> nat \<Rightarrow> bytes" where
  "safestrcpy_out t 0 = []"
| "safestrcpy_out t (Suc 0) = [0]"
| "safestrcpy_out t (Suc (Suc n)) =
     (if t 0 \<noteq> 0 then t 0 # safestrcpy_out (nextp t) (Suc n) else [t 0, 0])"

definition safestrcpy :: "bytes \<Rightarrow> ptr \<Rightarrow> nat \<Rightarrow> bytes" where
  "safestrcpy s t n = put_arr 0 (safestrcpy_out t n) s"

partial_function (option) strlen_from :: "ptr \<Rightarrow> nat \<Rightarrow> nat option" where
  "strlen_from s n = (if s n = 0 then Some n else strlen_from s (n + 1))"

definition strlen :: "ptr \<Rightarrow> nat option" where
  "strlen s = strlen_from s 0"

text \<open>The C string at \<open>p\<close>, cut at \<open>n\<close> bytes: the specification of the routines above.\<close>

fun cstr_of :: "ptr \<Rightarrow> nat \<Rightarrow> bytes" where
  "cstr_of p 0 = []"
| "cstr_of p (Suc n) = (if p 0 = 0 then [] else p 0 # cstr_of (nextp p) n)"

section \<open>Pointers\<close>

lemma nextp_app: "nextp p i = p (Suc i)"
  by (simp add: nextp_def)

lemma cptr_nth [simp]: "i < length xs \<Longrightarrow> cptr xs i = xs ! i"
  by (simp add: cptr_def)

lemma cptr_end [simp]: "length xs \<le> i \<Longrightarrow> cptr xs i = 0"
  by (simp add: cptr_def)

lemma cptr_Cons_0 [simp]: "cptr (x # xs) 0 = x"
  by (simp add: cptr_def)

lemma cptr_Nil [simp]: "cptr [] i = 0"
  by (simp add: cptr_def)

lemma nextp_cptr [simp]: "nextp (cptr (x # xs)) = cptr xs"
  by (rule ext) (simp add: nextp_def cptr_def)

lemma nextp_cptr_Nil [simp]: "nextp (cptr []) = cptr []"
  by (rule ext) (simp add: nextp_def cptr_def)

section \<open>Block operations\<close>

lemma stosb_eq: "stosb m a c n x = (if a \<le> x \<and> x < a + n then c else m x)"
  by (induction n arbitrary: m a) auto

lemma copy_up_eq:
  "d \<le> s \<or> s + n \<le> d \<Longrightarrow>
     copy_up m d s n x = (if d \<le> x \<and> x < d + n then m (s + (x - d)) else m x)"
proof (induction n arbitrary: m d s x)
  case 0
  then show ?case by auto
next
  case (Suc n)
  then have "Suc d \<le> Suc s \<or> Suc s + n \<le> Suc d" by auto
  note IH = Suc.IH [OF this]
  have "Suc s + (x - Suc d) = s + (x - d)" if "Suc d \<le> x" using that by simp
  with Suc.prems show ?case by (auto simp: IH)
qed

lemma copy_down_eq:
  "s < d \<Longrightarrow> n \<le> s \<Longrightarrow>
     copy_down m d s n x = (if d - n \<le> x \<and> x < d then m (x - (d - s)) else m x)"
proof (induction n arbitrary: m d s x)
  case 0
  then show ?case by auto
next
  case (Suc n)
  then have "s - Suc 0 < d - Suc 0" and "n \<le> s - Suc 0" by auto
  note IH = Suc.IH [OF this]
  have e: "d - Suc 0 - (s - Suc 0) = d - s" using Suc.prems by simp
  consider "x = d - Suc 0" | "x < d - Suc 0" | "x \<ge> d" by linarith
  then show ?case
  proof cases
    case 1
    then have "x - (d - s) = s - Suc 0" and "x < d" using Suc.prems by auto
    with 1 Suc.prems show ?thesis by (simp add: IH)
  next
    case 2
    then have "x - (d - s) \<noteq> d - Suc 0" by simp
    with 2 Suc.prems show ?thesis by (simp add: IH e)
  next
    case 3
    with Suc.prems show ?thesis by (auto simp: IH)
  qed
qed

lemma bytes_of_replicated:
  fixes c :: u32
  defines "d \<equiv> push_bit 24 (c AND 0xFF) OR push_bit 16 (c AND 0xFF) OR
                  push_bit 8 (c AND 0xFF) OR (c AND 0xFF)"
  shows "(ucast d :: u8) = ucast c" and "(ucast (drop_bit 8 d) :: u8) = ucast c"
    and "(ucast (drop_bit 16 d) :: u8) = ucast c" and "(ucast (drop_bit 24 d) :: u8) = ucast c"
proof -
  have mask: "(0xFF :: u32) = mask 8" by (simp add: mask_eq_exp_minus_1)
  show "(ucast d :: u8) = ucast c"
    unfolding d_def mask by (rule bit_eqI) (simp add: bit_simps)
  show "(ucast (drop_bit 8 d) :: u8) = ucast c"
    unfolding d_def mask by (rule bit_eqI) (simp add: bit_simps)
  show "(ucast (drop_bit 16 d) :: u8) = ucast c"
    unfolding d_def mask by (rule bit_eqI) (simp add: bit_simps)
  show "(ucast (drop_bit 24 d) :: u8) = ucast c"
    unfolding d_def mask by (rule bit_eqI) (simp add: bit_simps)
qed

lemma stosl_eq:
  fixes d :: u32
  assumes "\<And>k. k < 4 \<Longrightarrow> ucast (drop_bit (8 * k) d) = c"
  shows "stosl m a d n x = (if a \<le> x \<and> x < a + 4 * n then c else m x)"
proof (induction n arbitrary: m a)
  case 0
  then show ?case by auto
next
  case (Suc n)
  have b: "ucast d = c" "ucast (drop_bit 8 d) = c" "ucast (drop_bit 16 d) = c"
    "ucast (drop_bit 24 d) = c"
    using assms [of 0] assms [of 1] assms [of 2] assms [of 3] by simp_all
  show ?case by (auto simp: Suc.IH b)
qed

lemma memmove_at:
  "memmove m dst src n x = (if dst \<le> x \<and> x < dst + n then m (src + (x - dst)) else m x)"
proof (cases "src < dst \<and> src + n > dst")
  case True
  then have "copy_down m (dst + n) (src + n) n x =
      (if dst + n - n \<le> x \<and> x < dst + n then m (x - (dst + n - (src + n))) else m x)"
    by (intro copy_down_eq) auto
  moreover have "x - (dst - src) = src + (x - dst)" if "dst \<le> x" using True that by simp
  ultimately show ?thesis using True by (auto simp: memmove_def)
next
  case False
  then show ?thesis by (auto simp: memmove_def copy_up_eq)
qed

text \<open>
  C26. \<open>memmove\<close> (string.c) copies \<open>n\<close> bytes from \<open>src\<close> to \<open>dst\<close> and changes nothing else, also
  when the two areas overlap in either direction.
\<close>

theorem memmove_correct:
  "memmove m dst src n x = (if dst \<le> x \<and> x < dst + n then m (src + (x - dst)) else m x)"
  by (rule memmove_at)

text \<open>The word-wise and the byte-wise path of \<open>memset\<close> agree.\<close>

lemma memset_at:
  "memset m dst c n x = (if dst \<le> x \<and> x < dst + n then ucast c else m x)"
proof (cases "dst mod 4 = 0 \<and> n mod 4 = 0")
  case True
  let ?d = "push_bit 24 (c AND 0xFF) OR push_bit 16 (c AND 0xFF) OR
              push_bit 8 (c AND 0xFF) OR (c AND 0xFF)"
  have "ucast (drop_bit (8 * k) ?d) = (ucast c :: u8)" if "k < 4" for k
  proof -
    from that consider "k = 0" | "k = 1" | "k = 2" | "k = 3" by linarith
    then show ?thesis using bytes_of_replicated [of c] by cases simp_all
  qed
  then have "stosl m dst ?d (n div 4) x =
      (if dst \<le> x \<and> x < dst + 4 * (n div 4) then ucast c else m x)"
    by (rule stosl_eq)
  moreover have "4 * (n div 4) = n" using True by auto
  moreover have "memset m dst c n x = stosl m dst ?d (n div 4) x"
    using True by (simp only: memset_def Let_def simp_thms if_True)
  ultimately show ?thesis by (simp only:)
next
  case False
  then have "memset m dst c n x = stosb m dst (ucast c) n x" by (simp only: memset_def if_False)
  then show ?thesis by (simp only: stosb_eq)
qed

section \<open>Strings\<close>

lemma memcmp_0_iff: "memcmp p q n = 0 \<longleftrightarrow> (\<forall>i < n. p i = q i)"
proof (induction n arbitrary: p q)
  case (Suc n)
  then show ?case
    by (cases "p 0 = q 0") (simp_all add: All_less_Suc2 nextp_app word_uint_eq_iff [symmetric])
qed simp

lemma strncmp_0_iff: "strncmp p q n = 0 \<longleftrightarrow> cstr_of p n = cstr_of q n"
proof (induction n arbitrary: p q)
  case (Suc n)
  then show ?case by (cases "p 0 = q 0") (auto simp: word_uint_eq_iff [symmetric])
qed simp

lemma cstr_of_cptr: "0 \<notin> set xs \<Longrightarrow> cstr_of (cptr xs) n = take n xs"
proof (induction xs arbitrary: n)
  case Nil
  then show ?case by (cases n) auto
next
  case (Cons x xs)
  then show ?case by (cases n) auto
qed

lemma cstr_of_append: "0 \<notin> set xs \<Longrightarrow> cstr_of (cptr (xs @ 0 # ys)) n = take n xs"
proof (induction xs arbitrary: n)
  case Nil
  then show ?case by (cases n) auto
next
  case (Cons x xs)
  then show ?case by (cases n) auto
qed

lemma cstr_of_no_nul: "0 \<notin> set (cstr_of p n)"
  by (induction n arbitrary: p) auto

lemma length_cstr_of: "length (cstr_of p n) \<le> n"
  by (induction n arbitrary: p) auto

lemma length_strncpy_out [simp]: "length (strncpy_out t n) = n"
  by (induction n arbitrary: t) auto

lemma strncpy_out_cstr:
  "strncpy_out t n = cstr_of t n @ replicate (n - length (cstr_of t n)) 0"
  by (induction n arbitrary: t) auto

lemma length_strncpy [simp]: "n \<le> length s \<Longrightarrow> length (strncpy s t n) = length s"
  by (simp add: strncpy_def)

lemma strncpy_full: "length s = n \<Longrightarrow> strncpy s t n = strncpy_out t n"
  by (simp add: strncpy_def put_arr_def)

lemma cstr_of_strncpy_out: "cstr_of (cptr (strncpy_out t n)) n = cstr_of t n"
proof (cases "length (cstr_of t n) < n")
  case True
  then obtain k where "n - length (cstr_of t n) = Suc k" by (metis Suc_diff_Suc)
  then show ?thesis
    using length_cstr_of [of t n]
    by (simp add: strncpy_out_cstr [of t n] cstr_of_append cstr_of_no_nul)
next
  case False
  then have "length (cstr_of t n) = n" using length_cstr_of [of t n] by simp
  then show ?thesis by (simp add: strncpy_out_cstr [of t n] cstr_of_cptr cstr_of_no_nul)
qed

lemma length_safestrcpy_out: "length (safestrcpy_out t n) \<le> n"
  by (induction t n rule: safestrcpy_out.induct) auto

lemma safestrcpy_out_cstr:
  "0 < n \<Longrightarrow> \<exists>zs. safestrcpy_out t n = cstr_of t (n - 1) @ 0 # zs \<and> set zs \<subseteq> {0}"
  by (induction t n rule: safestrcpy_out.induct) (auto simp: gr0_conv_Suc)

lemma strlen_from_least:
  "(\<And>i. n \<le> i \<Longrightarrow> i < k \<Longrightarrow> s i \<noteq> 0) \<Longrightarrow> n \<le> k \<Longrightarrow> s k = 0 \<Longrightarrow> strlen_from s n = Some k"
proof (induction "k - n" arbitrary: n)
  case 0
  then show ?case by (subst strlen_from.simps) simp
next
  case (Suc d)
  then have "s n \<noteq> 0" by simp
  moreover have "strlen_from s (n + 1) = Some k" using Suc by (intro Suc.hyps) auto
  ultimately show ?case by (subst strlen_from.simps) simp
qed

lemma strlen_cptr: "0 \<notin> set xs \<Longrightarrow> strlen (cptr xs) = Some (length xs)"
  unfolding strlen_def by (rule strlen_from_least) (auto simp: in_set_conv_nth)

lemma strlen_terminated: "s k = 0 \<Longrightarrow> strlen s = Some (LEAST i. s i = 0)"
  unfolding strlen_def
  by (rule strlen_from_least) (auto dest: not_less_Least intro: LeastI)

text \<open>
  \<open>strncpy\<close> followed by \<open>strncmp\<close> (string.c): a fixed size name field filled with \<open>strncpy\<close>
  compares equal, over its whole size, to exactly the strings that agree with the source up to
  that size. The kernel compares user names and directory entry names this way.
\<close>

theorem strncmp_strncpy:
  "strncmp (cptr (strncpy (replicate n 0) t n)) q n = 0 \<longleftrightarrow> cstr_of t n = cstr_of q n"
  by (simp add: strncmp_0_iff strncpy_full cstr_of_strncpy_out)

text \<open>
  \<open>safestrcpy\<close> (string.c) into an \<open>n\<close> byte buffer, \<open>n > 0\<close>, writes inside the buffer and
  leaves the source string cut to \<open>n - 1\<close> bytes, always NUL-terminated.
\<close>

theorem safestrcpy_terminates_string:
  assumes "0 < n" and "length s = n"
  shows "length (safestrcpy s t n) = n \<and> strlen (cptr (safestrcpy s t n)) = Some (length (cstr_of t (n - 1)))
    \<and> cstr_of (cptr (safestrcpy s t n)) n = cstr_of t (n - 1)"
proof -
  obtain zs where zs: "safestrcpy_out t n = cstr_of t (n - 1) @ 0 # zs"
    using safestrcpy_out_cstr [OF assms(1)] by blast
  have len: "length (safestrcpy_out t n) \<le> n" by (rule length_safestrcpy_out)
  let ?r = "zs @ drop (length (safestrcpy_out t n)) s"
  have eq: "safestrcpy s t n = cstr_of t (n - 1) @ 0 # ?r"
    using zs by (simp add: safestrcpy_def put_arr_def)
  have "strlen (cptr (safestrcpy s t n)) = Some (length (cstr_of t (n - 1)))"
    unfolding strlen_def
  proof (rule strlen_from_least)
    fix i assume "i < length (cstr_of t (n - 1))"
    then show "cptr (safestrcpy s t n) i \<noteq> 0"
      using cstr_of_no_nul [of t "n - 1"] by (auto simp: eq nth_append in_set_conv_nth)
  qed (simp_all add: eq nth_append)
  moreover have "take n (cstr_of t (n - 1)) = cstr_of t (n - 1)"
    using length_cstr_of [of t "n - 1"] by simp
  ultimately show ?thesis
    using len assms by (simp add: safestrcpy_def) (simp add: safestrcpy_def [symmetric] eq cstr_of_append cstr_of_no_nul)
qed

theorem safestrcpy_terminates_string_witness:
  "strlen (cptr (safestrcpy (replicate 4 0xFF) (cptr [0x73, 0x68, 0x65, 0x6C, 0x6C]) 4)) = Some 3"
  using safestrcpy_terminates_string [of 4 "replicate 4 0xFF" "cptr [0x73, 0x68, 0x65, 0x6C, 0x6C]"]
  by (simp add: cstr_of_cptr)

end
