(* ===== verification/Kstate.thy ===== *)
theory Kstate
  imports Kstring
begin

text \<open>
  The part of the kernel state every component uses: the process table (\<open>proc.h\<close>, the struct
  \<open>ptable\<close> of \<open>proc.c\<close>), the process running on this CPU, the spin locks this CPU holds and the
  sleep locks; and the operations on it that the other components call: \<open>acquire\<close>, \<open>release\<close>,
  \<open>holding\<close> (\<open>spinlock.c\<close>, as one CPU sees them), \<open>sched\<close>, \<open>sleep\<close>, \<open>wakeup\<close>, \<open>yield\<close>
  (\<open>proc.c\<close>) and the sleep locks (\<open>sleeplock.c\<close>).

  The records of the later theories extend \<open>kbase\<close>, so that each operation works on the states
  of all of them. Pointers into the static tables are indices; a null pointer is \<open>None\<close>.
  Sleep locks live in a map from the object they protect (\<open>slkid\<close>) to their state.

  A spin lock is represented by its presence in the list \<open>held\<close> of the locks this CPU holds,
  with the most recent first; the length of the list is the CPU's \<open>ncli\<close>. Theory
  \<open>Spinlock\<close> has the multiprocessor model of \<open>spinlock.c\<close> itself and relates the two.

  A call that blocks ends in \<open>Switch\<close>: \<open>sleep\<close> records the channel, marks the process
  SLEEPING and enters the scheduler. Every caller of \<open>sleep\<close> in the kernel does so in a loop that
  tests its condition again, so after a wakeup the caller continues as if it had just entered the
  loop; \<open>sleep_resume\<close> is the part of \<open>sleep\<close> that runs then.
\<close>

section \<open>Constants of \<open>param.h\<close>\<close>

definition NPROC :: nat where "NPROC = 64"
definition NOFILE :: nat where "NOFILE = 16"
definition NFILE :: nat where "NFILE = 100"
definition NINODE :: nat where "NINODE = 50"
definition NDEV :: nat where "NDEV = 10"
definition ROOTDEV :: u32 where "ROOTDEV = 1"
definition MAXOPBLOCKS :: nat where "MAXOPBLOCKS = 10"
definition LOGSIZE :: nat where "LOGSIZE = MAXOPBLOCKS * 3"
definition NBUF :: nat where "NBUF = MAXOPBLOCKS * 3"
definition FSSIZE :: nat where "FSSIZE = 1000"
definition USERNAME_MAXLEN :: nat where "USERNAME_MAXLEN = 16"
definition USER_PW_MAXLEN :: nat where "USER_PW_MAXLEN = 16"
definition NUSER :: nat where "NUSER = 10"
definition ROOT_UID :: u32 where "ROOT_UID = 1"

section \<open>Lock and channel names\<close>

datatype slkid = SL_buf nat | SL_inode nat | SL_utable

datatype spinlk =
    LK_ptable | LK_kmem | LK_bcache | LK_ide | LK_log | LK_icache | LK_ftable | LK_cons
  | LK_ticks | LK_pipe u32 | LK_sleep slkid

datatype chan =
    CH_sleeplock slkid | CH_log | CH_buf nat | CH_proc nat | CH_pipe_nread u32
  | CH_pipe_nwrite u32 | CH_ticks | CH_input

section \<open>Processes\<close>

datatype procstate = UNUSED | EMBRYO | SLEEPING | RUNNABLE | RUNNING | ZOMBIE

record trapframe =
  tf_edi :: u32
  tf_esi :: u32
  tf_ebp :: u32
  tf_oesp :: u32
  tf_ebx :: u32
  tf_edx :: u32
  tf_ecx :: u32
  tf_eax :: u32
  tf_gs :: u16
  tf_fs :: u16
  tf_es :: u16
  tf_ds :: u16
  tf_trapno :: u32
  tf_err :: u32
  tf_eip :: u32
  tf_cs :: u16
  tf_eflags :: u32
  tf_esp :: u32
  tf_ss :: u16

record kcontext =
  cx_edi :: u32
  cx_esi :: u32
  cx_ebx :: u32
  cx_ebp :: u32
  cx_eip :: u32

record proc =
  p_sz :: u32
  p_pgdir :: u32
  p_kstack :: u32
  p_state :: procstate
  p_pid :: int
  p_parent :: "nat option"
  p_tf :: trapframe
  p_context :: kcontext
  p_chan :: "chan option"
  p_killed :: bool
  p_ofile :: "nat option list"
  p_cwd :: "nat option"
  p_name :: bytes
  p_uid :: u32

record sleeplock =
  sl_locked :: bool
  sl_pid :: int

record kbase =
  held :: "spinlk list"
  ptab :: "proc list"
  cur :: "nat option"
  nextpid :: int
  initproc :: "nat option"
  slocks :: "slkid \<Rightarrow> sleeplock"

section \<open>Spin locks, as this CPU sees them\<close>

definition holding :: "spinlk \<Rightarrow> 'm kbase_scheme \<Rightarrow> bool" where
  "holding lk s \<longleftrightarrow> lk \<in> set (held s)"

definition acquire :: "spinlk \<Rightarrow> ('m kbase_scheme, unit) km" where
  "acquire lk s =
     (if holding lk s then Panic ''acquire'' else Ok () (s\<lparr>held := lk # held s\<rparr>))"

definition release :: "spinlk \<Rightarrow> ('m kbase_scheme, unit) km" where
  "release lk s =
     (if \<not> holding lk s then Panic ''release'' else Ok () (s\<lparr>held := remove1 lk (held s)\<rparr>))"

section \<open>The current process\<close>

text \<open>
  \<open>myproc()\<close>, and a read of a field through it: with no current process the access faults in
  the kernel, which \<open>trap\<close> (\<open>trap.c\<close>) turns into a panic.
\<close>

definition myproc :: "('m kbase_scheme, nat option) km" where
  "myproc = getk cur"

definition curproc :: "('m kbase_scheme, proc) km" where
  "curproc s = (case cur s of None \<Rightarrow> Panic ''trap'' | Some i \<Rightarrow> Ok (ptab s ! i) s)"

definition upd_proc :: "nat \<Rightarrow> (proc \<Rightarrow> proc) \<Rightarrow> 'm kbase_scheme \<Rightarrow> 'm kbase_scheme" where
  "upd_proc i f s = s\<lparr>ptab := (ptab s)[i := f (ptab s ! i)]\<rparr>"

definition upd_curproc :: "(proc \<Rightarrow> proc) \<Rightarrow> ('m kbase_scheme, unit) km" where
  "upd_curproc f s = (case cur s of None \<Rightarrow> Panic ''trap'' | Some i \<Rightarrow> Ok () (upd_proc i f s))"

section \<open>Giving up the CPU\<close>

text \<open>
  \<open>sched\<close> checks what its callers must have set up and switches to the scheduler. Its last
  check (interrupts off) follows from the second: a CPU that holds a lock has them off, see
  \<open>Spinlock\<close>.
\<close>

definition sched :: "('m kbase_scheme, 'a) km" where
  "sched s =
     (case cur s of
        None \<Rightarrow> Panic ''trap''
      | Some i \<Rightarrow>
          if \<not> holding LK_ptable s then Panic ''sched ptable.lock''
          else if length (held s) \<noteq> 1 then Panic ''sched locks''
          else if p_state (ptab s ! i) = RUNNING then Panic ''sched running''
          else Switch s)"

definition yield :: "('m kbase_scheme, 'a) km" where
  "yield = sq (acquire LK_ptable) (sq (upd_curproc (\<lambda>p. p\<lparr>p_state := RUNNABLE\<rparr>)) sched)"

definition sleep :: "chan \<Rightarrow> spinlk \<Rightarrow> ('m kbase_scheme, 'a) km" where
  "sleep ch lk =
     bnd myproc (\<lambda>p. case p of
       None \<Rightarrow> kpanic ''sleep''
     | Some i \<Rightarrow>
         sq (whenk (lk \<noteq> LK_ptable) (sq (acquire LK_ptable) (release lk)))
        (sq (modk (upd_proc i (\<lambda>p. p\<lparr>p_chan := Some ch, p_state := SLEEPING\<rparr>)))
            sched))"

definition sleep_resume :: "spinlk \<Rightarrow> ('m kbase_scheme, unit) km" where
  "sleep_resume lk =
     sq (upd_curproc (\<lambda>p. p\<lparr>p_chan := None\<rparr>))
        (whenk (lk \<noteq> LK_ptable) (sq (release LK_ptable) (acquire lk)))"

definition wake_proc :: "chan \<Rightarrow> proc \<Rightarrow> proc" where
  "wake_proc ch p =
     (if p_state p = SLEEPING \<and> p_chan p = Some ch then p\<lparr>p_state := RUNNABLE\<rparr> else p)"

definition wakeup1 :: "chan \<Rightarrow> 'm kbase_scheme \<Rightarrow> 'm kbase_scheme" where
  "wakeup1 ch s = s\<lparr>ptab := map (wake_proc ch) (ptab s)\<rparr>"

definition wakeup :: "chan \<Rightarrow> ('m kbase_scheme, unit) km" where
  "wakeup ch = sq (acquire LK_ptable) (sq (modk (wakeup1 ch)) (release LK_ptable))"

section \<open>Sleep locks\<close>

definition initsleeplock :: "slkid \<Rightarrow> 'm kbase_scheme \<Rightarrow> 'm kbase_scheme" where
  "initsleeplock l s = s\<lparr>slocks := (slocks s)(l := \<lparr>sl_locked = False, sl_pid = 0\<rparr>)\<rparr>"

definition acquiresleep :: "slkid \<Rightarrow> ('m kbase_scheme, unit) km" where
  "acquiresleep l =
     sq (acquire (LK_sleep l))
    (bnd (getk (\<lambda>s. sl_locked (slocks s l))) (\<lambda>locked.
       if locked then sleep (CH_sleeplock l) (LK_sleep l)
       else bnd curproc (\<lambda>p.
         sq (modk (\<lambda>s. s\<lparr>slocks := (slocks s)(l := \<lparr>sl_locked = True, sl_pid = p_pid p\<rparr>)\<rparr>))
            (release (LK_sleep l)))))"

definition releasesleep :: "slkid \<Rightarrow> ('m kbase_scheme, unit) km" where
  "releasesleep l =
     sq (acquire (LK_sleep l))
    (sq (modk (\<lambda>s. s\<lparr>slocks := (slocks s)(l := \<lparr>sl_locked = False, sl_pid = 0\<rparr>)\<rparr>))
    (sq (wakeup (CH_sleeplock l))
        (release (LK_sleep l))))"

definition holdingsleep :: "slkid \<Rightarrow> ('m kbase_scheme, bool) km" where
  "holdingsleep l =
     sq (acquire (LK_sleep l))
    (bnd curproc (\<lambda>p.
     bnd (getk (\<lambda>s. sl_locked (slocks s l) \<and> sl_pid (slocks s l) = p_pid p)) (\<lambda>r.
     sq (release (LK_sleep l)) (ret r))))"

section \<open>What the operations do\<close>

definition proc_at :: "'m kbase_scheme \<Rightarrow> proc" where
  "proc_at s = ptab s ! the (cur s)"

text \<open>A kernel thread that runs for a process and holds no spin lock.\<close>

definition running :: "'m kbase_scheme \<Rightarrow> bool" where
  "running s \<longleftrightarrow> held s = [] \<and>
     (case cur s of None \<Rightarrow> False | Some i \<Rightarrow> i < length (ptab s) \<and> p_state (ptab s ! i) = RUNNING)"

definition lock_for :: "slkid \<Rightarrow> 'm kbase_scheme \<Rightarrow> 'm kbase_scheme" where
  "lock_for l s = s\<lparr>slocks := (slocks s)(l := \<lparr>sl_locked = True, sl_pid = p_pid (proc_at s)\<rparr>)\<rparr>"

definition unlock :: "slkid \<Rightarrow> 'm kbase_scheme \<Rightarrow> 'm kbase_scheme" where
  "unlock l s =
     wakeup1 (CH_sleeplock l) (s\<lparr>slocks := (slocks s)(l := \<lparr>sl_locked = False, sl_pid = 0\<rparr>)\<rparr>)"

definition holds :: "slkid \<Rightarrow> 'm kbase_scheme \<Rightarrow> bool" where
  "holds l s \<longleftrightarrow> sl_locked (slocks s l) \<and> sl_pid (slocks s l) = p_pid (proc_at s)"

lemma acquire_run [simp]: "lk \<notin> set (held s) \<Longrightarrow> acquire lk s = Ok () (s\<lparr>held := lk # held s\<rparr>)"
  by (simp add: acquire_def holding_def)

lemma acquire_held [simp]: "lk \<in> set (held s) \<Longrightarrow> acquire lk s = Panic ''acquire''"
  by (simp add: acquire_def holding_def)

lemma release_run [simp]:
  "lk \<in> set (held s) \<Longrightarrow> release lk s = Ok () (s\<lparr>held := remove1 lk (held s)\<rparr>)"
  by (simp add: release_def holding_def)

lemma release_free [simp]: "lk \<notin> set (held s) \<Longrightarrow> release lk s = Panic ''release''"
  by (simp add: release_def holding_def)

lemma runningD [simp]:
  assumes "running s"
  shows "held s = []" and "cur s \<noteq> None" and "p_state (proc_at s) = RUNNING"
    and "the (cur s) < length (ptab s)"
  using assms by (auto simp: running_def proc_at_def split: option.splits)

lemma running_cong:
  fixes s t :: "'m kbase_scheme"
  shows "held t = held s \<Longrightarrow> cur t = cur s \<Longrightarrow> ptab t = ptab s \<Longrightarrow> running t = running s"
  by (simp add: running_def del: runningD split: option.split)

lemma curproc_run [simp]: "cur s \<noteq> None \<Longrightarrow> curproc s = Ok (proc_at s) s"
  by (auto simp: curproc_def proc_at_def)

lemma upd_curproc_run [simp]:
  "cur s \<noteq> None \<Longrightarrow> upd_curproc f s = Ok () (upd_proc (the (cur s)) f s)"
  by (auto simp: upd_curproc_def)

lemma wakeup_run [simp]: "LK_ptable \<notin> set (held s) \<Longrightarrow> wakeup ch s = Ok () (wakeup1 ch s)"
  by (simp add: wakeup_def wakeup1_def)


lemma proc_at_held [simp]: "proc_at (s\<lparr>held := h\<rparr>) = proc_at s"
  by (simp add: proc_at_def)

lemma proc_at_slocks [simp]: "proc_at (s\<lparr>slocks := h\<rparr>) = proc_at s"
  by (simp add: proc_at_def)

lemmas kproc_defs = proc_at_def upd_proc_def wakeup1_def lock_for_def unlock_def

lemma wake_proc_fields [simp]:
  "p_pid (wake_proc ch p) = p_pid p" "p_uid (wake_proc ch p) = p_uid p"
  "p_cwd (wake_proc ch p) = p_cwd p" "p_ofile (wake_proc ch p) = p_ofile p"
  "p_killed (wake_proc ch p) = p_killed p" "p_chan (wake_proc ch p) = p_chan p"
  "p_parent (wake_proc ch p) = p_parent p" "p_sz (wake_proc ch p) = p_sz p"
  "p_pgdir (wake_proc ch p) = p_pgdir p" "p_tf (wake_proc ch p) = p_tf p"
  "p_kstack (wake_proc ch p) = p_kstack p" "p_name (wake_proc ch p) = p_name p"
  by (simp_all add: wake_proc_def)

lemma wake_proc_awake [simp]: "p_state p \<noteq> SLEEPING \<Longrightarrow> wake_proc ch p = p"
  by (simp add: wake_proc_def)

lemma wake_proc_not_waiting: "\<not> (p_state (wake_proc ch p) = SLEEPING \<and> p_chan (wake_proc ch p) = Some ch)"
  by (simp add: wake_proc_def)

lemma wakeup1_fields [simp]:
  "held (wakeup1 ch s) = held s" "cur (wakeup1 ch s) = cur s" "nextpid (wakeup1 ch s) = nextpid s"
  "initproc (wakeup1 ch s) = initproc s" "slocks (wakeup1 ch s) = slocks s"
  "kbase.more (wakeup1 ch s) = kbase.more s" "ptab (wakeup1 ch s) = map (wake_proc ch) (ptab s)"
  by (simp_all add: wakeup1_def)

lemma unlock_fields [simp]:
  "held (unlock l s) = held s" "cur (unlock l s) = cur s" "nextpid (unlock l s) = nextpid s"
  "initproc (unlock l s) = initproc s" "kbase.more (unlock l s) = kbase.more s"
  "slocks (unlock l s) = (slocks s)(l := \<lparr>sl_locked = False, sl_pid = 0\<rparr>)"
  "ptab (unlock l s) = map (wake_proc (CH_sleeplock l)) (ptab s)"
  by (simp_all add: unlock_def)

lemma lock_for_fields [simp]:
  "held (lock_for l s) = held s" "cur (lock_for l s) = cur s" "nextpid (lock_for l s) = nextpid s"
  "initproc (lock_for l s) = initproc s" "kbase.more (lock_for l s) = kbase.more s"
  "ptab (lock_for l s) = ptab s"
  "slocks (lock_for l s) = (slocks s)(l := \<lparr>sl_locked = True, sl_pid = p_pid (proc_at s)\<rparr>)"
  by (simp_all add: lock_for_def)

lemma proc_at_lock_for [simp]: "proc_at (lock_for l s) = proc_at s"
  by (simp add: proc_at_def)

lemma running_lock_for [simp]: "running (lock_for l s) = running s"
  by (simp add: running_def del: runningD split: option.splits)

lemma proc_at_map_wake:
  assumes "running s"
  shows "map (wake_proc ch) (ptab s) ! the (cur s) = proc_at s"
  using runningD [OF assms] by (simp add: proc_at_def)

lemma proc_at_wakeup1 [simp]: "running s \<Longrightarrow> proc_at (wakeup1 ch s) = proc_at s"
  by (simp only: proc_at_def [of "wakeup1 ch s"] wakeup1_fields proc_at_map_wake)

lemma proc_at_unlock [simp]: "running s \<Longrightarrow> proc_at (unlock l s) = proc_at s"
  by (simp only: proc_at_def [of "unlock l s"] unlock_fields proc_at_map_wake)

lemma running_iff:
  "running s \<longleftrightarrow> held s = [] \<and> cur s \<noteq> None \<and> the (cur s) < length (ptab s) \<and>
     p_state (proc_at s) = RUNNING"
  by (auto simp: running_def proc_at_def simp del: runningD split: option.splits)

lemma running_wakeup1 [simp]: "running s \<Longrightarrow> running (wakeup1 ch s)"
  by (simp add: running_iff [of "wakeup1 ch s"])

lemma running_unlock [simp]: "running s \<Longrightarrow> running (unlock l s)"
  by (simp add: running_iff [of "unlock l s"])

lemma acquiresleep_free:
  assumes "LK_sleep l \<notin> set (held s)" and "cur s \<noteq> None" and "\<not> sl_locked (slocks s l)"
  shows "acquiresleep l s = Ok () (lock_for l s)"
  using assms by (simp add: acquiresleep_def lock_for_def proc_at_def)

lemma acquiresleep_busy:
  assumes "held s = []" and "cur s = Some i" and "i < length (ptab s)" and "sl_locked (slocks s l)"
  shows "acquiresleep l s =
    Switch (s\<lparr>held := [LK_ptable],
      ptab := (ptab s)[i := (ptab s ! i)\<lparr>p_chan := Some (CH_sleeplock l), p_state := SLEEPING\<rparr>]\<rparr>)"
  using assms by (simp add: acquiresleep_def sleep_def myproc_def upd_proc_def sched_def holding_def)

lemma releasesleep_run:
  "LK_sleep l \<notin> set (held s) \<Longrightarrow> LK_ptable \<notin> set (held s) \<Longrightarrow>
     releasesleep l s = Ok () (unlock l s)"
  by (simp add: releasesleep_def unlock_def wakeup1_def)

lemma holdingsleep_run:
  "LK_sleep l \<notin> set (held s) \<Longrightarrow> cur s \<noteq> None \<Longrightarrow> holdingsleep l s = Ok (holds l s) s"
  by (simp add: holdingsleep_def holds_def proc_at_def)

lemmas sleeplock_runs = acquiresleep_free releasesleep_run holdingsleep_run

lemma running_acquiresleep:
  "running s \<Longrightarrow> \<not> sl_locked (slocks s l) \<Longrightarrow> acquiresleep l s = Ok () (lock_for l s)"
  by (rule acquiresleep_free) simp_all

lemma running_releasesleep: "running s \<Longrightarrow> releasesleep l s = Ok () (unlock l s)"
  by (rule releasesleep_run) simp_all

lemma running_holdingsleep: "running s \<Longrightarrow> holdingsleep l s = Ok (holds l s) s"
  by (rule holdingsleep_run) simp_all

text \<open>Locking order of the state: what \<open>acquiresleep\<close> returns with.\<close>

lemma sched_not_Ok [simp]: "sched s \<noteq> Ok x t"
  by (simp add: sched_def split: option.splits)

lemma sleep_not_Ok [simp]: "sleep ch lk s \<noteq> Ok x t"
  by (auto simp: sleep_def myproc_def sq_eq_Ok bnd_eq_Ok split: option.splits)

lemma acquiresleep_Ok:
  assumes "acquiresleep l s = Ok x t"
  shows "\<not> sl_locked (slocks s l) \<and> t = lock_for l s \<and> cur s \<noteq> None \<and> LK_sleep l \<notin> set (held s)"
proof (cases "LK_sleep l \<in> set (held s)")
  case True
  with assms show ?thesis by (simp add: acquiresleep_def)
next
  case False
  show ?thesis
  proof (cases "sl_locked (slocks s l)")
    case True
    with False have "acquiresleep l s = sleep (CH_sleeplock l) (LK_sleep l) (s\<lparr>held := LK_sleep l # held s\<rparr>)"
      by (simp add: acquiresleep_def)
    with assms show ?thesis by (simp add: sleep_not_Ok)
  next
    case free: False
    show ?thesis
    proof (cases "cur s = None")
      case True
      with assms False free show ?thesis by (simp add: acquiresleep_def curproc_def)
    next
      case no: False
      with assms False free show ?thesis by (simp add: acquiresleep_free)
    qed
  qed
qed

section \<open>Static storage\<close>

text \<open>The entries of \<open>ptable\<close> start as zero bytes.\<close>

definition zero_trapframe :: trapframe where
  "zero_trapframe = \<lparr>tf_edi = 0, tf_esi = 0, tf_ebp = 0, tf_oesp = 0, tf_ebx = 0, tf_edx = 0,
     tf_ecx = 0, tf_eax = 0, tf_gs = 0, tf_fs = 0, tf_es = 0, tf_ds = 0, tf_trapno = 0,
     tf_err = 0, tf_eip = 0, tf_cs = 0, tf_eflags = 0, tf_esp = 0, tf_ss = 0\<rparr>"

definition zero_context :: kcontext where
  "zero_context = \<lparr>cx_edi = 0, cx_esi = 0, cx_ebx = 0, cx_ebp = 0, cx_eip = 0\<rparr>"

definition zero_proc :: proc where
  "zero_proc = \<lparr>p_sz = 0, p_pgdir = 0, p_kstack = 0, p_state = UNUSED, p_pid = 0, p_parent = None,
     p_tf = zero_trapframe, p_context = zero_context, p_chan = None, p_killed = False,
     p_ofile = replicate NOFILE None, p_cwd = None, p_name = replicate 16 0, p_uid = 0\<rparr>"

text \<open>A kernel that runs for one process, the first one; \<open>x\<close> is the rest of the state.\<close>

definition one_proc :: "'m \<Rightarrow> 'm kbase_scheme" where
  "one_proc x = \<lparr>held = [], ptab = [zero_proc\<lparr>p_state := RUNNING, p_pid := 1\<rparr>], cur = Some 0,
     nextpid = 2, initproc = Some 0, slocks = (\<lambda>_. \<lparr>sl_locked = False, sl_pid = 0\<rparr>), \<dots> = x\<rparr>"

lemma one_proc_fields [simp]:
  "held (one_proc x) = []" "cur (one_proc x) = Some 0" "nextpid (one_proc x) = 2"
  "initproc (one_proc x) = Some 0" "slocks (one_proc x) = (\<lambda>_. \<lparr>sl_locked = False, sl_pid = 0\<rparr>)"
  "ptab (one_proc x) = [zero_proc\<lparr>p_state := RUNNING, p_pid := 1\<rparr>]" "kbase.more (one_proc x) = x"
  by (simp_all add: one_proc_def)

lemma running_one_proc [simp]: "running (one_proc x)"
  by (simp add: running_def)

end
