(* ===== verification/Ondisk.thy ===== *)
theory Ondisk
  imports Kstate
begin

text \<open>
  The structures stored on disk (\<open>fs.h\<close>, the log header of \<open>log.c\<close>, the user records of
  \<open>usermanage.c\<close>) and their byte layout, little endian and without padding, as the compiler lays
  them out on the i386. The C code casts a byte buffer to a pointer to such a struct; here
  \<open>dec_*\<close> reads the struct from its bytes and \<open>enc_*\<close> gives the bytes it occupies.
  Each layout is an interpretation of the interface \<open>codec\<close>.
\<close>

section \<open>Constants of \<open>fs.h\<close> and \<open>stat.h\<close>\<close>

definition BSIZE :: nat where "BSIZE = 512"
definition ROOTINO :: u32 where "ROOTINO = 1"
definition NDIRECT :: nat where "NDIRECT = 11"
definition NINDIRECT :: nat where "NINDIRECT = BSIZE div 4"
definition MAXFILE :: nat where "MAXFILE = NDIRECT + NINDIRECT"
definition DINODE_SIZE :: nat where "DINODE_SIZE = 64"
definition IPB :: nat where "IPB = BSIZE div DINODE_SIZE"
definition BPB :: nat where "BPB = BSIZE * 8"
definition DIRSIZ :: nat where "DIRSIZ = 14"
definition DIRENT_SIZE :: nat where "DIRENT_SIZE = 16"

definition MODE_RUSR :: u8 where "MODE_RUSR = 32"
definition MODE_WUSR :: u8 where "MODE_WUSR = 16"
definition MODE_XUSR :: u8 where "MODE_XUSR = 8"
definition MODE_ROTH :: u8 where "MODE_ROTH = 4"
definition MODE_WOTH :: u8 where "MODE_WOTH = 2"
definition MODE_XOTH :: u8 where "MODE_XOTH = 1"
definition MODE_ALL :: u32 where "MODE_ALL = 63"

definition T_DIR :: u8 where "T_DIR = 1"
definition T_FILE :: u8 where "T_FILE = 2"
definition T_DEV :: u8 where "T_DEV = 3"

section \<open>Integers\<close>

definition enc16 :: "u16 \<Rightarrow> bytes" where
  "enc16 w = [ucast w, ucast (drop_bit 8 w)]"

definition dec16 :: "bytes \<Rightarrow> u16" where
  "dec16 bs = ucast (bs ! 0) OR push_bit 8 (ucast (bs ! 1))"

definition enc32 :: "u32 \<Rightarrow> bytes" where
  "enc32 w = [ucast w, ucast (drop_bit 8 w), ucast (drop_bit 16 w), ucast (drop_bit 24 w)]"

definition dec32 :: "bytes \<Rightarrow> u32" where
  "dec32 bs = ucast (bs ! 0) OR push_bit 8 (ucast (bs ! 1)) OR push_bit 16 (ucast (bs ! 2)) OR
     push_bit 24 (ucast (bs ! 3))"

text \<open>An array of \<open>n\<close> words.\<close>

definition enc32s :: "u32 list \<Rightarrow> bytes" where
  "enc32s ws = concat (map enc32 ws)"

definition dec32s :: "nat \<Rightarrow> bytes \<Rightarrow> u32 list" where
  "dec32s n bs = map (\<lambda>i. dec32 (sub_arr (4 * i) 4 bs)) [0..<n]"

section \<open>Structures\<close>

record superblock =
  sb_size :: u32
  sb_nblocks :: u32
  sb_ninodes :: u32
  sb_nlog :: u32
  sb_logstart :: u32
  sb_inodestart :: u32
  sb_bmapstart :: u32

record dinode =
  d_perm :: u8
  d_type :: u8
  d_major :: u16
  d_minor :: u16
  d_nlink :: u16
  d_size :: u32
  d_addrs :: "u32 list"
  d_owner :: u32

record dirent =
  de_inum :: u16
  de_name :: bytes

record logheader =
  lh_n :: u32
  lh_block :: "u32 list"

record user =
  u_username :: bytes
  u_passwd :: bytes
  u_uid :: u32

definition enc_superblock :: "superblock \<Rightarrow> bytes" where
  "enc_superblock sb =
     enc32s [sb_size sb, sb_nblocks sb, sb_ninodes sb, sb_nlog sb, sb_logstart sb,
             sb_inodestart sb, sb_bmapstart sb]"

definition dec_superblock :: "bytes \<Rightarrow> superblock" where
  "dec_superblock bs =
     (let w = (\<lambda>i. dec32 (sub_arr (4 * i) 4 bs))
      in \<lparr>sb_size = w 0, sb_nblocks = w 1, sb_ninodes = w 2, sb_nlog = w 3, sb_logstart = w 4,
          sb_inodestart = w 5, sb_bmapstart = w 6\<rparr>)"

definition enc_dinode :: "dinode \<Rightarrow> bytes" where
  "enc_dinode d =
     [d_perm d, d_type d] @ enc16 (d_major d) @ enc16 (d_minor d) @ enc16 (d_nlink d) @
     enc32 (d_size d) @ enc32s (d_addrs d) @ enc32 (d_owner d)"

definition dec_dinode :: "bytes \<Rightarrow> dinode" where
  "dec_dinode bs =
     \<lparr>d_perm = bs ! 0, d_type = bs ! 1, d_major = dec16 (sub_arr 2 2 bs),
      d_minor = dec16 (sub_arr 4 2 bs), d_nlink = dec16 (sub_arr 6 2 bs),
      d_size = dec32 (sub_arr 8 4 bs), d_addrs = dec32s (NDIRECT + 1) (sub_arr 12 48 bs),
      d_owner = dec32 (sub_arr 60 4 bs)\<rparr>"

definition enc_dirent :: "dirent \<Rightarrow> bytes" where
  "enc_dirent d = enc16 (de_inum d) @ de_name d"

definition dec_dirent :: "bytes \<Rightarrow> dirent" where
  "dec_dirent bs = \<lparr>de_inum = dec16 (sub_arr 0 2 bs), de_name = sub_arr 2 DIRSIZ bs\<rparr>"

definition enc_logheader :: "logheader \<Rightarrow> bytes" where
  "enc_logheader h = enc32 (lh_n h) @ enc32s (lh_block h)"

definition dec_logheader :: "bytes \<Rightarrow> logheader" where
  "dec_logheader bs =
     \<lparr>lh_n = dec32 (sub_arr 0 4 bs), lh_block = dec32s LOGSIZE (sub_arr 4 (4 * LOGSIZE) bs)\<rparr>"

definition enc_user :: "user \<Rightarrow> bytes" where
  "enc_user u = u_username u @ u_passwd u @ enc32 (u_uid u)"

definition dec_user :: "bytes \<Rightarrow> user" where
  "dec_user bs =
     \<lparr>u_username = sub_arr 0 USERNAME_MAXLEN bs,
      u_passwd = sub_arr USERNAME_MAXLEN USER_PW_MAXLEN bs,
      u_uid = dec32 (sub_arr (USERNAME_MAXLEN + USER_PW_MAXLEN) 4 bs)\<rparr>"

definition USER_SIZE :: nat where "USER_SIZE = USERNAME_MAXLEN + USER_PW_MAXLEN + 4"

definition enc_utable :: "user list \<Rightarrow> bytes" where
  "enc_utable us = concat (map enc_user us)"

definition dec_utable :: "bytes \<Rightarrow> user list" where
  "dec_utable bs = map (\<lambda>i. dec_user (sub_arr (USER_SIZE * i) USER_SIZE bs)) [0..<NUSER]"

text \<open>Well-formed structures: the arrays have the size the struct declares.\<close>

definition wf_dinode :: "dinode \<Rightarrow> bool" where
  "wf_dinode d \<longleftrightarrow> length (d_addrs d) = NDIRECT + 1"

definition wf_dirent :: "dirent \<Rightarrow> bool" where
  "wf_dirent d \<longleftrightarrow> length (de_name d) = DIRSIZ"

definition wf_logheader :: "logheader \<Rightarrow> bool" where
  "wf_logheader h \<longleftrightarrow> length (lh_block h) = LOGSIZE"

definition wf_user :: "user \<Rightarrow> bool" where
  "wf_user u \<longleftrightarrow> length (u_username u) = USERNAME_MAXLEN \<and> length (u_passwd u) = USER_PW_MAXLEN"

lemmas size_defs = BSIZE_def NDIRECT_def NINDIRECT_def MAXFILE_def DINODE_SIZE_def IPB_def BPB_def
  DIRSIZ_def DIRENT_SIZE_def LOGSIZE_def MAXOPBLOCKS_def USERNAME_MAXLEN_def USER_PW_MAXLEN_def
  USER_SIZE_def NUSER_def

section \<open>Round trips\<close>

lemma length_enc16 [simp]: "length (enc16 w) = 2"
  by (simp add: enc16_def)

lemma length_enc32 [simp]: "length (enc32 w) = 4"
  by (simp add: enc32_def)

lemma dec16_enc16 [simp]: "dec16 (enc16 w) = w"
  by (rule bit_eqI) (auto simp: dec16_def enc16_def bit_simps)

lemma dec32_enc32 [simp]: "dec32 (enc32 w) = w"
proof (rule bit_eqI)
  fix n assume "possible_bit TYPE(u32) n"
  then consider "n < 8" | "8 \<le> n" "n < 16" | "16 \<le> n" "n < 24" | "24 \<le> n" "n < 32"
    by (fastforce simp: possible_bit_def)
  then show "bit (dec32 (enc32 w)) n = bit w n"
    by cases (auto simp: dec32_def enc32_def bit_simps)
qed

interpretation c16: codec enc16 dec16 2 "\<lambda>_. True"
  by unfold_locales simp_all

interpretation c32: codec enc32 dec32 4 "\<lambda>_. True"
  by unfold_locales simp_all

lemma length_enc32s [simp]: "length (enc32s ws) = 4 * length ws"
  by (induction ws) (simp_all add: enc32s_def)

lemma sub_arr_append_left: "off + n \<le> length xs \<Longrightarrow> sub_arr off n (xs @ ys) = sub_arr off n xs"
  by (simp add: sub_arr_def)

lemma sub_arr_append_right: "length xs \<le> off \<Longrightarrow> sub_arr off n (xs @ ys) = sub_arr (off - length xs) n ys"
  by (simp add: sub_arr_def)

lemma sub_arr_Cons: "0 < off \<Longrightarrow> sub_arr off n (x # xs) = sub_arr (off - 1) n xs"
  by (simp add: sub_arr_def drop_Cons')

lemma sub_arr_prefix [simp]: "length xs = n \<Longrightarrow> sub_arr 0 n (xs @ ys) = xs"
  by (simp add: sub_arr_def)

lemma sub_arr_enc32s: "i < length ws \<Longrightarrow> sub_arr (4 * i) 4 (enc32s ws) = enc32 (ws ! i)"
proof (induction ws arbitrary: i)
  case Nil
  then show ?case by simp
next
  case (Cons w ws)
  show ?case
  proof (cases i)
    case 0
    then show ?thesis by (simp add: enc32s_def)
  next
    case (Suc k)
    then have "sub_arr (4 * i) 4 (enc32 w @ enc32s ws) = sub_arr (4 * k) 4 (enc32s ws)"
      by (subst sub_arr_append_right) simp_all
    with Suc Cons show ?thesis by (simp add: enc32s_def)
  qed
qed

lemma dec32s_enc32s [simp]: "length ws = n \<Longrightarrow> dec32s n (enc32s ws) = ws"
  by (intro nth_equalityI) (simp_all add: dec32s_def sub_arr_enc32s)

lemma length_dec32s [simp]: "length (dec32s n bs) = n"
  by (simp add: dec32s_def)

interpretation c_superblock: codec enc_superblock dec_superblock 28 "\<lambda>_. True"
proof unfold_locales
  fix sb
  show "length (enc_superblock sb) = 28" by (simp add: enc_superblock_def)
  have "dec32 (sub_arr (4 * i) 4 (enc_superblock sb)) =
      [sb_size sb, sb_nblocks sb, sb_ninodes sb, sb_nlog sb, sb_logstart sb, sb_inodestart sb,
       sb_bmapstart sb] ! i" if "i < 7" for i
    unfolding enc_superblock_def using that by (subst sub_arr_enc32s) simp_all
  from this [of 0] this [of 1] this [of 2] this [of 3] this [of 4] this [of 5] this [of 6]
  show "dec_superblock (enc_superblock sb) = sb" by (simp add: dec_superblock_def Let_def)
qed

interpretation c_dinode: codec enc_dinode dec_dinode DINODE_SIZE wf_dinode
proof unfold_locales
  fix d assume wf: "wf_dinode d"
  then show "length (enc_dinode d) = DINODE_SIZE"
    by (simp add: enc_dinode_def wf_dinode_def size_defs)
  from wf show "dec_dinode (enc_dinode d) = d"
    by (simp add: enc_dinode_def dec_dinode_def wf_dinode_def size_defs sub_arr_Cons
        sub_arr_append_right sub_arr_all)
qed

interpretation c_dirent: codec enc_dirent dec_dirent DIRENT_SIZE wf_dirent
proof unfold_locales
  fix d assume wf: "wf_dirent d"
  then show "length (enc_dirent d) = DIRENT_SIZE"
    by (simp add: enc_dirent_def wf_dirent_def size_defs)
  from wf show "dec_dirent (enc_dirent d) = d"
    by (simp add: enc_dirent_def dec_dirent_def wf_dirent_def size_defs sub_arr_append_right)
qed

interpretation c_logheader: codec enc_logheader dec_logheader "4 + 4 * LOGSIZE" wf_logheader
proof unfold_locales
  fix h assume wf: "wf_logheader h"
  then show "length (enc_logheader h) = 4 + 4 * LOGSIZE"
    by (simp add: enc_logheader_def wf_logheader_def)
  from wf show "dec_logheader (enc_logheader h) = h"
    by (simp add: enc_logheader_def dec_logheader_def wf_logheader_def sub_arr_append_right)
qed

interpretation c_user: codec enc_user dec_user USER_SIZE wf_user
proof unfold_locales
  fix u assume wf: "wf_user u"
  then show "length (enc_user u) = USER_SIZE"
    by (simp add: enc_user_def wf_user_def size_defs)
  from wf show "dec_user (enc_user u) = u"
    by (simp add: enc_user_def dec_user_def wf_user_def size_defs sub_arr_append_right)
qed

lemma length_enc_utable: "\<forall>u \<in> set us. wf_user u \<Longrightarrow> length (enc_utable us) = USER_SIZE * length us"
  by (induction us) (simp_all add: enc_utable_def c_user.enc_length)

lemma sub_arr_enc_utable:
  "\<forall>u \<in> set us. wf_user u \<Longrightarrow> i < length us \<Longrightarrow>
     sub_arr (USER_SIZE * i) USER_SIZE (enc_utable us) = enc_user (us ! i)"
proof (induction us arbitrary: i)
  case Nil
  then show ?case by simp
next
  case (Cons u us)
  then have len: "length (enc_user u) = USER_SIZE" by (simp add: c_user.enc_length)
  show ?case
  proof (cases i)
    case 0
    with len show ?thesis by (simp add: enc_utable_def)
  next
    case (Suc k)
    then have "sub_arr (USER_SIZE * i) USER_SIZE (enc_user u @ enc_utable us) =
        sub_arr (USER_SIZE * k) USER_SIZE (enc_utable us)"
      using len by (subst sub_arr_append_right) simp_all
    with Suc Cons show ?thesis by (simp add: enc_utable_def)
  qed
qed

lemma dec_enc_utable:
  assumes "\<forall>u \<in> set us. wf_user u" and "length us = NUSER"
  shows "dec_utable (enc_utable us) = us"
  using assms by (intro nth_equalityI) (simp_all add: dec_utable_def sub_arr_enc_utable c_user.dec_enc)

end
