(* ===== verification/Kalloc.thy ===== *)
theory Kalloc
  imports Ondisk "HOL-Library.Multiset"
begin

text \<open>
  The physical page allocator (\<open>kalloc.c\<close>). The memory is a map from kernel virtual addresses to
  bytes; the free list is threaded through the free pages themselves, as in the code: the first
  word of a free page holds the address of the next one. \<open>kend\<close> is the address the linker gives
  to \<open>end\<close>.

  The lemmas relate the list in memory to a list of page addresses (\<open>free_chain\<close>): \<open>kfree\<close>
  pushes a page, \<open>kalloc\<close> pops one, neither touches memory outside the page, and the interface
  \<open>page_allocator\<close> states what the clients of the allocator rely on.
\<close>

section \<open>Constants of \<open>mmu.h\<close> and \<open>memlayout.h\<close>\<close>

definition PGSIZE :: nat where "PGSIZE = 4096"
definition EXTMEM :: u32 where "EXTMEM = 0x100000"
definition PHYSTOP :: u32 where "PHYSTOP = 0xE000000"
definition DEVSPACE :: u32 where "DEVSPACE = 0xFE000000"
definition KERNBASE :: u32 where "KERNBASE = 0x80000000"
definition KERNLINK :: u32 where "KERNLINK = KERNBASE + EXTMEM"
definition V2P :: "u32 \<Rightarrow> u32" where "V2P a = a - KERNBASE"
definition P2V :: "u32 \<Rightarrow> u32" where "P2V a = a + KERNBASE"
definition PGROUNDUP :: "u32 \<Rightarrow> u32" where
  "PGROUNDUP sz = (sz + of_nat PGSIZE - 1) AND NOT (of_nat PGSIZE - 1)"
definition PGROUNDDOWN :: "u32 \<Rightarrow> u32" where
  "PGROUNDDOWN a = a AND NOT (of_nat PGSIZE - 1)"

section \<open>Memory words\<close>

definition load32 :: "memory \<Rightarrow> u32 \<Rightarrow> u32" where
  "load32 m a = dec32 [m (unat a), m (unat a + 1), m (unat a + 2), m (unat a + 3)]"

definition store32 :: "memory \<Rightarrow> u32 \<Rightarrow> u32 \<Rightarrow> memory" where
  "store32 m a w =
     m(unat a := ucast w, unat a + 1 := ucast (drop_bit 8 w), unat a + 2 := ucast (drop_bit 16 w),
       unat a + 3 := ucast (drop_bit 24 w))"

section \<open>The allocator\<close>

record kmem = kbase +
  mem :: memory
  kend :: u32
  use_lock :: bool
  freelist :: u32

definition kfree :: "u32 \<Rightarrow> ('m kmem_scheme, unit) km" where
  "kfree v =
     bnd (getk (\<lambda>s. (kend s, use_lock s))) (\<lambda>(e, lk).
       if unat v mod PGSIZE \<noteq> 0 \<or> v < e \<or> V2P v \<ge> PHYSTOP then kpanic ''kfree''
       else
         sq (modk (\<lambda>s. s\<lparr>mem := memset (mem s) (unat v) 1 PGSIZE\<rparr>))
        (sq (whenk lk (acquire LK_kmem))
        (sq (modk (\<lambda>s. s\<lparr>mem := store32 (mem s) v (freelist s)\<rparr>))
        (sq (modk (\<lambda>s. s\<lparr>freelist := v\<rparr>))
            (whenk lk (release LK_kmem))))))"

definition kalloc :: "('m kmem_scheme, u32) km" where
  "kalloc =
     bnd (getk use_lock) (\<lambda>lk.
     sq (whenk lk (acquire LK_kmem))
    (bnd (getk freelist) (\<lambda>r.
     sq (whenk (r \<noteq> 0) (modk (\<lambda>s. s\<lparr>freelist := load32 (mem s) r\<rparr>)))
    (sq (whenk lk (release LK_kmem))
        (ret r)))))"

text \<open>
  The loop of \<open>freerange\<close>, with the number of its iterations as the argument that decreases:
  \<open>p + PGSIZE \<le> vend\<close> holds for as many steps as whole pages fit.
\<close>

fun freerange_loop :: "nat \<Rightarrow> u32 \<Rightarrow> ('m kmem_scheme, unit) km" where
  "freerange_loop 0 p = ret ()"
| "freerange_loop (Suc n) p = sq (kfree p) (freerange_loop n (p + of_nat PGSIZE))"

definition freerange :: "u32 \<Rightarrow> u32 \<Rightarrow> ('m kmem_scheme, unit) km" where
  "freerange vstart vend =
     (let p = PGROUNDUP vstart in freerange_loop ((unat vend - unat p) div PGSIZE) p)"

definition kinit1 :: "u32 \<Rightarrow> u32 \<Rightarrow> ('m kmem_scheme, unit) km" where
  "kinit1 vstart vend = sq (modk (\<lambda>s. s\<lparr>use_lock := False\<rparr>)) (freerange vstart vend)"

definition kinit2 :: "u32 \<Rightarrow> u32 \<Rightarrow> ('m kmem_scheme, unit) km" where
  "kinit2 vstart vend = sq (freerange vstart vend) (modk (\<lambda>s. s\<lparr>use_lock := True\<rparr>))"

section \<open>The free list as a list of pages\<close>

text \<open>A page the allocator manages: aligned, behind the kernel's image, below \<open>PHYSTOP\<close>.\<close>

definition page_ok :: "u32 \<Rightarrow> u32 \<Rightarrow> bool" where
  "page_ok e v \<longleftrightarrow> v \<noteq> 0 \<and> unat v mod PGSIZE = 0 \<and> e \<le> v \<and> V2P v < PHYSTOP"

definition in_page :: "u32 \<Rightarrow> nat \<Rightarrow> bool" where
  "in_page v a \<longleftrightarrow> unat v \<le> a \<and> a < unat v + PGSIZE"

fun chain :: "memory \<Rightarrow> u32 \<Rightarrow> u32 list \<Rightarrow> bool" where
  "chain m p [] \<longleftrightarrow> p = 0"
| "chain m p (v # vs) \<longleftrightarrow> p = v \<and> chain m (load32 m v) vs"

definition free_chain :: "'m kmem_scheme \<Rightarrow> u32 list \<Rightarrow> bool" where
  "free_chain s vs \<longleftrightarrow>
     chain (mem s) (freelist s) vs \<and> distinct vs \<and> (\<forall>v \<in> set vs. page_ok (kend s) v)"

lemma load32_store32 [simp]: "load32 (store32 m a w) a = w"
proof -
  have "load32 (store32 m a w) a = dec32 (enc32 w)" by (simp add: load32_def store32_def enc32_def)
  then show ?thesis by simp
qed

lemma store32_other: "a \<noteq> unat v \<Longrightarrow> a \<noteq> unat v + 1 \<Longrightarrow> a \<noteq> unat v + 2 \<Longrightarrow> a \<noteq> unat v + 3 \<Longrightarrow>
    store32 m v w a = m a"
  by (simp add: store32_def)

lemma load32_cong:
  assumes "\<And>i. i < 4 \<Longrightarrow> m (unat a + i) = m' (unat a + i)"
  shows "load32 m a = load32 m' a"
  using assms [of 0] assms [of 1] assms [of 2] assms [of 3] by (simp add: load32_def)

lemma in_page_div:
  assumes "unat v mod PGSIZE = 0"
  shows "in_page v a \<longleftrightarrow> a div PGSIZE = unat v div PGSIZE"
proof -
  have pos: "0 < PGSIZE" by (simp add: PGSIZE_def)
  from assms have "unat v = unat v div PGSIZE * PGSIZE" by (simp add: mod_0_imp_dvd)
  then have "in_page v a \<longleftrightarrow>
      unat v div PGSIZE * PGSIZE \<le> a \<and> a < unat v div PGSIZE * PGSIZE + PGSIZE"
    unfolding in_page_def by presburger
  also have "\<dots> \<longleftrightarrow> a div PGSIZE = unat v div PGSIZE"
    using pos by (auto intro: div_nat_eqI simp: algebra_simps div_mult_mod_eq)
      (metis add.commute div_mult_mod_eq le_add2 mod_less_divisor mult.commute
        nat_add_left_cancel_less)+
  finally show ?thesis .
qed

lemma pages_disjoint:
  assumes "unat v mod PGSIZE = 0" "unat w mod PGSIZE = 0" "v \<noteq> w" "in_page v a"
  shows "\<not> in_page w a"
proof
  assume "in_page w a"
  with assms have "unat v div PGSIZE = unat w div PGSIZE" by (simp add: in_page_div)
  with assms(1,2) have "unat v = unat w"
    by (metis add.right_neutral div_mult_mod_eq)
  with \<open>v \<noteq> w\<close> show False by (simp add: word_unat_eq_iff)
qed

lemma page_head: "i < 4 \<Longrightarrow> in_page v (unat v + i)"
  by (simp add: in_page_def PGSIZE_def)

lemma store32_page: "\<not> in_page v a \<Longrightarrow> store32 m v w a = m a"
  using page_head [of 0 v] page_head [of 1 v] page_head [of 2 v] page_head [of 3 v]
  by (intro store32_other) auto

lemma chain_frame:
  assumes "\<And>v i. v \<in> set vs \<Longrightarrow> i < 4 \<Longrightarrow> m' (unat v + i) = m (unat v + i)"
  shows "chain m' p vs = chain m p vs"
  using assms
proof (induction vs arbitrary: p)
  case (Cons v vs)
  then have "load32 m' v = load32 m v" by (intro load32_cong) simp
  with Cons show ?case by simp
qed simp

section \<open>What the operations do\<close>

definition push_page :: "u32 \<Rightarrow> 'm kmem_scheme \<Rightarrow> 'm kmem_scheme" where
  "push_page v s =
     s\<lparr>mem := store32 (memset (mem s) (unat v) 1 PGSIZE) v (freelist s), freelist := v\<rparr>"

lemma kfree_run:
  "page_ok (kend s) v \<Longrightarrow> LK_kmem \<notin> set (held s) \<Longrightarrow> kfree v s = Ok () (push_page v s)"
  by (cases "use_lock s") (auto simp: kfree_def push_page_def page_ok_def not_less not_le)

lemma kfree_bad: "\<not> (v \<noteq> 0 \<longrightarrow> page_ok (kend s) v) \<Longrightarrow> kfree v s = Panic ''kfree''"
  by (auto simp: kfree_def page_ok_def not_less not_le)

lemma kalloc_run:
  "LK_kmem \<notin> set (held s) \<Longrightarrow>
   kalloc s = Ok (freelist s)
     (if freelist s = 0 then s else s\<lparr>freelist := load32 (mem s) (freelist s)\<rparr>)"
  by (cases "use_lock s") (auto simp: kalloc_def)

lemma push_page_mem: "\<not> in_page v a \<Longrightarrow> mem (push_page v s) a = mem s a"
  by (auto simp: push_page_def store32_page memset_at in_page_def)

lemma push_page_fields [simp]:
  "held (push_page v s) = held s" "kend (push_page v s) = kend s" "freelist (push_page v s) = v"
  "use_lock (push_page v s) = use_lock s" "ptab (push_page v s) = ptab s" "cur (push_page v s) = cur s"
  "slocks (push_page v s) = slocks s" "kmem.more (push_page v s) = kmem.more s"
  by (simp_all add: push_page_def)

lemma push_page_chain:
  assumes "free_chain s vs" and "page_ok (kend s) v" and "v \<notin> set vs"
  shows "free_chain (push_page v s) (v # vs)"
proof -
  have "\<not> in_page v (unat w + i)" if "w \<in> set vs" "i < 4" for w i
    using that assms pages_disjoint [of w v "unat w + i"] page_head [of i w]
    by (auto simp: free_chain_def page_ok_def)
  then have "chain (mem (push_page v s)) (freelist s) vs = chain (mem s) (freelist s) vs"
    by (intro chain_frame) (simp add: push_page_mem)
  with assms show ?thesis by (simp add: free_chain_def push_page_def)
qed

lemma pop_page_chain:
  assumes "free_chain s (v # vs)"
  shows "freelist s = v" and "v \<noteq> 0" and "v \<notin> set vs" and "page_ok (kend s) v"
    and "free_chain (s\<lparr>freelist := load32 (mem s) v\<rparr>) vs"
  using assms by (auto simp: free_chain_def page_ok_def)

section \<open>The interface of the allocator\<close>

text \<open>
  What \<open>vm.c\<close>, \<open>proc.c\<close> and \<open>pipe.c\<close> rely on: \<open>alloc\<close> hands out the most recently freed
  page, or 0 when there is none, and leaves the memory as it is; \<open>dealloc\<close> takes a page back and
  changes no byte outside it. A client that frees only pages it owns never sees the same page
  twice, and no page is lost.
\<close>

datatype pgop = PgAlloc | PgFree u32

locale page_allocator =
  fixes alloc :: "('s, u32) km"
    and dealloc :: "u32 \<Rightarrow> ('s, unit) km"
    and avail :: "'s \<Rightarrow> u32 list \<Rightarrow> bool"
    and valid :: "'s \<Rightarrow> u32 \<Rightarrow> bool"
    and contents :: "'s \<Rightarrow> memory"
  assumes alloc_empty: "avail s [] \<Longrightarrow> alloc s = Ok 0 s"
    and alloc_pop: "avail s (v # vs) \<Longrightarrow> \<exists>t. alloc s = Ok v t \<and> avail t vs \<and>
          contents t = contents s \<and> valid t = valid s"
    and avail_valid: "avail s vs \<Longrightarrow> distinct vs \<and> 0 \<notin> set vs \<and> (\<forall>v \<in> set vs. valid s v)"
    and dealloc_push: "avail s vs \<Longrightarrow> valid s v \<Longrightarrow> v \<notin> set vs \<Longrightarrow>
          \<exists>t. dealloc v s = Ok () t \<and> avail t (v # vs) \<and> valid t = valid s \<and>
              (\<forall>a. \<not> in_page v a \<longrightarrow> contents t a = contents s a)"
begin

text \<open>A client's calls, with the pages it owns; \<open>None\<close> when it frees a page it does not own.\<close>

fun serve :: "pgop list \<Rightarrow> u32 list \<Rightarrow> 's \<Rightarrow> (u32 list \<times> 's) option" where
  "serve [] own s = Some (own, s)"
| "serve (PgAlloc # ops) own s =
     (case alloc s of Ok v t \<Rightarrow> serve ops (if v = 0 then own else v # own) t | _ \<Rightarrow> None)"
| "serve (PgFree v # ops) own s =
     (if v \<in> set own
      then case dealloc v s of Ok _ t \<Rightarrow> serve ops (remove1 v own) t | _ \<Rightarrow> None
      else None)"

fun legal :: "pgop list \<Rightarrow> u32 list \<Rightarrow> u32 list \<Rightarrow> bool" where
  "legal [] own vs = True"
| "legal (PgAlloc # ops) own vs =
     (case vs of [] \<Rightarrow> legal ops own [] | v # vs' \<Rightarrow> legal ops (v # own) vs')"
| "legal (PgFree v # ops) own vs = (v \<in> set own \<and> legal ops (remove1 v own) (v # vs))"

lemma serve_conserves:
  assumes "avail s vs" and "distinct (own @ vs)" and "\<forall>v \<in> set own. valid s v \<and> v \<noteq> 0"
    and "legal ops own vs"
  shows "\<exists>own' t vs'. serve ops own s = Some (own', t) \<and> avail t vs' \<and>
           distinct (own' @ vs') \<and> mset own' + mset vs' = mset own + mset vs"
  using assms
proof (induction ops arbitrary: own s vs)
  case Nil
  then show ?case by auto
next
  case (Cons op ops)
  show ?case
  proof (cases op)
    case PgAlloc
    show ?thesis
    proof (cases vs)
      case Nil
      with Cons.prems PgAlloc have "legal ops own []" "avail s []" "alloc s = Ok 0 s"
        by (simp_all add: alloc_empty)
      with Cons.IH [of s "[]" own] Cons.prems Nil PgAlloc show ?thesis by simp
    next
      case vs: (Cons v vs')
      with Cons.prems(1) obtain t where t: "alloc s = Ok v t" "avail t vs'" "valid t = valid s"
        using alloc_pop by blast
      have v: "v \<noteq> 0" "valid s v" using avail_valid [OF Cons.prems(1)] vs by auto
      have "\<exists>own' u vs''. serve ops (v # own) t = Some (own', u) \<and> avail u vs'' \<and>
          distinct (own' @ vs'') \<and> mset own' + mset vs'' = mset (v # own) + mset vs'"
        using Cons.prems PgAlloc vs t v by (intro Cons.IH) simp_all
      with t v vs PgAlloc show ?thesis by simp
    qed
  next
    case (PgFree v)
    with Cons.prems have own: "v \<in> set own" "valid s v" "v \<notin> set vs" by auto
    with Cons.prems(1) obtain t where t: "dealloc v s = Ok () t" "avail t (v # vs)"
        "valid t = valid s"
      using dealloc_push by blast
    have "\<exists>own' u vs''. serve ops (remove1 v own) t = Some (own', u) \<and> avail u vs'' \<and>
        distinct (own' @ vs'') \<and> mset own' + mset vs'' = mset (remove1 v own) + mset (v # vs)"
      using Cons.prems PgFree own t by (intro Cons.IH) (auto dest: notin_set_remove1)
    with t own PgFree show ?thesis by simp
  qed
qed

lemma alloc_after_dealloc:
  assumes "avail s vs" "valid s v" "v \<notin> set vs"
  shows "\<exists>t. sq (dealloc v) alloc s = Ok v t \<and> avail t vs \<and>
    (\<forall>a. \<not> in_page v a \<longrightarrow> contents t a = contents s a)"
proof -
  from dealloc_push [OF assms] obtain t where t: "dealloc v s = Ok () t" "avail t (v # vs)"
    "\<forall>a. \<not> in_page v a \<longrightarrow> contents t a = contents s a" by blast
  from alloc_pop [OF t(2)] t show ?thesis by (auto simp: sq_Ok)
qed

end

definition kavail :: "'m kmem_scheme \<Rightarrow> u32 list \<Rightarrow> bool" where
  "kavail s vs \<longleftrightarrow> free_chain s vs \<and> LK_kmem \<notin> set (held s)"

definition kpage :: "'m kmem_scheme \<Rightarrow> u32 \<Rightarrow> bool" where
  "kpage s v \<longleftrightarrow> page_ok (kend s) v"

interpretation ka: page_allocator kalloc kfree kavail kpage mem
proof unfold_locales
  fix s :: "'a kmem_scheme" and v vs
  show "kavail s [] \<Longrightarrow> kalloc s = Ok 0 s"
    by (simp add: kavail_def free_chain_def kalloc_run)
  show "kavail s (v # vs) \<Longrightarrow> \<exists>t. kalloc s = Ok v t \<and> kavail t vs \<and> mem t = mem s \<and> kpage t = kpage s"
    using pop_page_chain [of s v vs] by (auto simp: kavail_def kalloc_run kpage_def)
  show "kavail s vs \<Longrightarrow> distinct vs \<and> 0 \<notin> set vs \<and> (\<forall>v \<in> set vs. kpage s v)"
    by (auto simp: kavail_def free_chain_def kpage_def page_ok_def)
  assume a: "kavail s vs" "kpage s v" "v \<notin> set vs"
  then have "kfree v s = Ok () (push_page v s)" "kavail (push_page v s) (v # vs)"
    by (simp_all add: kavail_def kpage_def kfree_run push_page_chain)
  then show "\<exists>t. kfree v s = Ok () t \<and> kavail t (v # vs) \<and> kpage t = kpage s \<and>
      (\<forall>a. \<not> in_page v a \<longrightarrow> mem t a = mem s a)"
    by (auto simp: kpage_def push_page_mem fun_eq_iff)
qed

section \<open>Initialization\<close>

definition pages_from :: "nat \<Rightarrow> u32 \<Rightarrow> u32 list" where
  "pages_from n p = map (\<lambda>i. p + of_nat (i * PGSIZE)) [0..<n]"

lemma pages_from_0 [simp]: "pages_from 0 p = []"
  by (simp add: pages_from_def)

lemma pages_from_Suc: "pages_from (Suc n) p = p # pages_from n (p + of_nat PGSIZE)"
  unfolding pages_from_def
  by (simp only: upt_conv_Cons zero_less_Suc list.map map_Suc_upt [symmetric] map_map o_def)
    (simp add: algebra_simps)

lemma PGROUND_aligned: "unat (w AND NOT (of_nat PGSIZE - 1 :: u32)) mod PGSIZE = 0"
proof -
  have m: "(of_nat PGSIZE - 1 :: u32) = mask 12" by (simp add: PGSIZE_def mask_eq_exp_minus_1)
  have "take_bit 12 (w AND NOT (mask 12 :: u32)) = 0" by (rule bit_eqI) (auto simp: bit_simps)
  then have "take_bit 12 (unat (w AND NOT (mask 12 :: u32))) = 0"
    by (simp only: unsigned_take_bit_eq [symmetric] unsigned_0)
  then show ?thesis unfolding m by (simp add: take_bit_eq_mod PGSIZE_def)
qed

lemma unat_page:
  fixes p :: u32
  assumes "unat p + n * PGSIZE \<le> 2 ^ 32" and "i < n"
  shows "unat (p + of_nat (i * PGSIZE)) = unat p + i * PGSIZE"
proof -
  from assms(2) have "(i + 1) * PGSIZE \<le> n * PGSIZE" by (intro mult_le_mono1) simp
  with assms(1) have "unat p + i * PGSIZE < 2 ^ 32" by (simp add: PGSIZE_def)
  then show ?thesis by (simp add: unat_word_ariths unat_of_nat del: of_nat_mult)
qed

lemma freerange_loop_run:
  assumes "free_chain s vs" and "LK_kmem \<notin> set (held s)"
    and "\<forall>v \<in> set (pages_from n p). page_ok (kend s) v"
    and "distinct (pages_from n p @ vs)"
  shows "\<exists>t. freerange_loop n p s = Ok () t \<and> free_chain t (rev (pages_from n p) @ vs) \<and>
      kend t = kend s \<and> held t = held s \<and> use_lock t = use_lock s"
  using assms
proof (induction n arbitrary: p s vs)
  case (Suc n)
  have "kfree p s = Ok () (push_page p s)" "free_chain (push_page p s) (p # vs)"
    using Suc.prems by (auto simp: pages_from_Suc kfree_run intro: push_page_chain)
  moreover have "\<exists>t. freerange_loop n (p + of_nat PGSIZE) (push_page p s) = Ok () t \<and>
      free_chain t (rev (pages_from n (p + of_nat PGSIZE)) @ p # vs) \<and>
      kend t = kend (push_page p s) \<and> held t = held (push_page p s) \<and>
      use_lock t = use_lock (push_page p s)"
    using Suc.prems calculation(2) by (intro Suc.IH) (auto simp: pages_from_Suc)
  ultimately show ?case by (auto simp: pages_from_Suc sq_Ok)
qed simp

lemma pages_from_ok:
  assumes "unat p mod PGSIZE = 0" and "kend s \<le> p" and "KERNBASE \<le> p"
    and "unat p + n * PGSIZE \<le> unat (KERNBASE + PHYSTOP)"
  shows "\<forall>v \<in> set (pages_from n p). page_ok (kend s) v" and "distinct (pages_from n p)"
proof -
  have le: "unat p + n * PGSIZE \<le> 2 ^ 32" and lim: "unat p + n * PGSIZE \<le> 0x8E000000"
    using assms(4) by (simp_all add: KERNBASE_def PHYSTOP_def)
  have base: "0x80000000 \<le> unat p" using assms(3) by (simp add: KERNBASE_def word_le_nat_alt)
  show "\<forall>v \<in> set (pages_from n p). page_ok (kend s) v"
  proof
    fix v assume "v \<in> set (pages_from n p)"
    then obtain i where i: "i < n" and v: "v = p + of_nat (i * PGSIZE)"
      by (auto simp: pages_from_def)
    have u: "unat v = unat p + i * PGSIZE" unfolding v by (rule unat_page [OF le i])
    from i have "(i + 1) * PGSIZE \<le> n * PGSIZE" by (intro mult_le_mono1) simp
    then have "unat v < 0x8E000000" using u lim by (simp add: PGSIZE_def)
    moreover have "unat (V2P v) = unat v - 0x80000000"
      using base u by (simp add: V2P_def KERNBASE_def unat_sub word_le_nat_alt)
    ultimately show "page_ok (kend s) v"
      using base u assms(1,2)
      by (auto simp: page_ok_def word_le_nat_alt word_less_nat_alt PHYSTOP_def word_unat_eq_iff)
  qed
  show "distinct (pages_from n p)"
    unfolding pages_from_def distinct_map word_unat_eq_iff inj_on_def
    using unat_page [OF le] by (auto simp: PGSIZE_def simp del: of_nat_mult)
qed

text \<open>
  \<open>kinit1\<close> (kalloc.c) puts exactly the whole pages between its bounds on the free list, the
  last one first, each page once: the list threaded through memory is that list.
\<close>

theorem kinit1_frees_range:
  assumes "freelist s = 0" and "LK_kmem \<notin> set (held s)"
    and "KERNBASE \<le> PGROUNDUP vstart" and "kend s \<le> PGROUNDUP vstart"
    and "vend \<le> KERNBASE + PHYSTOP"
  shows "\<exists>t. kinit1 vstart vend s = Ok () t \<and> \<not> use_lock t \<and>
    free_chain t
      (rev (pages_from ((unat vend - unat (PGROUNDUP vstart)) div PGSIZE) (PGROUNDUP vstart)))"
proof -
  let ?p = "PGROUNDUP vstart" and ?s = "s\<lparr>use_lock := False\<rparr>"
  let ?n = "(unat vend - unat ?p) div PGSIZE"
  have "unat ?p mod PGSIZE = 0" unfolding PGROUNDUP_def by (rule PGROUND_aligned)
  moreover have "unat ?p + ?n * PGSIZE \<le> unat (KERNBASE + PHYSTOP)" if "0 < ?n"
  proof -
    from that have "unat ?p \<le> unat vend" by (rule contrapos_pp) simp
    moreover have "unat vend \<le> unat (KERNBASE + PHYSTOP)" using assms(5) by (simp add: word_le_nat_alt)
    ultimately show ?thesis
      using div_times_less_eq_dividend [of "unat vend - unat ?p" PGSIZE] by linarith
  qed
  ultimately have ok: "\<forall>v \<in> set (pages_from ?n ?p). page_ok (kend ?s) v" "distinct (pages_from ?n ?p)"
    using pages_from_ok [of ?p ?s ?n] assms by (cases "0 < ?n"; simp)+
  have "free_chain ?s []" using assms by (simp add: free_chain_def)
  from freerange_loop_run [OF this _ ok(1), simplified, OF assms(2) ok(2)]
  show ?thesis by (auto simp: kinit1_def freerange_def Let_def sq_Ok free_chain_def)
qed

text \<open>Memory after the kernel's image at \<open>0x80200000\<close>, before \<open>kinit1\<close>.\<close>

definition boot_mem :: kmem where
  "boot_mem = one_proc \<lparr>mem = (\<lambda>_. 0), kend = 0x80200000, use_lock = True, freelist = 0\<rparr>"

lemma boot_mem_fields [simp]:
  "freelist boot_mem = 0" "kend boot_mem = 0x80200000" "held boot_mem = []"
  by (simp_all add: boot_mem_def one_proc_def)

theorem kinit1_frees_range_witness:
  "\<exists>t. kinit1 0x801FF123 0x80202000 boot_mem = Ok () t \<and> free_chain t [0x80201000, 0x80200000]"
proof -
  have p: "PGROUNDUP 0x801FF123 = 0x80200000" by (simp add: PGROUNDUP_def PGSIZE_def)
  have n: "pages_from 2 (0x80200000 :: u32) = [0x80200000, 0x80201000]"
    by (simp add: pages_from_def PGSIZE_def upt_rec)
  show ?thesis
    using kinit1_frees_range [of boot_mem "0x801FF123" "0x80202000"]
    by (auto simp: p n KERNBASE_def PHYSTOP_def PGSIZE_def)
qed

text \<open>
  C25. \<open>kalloc\<close> and \<open>kfree\<close> (kalloc.c) never hand out a page twice and never lose one: whatever
  sequence of allocations and frees a client makes, as long as it frees only pages it owns, every
  call returns, the pages it owns and the free pages stay pairwise distinct, and together they are
  the pages there were at the start.
\<close>

theorem pages_conserved:
  assumes "kavail s vs" and "distinct (own @ vs)" and "\<forall>v \<in> set own. kpage s v \<and> v \<noteq> 0"
    and "ka.legal ops own vs"
  shows "\<exists>own' t vs'. ka.serve ops own s = Some (own', t) \<and> kavail t vs' \<and>
           distinct (own' @ vs') \<and> mset own' + mset vs' = mset own + mset vs"
  using assms by (rule ka.serve_conserves)

theorem pages_conserved_witness:
  "\<exists>own t vs. ka.serve [PgAlloc, PgAlloc, PgFree 0x80201000, PgAlloc] [0x80201000] boot_mem
     = Some (own, t) \<and> kavail t vs \<and> distinct (own @ vs) \<and> mset own + mset vs = {# 0x80201000 #}"
  using pages_conserved [of boot_mem "[]" "[0x80201000]" "[PgAlloc, PgAlloc, PgFree 0x80201000, PgAlloc]"]
  by (simp add: kavail_def free_chain_def kpage_def page_ok_def PGSIZE_def V2P_def KERNBASE_def
      PHYSTOP_def)

end
