(* ===== verification/Bio.thy ===== *)
theory Bio
  imports Kalloc
begin

text \<open>
  The buffer cache (\<open>bio.c\<close>) over a disk that answers at once (\<open>memide.c\<close>); theory \<open>Ide\<close> has
  the interrupt driven disk driver and relates it to this one.

  A buffer is an entry of \<open>bufs\<close>, a pointer to it is its index; the doubly linked list through
  \<open>prev\<close> and \<open>next\<close> is the list \<open>lru\<close> of the buffers from \<open>head.next\<close> on, the most recently
  used first. \<open>flags\<close> is the pair of \<open>b_valid\<close> (B_VALID) and \<open>b_dirty\<close> (B_DIRTY). A reference
  count is a natural number: it counts the pointers kernel threads hold and stays far below
  the width of the C type. \<open>dwrites\<close> is a history variable that no operation reads: the writes
  the disk has performed, the newest first.

  \<open>bcache_ok H s\<close> is the invariant with \<open>H\<close> the buffers the running process has checked out:
  there is one buffer per block, a clean buffer that nobody holds has the contents of its disk block.
  \<open>view s\<close> is the block contents a reader sees; reads leave it unchanged and return it, a write
  to a held buffer changes it at one block, and the disk catches up by \<open>bwrite\<close>.
\<close>

section \<open>State\<close>

record buf =
  b_valid :: bool
  b_dirty :: bool
  b_dev :: u32
  b_blockno :: u32
  b_refcnt :: nat
  b_data :: bytes

record kbio = kmem +
  bufs :: "buf list"
  lru :: "nat list"
  disk :: "u32 \<Rightarrow> bytes"
  disksize :: u32
  dwrites :: "(u32 \<times> bytes) list"

definition zero_buf :: buf where
  "zero_buf = \<lparr>b_valid = False, b_dirty = False, b_dev = 0, b_blockno = 0, b_refcnt = 0,
     b_data = replicate BSIZE 0\<rparr>"

definition buf_at :: "'m kbio_scheme \<Rightarrow> nat \<Rightarrow> buf" where
  "buf_at s b = bufs s ! b"

definition upd_buf :: "nat \<Rightarrow> (buf \<Rightarrow> buf) \<Rightarrow> 'm kbio_scheme \<Rightarrow> 'm kbio_scheme" where
  "upd_buf b f s = s\<lparr>bufs := (bufs s)[b := f (bufs s ! b)]\<rparr>"

section \<open>Operations\<close>

text \<open>\<open>iderw\<close> of \<open>memide.c\<close>.\<close>

definition iderw :: "nat \<Rightarrow> ('m kbio_scheme, unit) km" where
  "iderw b =
     bnd (holdingsleep (SL_buf b)) (\<lambda>h.
     if \<not> h then kpanic ''iderw: buf not locked'' else
     bnd (getk (\<lambda>s. (buf_at s b, disksize s))) (\<lambda>(B, n).
     if b_valid B \<and> \<not> b_dirty B then kpanic ''iderw: nothing to do''
     else if b_dev B \<noteq> 1 then kpanic ''iderw: request not for disk 1''
     else if b_blockno B \<ge> n then kpanic ''iderw: block out of range''
     else
       sq (if b_dirty B
           then sq (modk (upd_buf b (\<lambda>B. B\<lparr>b_dirty := False\<rparr>)))
                   (modk (\<lambda>s. s\<lparr>disk := (disk s)(b_blockno B := b_data B),
                                dwrites := (b_blockno B, b_data B) # dwrites s\<rparr>))
           else modk (\<lambda>s. upd_buf b (\<lambda>B. B\<lparr>b_data := disk s (b_blockno B)\<rparr>) s))
          (modk (upd_buf b (\<lambda>B. B\<lparr>b_valid := True\<rparr>)))))"

definition binit :: "('m kbio_scheme, unit) km" where
  "binit =
     sq (modk (\<lambda>s. s\<lparr>lru := []\<rparr>))
        (for_each [0..<NBUF] (\<lambda>b.
           sq (modk (initsleeplock (SL_buf b))) (modk (\<lambda>s. s\<lparr>lru := b # lru s\<rparr>))))"

definition is_block :: "u32 \<Rightarrow> u32 \<Rightarrow> buf \<Rightarrow> bool" where
  "is_block dev blockno B \<longleftrightarrow> b_dev B = dev \<and> b_blockno B = blockno"

definition recyclable :: "buf \<Rightarrow> bool" where
  "recyclable B \<longleftrightarrow> b_refcnt B = 0 \<and> \<not> b_dirty B"

definition bget :: "u32 \<Rightarrow> u32 \<Rightarrow> ('m kbio_scheme, nat) km" where
  "bget dev blockno =
     sq (acquire LK_bcache)
    (bnd (getk (\<lambda>s. find (\<lambda>b. is_block dev blockno (buf_at s b)) (lru s))) (\<lambda>hit.
     case hit of
       Some b \<Rightarrow>
         sq (modk (upd_buf b (\<lambda>B. B\<lparr>b_refcnt := b_refcnt B + 1\<rparr>)))
        (sq (release LK_bcache)
        (sq (acquiresleep (SL_buf b))
            (ret b)))
     | None \<Rightarrow>
         bnd (getk (\<lambda>s. find (\<lambda>b. recyclable (buf_at s b)) (rev (lru s)))) (\<lambda>free.
         case free of
           Some b \<Rightarrow>
             sq (modk (upd_buf b (\<lambda>B. B\<lparr>b_dev := dev, b_blockno := blockno, b_valid := False,
                                        b_dirty := False, b_refcnt := 1\<rparr>)))
            (sq (release LK_bcache)
            (sq (acquiresleep (SL_buf b))
                (ret b)))
         | None \<Rightarrow> kpanic ''bget: no buffers'')))"

definition bread :: "u32 \<Rightarrow> u32 \<Rightarrow> ('m kbio_scheme, nat) km" where
  "bread dev blockno =
     bnd (bget dev blockno) (\<lambda>b.
     bnd (getk (\<lambda>s. b_valid (buf_at s b))) (\<lambda>v.
     sq (whenk (\<not> v) (iderw b)) (ret b)))"

definition bwrite :: "nat \<Rightarrow> ('m kbio_scheme, unit) km" where
  "bwrite b =
     bnd (holdingsleep (SL_buf b)) (\<lambda>h.
     if \<not> h then kpanic ''bwrite''
     else sq (modk (upd_buf b (\<lambda>B. B\<lparr>b_dirty := True\<rparr>))) (iderw b))"

definition to_front :: "nat \<Rightarrow> nat list \<Rightarrow> nat list" where
  "to_front b bs = b # remove1 b bs"

definition brelse :: "nat \<Rightarrow> ('m kbio_scheme, unit) km" where
  "brelse b =
     bnd (holdingsleep (SL_buf b)) (\<lambda>h.
     if \<not> h then kpanic ''brelse''
     else
       sq (releasesleep (SL_buf b))
      (sq (acquire LK_bcache)
      (sq (modk (upd_buf b (\<lambda>B. B\<lparr>b_refcnt := b_refcnt B - 1\<rparr>)))
      (sq (modk (\<lambda>s. if b_refcnt (buf_at s b) = 0 then s\<lparr>lru := to_front b (lru s)\<rparr> else s))
          (release LK_bcache)))))"

text \<open>What client code does to the bytes of a buffer it holds.\<close>

definition bdata :: "nat \<Rightarrow> ('m kbio_scheme, bytes) km" where
  "bdata b = getk (\<lambda>s. b_data (buf_at s b))"

definition set_bdata :: "nat \<Rightarrow> bytes \<Rightarrow> ('m kbio_scheme, unit) km" where
  "set_bdata b d = modk (upd_buf b (\<lambda>B. B\<lparr>b_data := d\<rparr>))"

section \<open>Invariant and view\<close>

definition blocks_unique :: "'m kbio_scheme \<Rightarrow> bool" where
  "blocks_unique s \<longleftrightarrow>
     (\<forall>i<NBUF. \<forall>j<NBUF. b_dev (buf_at s i) \<noteq> 0 \<longrightarrow> b_dev (buf_at s j) = b_dev (buf_at s i) \<longrightarrow>
        b_blockno (buf_at s j) = b_blockno (buf_at s i) \<longrightarrow> i = j)"

definition bcache_wf :: "'m kbio_scheme \<Rightarrow> bool" where
  "bcache_wf s \<longleftrightarrow>
     length (bufs s) = NBUF \<and> distinct (lru s) \<and> set (lru s) = {..<NBUF} \<and> blocks_unique s \<and>
     (\<forall>bn. length (disk s bn) = BSIZE)"

definition buf_ok :: "(u32 \<Rightarrow> bytes) \<Rightarrow> bool \<Rightarrow> buf \<Rightarrow> bool" where
  "buf_ok d h B \<longleftrightarrow>
     (b_dirty B \<longrightarrow> b_valid B) \<and>
     (b_valid B \<longrightarrow> b_dev B = 1 \<and> length (b_data B) = BSIZE) \<and>
     (b_valid B \<and> \<not> b_dirty B \<and> \<not> h \<longrightarrow> b_data B = d (b_blockno B)) \<and>
     (h \<longrightarrow> b_valid B \<and> 0 < b_refcnt B)"

definition bcache_ok :: "nat set \<Rightarrow> 'm kbio_scheme \<Rightarrow> bool" where
  "bcache_ok H s \<longleftrightarrow>
     bcache_wf s \<and> (\<forall>i<NBUF. buf_ok (disk s) (i \<in> H) (buf_at s i)) \<and>
     (\<forall>i\<in>H. i < NBUF \<and> holds (SL_buf i) s)"

definition caches :: "'m kbio_scheme \<Rightarrow> u32 \<Rightarrow> nat \<Rightarrow> bool" where
  "caches s bn i \<longleftrightarrow> b_valid (buf_at s i) \<and> is_block 1 bn (buf_at s i)"

definition view :: "'m kbio_scheme \<Rightarrow> u32 \<Rightarrow> bytes" where
  "view s bn =
     (case find (caches s bn) [0..<NBUF] of Some i \<Rightarrow> b_data (buf_at s i) | None \<Rightarrow> disk s bn)"

definition dirty_blocks :: "'m kbio_scheme \<Rightarrow> u32 set" where
  "dirty_blocks s = {b_blockno (buf_at s i) | i. i < NBUF \<and> b_dirty (buf_at s i)}"

text \<open>What the operations of the buffer cache leave alone.\<close>

definition bbase :: "'m kbio_scheme \<Rightarrow> 'm kbio_scheme \<Rightarrow> bool" where
  "bbase s t \<longleftrightarrow>
     cur t = cur s \<and> proc_at t = proc_at s \<and>
     running t = running s \<and> mem t = mem s \<and> kend t = kend s \<and> freelist t = freelist s \<and>
     use_lock t = use_lock s \<and> disksize t = disksize s \<and> nextpid t = nextpid s \<and>
     initproc t = initproc s \<and> (\<forall>l. (\<forall>i. l \<noteq> SL_buf i) \<longrightarrow> slocks t l = slocks s l) \<and>
     map (p_state_update (\<lambda>_. UNUSED)) (ptab t) = map (p_state_update (\<lambda>_. UNUSED)) (ptab s)"

definition bframe :: "'m kbio_scheme \<Rightarrow> 'm kbio_scheme \<Rightarrow> bool" where
  "bframe s t \<longleftrightarrow> bbase s t \<and> kbio.more t = kbio.more s"

lemma bbase_refl [simp]: "bbase s s"
  by (simp add: bbase_def)

lemma bbase_trans: "bbase s t \<Longrightarrow> bbase t u \<Longrightarrow> bbase s u"
  by (simp add: bbase_def)

lemma bframe_refl [simp]: "bframe s s"
  by (simp add: bframe_def)

lemma bframe_trans [trans]: "bframe s t \<Longrightarrow> bframe t u \<Longrightarrow> bframe s u"
  by (auto simp: bframe_def intro: bbase_trans)

lemma buf_at_upd_buf:
  "buf_at (upd_buf b f s) i = (if i = b \<and> b < length (bufs s) then f (buf_at s b) else buf_at s i)"
  by (cases "b < length (bufs s)") (simp_all add: buf_at_def upd_buf_def nth_list_update list_update_beyond)

lemma upd_buf_running [simp]: "running (upd_buf b f s) = running s"
  by (rule running_cong) (simp_all add: upd_buf_def)

lemma upd_buf_fields [simp]:
  "held (upd_buf b f s) = held s" "ptab (upd_buf b f s) = ptab s" "cur (upd_buf b f s) = cur s"
  "slocks (upd_buf b f s) = slocks s" "length (bufs (upd_buf b f s)) = length (bufs s)"
  "lru (upd_buf b f s) = lru s" "disk (upd_buf b f s) = disk s" "disksize (upd_buf b f s) = disksize s"
  "dwrites (upd_buf b f s) = dwrites s" "kbio.more (upd_buf b f s) = kbio.more s"
  "proc_at (upd_buf b f s) = proc_at s"
  "mem (upd_buf b f s) = mem s" "kend (upd_buf b f s) = kend s" "use_lock (upd_buf b f s) = use_lock s"
  "freelist (upd_buf b f s) = freelist s" "nextpid (upd_buf b f s) = nextpid s"
  "initproc (upd_buf b f s) = initproc s" "holds l (upd_buf b f s) = holds l s"
  by (simp_all add: upd_buf_def proc_at_def holds_def)

lemma bframe_upd_buf [simp]: "bframe s (upd_buf b f s)"
  by (simp add: bframe_def bbase_def)

lemma view_cached:
  assumes "bcache_wf s" "i < NBUF" "caches s bn i"
  shows "view s bn = b_data (buf_at s i)"
proof -
  from assms(2,3) obtain j where j: "find (caches s bn) [0..<NBUF] = Some j"
    by (cases "find (caches s bn) [0..<NBUF]") (auto simp: find_None_iff)
  then have "j < NBUF" "caches s bn j" by (auto simp: find_Some_iff)
  with assms have "j = i" by (auto simp: bcache_wf_def blocks_unique_def caches_def is_block_def)
  with j show ?thesis by (simp add: view_def)
qed

lemma view_uncached: "\<forall>i<NBUF. \<not> caches s bn i \<Longrightarrow> view s bn = disk s bn"
  by (auto simp: view_def find_None_iff split: option.splits dest!: find_Some_iff [THEN iffD1])

lemma view_cases:
  assumes "bcache_wf s"
  obtains i where "i < NBUF" "caches s bn i" "view s bn = b_data (buf_at s i)"
    | "\<forall>i<NBUF. \<not> caches s bn i" "view s bn = disk s bn"
  using view_cached [OF assms] view_uncached by metis

lemma view_eqI:
  assumes "bcache_wf s" "bcache_wf t"
    and "\<And>i. i < NBUF \<Longrightarrow> caches t bn i \<Longrightarrow> b_data (buf_at t i) = view s bn"
    and "\<forall>i<NBUF. \<not> caches t bn i \<Longrightarrow> disk t bn = view s bn"
  shows "view t bn = view s bn"
  using assms by (cases rule: view_cases [OF assms(2), of bn]) auto

section \<open>What the operations do\<close>

lemma find_SomeD: "find P xs = Some x \<Longrightarrow> x \<in> set xs" "find P xs = Some x \<Longrightarrow> P x"
  by (auto simp: find_Some_iff)

lemma held_id: "held s = h \<Longrightarrow> s\<lparr>held := h\<rparr> = s"
  by auto

lemma upd_buf_held: "upd_buf b f (s\<lparr>held := h\<rparr>) = (upd_buf b f s)\<lparr>held := h\<rparr>"
  by (simp add: upd_buf_def)

lemma buf_at_held [simp]: "buf_at (s\<lparr>held := h\<rparr>) = buf_at s"
  by (simp add: buf_at_def fun_eq_iff)

lemma buf_at_lru [simp]: "buf_at (s\<lparr>lru := l\<rparr>) = buf_at s"
  by (simp add: buf_at_def fun_eq_iff)

lemma buf_at_lock [simp]: "buf_at (lock_for l s) = buf_at s" "buf_at (unlock l s) = buf_at s"
  by (simp_all add: buf_at_def fun_eq_iff lock_for_def unlock_def wakeup1_def)

lemma lock_bio_fields [simp]:
  "bufs (lock_for l s) = bufs s" "lru (lock_for l s) = lru s" "disk (lock_for l s) = disk s"
  "disksize (lock_for l s) = disksize s" "dwrites (lock_for l s) = dwrites s"
  "kbio.more (lock_for l s) = kbio.more s" "mem (lock_for l s) = mem s"
  "kend (lock_for l s) = kend s" "use_lock (lock_for l s) = use_lock s"
  "freelist (lock_for l s) = freelist s"
  "bufs (unlock l s) = bufs s" "lru (unlock l s) = lru s" "disk (unlock l s) = disk s"
  "disksize (unlock l s) = disksize s" "dwrites (unlock l s) = dwrites s"
  "kbio.more (unlock l s) = kbio.more s" "mem (unlock l s) = mem s"
  "kend (unlock l s) = kend s" "use_lock (unlock l s) = use_lock s"
  "freelist (unlock l s) = freelist s"
  by (simp_all add: lock_for_def unlock_def wakeup1_def)

text \<open>The two ways \<open>bget\<close> finds a buffer.\<close>

definition bget_upd :: "u32 \<Rightarrow> u32 \<Rightarrow> buf \<Rightarrow> buf" where
  "bget_upd dev bn B =
     (if is_block dev bn B then B\<lparr>b_refcnt := b_refcnt B + 1\<rparr>
      else B\<lparr>b_dev := dev, b_blockno := bn, b_valid := False, b_dirty := False, b_refcnt := 1\<rparr>)"

definition bpick :: "u32 \<Rightarrow> u32 \<Rightarrow> 'm kbio_scheme \<Rightarrow> nat option" where
  "bpick dev bn s =
     (case find (\<lambda>b. is_block dev bn (buf_at s b)) (lru s) of
        Some b \<Rightarrow> Some b
      | None \<Rightarrow> find (\<lambda>b. recyclable (buf_at s b)) (rev (lru s)))"

lemma bget_run:
  assumes "running s"
  shows "bget dev bn s =
    (case bpick dev bn s of
       None \<Rightarrow> Panic ''bget: no buffers''
     | Some b \<Rightarrow> sq (acquiresleep (SL_buf b)) (ret b) (upd_buf b (bget_upd dev bn) s))"
proof (cases "find (\<lambda>b. is_block dev bn (buf_at s b)) (lru s)")
  case (Some b)
  then have "is_block dev bn (buf_at s b)" by (auto simp: find_Some_iff)
  then have "upd_buf b (\<lambda>B. B\<lparr>b_refcnt := b_refcnt B + 1\<rparr>) s = upd_buf b (bget_upd dev bn) s"
    by (simp add: upd_buf_def bget_upd_def buf_at_def)
  with Some assms show ?thesis
    by (simp add: bget_def bpick_def upd_buf_held held_id)
next
  case None
  show ?thesis
  proof (cases "find (\<lambda>b. recyclable (buf_at s b)) (rev (lru s))")
    case (Some b)
    then have "b \<in> set (lru s)" using find_SomeD(1) by fastforce
    with None have "\<not> is_block dev bn (buf_at s b)" by (auto simp: find_None_iff)
    then have "upd_buf b (\<lambda>B. B\<lparr>b_dev := dev, b_blockno := bn, b_valid := False, b_dirty := False,
        b_refcnt := 1\<rparr>) s = upd_buf b (bget_upd dev bn) s"
      by (simp add: upd_buf_def bget_upd_def buf_at_def)
    with None Some assms show ?thesis
      by (simp add: bget_def bpick_def upd_buf_held held_id)
  qed (use None assms in \<open>simp add: bget_def bpick_def\<close>)
qed

lemma bpick_SomeD:
  assumes "bpick dev bn s = Some b"
  shows "b \<in> set (lru s)"
    and "is_block dev bn (buf_at s b) \<or>
      recyclable (buf_at s b) \<and> (\<forall>i \<in> set (lru s). \<not> is_block dev bn (buf_at s i))"
proof -
  show "b \<in> set (lru s)"
    using assms find_SomeD [of _ "lru s" b] find_SomeD [of _ "rev (lru s)" b] by (auto simp: bpick_def split: option.splits)
  show "is_block dev bn (buf_at s b) \<or>
      recyclable (buf_at s b) \<and> (\<forall>i \<in> set (lru s). \<not> is_block dev bn (buf_at s i))"
    using assms find_SomeD [of _ "lru s" b] find_SomeD [of _ "rev (lru s)" b]
    by (auto simp: bpick_def find_None_iff split: option.splits)
qed

text \<open>What \<open>iderw\<close> does to a buffer that needs it.\<close>

definition ide_effect :: "nat \<Rightarrow> 'm kbio_scheme \<Rightarrow> 'm kbio_scheme" where
  "ide_effect b s =
     (let B = buf_at s b in
      if b_dirty B
      then upd_buf b (\<lambda>B. B\<lparr>b_valid := True\<rparr>)
             ((upd_buf b (\<lambda>B. B\<lparr>b_dirty := False\<rparr>) s)
                \<lparr>disk := (disk s)(b_blockno B := b_data B),
                 dwrites := (b_blockno B, b_data B) # dwrites s\<rparr>)
      else upd_buf b (\<lambda>B. B\<lparr>b_valid := True\<rparr>)
             (upd_buf b (\<lambda>B. B\<lparr>b_data := disk s (b_blockno B)\<rparr>) s))"

definition ide_ready :: "nat \<Rightarrow> 'm kbio_scheme \<Rightarrow> bool" where
  "ide_ready b s \<longleftrightarrow>
     holds (SL_buf b) s \<and> (b_valid (buf_at s b) \<longrightarrow> b_dirty (buf_at s b)) \<and>
     b_dev (buf_at s b) = 1 \<and> b_blockno (buf_at s b) < disksize s"

lemma iderw_run: "running s \<Longrightarrow> ide_ready b s \<Longrightarrow> iderw b s = Ok () (ide_effect b s)"
  by (cases "b_dirty (buf_at s b)")
    (simp_all add: iderw_def running_holdingsleep ide_ready_def ide_effect_def Let_def not_le)

lemma iderw_Ok: "running s \<Longrightarrow> iderw b s = Ok x t \<Longrightarrow> ide_ready b s \<and> t = ide_effect b s"
proof -
  assume run: "running s" and r: "iderw b s = Ok x t"
  then have "ide_ready b s"
    by (auto simp: iderw_def running_holdingsleep bnd_eq_Ok ide_ready_def not_le split: if_splits)
  with run r show ?thesis by (simp add: iderw_run)
qed

definition bread_upd :: "(u32 \<Rightarrow> bytes) \<Rightarrow> u32 \<Rightarrow> buf \<Rightarrow> buf" where
  "bread_upd d bn B =
     (let B1 = bget_upd 1 bn B in if b_valid B1 then B1 else B1\<lparr>b_data := d bn, b_valid := True\<rparr>)"

definition bread_effect :: "u32 \<Rightarrow> nat \<Rightarrow> 'm kbio_scheme \<Rightarrow> 'm kbio_scheme" where
  "bread_effect bn b s = upd_buf b (bread_upd (disk s) bn) (lock_for (SL_buf b) s)"

lemma upd_buf_lock_for: "upd_buf b f (lock_for l s) = lock_for l (upd_buf b f s)"
  by (simp add: upd_buf_def lock_for_def proc_at_def)

lemma upd_buf_upd_buf: "upd_buf b g (upd_buf b f s) = upd_buf b (\<lambda>B. g (f B)) s"
  by (cases "b < length (bufs s)") (simp_all add: upd_buf_def list_update_beyond)

lemma upd_buf_cong: "f (buf_at s b) = g (buf_at s b) \<Longrightarrow> upd_buf b f s = upd_buf b g s"
  by (simp add: upd_buf_def buf_at_def)

lemma holds_lock_for [simp]: "holds l (lock_for l s)"
  by (simp add: holds_def)

lemma bget_upd_fields [simp]:
  "b_dev (bget_upd dev bn B) = dev" "b_blockno (bget_upd dev bn B) = bn"
  "b_refcnt (bget_upd dev bn B) > 0"
  by (simp_all add: bget_upd_def is_block_def)

lemma bread_run:
  assumes "running s" "bcache_ok H s" "bpick 1 bn s = Some b" "\<not> sl_locked (slocks s (SL_buf b))"
    and "b_valid (bget_upd 1 bn (buf_at s b)) \<or> bn < disksize s"
  shows "bread 1 bn s = Ok b (bread_effect bn b s)"
proof -
  let ?s1 = "lock_for (SL_buf b) (upd_buf b (bget_upd 1 bn) s)"
  have b: "b < length (bufs s)" "b < NBUF"
    using bpick_SomeD(1) [OF assms(3)] assms(2) by (auto simp: bcache_ok_def bcache_wf_def)
  have g: "bget 1 bn s = Ok b ?s1"
    using assms by (simp add: bget_run running_acquiresleep)
  have at: "buf_at (upd_buf b (bget_upd 1 bn) s) b = bget_upd 1 bn (buf_at s b)" using b by (simp add: buf_at_upd_buf)
  show ?thesis
  proof (cases "b_valid (bget_upd 1 bn (buf_at s b))")
    case True
    then have "bread_effect bn b s = ?s1"
      unfolding bread_effect_def upd_buf_lock_for
      by (intro arg_cong [where f = "lock_for _"] upd_buf_cong) (simp add: bread_upd_def)
    with True g at show ?thesis by (simp add: bread_def)
  next
    case False
    have nd: "\<not> b_dirty (bget_upd 1 bn (buf_at s b))"
      using False assms(2) b(2) by (auto simp: bget_upd_def bcache_ok_def buf_ok_def)
    have "ide_ready b ?s1" using False assms(5) by (simp add: ide_ready_def at)
    then have "iderw b ?s1 = Ok () (ide_effect b ?s1)" using assms(1) by (simp add: iderw_run)
    moreover have "ide_effect b ?s1 = bread_effect bn b s"
      using False nd unfolding ide_effect_def Let_def bread_effect_def buf_at_lock at
      by (simp add: upd_buf_lock_for upd_buf_upd_buf)
        (intro arg_cong [where f = "lock_for _"] upd_buf_cong, simp add: bread_upd_def)
    ultimately show ?thesis using False g at by (simp add: bread_def)
  qed
qed

lemma bread_Ok_effect:
  assumes "running s" "bcache_ok H s" "bread 1 bn s = Ok b t"
  shows "bpick 1 bn s = Some b" and "\<not> sl_locked (slocks s (SL_buf b))"
    and "t = bread_effect bn b s"
proof -
  from assms obtain u where g: "bget 1 bn s = Ok b u"
    and w: "\<not> b_valid (buf_at u b) \<longrightarrow> iderw b u = Ok () t"
    by (auto simp: bread_def bnd_eq_Ok sq_eq_Ok whenk_def split: if_splits)
  then obtain b' where p: "bpick 1 bn s = Some b'"
    using assms(1) by (cases "bpick 1 bn s") (auto simp: bget_run)
  with g assms(1) have b: "b' = b"
    and a: "acquiresleep (SL_buf b) (upd_buf b (bget_upd 1 bn) s) = Ok () u"
    by (auto simp: bget_run sq_eq_Ok)
  from acquiresleep_Ok [OF a]
  have lk: "\<not> sl_locked (slocks s (SL_buf b))"
    and u: "u = lock_for (SL_buf b) (upd_buf b (bget_upd 1 bn) s)" by auto
  have len: "b < length (bufs s)"
    using bpick_SomeD(1) [OF p] assms(2) b by (auto simp: bcache_ok_def bcache_wf_def)
  have "b_valid (bget_upd 1 bn (buf_at s b)) \<or> bn < disksize s"
    using w iderw_Ok [of u b "()" t] assms(1) len
    by (auto simp: u ide_ready_def buf_at_upd_buf)
  from bread_run [OF assms(1,2) _ _ this] p b lk assms(3)
  show "bpick 1 bn s = Some b" "\<not> sl_locked (slocks s (SL_buf b))" "t = bread_effect bn b s"
    by auto
qed

lemma bcache_bounds:
  assumes "bcache_ok H s"
  shows "length (bufs s) = NBUF" and "i \<in> H \<Longrightarrow> i < NBUF" and "i \<in> set (lru s) \<longleftrightarrow> i < NBUF"
    and "length (disk s bn) = BSIZE" and "i \<in> H \<Longrightarrow> holds (SL_buf i) s"
    and "i < NBUF \<Longrightarrow> buf_ok (disk s) (i \<in> H) (buf_at s i)"
  using assms by (auto simp: bcache_ok_def bcache_wf_def)

lemma bread_upd_fields [simp]:
  "b_dev (bread_upd d bn B) = 1" "b_blockno (bread_upd d bn B) = bn" "b_valid (bread_upd d bn B)"
  "b_refcnt (bread_upd d bn B) > 0"
  by (simp_all add: bread_upd_def Let_def)

lemma bread_upd_dirty: "b_dirty (bread_upd d bn B) \<longleftrightarrow> is_block 1 bn B \<and> b_dirty B"
  by (simp add: bread_upd_def bget_upd_def Let_def)

lemma bread_upd_data:
  "b_data (bread_upd d bn B) = (if is_block 1 bn B \<and> b_valid B then b_data B else d bn)"
  by (simp add: bread_upd_def bget_upd_def Let_def)

lemma bread_effect_fields [simp]:
  "lru (bread_effect bn b s) = lru s" "disk (bread_effect bn b s) = disk s"
  "dwrites (bread_effect bn b s) = dwrites s" "length (bufs (bread_effect bn b s)) = length (bufs s)"
  "running (bread_effect bn b s) = running s"
  "slocks (bread_effect bn b s) = slocks (lock_for (SL_buf b) s)"
  "proc_at (bread_effect bn b s) = proc_at s"
  by (simp_all add: bread_effect_def)

lemma buf_at_bread_effect:
  "b < length (bufs s) \<Longrightarrow>
   buf_at (bread_effect bn b s) i = (if i = b then bread_upd (disk s) bn (buf_at s b) else buf_at s i)"
  by (simp add: bread_effect_def buf_at_upd_buf)

lemma bframe_bread_effect: "bframe s (bread_effect bn b s)"
  by (simp add: bframe_def bbase_def bread_effect_def)

text \<open>
  The buffer \<open>bread\<close> returns was not checked out, it was the one that had the block already or
  one that held a different block and was clean and unused.
\<close>

lemma bpick_ok:
  assumes "bcache_ok H s" "bpick 1 bn s = Some b" "\<not> sl_locked (slocks s (SL_buf b))"
  shows "b < NBUF" "b \<notin> H"
    and "is_block 1 bn (buf_at s b) \<or> \<not> b_dirty (buf_at s b) \<and> (\<forall>i<NBUF. \<not> is_block 1 bn (buf_at s i))"
  using bpick_SomeD [OF assms(2)] assms(1,3) bcache_bounds(5) [OF assms(1), of b]
  by (auto simp: bcache_bounds [OF assms(1)] holds_def recyclable_def)

lemma bread_effect_wf:
  assumes "bcache_ok H s" "bpick 1 bn s = Some b" "\<not> sl_locked (slocks s (SL_buf b))"
  shows "bcache_wf (bread_effect bn b s)"
proof -
  note b = bpick_ok [OF assms] and bnd = bcache_bounds [OF assms(1)]
  from assms(1) have "blocks_unique s" by (simp add: bcache_ok_def bcache_wf_def)
  then have "blocks_unique (bread_effect bn b s)"
    using b by (fastforce simp: blocks_unique_def buf_at_bread_effect bnd is_block_def)
  with assms(1) show ?thesis by (simp add: bcache_wf_def bcache_ok_def)
qed

lemma bread_effect_ok:
  assumes "bcache_ok H s" "bpick 1 bn s = Some b" "\<not> sl_locked (slocks s (SL_buf b))"
  shows "bcache_ok (insert b H) (bread_effect bn b s)"
proof -
  note b = bpick_ok [OF assms] and bnd = bcache_bounds [OF assms(1)]
  have "buf_ok (disk s) True (bread_upd (disk s) bn (buf_at s b))"
    using bnd(6) [OF b(1)] by (auto simp: buf_ok_def bread_upd_dirty bread_upd_data bnd)
  moreover have "holds (SL_buf i) (bread_effect bn b s)" if "i \<in> insert b H" for i
    using that bnd(5) [of i] by (auto simp: holds_def)
  ultimately show ?thesis
    using bread_effect_wf [OF assms] bnd b
    by (auto simp: bcache_ok_def buf_at_bread_effect)
qed

lemma bread_effect_view:
  assumes "bcache_ok H s" "bpick 1 bn s = Some b" "\<not> sl_locked (slocks s (SL_buf b))"
  shows "view (bread_effect bn b s) = view s"
    and "b_data (buf_at (bread_effect bn b s) b) = view s bn"
proof -
  note b = bpick_ok [OF assms] and bnd = bcache_bounds [OF assms(1)]
  have wf: "bcache_wf s" using assms(1) by (simp add: bcache_ok_def)
  have u: "i = b" if "is_block 1 bn (buf_at s b)" "i < NBUF" "is_block 1 bn (buf_at s i)" for i
    using wf that b(1) by (auto simp: bcache_wf_def blocks_unique_def is_block_def)
  show data: "b_data (buf_at (bread_effect bn b s) b) = view s bn"
  proof (cases "is_block 1 bn (buf_at s b) \<and> b_valid (buf_at s b)")
    case True
    then have "view s bn = b_data (buf_at s b)"
      using b wf by (intro view_cached) (auto simp: caches_def)
    with True b bnd show ?thesis by (simp add: buf_at_bread_effect bread_upd_data)
  next
    case False
    then have "\<forall>i<NBUF. \<not> caches s bn i" using b(3) u by (auto simp: caches_def)
    then have "view s bn = disk s bn" by (rule view_uncached)
    with False b(1) bnd(1) show ?thesis by (auto simp: buf_at_bread_effect bread_upd_data)
  qed
  show "view (bread_effect bn b s) = view s"
  proof
    fix n
    show "view (bread_effect bn b s) n = view s n"
    proof (cases "n = bn")
      case True
      then show ?thesis
        using data view_cached [OF bread_effect_wf [OF assms] b(1), of bn]
        by (simp add: caches_def buf_at_bread_effect bnd b is_block_def)
    next
      case False
      then have c: "caches (bread_effect bn b s) n i \<longleftrightarrow> i \<noteq> b \<and> caches s n i" for i
        using b bnd by (auto simp: caches_def buf_at_bread_effect is_block_def)
      have "disk s n = b_data (buf_at s b)" if "caches s n b"
        using that False b bnd(6) [OF b(1)]
        by (auto simp: caches_def is_block_def buf_ok_def)
      then show ?thesis
        using b bnd view_cached [OF wf] view_uncached [of s n]
        by (intro view_eqI bread_effect_wf [OF assms] wf) (metis buf_at_bread_effect c bread_effect_fields(2))+
    qed
  qed
qed

lemma dirty_upd_same:
  assumes "bcache_ok H s" "b < NBUF"
    and "b_dirty (f (buf_at s b)) = b_dirty (buf_at s b)"
    and "b_dirty (buf_at s b) \<Longrightarrow> b_blockno (f (buf_at s b)) = b_blockno (buf_at s b)"
  shows "dirty_blocks (upd_buf b f s) = dirty_blocks s"
  using assms by (auto simp: dirty_blocks_def buf_at_upd_buf bcache_bounds)

text \<open>\<open>bread\<close>: the contents of the block, a buffer that was not checked out, the view unchanged.\<close>

lemma bread_Ok:
  assumes "running s" "bcache_ok H s" "bread 1 bn s = Ok b t"
  shows "b < NBUF" and "b \<notin> H" and "bcache_ok (insert b H) t" and "is_block 1 bn (buf_at t b)"
    and "b_data (buf_at t b) = view s bn" and "view t = view s"
    and "i \<noteq> b \<Longrightarrow> buf_at t i = buf_at s i" and "bframe s t" and "disk t = disk s"
    and "dwrites t = dwrites s" and "dirty_blocks t = dirty_blocks s"
    and "b_dirty (buf_at t b) \<or> b_data (buf_at t b) = disk t bn"
proof -
  note e = bread_Ok_effect [OF assms]
  note b = bpick_ok [OF assms(2) e(1,2)] and bnd = bcache_bounds [OF assms(2)]
  show "b < NBUF" "b \<notin> H" by (fact b)+
  show "bcache_ok (insert b H) t" unfolding e(3) by (rule bread_effect_ok [OF assms(2) e(1,2)])
  show "is_block 1 bn (buf_at t b)" "i \<noteq> b \<Longrightarrow> buf_at t i = buf_at s i"
    using b bnd by (simp_all add: e(3) buf_at_bread_effect is_block_def)
  show "b_data (buf_at t b) = view s bn" "view t = view s"
    unfolding e(3) by (rule bread_effect_view [OF assms(2) e(1,2)])+
  show "bframe s t" "disk t = disk s" "dwrites t = dwrites s"
    by (simp_all add: e(3) bframe_bread_effect)
  show "b_dirty (buf_at t b) \<or> b_data (buf_at t b) = disk t bn"
    using b bnd(1) bnd(6) [OF b(1)]
    by (auto simp: e(3) buf_at_bread_effect bread_upd_dirty bread_upd_data is_block_def buf_ok_def)
  have "dirty_blocks (upd_buf b (bread_upd (disk s) bn) s) = dirty_blocks s"
    using b assms(2) by (intro dirty_upd_same) (auto simp: bread_upd_dirty is_block_def)
  then show "dirty_blocks t = dirty_blocks s"
    by (simp add: e(3) bread_effect_def upd_buf_lock_for dirty_blocks_def)
qed

text \<open>A change of the bytes of a checked-out buffer.\<close>

lemma upd_held_ok:
  assumes "bcache_ok H s" "b \<in> H" "buf_ok (disk s) True (f (buf_at s b))"
    and "b_dev (f (buf_at s b)) = b_dev (buf_at s b)" "b_blockno (f (buf_at s b)) = b_blockno (buf_at s b)"
  shows "bcache_ok H (upd_buf b f s)"
proof -
  note bnd = bcache_bounds [OF assms(1)]
  have "b_dev (buf_at (upd_buf b f s) i) = b_dev (buf_at s i)"
    "b_blockno (buf_at (upd_buf b f s) i) = b_blockno (buf_at s i)" for i
    using assms(4,5) by (simp_all add: buf_at_upd_buf)
  then have "blocks_unique (upd_buf b f s) = blocks_unique s"
    unfolding blocks_unique_def by simp
  with assms show ?thesis
    by (auto simp: bcache_ok_def bcache_wf_def buf_at_upd_buf)
qed

lemma upd_held_view:
  assumes "bcache_ok H s" "b \<in> H" "bcache_ok H (upd_buf b f s)"
    and "is_block 1 bn (buf_at s b)" and "is_block 1 bn (f (buf_at s b))"
  shows "view (upd_buf b f s) = (view s)(bn := b_data (f (buf_at s b)))"
proof
  fix n
  note bnd = bcache_bounds [OF assms(1)]
  have b: "b < NBUF" using assms(2) by (rule bnd(2))
  have wf: "bcache_wf s" "bcache_wf (upd_buf b f s)" using assms(1,3) by (auto simp: bcache_ok_def)
  have v: "b_valid (f (buf_at s b))" "b_valid (buf_at s b)"
    using bcache_bounds(6) [OF assms(3) b] bnd(6) [OF b] assms(2) b bnd(1)
    by (auto simp: buf_ok_def buf_at_upd_buf)
  show "view (upd_buf b f s) n = ((view s)(bn := b_data (f (buf_at s b)))) n"
  proof (cases "n = bn")
    case True
    then show ?thesis
      using view_cached [OF wf(2) b, of bn] b bnd(1) v assms(5) by (simp add: caches_def buf_at_upd_buf)
  next
    case False
    then have "caches (upd_buf b f s) n = caches s n"
      using assms(4,5) by (auto simp: caches_def buf_at_upd_buf is_block_def fun_eq_iff)
    moreover have "buf_at (upd_buf b f s) i = buf_at s i" if "caches s n i" for i
      using that False assms(4) by (auto simp: buf_at_upd_buf caches_def is_block_def)
    ultimately have "view (upd_buf b f s) n = view s n"
      by (auto simp: view_def split: option.splits dest!: find_SomeD(2))
    with False show ?thesis by simp
  qed
qed

lemma set_bdata_ok:
  assumes "bcache_ok H s" "b \<in> H" "length d = BSIZE" "is_block 1 bn (buf_at s b)"
  shows "bcache_ok H (upd_buf b (b_data_update (\<lambda>_. d)) s)"
    and "view (upd_buf b (b_data_update (\<lambda>_. d)) s) = (view s)(bn := d)"
    and "dirty_blocks (upd_buf b (b_data_update (\<lambda>_. d)) s) = dirty_blocks s"
proof -
  show ok: "bcache_ok H (upd_buf b (b_data_update (\<lambda>_. d)) s)"
    using assms bcache_bounds(2,6) [OF assms(1), of b] by (intro upd_held_ok) (auto simp: buf_ok_def)
  show "view (upd_buf b (b_data_update (\<lambda>_. d)) s) = (view s)(bn := d)"
    using upd_held_view [OF assms(1,2) ok assms(4)] assms(4) by (simp add: is_block_def)
  show "dirty_blocks (upd_buf b (b_data_update (\<lambda>_. d)) s) = dirty_blocks s"
    using assms bcache_bounds(2) [OF assms(1), of b] by (intro dirty_upd_same) auto
qed

lemma set_dirty_ok:
  assumes "bcache_ok H s" "b \<in> H" "is_block 1 bn (buf_at s b)"
  shows "bcache_ok H (upd_buf b (b_dirty_update (\<lambda>_. True)) s)"
    and "view (upd_buf b (b_dirty_update (\<lambda>_. True)) s) = view s"
    and "dirty_blocks (upd_buf b (b_dirty_update (\<lambda>_. True)) s) = insert bn (dirty_blocks s)"
proof -
  have b: "b < NBUF" "length (bufs s) = NBUF" "bcache_wf s" "b_valid (buf_at s b)"
    using bcache_bounds(1) [OF assms(1)] bcache_bounds(2,6) [OF assms(1), of b] assms(1,2)
    by (auto simp: bcache_ok_def buf_ok_def)
  show ok: "bcache_ok H (upd_buf b (b_dirty_update (\<lambda>_. True)) s)"
    using assms bcache_bounds(2,6) [OF assms(1), of b] by (intro upd_held_ok) (auto simp: buf_ok_def)
  have "view s bn = b_data (buf_at s b)" using assms b by (intro view_cached) (auto simp: caches_def)
  with upd_held_view [OF assms(1,2) ok assms(3)] assms(3)
  show "view (upd_buf b (b_dirty_update (\<lambda>_. True)) s) = view s"
    by (auto simp: is_block_def fun_eq_iff)
  show "dirty_blocks (upd_buf b (b_dirty_update (\<lambda>_. True)) s) = insert bn (dirty_blocks s)"
    using b assms(3) by (auto simp: dirty_blocks_def buf_at_upd_buf is_block_def)
qed

text \<open>\<open>bwrite\<close>: the disk gets the contents of the buffer.\<close>

definition bwrite_effect :: "nat \<Rightarrow> 'm kbio_scheme \<Rightarrow> 'm kbio_scheme" where
  "bwrite_effect b s =
     (upd_buf b (b_dirty_update (\<lambda>_. False)) s)
       \<lparr>disk := (disk s)(b_blockno (buf_at s b) := b_data (buf_at s b)),
        dwrites := (b_blockno (buf_at s b), b_data (buf_at s b)) # dwrites s\<rparr>"

lemma buf_valid_id: "b_valid B \<Longrightarrow> B\<lparr>b_valid := True\<rparr> = B"
  by (cases B) simp

lemma upd_buf_disk: "upd_buf b f (s\<lparr>disk := d, dwrites := w\<rparr>) = (upd_buf b f s)\<lparr>disk := d, dwrites := w\<rparr>"
  by (simp add: upd_buf_def)

lemma bwrite_run:
  assumes "running s" "bcache_ok H s" "b \<in> H" "b_blockno (buf_at s b) < disksize s"
  shows "bwrite b s = Ok () (bwrite_effect b s)"
proof -
  note bnd = bcache_bounds [OF assms(2)]
  have b: "b < length (bufs s)" and h: "holds (SL_buf b) s" and o: "buf_ok (disk s) True (buf_at s b)"
    using bnd(1) bnd(2,5,6) [of b] assms(3) by auto
  let ?s = "upd_buf b (b_dirty_update (\<lambda>_. True)) s"
  have "ide_ready b ?s" using b h o assms(4) by (simp add: ide_ready_def buf_at_upd_buf buf_ok_def)
  then have "bwrite b s = Ok () (ide_effect b ?s)"
    using h assms(1) by (simp add: bwrite_def running_holdingsleep iderw_run)
  also have "ide_effect b ?s = bwrite_effect b s"
    using b o by (simp add: ide_effect_def bwrite_effect_def buf_at_upd_buf Let_def upd_buf_disk upd_buf_upd_buf)
      (intro arg_cong2 [where f = "\<lambda>x y. x\<lparr>disk := y, dwrites := _\<rparr>"] upd_buf_cong,
       simp_all add: buf_ok_def buf_valid_id)
  finally show ?thesis .
qed

lemma bwrite_Ok:
  assumes "running s" "bcache_ok H s" "b \<in> H" "bwrite b s = Ok x t"
  shows "t = bwrite_effect b s" "b_blockno (buf_at s b) < disksize s"
proof -
  note bnd = bcache_bounds [OF assms(2)]
  have b: "b < length (bufs s)" and h: "holds (SL_buf b) s"
    using bnd(1) bnd(2,5) [of b] assms(3) by auto
  have "iderw b (upd_buf b (b_dirty_update (\<lambda>_. True)) s) = Ok x t"
    using assms h by (simp add: bwrite_def running_holdingsleep)
  from iderw_Ok [OF _ this] show n: "b_blockno (buf_at s b) < disksize s"
    using assms(1) b by (simp add: ide_ready_def buf_at_upd_buf)
  with assms show "t = bwrite_effect b s" by (simp add: bwrite_run)
qed

lemma buf_at_bwrite_effect:
  "b < length (bufs s) \<Longrightarrow> buf_at (bwrite_effect b s) i =
     (if i = b then (buf_at s b)\<lparr>b_dirty := False\<rparr> else buf_at s i)"
  using buf_at_upd_buf [of b "b_dirty_update (\<lambda>_. False)" s i] by (simp add: bwrite_effect_def buf_at_def)

lemma bwrite_effect_fields [simp]:
  "disk (bwrite_effect b s) = (disk s)(b_blockno (buf_at s b) := b_data (buf_at s b))"
  "dwrites (bwrite_effect b s) = (b_blockno (buf_at s b), b_data (buf_at s b)) # dwrites s"
  "lru (bwrite_effect b s) = lru s" "length (bufs (bwrite_effect b s)) = length (bufs s)"
  "slocks (bwrite_effect b s) = slocks s" "cur (bwrite_effect b s) = cur s"
  "ptab (bwrite_effect b s) = ptab s" "held (bwrite_effect b s) = held s"
  "proc_at (bwrite_effect b s) = proc_at s"
  by (simp_all add: bwrite_effect_def proc_at_def)

lemma running_bwrite_effect [simp]: "running (bwrite_effect b s) = running s"
  by (rule running_cong) simp_all

lemma bframe_bwrite_effect: "bframe s (bwrite_effect b s)"
  by (simp add: bframe_def bbase_def) (simp add: bwrite_effect_def)

lemma bwrite_effect_ok:
  assumes "bcache_ok H s" "b \<in> H" "is_block 1 bn (buf_at s b)"
  shows "bcache_ok H (bwrite_effect b s)"
    and "view (bwrite_effect b s) = view s"
    and "dirty_blocks (bwrite_effect b s) = dirty_blocks s - {bn}"
proof -
  note bnd = bcache_bounds [OF assms(1)]
  have b: "b < NBUF" "length (bufs s) = NBUF" and wf: "bcache_wf s"
    and o: "buf_ok (disk s) True (buf_at s b)" and bn: "b_blockno (buf_at s b) = bn"
    using bnd(1) bnd(2,6) [of b] assms by (auto simp: bcache_ok_def is_block_def)
  have u: "i = b" if "i < NBUF" "b_valid (buf_at s i)" "b_blockno (buf_at s i) = bn" for i
    using wf that b assms(3) bnd(6) [of i]
    by (auto simp: bcache_wf_def blocks_unique_def is_block_def buf_ok_def)
  have dev: "b_dev (buf_at (bwrite_effect b s) i) = b_dev (buf_at s i)"
    "b_blockno (buf_at (bwrite_effect b s) i) = b_blockno (buf_at s i)"
    "b_data (buf_at (bwrite_effect b s) i) = b_data (buf_at s i)"
    "b_valid (buf_at (bwrite_effect b s) i) = b_valid (buf_at s i)" for i
    using b by (simp_all add: buf_at_bwrite_effect)
  have "length (b_data (buf_at s b)) = BSIZE" using o by (simp add: buf_ok_def)
  then have wf': "bcache_wf (bwrite_effect b s)"
    using wf by (simp add: bcache_wf_def blocks_unique_def dev)
  have "buf_ok ((disk s)(bn := b_data (buf_at s b))) (i \<in> H) (buf_at (bwrite_effect b s) i)"
    if "i < NBUF" for i
  proof (cases "i = b")
    case True
    with b o bn assms(2) show ?thesis by (simp add: buf_ok_def buf_at_bwrite_effect)
  next
    case False
    then have "buf_at (bwrite_effect b s) i = buf_at s i" using b by (simp add: buf_at_bwrite_effect)
    with False bnd(6) [OF that] u [OF that] show ?thesis by (auto simp: buf_ok_def)
  qed
  with wf' bnd show "bcache_ok H (bwrite_effect b s)"
    by (auto simp: bcache_ok_def bn holds_def)
  have c: "caches (bwrite_effect b s) n = caches s n" for n
    by (auto simp: caches_def is_block_def dev)
  have "view (bwrite_effect b s) n = view s n" for n
  proof (cases "n = bn")
    case True
    have "caches s bn b" using o assms(3) by (simp add: caches_def buf_ok_def)
    with True show ?thesis
      using view_cached [OF wf b(1), of bn] view_cached [OF wf' b(1), of bn] by (simp add: c dev)
  qed (simp add: view_def c dev bn split: option.split)
  then show "view (bwrite_effect b s) = view s" by (rule ext)
  have d: "b_dirty (buf_at (bwrite_effect b s) i) \<longleftrightarrow> i \<noteq> b \<and> b_dirty (buf_at s i)" for i
    using b by (simp add: buf_at_bwrite_effect)
  have "b_valid (buf_at s i)" if "i < NBUF" "b_dirty (buf_at s i)" for i
    using bnd(6) [OF that(1)] that(2) by (simp add: buf_ok_def)
  then show "dirty_blocks (bwrite_effect b s) = dirty_blocks s - {bn}"
    unfolding dirty_blocks_def dev d using u bn by blast
qed

text \<open>\<open>brelse\<close>: the buffer is checked in.\<close>

definition brelse_effect :: "nat \<Rightarrow> 'm kbio_scheme \<Rightarrow> 'm kbio_scheme" where
  "brelse_effect b s =
     (let t = upd_buf b (\<lambda>B. B\<lparr>b_refcnt := b_refcnt B - 1\<rparr>) (unlock (SL_buf b) s)
      in if b_refcnt (buf_at t b) = 0 then t\<lparr>lru := to_front b (lru t)\<rparr> else t)"

lemma brelse_run:
  assumes "running s" "holds (SL_buf b) s"
  shows "brelse b s = Ok () (brelse_effect b s)"
  using assms
  by (auto simp: brelse_def running_holdingsleep running_releasesleep brelse_effect_def Let_def
      upd_buf_held)

lemma set_to_front: "b \<in> set bs \<Longrightarrow> set (to_front b bs) = set bs"
proof -
  assume "b \<in> set bs"
  moreover have "x \<in> set (remove1 b bs) \<longleftrightarrow> x \<in> set bs" if "x \<noteq> b" for x using that by simp
  ultimately show ?thesis 
    using set_remove1_subset [of b bs] unfolding to_front_def list.set by blast
qed

lemma distinct_to_front: "distinct bs \<Longrightarrow> distinct (to_front b bs)"
  by (simp add: to_front_def)

lemma brelse_effect_fields [simp]:
  "disk (brelse_effect b s) = disk s" "dwrites (brelse_effect b s) = dwrites s"
  "length (bufs (brelse_effect b s)) = length (bufs s)"
  "slocks (brelse_effect b s) = slocks (unlock (SL_buf b) s)" "cur (brelse_effect b s) = cur s"
  "ptab (brelse_effect b s) = ptab (unlock (SL_buf b) s)" "held (brelse_effect b s) = held s"
  "kbio.more (brelse_effect b s) = kbio.more s"
  by (simp_all add: brelse_effect_def Let_def)

lemma lru_brelse_effect:
  "lru (brelse_effect b s) = lru s \<or> lru (brelse_effect b s) = to_front b (lru s)"
  by (simp add: brelse_effect_def Let_def)

lemma buf_at_brelse_effect:
  "b < length (bufs s) \<Longrightarrow> buf_at (brelse_effect b s) i =
     (if i = b then (buf_at s b)\<lparr>b_refcnt := b_refcnt (buf_at s b) - 1\<rparr> else buf_at s i)"
  by (simp add: brelse_effect_def Let_def buf_at_upd_buf)

lemma running_brelse_effect [simp]: "running s \<Longrightarrow> running (brelse_effect b s)"
  by (subst running_cong [of _ "unlock (SL_buf b) s"]) simp_all

lemma proc_at_brelse_effect [simp]: "running s \<Longrightarrow> proc_at (brelse_effect b s) = proc_at s"
proof -
  assume "running s"
  have "proc_at (brelse_effect b s) = proc_at (unlock (SL_buf b) s)" by (simp add: proc_at_def)
  with \<open>running s\<close> show ?thesis by simp
qed

lemma wake_proc_state: "(wake_proc ch p)\<lparr>p_state := UNUSED\<rparr> = p\<lparr>p_state := UNUSED\<rparr>"
  by (simp add: wake_proc_def)

lemma bframe_brelse_effect: "running s \<Longrightarrow> bframe s (brelse_effect b s)"
  by (simp add: bframe_def bbase_def o_def wake_proc_state) (simp add: brelse_effect_def Let_def)

lemma brelse_effect_ok:
  assumes "bcache_ok H s" "running s" "b \<in> H" "is_block 1 bn (buf_at s b)"
    and "b_dirty (buf_at s b) \<or> b_data (buf_at s b) = disk s bn"
  shows "bcache_ok (H - {b}) (brelse_effect b s)"
    and "view (brelse_effect b s) = view s"
    and "dirty_blocks (brelse_effect b s) = dirty_blocks s"
proof -
  note bnd = bcache_bounds [OF assms(1)]
  have b: "b < NBUF" "length (bufs s) = NBUF" and wf: "bcache_wf s"
    and o: "buf_ok (disk s) True (buf_at s b)" and bn: "b_blockno (buf_at s b) = bn"
    using bnd(1) bnd(2,6) [of b] assms by (auto simp: bcache_ok_def is_block_def)
  have dev: "b_dev (buf_at (brelse_effect b s) i) = b_dev (buf_at s i)"
    "b_blockno (buf_at (brelse_effect b s) i) = b_blockno (buf_at s i)"
    "b_data (buf_at (brelse_effect b s) i) = b_data (buf_at s i)"
    "b_dirty (buf_at (brelse_effect b s) i) = b_dirty (buf_at s i)"
    "b_valid (buf_at (brelse_effect b s) i) = b_valid (buf_at s i)" for i
    using b by (simp_all add: buf_at_brelse_effect)
  have l: "distinct (lru (brelse_effect b s))" "set (lru (brelse_effect b s)) = {..<NBUF}"
    using lru_brelse_effect [of b s] wf set_to_front [of b "lru s"] distinct_to_front [of "lru s" b] b
    by (auto simp: bcache_wf_def)
  have wf': "bcache_wf (brelse_effect b s)"
    using wf l by (simp add: bcache_wf_def blocks_unique_def dev)
  have "buf_ok (disk s) (i \<in> H - {b}) (buf_at (brelse_effect b s) i)" if "i < NBUF" for i
    using bnd(6) [OF that] o b assms(5) bn by (cases "i = b") (auto simp: buf_ok_def buf_at_brelse_effect)
  moreover have "holds (SL_buf i) (brelse_effect b s)" if "i \<in> H - {b}" for i
    using that bnd(5) [of i] assms(2) by (auto simp: holds_def)
  ultimately show "bcache_ok (H - {b}) (brelse_effect b s)"
    using wf' bnd by (auto simp: bcache_ok_def)
  have c: "caches (brelse_effect b s) n = caches s n" for n
    by (auto simp: caches_def is_block_def dev)
  show "view (brelse_effect b s) = view s"
    by (rule ext) (simp add: view_def c dev split: option.split)
  show "dirty_blocks (brelse_effect b s) = dirty_blocks s"
    by (simp add: dirty_blocks_def dev)
qed

section \<open>States that differ elsewhere\<close>

lemma bcache_cong:
  fixes s t :: "'m kbio_scheme"
  assumes "bufs t = bufs s" "lru t = lru s" "disk t = disk s" "slocks t = slocks s"
    "ptab t = ptab s" "cur t = cur s"
  shows "bcache_ok H t = bcache_ok H s" "view t = view s" "dirty_blocks t = dirty_blocks s"
    "buf_at t = buf_at s" "proc_at t = proc_at s"
proof -
  show at: "buf_at t = buf_at s" "proc_at t = proc_at s"
    using assms by (auto simp: buf_at_def proc_at_def)
  have "caches t = caches s" by (auto simp: caches_def at fun_eq_iff)
  then show "view t = view s" using assms by (intro ext) (simp add: view_def at split: option.split)
  show "bcache_ok H t = bcache_ok H s"
    using assms by (simp add: bcache_ok_def bcache_wf_def blocks_unique_def at holds_def)
  show "dirty_blocks t = dirty_blocks s" by (simp add: dirty_blocks_def at)
qed

section \<open>Reading and writing one block\<close>

lemma bdata_run [simp]: "bdata b s = Ok (b_data (buf_at s b)) s"
  by (simp add: bdata_def)

lemma set_bdata_run [simp]: "set_bdata b d s = Ok () (upd_buf b (b_data_update (\<lambda>_. d)) s)"
  by (simp add: set_bdata_def)

lemma view_length:
  assumes "bcache_ok H s"
  shows "length (view s bn) = BSIZE"
proof -
  have wf: "bcache_wf s" using assms by (simp add: bcache_ok_def)
  show ?thesis
    using bcache_bounds(4,6) [OF assms]
    by (cases rule: view_cases [OF wf, of bn]) (auto simp: caches_def buf_ok_def)
qed

lemma view_clean:
  assumes "bcache_ok {} s" "bn \<notin> dirty_blocks s"
  shows "view s bn = disk s bn"
proof -
  have wf: "bcache_wf s" using assms by (simp add: bcache_ok_def)
  show ?thesis
    using bcache_bounds(6) [OF assms(1)] assms(2)
    by (cases rule: view_cases [OF wf, of bn])
      (auto simp: caches_def buf_ok_def is_block_def dirty_blocks_def)
qed

lemma brelse_Ok:
  assumes "running s" "bcache_ok H s" "b \<in> H" "is_block 1 bn (buf_at s b)"
    and "b_dirty (buf_at s b) \<or> b_data (buf_at s b) = disk s bn"
    and "brelse b s = Ok x t"
  shows "bcache_ok (H - {b}) t" "view t = view s" "dirty_blocks t = dirty_blocks s" "running t"
    "bframe s t" "disk t = disk s" "dwrites t = dwrites s"
    "i \<noteq> b \<Longrightarrow> buf_at t i = buf_at s i"
proof -
  have t: "t = brelse_effect b s"
    using assms(6) bcache_bounds(5) [OF assms(2,3)] assms(1) by (simp add: brelse_run)
  note b = bcache_bounds(1) [OF assms(2)] bcache_bounds(2) [OF assms(2,3)]
  show "bcache_ok (H - {b}) t" "view t = view s" "dirty_blocks t = dirty_blocks s"
    unfolding t by (rule brelse_effect_ok [OF assms(2,1,3-5)])+
  show "running t" "bframe s t" "disk t = disk s" "dwrites t = dwrites s"
    "i \<noteq> b \<Longrightarrow> buf_at t i = buf_at s i"
    using assms(1) b by (simp_all add: t bframe_brelse_effect buf_at_brelse_effect)
qed

lemma bframe_running: "bframe s t \<Longrightarrow> running s \<Longrightarrow> running t"
  by (simp add: bframe_def bbase_def)

text \<open>\<open>bread\<close> followed by \<open>brelse\<close>: a read of a block.\<close>

lemma bread_brelse_Ok:
  assumes "running s" "bcache_ok H s" "bread 1 bn s = Ok b u" "brelse b u = Ok x t"
  shows "bcache_ok H t" "view t = view s" "dirty_blocks t = dirty_blocks s" "running t"
    "bframe s t" "disk t = disk s" "dwrites t = dwrites s" "i \<noteq> b \<Longrightarrow> buf_at t i = buf_at s i"
proof -
  note r = bread_Ok [OF assms(1-3)]
  have run: "running u" by (rule bframe_running [OF r(8) assms(1)])
  note e = brelse_Ok [OF run r(3) insertI1 r(4,12) assms(4)]
  have "insert b H - {b} = H" using r(2) by auto
  with e r show "bcache_ok H t" "view t = view s" "dirty_blocks t = dirty_blocks s" "running t"
    "bframe s t" "disk t = disk s" "dwrites t = dwrites s" "i \<noteq> b \<Longrightarrow> buf_at t i = buf_at s i"
    by (auto intro: bframe_trans)
qed

section \<open>No other user of the cache\<close>

text \<open>
  When no other kernel thread uses the cache and it has room, the operations return: \<open>bquiet H s\<close>
  says that the buffers in \<open>H\<close> are the only ones in use, once each.
\<close>

definition bquiet :: "nat set \<Rightarrow> 'm kbio_scheme \<Rightarrow> bool" where
  "bquiet H s \<longleftrightarrow>
     (\<forall>i<NBUF. b_refcnt (buf_at s i) = (if i \<in> H then 1 else 0) \<and>
        (i \<notin> H \<longrightarrow> \<not> sl_locked (slocks s (SL_buf i))))"

definition dirty_bufs :: "'m kbio_scheme \<Rightarrow> nat set" where
  "dirty_bufs s = {i. i < NBUF \<and> b_dirty (buf_at s i)}"

lemma dirty_bufs_card:
  assumes "bcache_ok H s"
  shows "card (dirty_bufs s) = card (dirty_blocks s)"
proof -
  have "inj_on (\<lambda>i. b_blockno (buf_at s i)) (dirty_bufs s)"
  proof (rule inj_onI)
    fix i j assume "i \<in> dirty_bufs s" "j \<in> dirty_bufs s" "b_blockno (buf_at s i) = b_blockno (buf_at s j)"
    moreover from this have "b_dev (buf_at s i) = 1" "b_dev (buf_at s j) = 1"
      using bcache_bounds(6) [OF assms, of i] bcache_bounds(6) [OF assms, of j]
      by (auto simp: dirty_bufs_def buf_ok_def)
    ultimately show "i = j"
      using assms by (auto simp: bcache_ok_def bcache_wf_def blocks_unique_def dirty_bufs_def)
  qed
  moreover have "dirty_blocks s = (\<lambda>i. b_blockno (buf_at s i)) ` dirty_bufs s"
    by (auto simp: dirty_blocks_def dirty_bufs_def)
  ultimately show ?thesis by (simp add: card_image)
qed

lemma clean_buffer:
  assumes "bcache_ok H s" "card (dirty_blocks s) + card X < NBUF" "finite X"
  obtains i where "i < NBUF" "i \<notin> X" "\<not> b_dirty (buf_at s i)"
proof -
  have "finite (dirty_bufs s)" by (simp add: dirty_bufs_def)
  then have "card (dirty_bufs s \<union> X) < card {..<NBUF}"
    using assms card_Un_le [of "dirty_bufs s" X] dirty_bufs_card [OF assms(1)] by simp
  then obtain i where "i \<in> {..<NBUF}" "i \<notin> dirty_bufs s \<union> X"
    by (metis card_mono finite_lessThan finite_UnI \<open>finite (dirty_bufs s)\<close> assms(3) not_le subsetI)
  then show thesis using that by (auto simp: dirty_bufs_def)
qed

lemma bpick_exists:
  assumes "bcache_ok H s" "i < NBUF" "is_block 1 bn (buf_at s i) \<or> recyclable (buf_at s i)"
  shows "\<exists>b. bpick 1 bn s = Some b"
proof (cases "find (\<lambda>b. is_block 1 bn (buf_at s b)) (lru s)")
  case None
  have "i \<in> set (lru s)" using assms(2) bcache_bounds(3) [OF assms(1)] by simp
  with None assms(3) have "recyclable (buf_at s i)" by (auto simp: find_None_iff)
  with \<open>i \<in> set (lru s)\<close> have "find (\<lambda>b. recyclable (buf_at s b)) (rev (lru s)) \<noteq> None"
    by (auto simp: find_None_iff)
  with None show ?thesis by (auto simp: bpick_def)
qed (simp add: bpick_def)

lemma bread_total:
  assumes "running s" "bcache_ok H s" "bquiet H s" "bn < disksize s" "finite H"
    and "\<forall>i\<in>H. \<not> is_block 1 bn (buf_at s i)"
    and "bn \<in> dirty_blocks s \<or> card (dirty_blocks s) + card H < NBUF"
  shows "\<exists>b t. bread 1 bn s = Ok b t \<and> bquiet (insert b H) t"
proof -
  have "\<exists>i<NBUF. is_block 1 bn (buf_at s i) \<or> recyclable (buf_at s i)"
  proof (cases "bn \<in> dirty_blocks s")
    case True
    then obtain i where "i < NBUF" "b_dirty (buf_at s i)" "b_blockno (buf_at s i) = bn"
      by (auto simp: dirty_blocks_def)
    with bcache_bounds(6) [OF assms(2), of i] show ?thesis by (auto simp: buf_ok_def is_block_def)
  next
    case False
    with assms obtain i where "i < NBUF" "i \<notin> H" "\<not> b_dirty (buf_at s i)"
      using clean_buffer [of H s H] by auto
    with assms(3) show ?thesis by (auto simp: recyclable_def bquiet_def)
  qed
  then obtain b where b: "bpick 1 bn s = Some b" using bpick_exists [OF assms(2)] by blast
  have lt: "b < NBUF" using bpick_SomeD(1) [OF b] bcache_bounds(3) [OF assms(2)] by simp
  have "b \<notin> H"
    using bpick_SomeD(2) [OF b] assms(6) bcache_bounds(6) [OF assms(2) lt]
    by (auto simp: recyclable_def buf_ok_def)
  with lt assms(3) have lk: "\<not> sl_locked (slocks s (SL_buf b))" by (simp add: bquiet_def)
  have "bread 1 bn s = Ok b (bread_effect bn b s)"
    using assms(4) by (intro bread_run [OF assms(1,2) b lk]) simp
  moreover have "b_refcnt (bread_upd (disk s) bn (buf_at s b)) = 1"
    using assms(3) lt \<open>b \<notin> H\<close> by (simp add: bread_upd_def bget_upd_def Let_def bquiet_def)
  then have "bquiet (insert b H) (bread_effect bn b s)"
    using assms(3) lt bcache_bounds(1) [OF assms(2)]
    by (auto simp: bquiet_def buf_at_bread_effect)
  ultimately show ?thesis by blast
qed

lemma brelse_total:
  assumes "running s" "bcache_ok H s" "bquiet H s" "b \<in> H"
  shows "\<exists>t. brelse b s = Ok () t \<and> bquiet (H - {b}) t"
proof -
  note bnd = bcache_bounds(1) [OF assms(2)] bcache_bounds(2,5) [OF assms(2,4)]
  have "brelse b s = Ok () (brelse_effect b s)" using bnd assms(1) by (intro brelse_run)
  moreover have "bquiet (H - {b}) (brelse_effect b s)"
    using assms(3,4) bnd by (auto simp: bquiet_def buf_at_brelse_effect)
  ultimately show ?thesis by blast
qed

lemma bwrite_total:
  assumes "running s" "bcache_ok H s" "bquiet H s" "b \<in> H" "b_blockno (buf_at s b) < disksize s"
  shows "\<exists>t. bwrite b s = Ok () t \<and> bquiet H t"
proof -
  note bnd = bcache_bounds(1) [OF assms(2)] bcache_bounds(2) [OF assms(2,4)]
  have "bquiet H (bwrite_effect b s)"
    using assms(3) bnd by (auto simp: bquiet_def buf_at_bwrite_effect)
  with bwrite_run [OF assms(1,2,4,5)] show ?thesis by blast
qed

lemma bquiet_upd: "bquiet H s \<Longrightarrow> (\<And>B. b_refcnt (f B) = b_refcnt B) \<Longrightarrow> bquiet H (upd_buf b f s)"
  by (auto simp: bquiet_def buf_at_upd_buf)

section \<open>Initialization\<close>

lemma binit_loop:
  "for_each bs (\<lambda>b. sq (modk (initsleeplock (SL_buf b))) (modk (\<lambda>s. s\<lparr>lru := b # lru s\<rparr>))) s =
     Ok () (s\<lparr>slocks := (\<lambda>l. if l \<in> SL_buf ` set bs then \<lparr>sl_locked = False, sl_pid = 0\<rparr> else slocks s l),
              lru := rev bs @ lru s\<rparr>)"
proof (induction bs arbitrary: s)
  case (Cons b bs)
  let ?t = "(initsleeplock (SL_buf b) s)\<lparr>lru := b # lru (initsleeplock (SL_buf b) s)\<rparr>"
  have "for_each (b # bs) (\<lambda>b. sq (modk (initsleeplock (SL_buf b))) (modk (\<lambda>s. s\<lparr>lru := b # lru s\<rparr>))) s =
      for_each bs (\<lambda>b. sq (modk (initsleeplock (SL_buf b))) (modk (\<lambda>s. s\<lparr>lru := b # lru s\<rparr>))) ?t"
    by (simp add: sq_Ok)
  also have "\<dots> = Ok () (?t\<lparr>slocks := (\<lambda>l. if l \<in> SL_buf ` set bs then \<lparr>sl_locked = False, sl_pid = 0\<rparr>
      else slocks ?t l), lru := rev bs @ lru ?t\<rparr>)"
    by (rule Cons.IH)
  also have "\<dots> = Ok () (s\<lparr>slocks := (\<lambda>l. if l \<in> SL_buf ` set (b # bs) then \<lparr>sl_locked = False, sl_pid = 0\<rparr>
      else slocks s l), lru := rev (b # bs) @ lru s\<rparr>)"
    by (auto simp: initsleeplock_def fun_eq_iff)
  finally show ?case .
qed auto

definition zero_bufs :: "buf list" where
  "zero_bufs = replicate NBUF zero_buf"

lemma zero_cache_ok:
  assumes "bufs s = zero_bufs" "distinct (lru s)" "set (lru s) = {..<NBUF}"
    and "\<forall>bn. length (disk s bn) = BSIZE" "\<forall>i<NBUF. \<not> sl_locked (slocks s (SL_buf i))"
  shows "bcache_ok {} s" and "bquiet {} s" and "dirty_blocks s = {}" and "view s = disk s"
proof -
  have at: "buf_at s i = zero_buf" if "i < NBUF" for i
    using that by (simp add: buf_at_def assms(1) zero_bufs_def)
  show "bcache_ok {} s"
    using assms by (auto simp: bcache_ok_def bcache_wf_def blocks_unique_def at buf_ok_def zero_buf_def
        zero_bufs_def)
  then show "bquiet {} s" "dirty_blocks s = {}"
    using assms(5) by (auto simp: bquiet_def dirty_blocks_def at zero_buf_def)
  with \<open>bcache_ok {} s\<close> show "view s = disk s" using view_clean by (intro ext) auto
qed

text \<open>
  \<open>binit\<close> (bio.c) turns the zeroed buffers into an empty cache: every buffer is on the list
  once, none is locked or in use, and a read sees the disk.
\<close>

theorem binit_establishes:
  assumes "bufs s = zero_bufs" and "\<forall>bn. length (disk s bn) = BSIZE"
  shows "\<exists>t. binit s = Ok () t \<and> bcache_ok {} t \<and> bquiet {} t \<and> view t = disk s \<and>
    lru t = rev [0..<NBUF]"
proof -
  let ?t = "s\<lparr>slocks := (\<lambda>l. if l \<in> SL_buf ` set [0..<NBUF] then \<lparr>sl_locked = False, sl_pid = 0\<rparr>
      else slocks s l), lru := rev [0..<NBUF]\<rparr>"
  have "binit s = Ok () ?t" by (simp add: binit_def sq_Ok binit_loop cong: if_cong)
  moreover have "bcache_ok {} ?t" "bquiet {} ?t" "view ?t = disk ?t"
    using assms by (intro zero_cache_ok; auto)+
  ultimately show ?thesis by auto
qed

definition disk_state :: "(u32 \<Rightarrow> bytes) \<Rightarrow> u32 \<Rightarrow> 'm \<Rightarrow> 'm kbio_scheme" where
  "disk_state d n x = one_proc \<lparr>mem = (\<lambda>_. 0), kend = 0x80200000, use_lock = True, freelist = 0,
     bufs = zero_bufs, lru = rev [0..<NBUF], disk = d, disksize = n, dwrites = [], \<dots> = x\<rparr>"

lemma disk_state_fields [simp]:
  "bufs (disk_state d n x) = zero_bufs" "lru (disk_state d n x) = rev [0..<NBUF]"
  "disk (disk_state d n x) = d" "disksize (disk_state d n x) = n" "dwrites (disk_state d n x) = []"
  "kbio.more (disk_state d n x) = x" "running (disk_state d n x)" "held (disk_state d n x) = []"
  "cur (disk_state d n x) = Some 0" "slocks (disk_state d n x) = (\<lambda>_. \<lparr>sl_locked = False, sl_pid = 0\<rparr>)"
  "ptab (disk_state d n x) = [zero_proc\<lparr>p_state := RUNNING, p_pid := 1\<rparr>]"
  by (simp_all add: disk_state_def) (simp_all add: one_proc_def)

lemma disk_state_ok:
  assumes "\<forall>bn. length (d bn) = BSIZE"
  shows "bcache_ok {} (disk_state d n x)" "bquiet {} (disk_state d n x)"
    "dirty_blocks (disk_state d n x) = {}" "view (disk_state d n x) = d"
  using zero_cache_ok [of "disk_state d n x"] assms by (simp_all add: lessThan_atLeast0)

theorem binit_establishes_witness:
  "\<exists>t. binit (disk_state (\<lambda>_. replicate BSIZE 0) 1000 ()) = Ok () t \<and> bcache_ok {} t"
  using binit_establishes [of "disk_state (\<lambda>_. replicate BSIZE 0) 1000 ()"] by auto

text \<open>
  C24. \<open>bread\<close> (bio.c) returns a buffer with the current contents of the block: the buffer was
  not in use by the caller before, it is the only one that caches the block, and the contents of
  every block are as before.
\<close>

theorem bread_reads_view:
  assumes "running s" and "bcache_ok H s" and "bread 1 bn s = Ok b t"
  shows "b \<notin> H \<and> bcache_ok (insert b H) t \<and> b_blockno (buf_at t b) = bn \<and>
    b_data (buf_at t b) = view s bn \<and> view t = view s \<and>
    (\<forall>i<NBUF. i \<noteq> b \<longrightarrow> \<not> is_block 1 bn (buf_at t i))"
proof -
  note r = bread_Ok [OF assms]
  have "blocks_unique t" using r(3) by (simp add: bcache_ok_def bcache_wf_def)
  with r show ?thesis by (auto simp: blocks_unique_def is_block_def)
qed

theorem bread_reads_view_witness:
  "\<exists>b t. bread 1 7 (disk_state (\<lambda>_. replicate BSIZE 3) 1000 ()) = Ok b t \<and>
     b_data (buf_at t b) = replicate BSIZE 3 \<and> bcache_ok {b} t"
proof -
  let ?s = "disk_state (\<lambda>_. replicate BSIZE 3) 1000 () :: kbio"
  have ok: "bcache_ok {} ?s" "bquiet {} ?s" "dirty_blocks ?s = {}" "view ?s = (\<lambda>_. replicate BSIZE 3)"
    by (simp_all add: disk_state_ok)
  obtain b t where "bread 1 7 ?s = Ok b t"
    using bread_total [of ?s "{}" 7] ok by (auto simp: NBUF_def MAXOPBLOCKS_def)
  with bread_reads_view [of ?s "{}" 7 b t] ok show ?thesis by auto
qed

end
