(* ===== verification/Klog.thy ===== *)
theory Klog
  imports Bio
begin

text \<open>
  The log (\<open>log.c\<close>): file system calls modify cached blocks inside a transaction, \<open>end_op\<close> of the
  last outstanding call commits them by way of the on-disk log, and \<open>recover_from_log\<close> installs
  a committed transaction after a crash.

  \<open>l_n\<close> and \<open>l_block\<close> are \<open>log.lh.n\<close> and \<open>log.lh.block\<close>; a negative \<open>n\<close> read from disk acts as 0
  in every loop and is represented by it. A crash leaves the disk with any prefix of the block
  writes that were issued (a write of one block is atomic).

  The lemmas give the sequence of disk writes of a commit, that commit and recovery end in a
  clean cache, and that recovery after a crash at any point of a commit gives either the disk before
  the transaction or the disk with all of it.
\<close>

section \<open>State and operations\<close>

record klog = kbio +
  l_start :: u32
  l_size :: int
  l_outstanding :: int
  l_committing :: bool
  l_dev :: u32
  l_n :: nat
  l_block :: "u32 list"

text \<open>The blocks of the transaction, and the block of the log that the \<open>i\<close>-th one is copied to.\<close>

definition log_blocks :: "'m klog_scheme \<Rightarrow> u32 list" where
  "log_blocks s = take (l_n s) (l_block s)"

definition log_slot :: "'m klog_scheme \<Rightarrow> nat \<Rightarrow> u32" where
  "log_slot s i = l_start s + of_nat i + 1"

text \<open>\<open>readsb\<close> of \<open>fs.c\<close>.\<close>

definition readsb :: "u32 \<Rightarrow> ('m kbio_scheme, superblock) km" where
  "readsb dev =
     bnd (bread dev 1) (\<lambda>bp.
     bnd (bdata bp) (\<lambda>d.
     sq (brelse bp) (ret (dec_superblock (sub_arr 0 28 d)))))"

definition install_block :: "nat \<Rightarrow> ('m klog_scheme, unit) km" where
  "install_block tail =
     bnd (getk (\<lambda>s. (l_dev s, log_slot s tail, l_block s ! tail))) (\<lambda>(dev, from, to).
     bnd (bread dev from) (\<lambda>lbuf.
     bnd (bread dev to) (\<lambda>dbuf.
     bnd (bdata lbuf) (\<lambda>d.
     sq (set_bdata dbuf d)
    (sq (bwrite dbuf)
    (sq (brelse lbuf)
        (brelse dbuf)))))))"

definition install_trans :: "('m klog_scheme, unit) km" where
  "install_trans = bnd (getk l_n) (\<lambda>n. for_each [0..<n] install_block)"

definition read_head :: "('m klog_scheme, unit) km" where
  "read_head =
     bnd (getk (\<lambda>s. (l_dev s, l_start s))) (\<lambda>(dev, start).
     bnd (bread dev start) (\<lambda>b.
     bnd (bdata b) (\<lambda>d.
     let lh = dec_logheader d; n = nat (sint (lh_n lh)) in
     if n > LOGSIZE then undefined_behaviour
     else
       sq (modk (\<lambda>s. s\<lparr>l_n := n, l_block := take n (lh_block lh) @ drop n (l_block s)\<rparr>))
          (brelse b))))"

definition head_bytes :: "nat \<Rightarrow> u32 list \<Rightarrow> bytes" where
  "head_bytes n bs = enc32 (of_nat n) @ enc32s (take n bs)"

definition write_head :: "('m klog_scheme, unit) km" where
  "write_head =
     bnd (getk (\<lambda>s. (l_dev s, l_start s, head_bytes (l_n s) (l_block s)))) (\<lambda>(dev, start, h).
     bnd (bread dev start) (\<lambda>b.
     bnd (bdata b) (\<lambda>d.
     sq (set_bdata b (put_arr 0 h d))
    (sq (bwrite b)
        (brelse b)))))"

definition recover_from_log :: "('m klog_scheme, unit) km" where
  "recover_from_log =
     sq read_head (sq install_trans (sq (modk (\<lambda>s. s\<lparr>l_n := 0\<rparr>)) write_head))"

definition initlog :: "u32 \<Rightarrow> ('m klog_scheme, unit) km" where
  "initlog dev =
     (if 4 + 4 * LOGSIZE \<ge> BSIZE then kpanic ''initlog: too big logheader''
      else
        bnd (readsb dev) (\<lambda>sb.
        sq (modk (\<lambda>s. s\<lparr>l_start := sb_logstart sb, l_size := sint (sb_nlog sb), l_dev := dev\<rparr>))
           recover_from_log))"

text \<open>
  A waiting \<open>begin_op\<close> gives up the CPU; when it is woken, it runs the loop's body again.
\<close>

definition begin_op :: "('m klog_scheme, unit) km" where
  "begin_op =
     sq (acquire LK_log)
    (bnd (getk (\<lambda>s. (l_committing s, l_n s, l_outstanding s))) (\<lambda>(committing, n, outstanding).
     if committing then sleep CH_log LK_log
     else if int n + (outstanding + 1) * int MAXOPBLOCKS > int LOGSIZE then sleep CH_log LK_log
     else
       sq (modk (\<lambda>s. s\<lparr>l_outstanding := l_outstanding s + 1\<rparr>))
          (release LK_log)))"

definition log_block :: "nat \<Rightarrow> ('m klog_scheme, unit) km" where
  "log_block tail =
     bnd (getk (\<lambda>s. (l_dev s, log_slot s tail, l_block s ! tail))) (\<lambda>(dev, to_no, from_no).
     bnd (bread dev to_no) (\<lambda>to.
     bnd (bread dev from_no) (\<lambda>from.
     bnd (bdata from) (\<lambda>d.
     sq (set_bdata to d)
    (sq (bwrite to)
    (sq (brelse from)
        (brelse to)))))))"

definition write_log :: "('m klog_scheme, unit) km" where
  "write_log = bnd (getk l_n) (\<lambda>n. for_each [0..<n] log_block)"

definition commit :: "('m klog_scheme, unit) km" where
  "commit =
     bnd (getk l_n) (\<lambda>n.
     whenk (n > 0)
       (sq write_log
       (sq write_head
       (sq install_trans
       (sq (modk (\<lambda>s. s\<lparr>l_n := 0\<rparr>))
           write_head)))))"

definition end_op :: "('m klog_scheme, unit) km" where
  "end_op =
     sq (acquire LK_log)
    (sq (modk (\<lambda>s. s\<lparr>l_outstanding := l_outstanding s - 1\<rparr>))
    (bnd (getk (\<lambda>s. (l_committing s, l_outstanding s))) (\<lambda>(committing, outstanding).
     if committing then kpanic ''log.committing''
     else
       sq (if outstanding = 0 then modk (\<lambda>s. s\<lparr>l_committing := True\<rparr>) else wakeup CH_log)
      (sq (release LK_log)
          (whenk (outstanding = 0)
            (sq commit
            (sq (acquire LK_log)
            (sq (modk (\<lambda>s. s\<lparr>l_committing := False\<rparr>))
            (sq (wakeup CH_log)
                (release LK_log))))))))))"

definition log_index :: "u32 \<Rightarrow> 'm klog_scheme \<Rightarrow> nat" where
  "log_index bn s =
     (case find_idx (\<lambda>x. x = bn) (log_blocks s) of Some i \<Rightarrow> i | None \<Rightarrow> l_n s)"

definition log_write :: "nat \<Rightarrow> ('m klog_scheme, unit) km" where
  "log_write b =
     bnd (getk (\<lambda>s. (l_n s, l_size s, l_outstanding s))) (\<lambda>(n, size, outstanding).
     if n \<ge> LOGSIZE \<or> int n \<ge> size - 1 then kpanic ''too big a transaction''
     else if outstanding < 1 then kpanic ''log_write outside of trans''
     else
       sq (acquire LK_log)
      (bnd (getk (\<lambda>s. (log_index (b_blockno (buf_at s b)) s, b_blockno (buf_at s b)))) (\<lambda>(i, bn).
       sq (modk (\<lambda>s. s\<lparr>l_block := (l_block s)[i := bn]\<rparr>))
      (sq (modk (\<lambda>s. if i = l_n s then s\<lparr>l_n := l_n s + 1\<rparr> else s))
      (sq (modk (upd_buf b (\<lambda>B. B\<lparr>b_dirty := True\<rparr>)))
          (release LK_log))))))"

section \<open>Copying a block\<close>

definition copied :: "u32 \<Rightarrow> u32 \<Rightarrow> 'm kbio_scheme \<Rightarrow> 'm kbio_scheme \<Rightarrow> bool" where
  "copied src dst s t \<longleftrightarrow>
     bcache_ok {} t \<and> running t \<and> view t = (view s)(dst := view s src) \<and>
     disk t = (disk s)(dst := view s src) \<and> dwrites t = (dst, view s src) # dwrites s \<and>
     dirty_blocks t = dirty_blocks s - {dst} \<and> bframe s t"

lemma copy_tail:
  assumes run: "running s" and ok: "bcache_ok {l, d} s" and ne: "l \<noteq> d"
    and l: "is_block 1 src (buf_at s l)" "b_data (buf_at s l) = view s src"
      "b_dirty (buf_at s l) \<or> b_data (buf_at s l) = disk s src"
    and d: "is_block 1 dst (buf_at s d)"
    and r: "sq (set_bdata d (b_data (buf_at s l))) (sq (bwrite d) (sq (brelse l) (brelse d))) s = Ok x t"
  shows "copied src dst s t"
proof -
  let ?v = "view s src"
  have v: "length ?v = BSIZE" by (rule view_length [OF ok])
  have bd: "l < NBUF" "d < NBUF" "length (bufs s) = NBUF" using bcache_bounds(1,2) [OF ok] by auto
  have sd: "src \<noteq> dst"
    using ok bd ne l(1) d by (auto simp: bcache_ok_def bcache_wf_def blocks_unique_def is_block_def)
  define s1 where "s1 = upd_buf d (b_data_update (\<lambda>_. ?v)) s"
  note s1 = set_bdata_ok [OF ok _ v d, folded s1_def, simplified]
  have s1d: "is_block 1 dst (buf_at s1 d)" "b_data (buf_at s1 d) = ?v" "b_blockno (buf_at s1 d) = dst"
    and s1l: "buf_at s1 l = buf_at s l"
    using bd d ne by (simp_all add: s1_def buf_at_upd_buf is_block_def)
  have run1: "running s1" using run by (simp add: s1_def)
  from r l(2) obtain s2 s3 where r2: "bwrite d s1 = Ok () s2" and r3: "brelse l s2 = Ok () s3"
    and r4: "brelse d s3 = Ok x t"
    by (auto simp: s1_def sq_eq_Ok)
  have s2: "s2 = bwrite_effect d s1" using bwrite_Ok [OF run1 s1(1) _ r2] by simp
  note w = bwrite_effect_ok [OF s1(1) _ s1d(1), folded s2, simplified]
  have run2: "running s2" and disk2: "disk s2 = (disk s)(dst := ?v)"
    and dw2: "dwrites s2 = (dst, ?v) # dwrites s"
    using run1 by (simp_all add: s2 s1d) (simp_all add: s1_def)
  have at2: "buf_at s2 l = buf_at s l" "is_block 1 dst (buf_at s2 d)" "b_data (buf_at s2 d) = ?v"
    using bd ne s1l s1d by (simp_all add: s2 buf_at_bwrite_effect s1_def is_block_def)
  have s3: "s3 = brelse_effect l s2"
    using r3 run2 bcache_bounds(5) [OF w(1), of l] by (simp add: brelse_run)
  have "b_dirty (buf_at s2 l) \<or> b_data (buf_at s2 l) = disk s2 src" using l sd by (simp add: at2 disk2)
  note e3 = brelse_effect_ok [OF w(1) run2 _ _ this, folded s3, simplified at2, OF _ l(1), simplified]
  have H: "{l, d} - {l} = {d}" using ne by auto
  have b2: "length (bufs s2) = NBUF" using bd by (simp add: s2 s1_def)
  have run3: "running s3" and at3: "buf_at s3 d = buf_at s2 d"
    and dd: "disk s3 = disk s2" "dwrites s3 = dwrites s2"
    using run2 ne bd b2 by (simp_all add: s3 buf_at_brelse_effect)
  have t: "t = brelse_effect d s3"
    using r4 run3 bcache_bounds(5) [OF e3(1), of d] ne by (simp add: brelse_run)
  have ok3: "bcache_ok {d} s3" using e3(1) H by simp
  have d3: "is_block 1 dst (buf_at s3 d)" "b_dirty (buf_at s3 d) \<or> b_data (buf_at s3 d) = disk s3 dst"
    using at2 by (simp_all add: at3 dd disk2)
  note e4 = brelse_effect_ok [OF ok3 run3 _ d3, folded t, simplified]
  have "bframe s t"
    using bframe_brelse_effect [OF run3, of d] bframe_brelse_effect [OF run2, of l]
      bframe_bwrite_effect [of s1 d] bframe_upd_buf [of s d "b_data_update (\<lambda>_. ?v)"]
    unfolding t [symmetric] s3 [symmetric] s2 [symmetric] s1_def [symmetric]
    by (blast intro: bframe_trans)
  with e4 e3 w s1 run3 show ?thesis
    by (simp add: copied_def dd disk2 dw2 t)
qed

lemma install_step:
  assumes "running s" "bcache_ok {} s"
    and "bnd (bread 1 src) (\<lambda>l. bnd (bread 1 dst) (\<lambda>d. bnd (bdata l) (\<lambda>x.
           sq (set_bdata d x) (sq (bwrite d) (sq (brelse l) (brelse d)))))) s = Ok x t"
  shows "copied src dst s t"
proof -
  from assms(3) obtain l s1 d s2 where r1: "bread 1 src s = Ok l s1" and r2: "bread 1 dst s1 = Ok d s2"
    and r3: "sq (set_bdata d (b_data (buf_at s2 l))) (sq (bwrite d) (sq (brelse l) (brelse d))) s2 = Ok x t"
    by (auto simp: bnd_eq_Ok)
  note b1 = bread_Ok [OF assms(1,2) r1]
  have run1: "running s1" using b1(8) assms(1) by (simp add: bframe_def bbase_def)
  note b2 = bread_Ok [OF run1 b1(3) r2]
  have ne: "l \<noteq> d" using b2(2) by auto
  have run2: "running s2" using b2(8) run1 by (simp add: bframe_def bbase_def)
  have H: "insert d {l} = {l, d}" by auto
  have "copied src dst s2 t"
    using b1 b2 ne H by (intro copy_tail [OF run2 _ ne _ _ _ _ r3]) simp_all
  moreover have "bframe s s2" using b1(8) b2(8) by (rule bframe_trans)
  ultimately show ?thesis
    using b1 b2 by (auto simp: copied_def intro: bframe_trans)
qed

lemma write_log_step:
  assumes "running s" "bcache_ok {} s"
    and "bnd (bread 1 dst) (\<lambda>d. bnd (bread 1 src) (\<lambda>l. bnd (bdata l) (\<lambda>x.
           sq (set_bdata d x) (sq (bwrite d) (sq (brelse l) (brelse d)))))) s = Ok x t"
  shows "copied src dst s t"
proof -
  from assms(3) obtain l s1 d s2 where r1: "bread 1 dst s = Ok d s1" and r2: "bread 1 src s1 = Ok l s2"
    and r3: "sq (set_bdata d (b_data (buf_at s2 l))) (sq (bwrite d) (sq (brelse l) (brelse d))) s2 = Ok x t"
    by (auto simp: bnd_eq_Ok)
  note b1 = bread_Ok [OF assms(1,2) r1]
  have run1: "running s1" using b1(8) assms(1) by (simp add: bframe_def bbase_def)
  note b2 = bread_Ok [OF run1 b1(3) r2]
  have ne: "l \<noteq> d" using b2(2) by auto
  have run2: "running s2" using b2(8) run1 by (simp add: bframe_def bbase_def)
  have "copied src dst s2 t"
    using b1 b2 ne by (intro copy_tail [OF run2 _ ne _ _ _ _ r3]) simp_all
  moreover have "bframe s s2" using b1(8) b2(8) by (rule bframe_trans)
  ultimately show ?thesis
    using b1 b2 by (auto simp: copied_def intro: bframe_trans)
qed

section \<open>Sequences of disk writes\<close>

definition apply_writes :: "(u32 \<times> bytes) list \<Rightarrow> (u32 \<Rightarrow> bytes) \<Rightarrow> u32 \<Rightarrow> bytes" where
  "apply_writes ws f = fold (\<lambda>(bn, d) g. g(bn := d)) ws f"

lemma apply_writes_Nil [simp]: "apply_writes [] f = f"
  by (simp add: apply_writes_def)

lemma apply_writes_Cons [simp]: "apply_writes ((bn, d) # ws) f = apply_writes ws (f(bn := d))"
  by (simp add: apply_writes_def)

lemma apply_writes_append [simp]:
  "apply_writes (ws @ ws') f = apply_writes ws' (apply_writes ws f)"
  by (simp add: apply_writes_def)

lemma apply_writes_other: "bn \<notin> fst ` set ws \<Longrightarrow> apply_writes ws f bn = f bn"
  by (induction ws arbitrary: f) auto

lemma apply_writes_in:
  "distinct (map fst ws) \<Longrightarrow> (bn, d) \<in> set ws \<Longrightarrow> apply_writes ws f bn = d"
proof (induction ws arbitrary: f)
  case (Cons w ws)
  show ?case
  proof (cases "w = (bn, d)")
    case True
    with Cons.prems have "bn \<notin> fst ` set ws" by simp
    with True show ?thesis by (simp add: apply_writes_other)
  next
    case False
    with Cons.prems have "distinct (map fst ws)" "(bn, d) \<in> set ws" by auto
    from Cons.IH [OF this] show ?thesis by (cases w) simp
  qed
qed simp

text \<open>\<open>wrote ws s t\<close>: between \<open>s\<close> and \<open>t\<close> the disk performed the writes \<open>ws\<close>.\<close>

definition wrote :: "(u32 \<times> bytes) list \<Rightarrow> 'm kbio_scheme \<Rightarrow> 'm kbio_scheme \<Rightarrow> bool" where
  "wrote ws s t \<longleftrightarrow>
     bcache_ok {} t \<and> running t \<and> view t = apply_writes ws (view s) \<and>
     disk t = apply_writes ws (disk s) \<and> dwrites t = rev ws @ dwrites s \<and>
     dirty_blocks t = dirty_blocks s - fst ` set ws \<and> bbase s t"

lemma wrote_trans: "wrote ws s t \<Longrightarrow> wrote ws' t u \<Longrightarrow> wrote (ws @ ws') s u"
  by (auto simp: wrote_def intro: bbase_trans)

lemma wrote_other:
  assumes "wrote ws s t" "bn \<notin> fst ` set ws"
  shows "view t bn = view s bn" "disk t bn = disk s bn"
  using assms(1) apply_writes_other [OF assms(2)] by (simp_all add: wrote_def)

lemma wrote_refl: "bcache_ok {} s \<Longrightarrow> running s \<Longrightarrow> wrote [] s s"
  by (simp add: wrote_def)

lemma copied_wrote: "copied src dst s t \<Longrightarrow> wrote [(dst, view s src)] s t"
  by (auto simp: copied_def wrote_def bframe_def)

lemma copied_more: "copied src dst s t \<Longrightarrow> kbio.more t = kbio.more s"
  by (simp add: copied_def bframe_def)

text \<open>A loop that copies the blocks \<open>src 0\<close>, \<open>src 1\<close>, \<open>\<dots>\<close> to \<open>dst 0\<close>, \<open>dst 1\<close>, \<open>\<dots>\<close>.\<close>

lemma copy_loop:
  assumes step: "\<And>i s t. i < n \<Longrightarrow> running s \<Longrightarrow> bcache_ok {} s \<Longrightarrow> kbio.more s = m \<Longrightarrow>
      body i s = Ok () t \<Longrightarrow> copied (src i) (dst i) s t"
    and sep: "\<And>i j. i < n \<Longrightarrow> j < i \<Longrightarrow> dst j \<noteq> src i"
    and s: "running s" "bcache_ok {} s" "kbio.more s = m"
    and r: "for_each [0..<n] body s = Ok () t"
  shows "wrote (map (\<lambda>i. (dst i, view s (src i))) [0..<n]) s t \<and> kbio.more t = m"
proof -
  have "wrote (map (\<lambda>i. (dst i, view s (src i))) [0..<k]) s t \<and> kbio.more t = m"
    if "for_each [0..<k] body s = Ok () t" "k \<le> n" for k t
    using that
  proof (induction k arbitrary: t)
    case 0
    with s show ?case by (simp add: wrote_refl)
  next
    case (Suc k)
    from Suc.prems(1) obtain u where u: "for_each [0..<k] body s = Ok () u" and b: "body k u = Ok () t"
      by (auto simp: for_each_append sq_eq_Ok)
    from Suc.IH [OF u] Suc.prems(2)
    have w: "wrote (map (\<lambda>i. (dst i, view s (src i))) [0..<k]) s u" and m: "kbio.more u = m" by auto
    then have c: "copied (src k) (dst k) u t"
      using step [OF _ _ _ m b] Suc.prems(2) by (simp add: wrote_def)
    have "src k \<notin> fst ` set (map (\<lambda>i. (dst i, view s (src i))) [0..<k])"
      using sep [of k] Suc.prems(2) by force
    then have "view u (src k) = view s (src k)"
      using w by (simp add: wrote_def apply_writes_other)
    with wrote_trans [OF w copied_wrote [OF c]] copied_more [OF c] m show ?case by simp
  qed
  with r show ?thesis by blast
qed

section \<open>The log's blocks\<close>

definition log_region :: "'m klog_scheme \<Rightarrow> u32 set" where
  "log_region s = (\<lambda>i. l_start s + of_nat i) ` {..<LOGSIZE}"

definition log_wf :: "'m klog_scheme \<Rightarrow> bool" where
  "log_wf s \<longleftrightarrow>
     l_dev s = 1 \<and> length (l_block s) = LOGSIZE \<and> l_n s < LOGSIZE \<and> distinct (log_blocks s) \<and>
     set (log_blocks s) \<inter> log_region s = {}"

lemma more_klog:
  fixes s t :: "'m klog_scheme"
  assumes "kbio.more t = kbio.more s"
  shows "l_start t = l_start s" "l_size t = l_size s" "l_outstanding t = l_outstanding s"
    "l_committing t = l_committing s" "l_dev t = l_dev s" "l_n t = l_n s" "l_block t = l_block s"
    "klog.more t = klog.more s"
  using assms by (cases s, cases t, simp)+

lemma more_log_wf:
  assumes "kbio.more t = kbio.more s"
  shows "log_blocks t = log_blocks s" "log_slot t = log_slot s" "log_region t = log_region s"
    "log_wf t = log_wf s"
  by (simp_all add: more_klog [OF assms] log_blocks_def log_slot_def [abs_def] log_region_def log_wf_def)

lemma of_nat_inj32: "i < 2 ^ 32 \<Longrightarrow> j < 2 ^ 32 \<Longrightarrow> (of_nat i :: u32) = of_nat j \<longleftrightarrow> i = j"
  by (simp add: word_unat_eq_iff unat_of_nat)

lemma unat_of_nat32: "i < 2 ^ 32 \<Longrightarrow> unat (of_nat i :: u32) = i"
  by (simp add: unat_of_nat)

lemma log_slot_eq: "i \<le> LOGSIZE \<Longrightarrow> j \<le> LOGSIZE \<Longrightarrow> log_slot s i = log_slot s j \<longleftrightarrow> i = j"
  using of_nat_inj32 [of i j] by (simp add: log_slot_def LOGSIZE_def MAXOPBLOCKS_def)

lemma log_slot_start: "i < LOGSIZE \<Longrightarrow> log_slot s i \<noteq> l_start s"
  using of_nat_inj32 [of "i + 1" 0] by (simp add: log_slot_def LOGSIZE_def MAXOPBLOCKS_def ac_simps)

lemma log_slot_region: "Suc i < LOGSIZE \<Longrightarrow> log_slot s i \<in> log_region s"
  by (auto simp: log_slot_def log_region_def add.assoc add.commute [of 1]
      intro!: image_eqI [of _ _ "Suc i"])

lemma log_start_region: "l_start s \<in> log_region s"
  by (auto simp: log_region_def LOGSIZE_def MAXOPBLOCKS_def intro!: image_eqI [of _ _ 0])

lemma log_blocks_nth: "log_wf s \<Longrightarrow> i < l_n s \<Longrightarrow> l_block s ! i = log_blocks s ! i \<and> i < length (log_blocks s)"
  by (simp add: log_blocks_def log_wf_def)

lemma log_block_slot:
  assumes "log_wf s" "i < l_n s" "Suc j < LOGSIZE"
  shows "l_block s ! i \<noteq> log_slot s j" and "l_block s ! i \<noteq> l_start s"
  using assms log_blocks_nth [OF assms(1,2)] log_slot_region [of j s] log_start_region [of s]
  by (auto simp: log_wf_def) (metis IntI empty_iff nth_mem)+

lemma log_block_eq:
  assumes "log_wf s" "i < l_n s" "j < l_n s"
  shows "l_block s ! i = l_block s ! j \<longleftrightarrow> i = j"
  using assms log_blocks_nth [OF assms(1)] by (auto simp: log_wf_def nth_eq_iff_index_eq)

definition install_writes :: "'m klog_scheme \<Rightarrow> (u32 \<times> bytes) list" where
  "install_writes s = map (\<lambda>i. (l_block s ! i, view s (log_slot s i))) [0..<l_n s]"

lemma install_trans_Ok:
  fixes s :: "'m klog_scheme"
  assumes "running s" "bcache_ok {} s" "log_wf s" "install_trans s = Ok () t"
  shows "wrote (install_writes s) s t" and "kbio.more t = kbio.more s"
proof -
  have "wrote (map (\<lambda>i. (l_block s ! i, view s (log_slot s i))) [0..<l_n s]) s t \<and>
      kbio.more t = kbio.more s"
  proof (rule copy_loop [OF _ _ assms(1,2)])
    fix i and u v :: "'m klog_scheme"
    assume u: "running u" "bcache_ok {} u" "kbio.more u = kbio.more s" and "install_block i u = Ok () v"
    then show "copied (log_slot s i) (l_block s ! i) u v"
      using assms(3) by (intro install_step [OF u(1,2)])
        (simp add: more_klog [OF u(3)] more_log_wf [OF u(3)] log_wf_def install_block_def)
  next
    fix i j assume "i < l_n s" "j < i"
    then show "l_block s ! j \<noteq> log_slot s i"
      using assms(3) by (intro log_block_slot) (auto simp: log_wf_def)
  qed (use assms(4) in \<open>simp_all add: install_trans_def\<close>)
  then show "wrote (install_writes s) s t" "kbio.more t = kbio.more s"
    by (simp_all add: install_writes_def)
qed

definition log_writes :: "'m klog_scheme \<Rightarrow> (u32 \<times> bytes) list" where
  "log_writes s = map (\<lambda>i. (log_slot s i, view s (l_block s ! i))) [0..<l_n s]"

lemma write_log_Ok:
  fixes s :: "'m klog_scheme"
  assumes "running s" "bcache_ok {} s" "log_wf s" "write_log s = Ok () t"
  shows "wrote (log_writes s) s t" and "kbio.more t = kbio.more s"
proof -
  have "wrote (map (\<lambda>i. (log_slot s i, view s (l_block s ! i))) [0..<l_n s]) s t \<and>
      kbio.more t = kbio.more s"
  proof (rule copy_loop [OF _ _ assms(1,2)])
    fix i and u v :: "'m klog_scheme"
    assume u: "running u" "bcache_ok {} u" "kbio.more u = kbio.more s" and "log_block i u = Ok () v"
    then show "copied (l_block s ! i) (log_slot s i) u v"
      using assms(3) by (intro write_log_step [OF u(1,2)])
        (simp add: more_klog [OF u(3)] more_log_wf [OF u(3)] log_wf_def log_block_def)
  next
    fix i j assume "i < l_n s" "j < i"
    then show "log_slot s j \<noteq> l_block s ! i"
      using assms(3) log_block_slot(1) [of s i j] by (force simp: log_wf_def)
  qed (use assms(4) in \<open>simp_all add: write_log_def\<close>)
  then show "wrote (log_writes s) s t" "kbio.more t = kbio.more s"
    by (simp_all add: log_writes_def)
qed

section \<open>The header block\<close>

lemma write_block_Ok:
  assumes "running s" "bcache_ok {} s" "length (f (view s bn)) = BSIZE"
    and "bnd (bread 1 bn) (\<lambda>b. bnd (bdata b) (\<lambda>d. sq (set_bdata b (f d)) (sq (bwrite b) (brelse b)))) s
      = Ok x t"
  shows "wrote [(bn, f (view s bn))] s t" and "kbio.more t = kbio.more s"
proof -
  let ?v = "f (view s bn)"
  from assms(4) obtain b s1 s3 where r1: "bread 1 bn s = Ok b s1"
    and r3: "bwrite b (upd_buf b (b_data_update (\<lambda>_. f (b_data (buf_at s1 b)))) s1) = Ok () s3"
    and r4: "brelse b s3 = Ok x t"
    by (auto simp: bnd_eq_Ok sq_eq_Ok)
  note b1 = bread_Ok [OF assms(1,2) r1]
  define s2 where "s2 = upd_buf b (b_data_update (\<lambda>_. ?v)) s1"
  note s2 = set_bdata_ok [OF b1(3) insertI1 assms(3) b1(4), folded s2_def]
  have run1: "running s1" by (rule bframe_running [OF b1(8) assms(1)])
  then have run2: "running s2" by (simp add: s2_def)
  have len: "b < length (bufs s1)" "b < length (bufs s2)"
    using b1(1) bcache_bounds(1) [OF b1(3)] by (simp_all add: s2_def)
  have at2: "is_block 1 bn (buf_at s2 b)" "b_data (buf_at s2 b) = ?v" "b_blockno (buf_at s2 b) = bn"
    using b1(4) len by (simp_all add: s2_def buf_at_upd_buf is_block_def)
  have s3: "s3 = bwrite_effect b s2"
    using bwrite_Ok [OF run2 s2(1) insertI1, of "()" s3] r3 b1(5) by (simp add: s2_def)
  note w = bwrite_effect_ok [OF s2(1) insertI1 at2(1), folded s3]
  have run3: "running s3" using run2 by (simp add: s3)
  have at3: "is_block 1 bn (buf_at s3 b)" "b_dirty (buf_at s3 b) \<or> b_data (buf_at s3 b) = disk s3 bn"
    using at2 len by (simp_all add: s3 buf_at_bwrite_effect is_block_def)
  note e = brelse_Ok [OF run3 w(1) insertI1 at3 r4]
  have fr: "bframe s t"
    using b1(8) bframe_upd_buf [of s1 b "b_data_update (\<lambda>_. ?v)"] bframe_bwrite_effect [of s2 b] e(5)
    unfolding s2_def [symmetric] s3 [symmetric] by (blast intro: bframe_trans)
  show "wrote [(bn, ?v)] s t"
    using e w s2 b1 fr by (auto simp: wrote_def s3 at2 bframe_def) (simp_all add: s2_def)
  show "kbio.more t = kbio.more s" using fr by (simp add: bframe_def)
qed

lemma length_head_bytes: "n \<le> LOGSIZE \<Longrightarrow> length bs = LOGSIZE \<Longrightarrow> length (head_bytes n bs) = 4 + 4 * n"
  by (simp add: head_bytes_def)

lemma write_head_Ok:
  assumes "running s" "bcache_ok {} s" "log_wf s" "write_head s = Ok () t"
  shows "wrote [(l_start s, put_arr 0 (head_bytes (l_n s) (l_block s)) (view s (l_start s)))] s t"
    and "kbio.more t = kbio.more s"
proof -
  have "length (head_bytes (l_n s) (l_block s)) = 4 + 4 * l_n s" "l_n s \<le> LOGSIZE"
    using assms(3) by (simp_all add: log_wf_def length_head_bytes)
  then have "length (put_arr 0 (head_bytes (l_n s) (l_block s)) (view s (l_start s))) = BSIZE"
    using view_length [OF assms(2), of "l_start s"]
    by (subst length_put_arr) (simp_all add: size_defs)
  moreover have "bnd (bread 1 (l_start s)) (\<lambda>b. bnd (bdata b) (\<lambda>d.
      sq (set_bdata b (put_arr 0 (head_bytes (l_n s) (l_block s)) d)) (sq (bwrite b) (brelse b)))) s = Ok () t"
    using assms(3,4) by (simp add: write_head_def log_wf_def)
  ultimately show
    "wrote [(l_start s, put_arr 0 (head_bytes (l_n s) (l_block s)) (view s (l_start s)))] s t"
    "kbio.more t = kbio.more s"
    using write_block_Ok [OF assms(1,2)] by auto
qed

text \<open>The header as \<open>read_head\<close> sees it.\<close>

definition head_n :: "bytes \<Rightarrow> nat" where
  "head_n d = nat (sint (lh_n (dec_logheader d)))"

lemma sint_small: "n \<le> LOGSIZE \<Longrightarrow> nat (sint (of_nat n :: u32)) = n"
  by (simp add: sint_uint uint_nat unat_of_nat signed_take_bit_eq_if_positive not_le
      bit_iff_odd take_bit_eq_mod size_defs)

lemma head_put:
  assumes "length d = BSIZE" "n \<le> LOGSIZE" "length bs = LOGSIZE"
  shows "head_n (put_arr 0 (head_bytes n bs) d) = n"
    and "take n (lh_block (dec_logheader (put_arr 0 (head_bytes n bs) d))) = take n bs"
proof -
  let ?d = "put_arr 0 (head_bytes n bs) d"
  have len: "length (head_bytes n bs) = 4 + 4 * n" using assms by (simp add: length_head_bytes)
  have all: "sub_arr 0 (4 + 4 * n) ?d = head_bytes n bs"
    using sub_put_same [of 0 "head_bytes n bs" d] assms len by (simp add: size_defs)
  have sub: "sub_arr off k ?d = sub_arr off k (head_bytes n bs)" if "off + k \<le> 4 + 4 * n" for off k
  proof -
    have "sub_arr off k ?d = sub_arr off k (sub_arr 0 (4 + 4 * n) ?d)"
      using that by (simp add: sub_arr_def drop_take min_def)
    with all show ?thesis by simp
  qed
  have "sub_arr 0 4 ?d = enc32 (of_nat n)" using sub [of 0 4] by (simp add: head_bytes_def)
  then show "head_n ?d = n" using assms by (simp add: head_n_def dec_logheader_def sint_small)
  show "take n (lh_block (dec_logheader ?d)) = take n bs"
  proof (rule nth_equalityI)
    show "length (take n (lh_block (dec_logheader ?d))) = length (take n bs)"
      using assms by (simp add: dec_logheader_def)
  next
    fix i assume "i < length (take n (lh_block (dec_logheader ?d)))"
    then have i: "i < n" using assms by (simp add: dec_logheader_def)
    have "sub_arr (4 * i) 4 (sub_arr 4 (4 * LOGSIZE) ?d) = sub_arr (4 + 4 * i) 4 ?d"
      using i assms(2) by (simp add: sub_arr_def drop_take min_def add.commute)
    also have "\<dots> = sub_arr (4 + 4 * i) 4 (head_bytes n bs)" using i by (intro sub) simp
    also have "\<dots> = sub_arr (4 * i) 4 (enc32s (take n bs))"
      by (simp add: head_bytes_def sub_arr_append_right)
    also have "\<dots> = enc32 (bs ! i)" using i assms by (subst sub_arr_enc32s) simp_all
    finally show "take n (lh_block (dec_logheader ?d)) ! i = take n bs ! i"
      using i assms by (simp add: dec_logheader_def dec32s_def)
  qed
qed

section \<open>Commit\<close>

lemma l_n_update_bio [simp]:
  "bcache_ok H (s\<lparr>l_n := n\<rparr>) = bcache_ok H s" "view (s\<lparr>l_n := n\<rparr>) = view s"
  "dirty_blocks (s\<lparr>l_n := n\<rparr>) = dirty_blocks s"
  "running (s\<lparr>l_n := n\<rparr>) = running s" "bbase s (s\<lparr>l_n := n\<rparr>)" "bbase (s\<lparr>l_n := n\<rparr>) t = bbase s t"
  "wrote ws (s\<lparr>l_n := n\<rparr>) t = wrote ws s t" "proc_at (s\<lparr>l_n := n\<rparr>) = proc_at s"
proof -
  note c = bcache_cong [of "s\<lparr>l_n := n\<rparr>" s]
  show "running (s\<lparr>l_n := n\<rparr>) = running s" by (rule running_cong) simp_all
  with c show "bcache_ok H (s\<lparr>l_n := n\<rparr>) = bcache_ok H s" "view (s\<lparr>l_n := n\<rparr>) = view s"
    "dirty_blocks (s\<lparr>l_n := n\<rparr>) = dirty_blocks s" "proc_at (s\<lparr>l_n := n\<rparr>) = proc_at s"
    "bbase s (s\<lparr>l_n := n\<rparr>)" "bbase (s\<lparr>l_n := n\<rparr>) t = bbase s t"
    "wrote ws (s\<lparr>l_n := n\<rparr>) t = wrote ws s t"
    by (simp_all add: bbase_def wrote_def)
qed

lemma log_wf_empty: "log_wf s \<Longrightarrow> log_wf (s\<lparr>l_n := 0\<rparr>)"
  by (simp add: log_wf_def log_blocks_def)

definition head_on :: "'m klog_scheme \<Rightarrow> bytes" where
  "head_on s = put_arr 0 (head_bytes (l_n s) (l_block s)) (view s (l_start s))"

definition commit_writes :: "'m klog_scheme \<Rightarrow> (u32 \<times> bytes) list" where
  "commit_writes s =
     log_writes s @ [(l_start s, head_on s)] @
     map (\<lambda>i. (l_block s ! i, view s (l_block s ! i))) [0..<l_n s] @
     [(l_start s, put_arr 0 (head_bytes 0 (l_block s)) (head_on s))]"

lemma fst_log_writes: "fst ` set (log_writes s) = log_slot s ` {..<l_n s}"
  by (simp add: log_writes_def image_image lessThan_atLeast0)

lemma fst_blocks: "log_wf s \<Longrightarrow>
    fst ` set (map (\<lambda>i. (l_block s ! i, f i)) [0..<l_n s]) = set (log_blocks s)"
  using nth_image [of "l_n s" "l_block s"] by (simp add: image_image log_blocks_def log_wf_def)

lemma log_writes_at:
  assumes "log_wf s" "i < l_n s"
  shows "apply_writes (log_writes s) f (log_slot s i) = view s (l_block s ! i)"
proof (rule apply_writes_in)
  show "distinct (map fst (log_writes s))"
    using assms(1) log_slot_eq [of _ _ s]
    by (auto simp: log_writes_def o_def distinct_map inj_on_def log_wf_def)
  show "(log_slot s i, view s (l_block s ! i)) \<in> set (log_writes s)"
    using assms(2) by (auto simp: log_writes_def)
qed

lemma commit_Ok:
  fixes s :: "'m klog_scheme"
  assumes run: "running s" and ok: "bcache_ok {} s" and wf: "log_wf s" and n: "0 < l_n s"
    and r: "commit s = Ok () t"
  shows "wrote (commit_writes s) s t" and "log_wf t" and "l_n t = 0" and "l_start t = l_start s"
    and "l_block t = l_block s" and "klog.more t = klog.more s"
    and "l_outstanding t = l_outstanding s" and "l_committing t = l_committing s" and "l_size t = l_size s"
proof -
  from r n obtain s1 s2 s3 where r1: "write_log s = Ok () s1" and r2: "write_head s1 = Ok () s2"
    and r3: "install_trans s2 = Ok () s3" and r4: "write_head (s3\<lparr>l_n := 0\<rparr>) = Ok () t"
    by (auto simp: commit_def sq_eq_Ok)
  have nle: "l_n s < LOGSIZE" using wf by (simp add: log_wf_def)
  note w1 = write_log_Ok [OF run ok wf r1]
  note m1 = more_klog [OF w1(2)] more_log_wf [OF w1(2)]
  have s1: "running s1" "bcache_ok {} s1" "log_wf s1" using w1 wf m1 by (simp_all add: wrote_def)
  note w2 = write_head_Ok [OF s1 r2]
  have m2: "kbio.more s2 = kbio.more s" using w2(2) w1(2) by simp
  note m2' = more_klog [OF m2] more_log_wf [OF m2]
  have s2: "running s2" "bcache_ok {} s2" "log_wf s2" using w2 wf m2' by (simp_all add: wrote_def)
  note w3 = install_trans_Ok [OF s2 r3]
  have m3: "kbio.more s3 = kbio.more s" using w3(2) m2 by simp
  note m3' = more_klog [OF m3] more_log_wf [OF m3]
  have s3: "running (s3\<lparr>l_n := 0\<rparr>)" "bcache_ok {} (s3\<lparr>l_n := 0\<rparr>)" "log_wf (s3\<lparr>l_n := 0\<rparr>)"
    using w3 wf m3' log_wf_empty [of s3] by (simp_all add: wrote_def)
  note w4 = write_head_Ok [OF s3 r4]
  note m4 = more_klog [OF w4(2)] more_log_wf [OF w4(2)]
  have "l_start s \<notin> fst ` set (log_writes s)"
    unfolding fst_log_writes using log_slot_start [of _ s] nle
    by (metis imageE lessThan_iff less_trans)
  then have start: "view s1 (l_start s) = view s (l_start s)"
    by (rule wrote_other [OF w1(1)])
  have v2: "view s2 (log_slot s i) = view s (l_block s ! i)" if "i < l_n s" for i
    using that w1(1) w2(1) wf log_slot_start [of i s] nle
    by (simp add: wrote_def m1 log_writes_at)
  have i3: "install_writes s2 = map (\<lambda>i. (l_block s ! i, view s (l_block s ! i))) [0..<l_n s]"
    by (simp add: install_writes_def m2' v2)
  have "l_start s \<notin> fst ` set (install_writes s2)"
    unfolding i3 fst_blocks [OF wf] using wf log_start_region [of s] by (auto simp: log_wf_def)
  then have "view s3 (l_start s) = view s2 (l_start s)"
    by (rule wrote_other [OF w3(1)])
  also have "\<dots> = head_on s" using w2(1) by (simp add: wrote_def m1 start head_on_def)
  finally have h3: "view s3 (l_start s) = head_on s" .
  have "wrote (log_writes s @ [(l_start s, head_on s)]) s s2"
    using wrote_trans [OF w1(1) w2(1)] by (simp add: m1 start head_on_def)
  from wrote_trans [OF this w3(1)]
  have "wrote (log_writes s @ [(l_start s, head_on s)] @ install_writes s2) s (s3)" by simp
  from wrote_trans [OF this, of _ t] w4(1)
  show "wrote (commit_writes s) s t" by (simp add: commit_writes_def i3 m3' h3)
  show "log_wf t" using s3(3) m4 by simp
  show "l_n t = 0" "l_start t = l_start s" "l_block t = l_block s" "klog.more t = klog.more s"
    "l_outstanding t = l_outstanding s" "l_committing t = l_committing s" "l_size t = l_size s"
    using m4 m3' by simp_all
qed

section \<open>Recovery\<close>

lemma read_head_Ok:
  fixes s :: "'m klog_scheme"
  assumes "running s" "bcache_ok {} s" "l_dev s = 1" "read_head s = Ok () t"
  shows "bcache_ok {} t" "running t" "view t = view s" "disk t = disk s" "dwrites t = dwrites s"
    "dirty_blocks t = dirty_blocks s" "bbase s t"
    and "head_n (view s (l_start s)) \<le> LOGSIZE" "l_n t = head_n (view s (l_start s))"
    and "l_block t = take (l_n t) (lh_block (dec_logheader (view s (l_start s)))) @ drop (l_n t) (l_block s)"
    and "l_start t = l_start s" "l_dev t = 1" "l_size t = l_size s" "l_outstanding t = l_outstanding s"
    and "l_committing t = l_committing s" "klog.more t = klog.more s"
proof -
  let ?lh = "dec_logheader (view s (l_start s))" and ?n = "head_n (view s (l_start s))"
  from assms(4) obtain b s1 where r1: "bread 1 (l_start s) s = Ok b s1"
    and r: "(let n = nat (sint (lh_n (dec_logheader (b_data (buf_at s1 b))))) in
       if n > LOGSIZE then undefined_behaviour
       else sq (modk (\<lambda>s. s\<lparr>l_n := n, l_block := take n (lh_block (dec_logheader (b_data (buf_at s1 b)))) @
              drop n (l_block s)\<rparr>)) (brelse b)) s1 = Ok () t"
    by (auto simp: read_head_def bnd_eq_Ok assms(3) Let_def)
  note b1 = bread_Ok [OF assms(1,2) r1]
  note m1 = more_klog [of s1 s]
  have m: "kbio.more s1 = kbio.more s" using b1(8) by (simp add: bframe_def)
  define s2 where "s2 = s1\<lparr>l_n := ?n, l_block := take ?n (lh_block ?lh) @ drop ?n (l_block s)\<rparr>"
  have le: "?n \<le> LOGSIZE" and r2: "brelse b s2 = Ok () t"
    using r b1(5) by (auto simp: Let_def head_n_def s2_def undefined_behaviour_def m1 [OF m] kpanic_def
        split: if_splits)
  note c = bcache_cong [of s2 s1]
  have same: "bufs s2 = bufs s1" "lru s2 = lru s1" "disk s2 = disk s1" "slocks s2 = slocks s1"
    "ptab s2 = ptab s1" "cur s2 = cur s1" "dwrites s2 = dwrites s1" "held s2 = held s1"
    by (simp_all add: s2_def)
  note c = bcache_cong [OF same(1-6)]
  have run1: "running s1" by (rule bframe_running [OF b1(8) assms(1)])
  then have run2: "running s2" using running_cong [of s2 s1] same by simp
  have ok2: "bcache_ok {b} s2" using c(1) b1(3) by simp
  have "is_block 1 (l_start s) (buf_at s2 b)"
    "b_dirty (buf_at s2 b) \<or> b_data (buf_at s2 b) = disk s2 (l_start s)"
    using b1(4,12) by (simp_all add: c same)
  note e = brelse_Ok [OF run2 ok2 insertI1 this r2]
  have "bbase s1 s2" using run1 run2 by (auto simp: bbase_def c same) (simp_all add: s2_def)
  with b1(8) e(5) show "bbase s t" by (auto simp: bframe_def intro: bbase_trans)
  show "bcache_ok {} t" "running t" "view t = view s" "disk t = disk s" "dwrites t = dwrites s"
    "dirty_blocks t = dirty_blocks s"
    using e b1 by (simp_all add: c same)
  have m2: "kbio.more t = kbio.more s2" using e(5) by (simp add: bframe_def)
  show "?n \<le> LOGSIZE" by (fact le)
  show "l_n t = ?n" "l_block t = take (l_n t) (lh_block ?lh) @ drop (l_n t) (l_block s)"
    "l_start t = l_start s" "l_dev t = 1" "l_size t = l_size s" "l_outstanding t = l_outstanding s"
    "l_committing t = l_committing s" "klog.more t = klog.more s"
    using more_klog [OF m2] m1 [OF m] assms(3) by (simp_all add: s2_def)
qed

text \<open>
  The blocks that the header on disk names, and what \<open>recover_from_log\<close> does with them when
  they are sensible: it installs them and leaves an empty log.
\<close>

definition head_list :: "bytes \<Rightarrow> u32 list" where
  "head_list d = take (head_n d) (lh_block (dec_logheader d))"

lemma recover_from_log_Ok:
  fixes s :: "'m klog_scheme"
  assumes run: "running s" and ok: "bcache_ok {} s" and dev: "l_dev s = 1"
    and len: "length (l_block s) = LOGSIZE" and clean: "dirty_blocks s = {}"
    and bs: "distinct (head_list (disk s (l_start s)))"
      "set (head_list (disk s (l_start s))) \<inter> log_region s = {}"
    and hn: "head_n (disk s (l_start s)) < LOGSIZE"
    and r: "recover_from_log s = Ok () t"
  defines "ws \<equiv> map (\<lambda>i. (head_list (disk s (l_start s)) ! i, disk s (log_slot s i)))
                  [0..<head_n (disk s (l_start s))]"
  shows "\<exists>h. head_n h = 0 \<and> wrote (ws @ [(l_start s, h)]) s t" and "log_wf t" "l_n t = 0"
    "l_start t = l_start s" "klog.more t = klog.more s" "dirty_blocks t = {}"
proof -
  from r obtain s1 s2 where r1: "read_head s = Ok () s1" and r2: "install_trans s1 = Ok () s2"
    and r3: "write_head (s2\<lparr>l_n := 0\<rparr>) = Ok () t"
    by (auto simp: recover_from_log_def sq_eq_Ok)
  have v: "view s = disk s" using view_clean [OF ok] clean by (intro ext) simp
  note h = read_head_Ok [OF run ok dev r1, unfolded v]
  let ?d = "disk s (l_start s)"
  have lb: "log_blocks s1 = head_list ?d"
    using h(8) by (simp add: log_blocks_def h(9,10) head_list_def dec_logheader_def)
  have reg: "log_region s1 = log_region s" by (simp add: log_region_def h)
  have wf1: "log_wf s1"
    using bs hn h(8) len by (simp add: log_wf_def lb reg h(9,10,12) dec_logheader_def)
  note w1 = install_trans_Ok [OF h(2,1) wf1 r2]
  note m1 = more_klog [OF w1(2)] more_log_wf [OF w1(2)]
  have iw: "install_writes s1 = ws"
  proof -
    have "l_block s1 ! i = head_list ?d ! i" if "i < head_n ?d" for i
      using that lb log_blocks_nth [OF wf1, of i] by (simp add: h(9))
    moreover have "log_slot s1 = log_slot s" by (simp add: log_slot_def [abs_def] h)
    ultimately show ?thesis by (simp add: install_writes_def ws_def h(3,9) v)
  qed
  have s2: "running (s2\<lparr>l_n := 0\<rparr>)" "bcache_ok {} (s2\<lparr>l_n := 0\<rparr>)" "log_wf (s2\<lparr>l_n := 0\<rparr>)"
    using w1 wf1 m1 log_wf_empty [of s2] by (simp_all add: wrote_def)
  note w2 = write_head_Ok [OF s2 r3]
  note m2 = more_klog [OF w2(2)] more_log_wf [OF w2(2)]
  have s01: "wrote [] s s1" using h by (simp add: wrote_def v)
  let ?h = "put_arr 0 (head_bytes 0 (l_block s2)) (view s2 (l_start s))"
  have "length (view s2 (l_start s)) = BSIZE" using s2(2) by (intro view_length) simp
  then have "head_n ?h = 0" using s2(3) by (intro head_put) (simp_all add: log_wf_def)
  moreover have "wrote (ws @ [(l_start s, ?h)]) s t"
    using wrote_trans [OF wrote_trans [OF s01 w1(1)], of _ t] w2(1) by (simp add: iw m1 h)
  ultimately show ex: "\<exists>h. head_n h = 0 \<and> wrote (ws @ [(l_start s, h)]) s t" by blast
  then show "dirty_blocks t = {}" using clean by (auto simp: wrote_def)
  show "log_wf t" using s2(3) m2 by simp
  show "l_n t = 0" "l_start t = l_start s" "klog.more t = klog.more s" using m2 m1 h by simp_all
qed

section \<open>Crashes\<close>

text \<open>The disk after the first \<open>k\<close> of the writes issued between \<open>s\<close> and \<open>t\<close>.\<close>

definition writes_between :: "'m kbio_scheme \<Rightarrow> 'm kbio_scheme \<Rightarrow> (u32 \<times> bytes) list" where
  "writes_between s t = rev (take (length (dwrites t) - length (dwrites s)) (dwrites t))"

definition crash_disk :: "nat \<Rightarrow> 'm kbio_scheme \<Rightarrow> 'm kbio_scheme \<Rightarrow> u32 \<Rightarrow> bytes" where
  "crash_disk k s t = apply_writes (take k (writes_between s t)) (disk s)"

text \<open>A kernel that has just booted on the same disk layout: an empty cache.\<close>

definition booted :: "'m klog_scheme \<Rightarrow> 'm klog_scheme \<Rightarrow> bool" where
  "booted s r \<longleftrightarrow> running r \<and> bcache_ok {} r \<and> dirty_blocks r = {} \<and> l_dev r = 1 \<and>
     length (l_block r) = LOGSIZE \<and> l_start r = l_start s"

text \<open>A transaction that is ready to commit: the log on disk is empty, the dirty blocks are its own.\<close>

definition log_ready :: "'m klog_scheme \<Rightarrow> bool" where
  "log_ready s \<longleftrightarrow> running s \<and> bcache_ok {} s \<and> log_wf s \<and>
     dirty_blocks s = set (log_blocks s) \<and> head_n (disk s (l_start s)) = 0"

lemma writes_between_wrote: "wrote ws s t \<Longrightarrow> writes_between s t = ws"
  by (simp add: wrote_def writes_between_def)

abbreviation block_writes :: "'m klog_scheme \<Rightarrow> (u32 \<times> bytes) list" where
  "block_writes s \<equiv> map (\<lambda>i. (l_block s ! i, view s (l_block s ! i))) [0..<l_n s]"

lemma length_log_writes [simp]: "length (log_writes s) = l_n s"
  by (simp add: log_writes_def)

lemma crash_before_commit:
  assumes "k \<le> l_n s" "l_n s < LOGSIZE"
  shows "apply_writes (take k (commit_writes s)) f (l_start s) = f (l_start s)"
    and "bn \<notin> log_region s \<Longrightarrow> apply_writes (take k (commit_writes s)) f bn = f bn"
proof -
  have tk: "take k (commit_writes s) = take k (log_writes s)" using assms(1) by (simp add: commit_writes_def)
  have "fst ` set (take k (log_writes s)) \<subseteq> log_slot s ` {..<l_n s}"
    using set_take_subset [of k "log_writes s"] fst_log_writes [of s] by blast
  then have a: "apply_writes (take k (commit_writes s)) f x = f x" if "x \<notin> log_slot s ` {..<l_n s}" for x
    unfolding tk using that by (intro apply_writes_other) blast
  have "l_start s \<notin> log_slot s ` {..<l_n s}"
    using log_slot_start [of _ s] assms(2) by (metis imageE lessThan_iff less_trans)
  then show "apply_writes (take k (commit_writes s)) f (l_start s) = f (l_start s)" by (rule a)
  have "log_slot s ` {..<l_n s} \<subseteq> log_region s"
    using log_slot_region [of _ s] assms(2) by auto
  then show "apply_writes (take k (commit_writes s)) f bn = f bn" if "bn \<notin> log_region s"
    using that by (intro a) blast
qed

lemma block_writes_at:
  assumes "log_wf s" "bn \<in> set (log_blocks s)"
  shows "apply_writes (block_writes s) f bn = view s bn"
proof (rule apply_writes_in)
  show "distinct (map fst (block_writes s))"
    using log_block_eq [OF assms(1)] by (auto simp: o_def distinct_map inj_on_def)
  from assms obtain i where "i < l_n s" "bn = l_block s ! i"
    by (auto simp: in_set_conv_nth log_blocks_def)
  then show "(bn, view s bn) \<in> set (block_writes s)" by auto
qed

lemma log_ready_view:
  assumes "log_ready s" "bn \<notin> set (log_blocks s)"
  shows "view s bn = disk s bn"
  using assms by (intro view_clean) (simp_all add: log_ready_def)

text \<open>While the transaction is being installed, the header on disk describes it and the log has it.\<close>

lemma crash_while_installing:
  assumes rdy: "log_ready s" and k: "l_n s < k" "k \<le> 2 * l_n s + 1"
  defines "d \<equiv> apply_writes (take k (commit_writes s)) (disk s)"
  shows "head_n (d (l_start s)) = l_n s" "head_list (d (l_start s)) = log_blocks s"
    and "i < l_n s \<Longrightarrow> d (log_slot s i) = view s (l_block s ! i)"
    and "bn \<notin> log_region s \<Longrightarrow> bn \<notin> set (log_blocks s) \<Longrightarrow> d bn = view s bn"
proof -
  have wf: "log_wf s" and n: "l_n s < LOGSIZE" and ok: "bcache_ok {} s"
    using rdy by (simp_all add: log_ready_def log_wf_def)
  let ?I = "take (k - Suc (l_n s)) (block_writes s)"
  have "take k (commit_writes s) = log_writes s @ [(l_start s, head_on s)] @ ?I"
    using k by (simp add: commit_writes_def take_Cons' )
  then have d: "d = apply_writes ?I ((apply_writes (log_writes s) (disk s))(l_start s := head_on s))"
    by (simp add: d_def)
  have "fst ` set ?I \<subseteq> fst ` set (block_writes s)" by (intro image_mono set_take_subset)
  also have "\<dots> = set (log_blocks s)" by (rule fst_blocks [OF wf])
  finally have I: "fst ` set ?I \<subseteq> set (log_blocks s)" .
  have out: "d bn = ((apply_writes (log_writes s) (disk s))(l_start s := head_on s)) bn"
    if "bn \<notin> set (log_blocks s)" for bn
    unfolding d using that I by (intro apply_writes_other) blast
  have st: "l_start s \<notin> set (log_blocks s)" using wf log_start_region [of s] by (auto simp: log_wf_def)
  then have h: "d (l_start s) = head_on s" by (simp add: out)
  show "head_n (d (l_start s)) = l_n s" "head_list (d (l_start s)) = log_blocks s"
    using head_put [OF view_length [OF ok, of "l_start s"] less_imp_le [OF n], of "l_block s"] wf
    by (simp_all add: h head_on_def head_list_def log_blocks_def log_wf_def)
  show "d (log_slot s i) = view s (l_block s ! i)" if "i < l_n s"
  proof -
    have "log_slot s i \<in> log_region s" "log_slot s i \<noteq> l_start s"
      using that n by (simp_all add: log_slot_region log_slot_start)
    with wf that show ?thesis by (subst out) (auto simp: log_wf_def log_writes_at)
  qed
  show "d bn = view s bn" if "bn \<notin> log_region s" "bn \<notin> set (log_blocks s)"
  proof -
    have "log_slot s ` {..<l_n s} \<subseteq> log_region s" using n log_slot_region [of _ s] by auto
    then have "bn \<notin> fst ` set (log_writes s)" "bn \<noteq> l_start s"
      using that log_start_region [of s] unfolding fst_log_writes by auto
    with that log_ready_view [OF rdy that(2)] show ?thesis
      by (simp only: out fun_upd_other apply_writes_other not_False_eq_True)
  qed
qed

text \<open>After the last write of a commit, the header on disk is empty and all blocks are in place.\<close>

lemma crash_after_commit:
  assumes rdy: "log_ready s" and k: "2 * l_n s + 1 < k"
  defines "d \<equiv> apply_writes (take k (commit_writes s)) (disk s)"
  shows "head_n (d (l_start s)) = 0" and "bn \<notin> log_region s \<Longrightarrow> d bn = view s bn"
proof -
  have wf: "log_wf s" and n: "l_n s < LOGSIZE" and ok: "bcache_ok {} s"
    using rdy by (simp_all add: log_ready_def log_wf_def)
  let ?h = "put_arr 0 (head_bytes 0 (l_block s)) (head_on s)"
  let ?d1 = "apply_writes (take (2 * l_n s + 1) (commit_writes s)) (disk s)"
  have "take k (commit_writes s) = take (2 * l_n s + 1) (commit_writes s) @ [(l_start s, ?h)]"
    using k by (simp add: commit_writes_def)
  then have d: "d = ?d1(l_start s := ?h)" by (simp add: d_def)
  have "length (head_on s) = BSIZE"
    using wf view_length [OF ok, of "l_start s"] unfolding head_on_def
    by (subst length_put_arr) (simp_all add: log_wf_def length_head_bytes size_defs)
  then show "head_n (d (l_start s)) = 0" using wf by (simp add: d head_put log_wf_def)
  show "d bn = view s bn" if bn: "bn \<notin> log_region s"
  proof (cases "bn \<in> set (log_blocks s)")
    case False
    with bn crash_while_installing(4) [OF rdy, of "2 * l_n s + 1" bn] log_start_region [of s]
    show ?thesis by (auto simp: d)
  next
    case True
    have "take (2 * l_n s + 1) (commit_writes s) = log_writes s @ [(l_start s, head_on s)] @ block_writes s"
      by (simp add: commit_writes_def)
    then have "?d1 bn = view s bn" using block_writes_at [OF wf True] by simp
    then show ?thesis using bn log_start_region [of s] by (auto simp: d)
  qed
qed

section \<open>Commit and recovery return\<close>

lemma copy_tail_total:
  assumes "running s" "bcache_ok {l, d} s" "bquiet {l, d} s" "l \<noteq> d" "is_block 1 dst (buf_at s d)"
    and "dst < disksize s" "length v = BSIZE"
    and "is_block 1 src (buf_at s l)" "b_dirty (buf_at s l) \<or> b_data (buf_at s l) = disk s src"
  shows "\<exists>t. sq (set_bdata d v) (sq (bwrite d) (sq (brelse l) (brelse d))) s = Ok () t \<and> bquiet {} t"
proof -
  define s1 where "s1 = upd_buf d (b_data_update (\<lambda>_. v)) s"
  have b: "l < NBUF" "d < NBUF" "length (bufs s) = NBUF" using bcache_bounds(1,2) [OF assms(2)] by auto
  have s1: "running s1" "bcache_ok {l, d} s1" "bquiet {l, d} s1"
    using assms set_bdata_ok(1) [OF assms(2) _ assms(7,5)]
    by (simp_all add: s1_def bquiet_upd)
  have at1: "is_block 1 dst (buf_at s1 d)" "b_blockno (buf_at s1 d) < disksize s1" "buf_at s1 l = buf_at s l"
    using assms(4-6) b by (simp_all add: s1_def buf_at_upd_buf is_block_def)
  obtain s2 where r2: "bwrite d s1 = Ok () s2" and q2: "bquiet {l, d} s2"
    using bwrite_total [OF s1 _ at1(2)] by auto
  have s2: "s2 = bwrite_effect d s1" using bwrite_Ok [OF s1(1,2) _ r2] by simp
  have run2: "running s2" using s1 by (simp add: s2)
  have ok2: "bcache_ok {l, d} s2" unfolding s2 using bwrite_effect_ok(1) [OF s1(2) _ at1(1)] by simp
  obtain s3 where r3: "brelse l s2 = Ok () s3" and q3: "bquiet ({l, d} - {l}) s3"
    using brelse_total [OF run2 ok2 q2, of l] by auto
  have s3: "s3 = brelse_effect l s2"
    using r3 run2 bcache_bounds(5) [OF ok2, of l] by (simp add: brelse_run)
  have run3: "running s3" using run2 by (simp add: s3)
  have "slocks s3 (SL_buf d) = slocks s2 (SL_buf d)" "proc_at s3 = proc_at s2"
    using assms(4) run2 by (simp_all add: s3)
  then have h: "holds (SL_buf d) s3" using bcache_bounds(5) [OF ok2, of d] by (simp add: holds_def)
  have "bquiet {} (brelse_effect d s3)"
  proof -
    have "length (bufs s3) = NBUF" using b by (simp add: s3 s2 s1_def)
    with q3 assms(4) b show ?thesis by (auto simp: bquiet_def buf_at_brelse_effect split: if_splits)
  qed
  with r2 r3 brelse_run [OF run3 h] show ?thesis by (auto simp: s1_def sq_Ok)
qed

lemma install_step_total:
  assumes "running s" "bcache_ok {} s" "bquiet {} s" "src < disksize s" "dst < disksize s" "src \<noteq> dst"
    and "card (dirty_blocks s) < NBUF" "dst \<in> dirty_blocks s \<or> card (dirty_blocks s) + 1 < NBUF"
  shows "\<exists>t. bnd (bread 1 src) (\<lambda>l. bnd (bread 1 dst) (\<lambda>d. bnd (bdata l) (\<lambda>x.
           sq (set_bdata d x) (sq (bwrite d) (sq (brelse l) (brelse d)))))) s = Ok () t \<and> bquiet {} t"
proof -
  obtain l s1 where r1: "bread 1 src s = Ok l s1" and q1: "bquiet {l} s1"
    using bread_total [OF assms(1,2,3,4)] assms(7) by auto
  note b1 = bread_Ok [OF assms(1,2) r1]
  have run1: "running s1" by (rule bframe_running [OF b1(8) assms(1)])
  have ds: "disksize s1 = disksize s" using b1(8) by (simp add: bframe_def bbase_def)
  obtain d s2 where r2: "bread 1 dst s1 = Ok d s2" and q2: "bquiet {d, l} s2"
    using bread_total [OF run1 b1(3) q1, of dst] assms(5,6,8) ds b1(4,11) by (auto simp: is_block_def)
  note b2 = bread_Ok [OF run1 b1(3) r2]
  have run2: "running s2" by (rule bframe_running [OF b2(8) run1])
  have ds2: "disksize s2 = disksize s" using b2(8) ds by (simp add: bframe_def bbase_def)
  have ne: "l \<noteq> d" using b2(2) by auto
  have c: "{d, l} = {l, d}" by auto
  have l: "is_block 1 src (buf_at s2 l)" "b_dirty (buf_at s2 l) \<or> b_data (buf_at s2 l) = disk s2 src"
    using b1 b2 ne by simp_all
  have "length (b_data (buf_at s2 l)) = BSIZE"
    using b1(5) b2(7) [of l] ne view_length [OF assms(2)] by simp
  from copy_tail_total [OF run2 _ _ ne b2(4) _ this l] b2(3) q2 assms(5) ds2 c r1 r2
  show ?thesis by auto
qed

lemma write_log_step_total:
  assumes "running s" "bcache_ok {} s" "bquiet {} s" "src < disksize s" "dst < disksize s" "src \<noteq> dst"
    and "card (dirty_blocks s) < NBUF" "src \<in> dirty_blocks s \<or> card (dirty_blocks s) + 1 < NBUF"
  shows "\<exists>t. bnd (bread 1 dst) (\<lambda>d. bnd (bread 1 src) (\<lambda>l. bnd (bdata l) (\<lambda>x.
           sq (set_bdata d x) (sq (bwrite d) (sq (brelse l) (brelse d)))))) s = Ok () t \<and> bquiet {} t"
proof -
  obtain d s1 where r1: "bread 1 dst s = Ok d s1" and q1: "bquiet {d} s1"
    using bread_total [OF assms(1,2,3,5)] assms(7) by auto
  note b1 = bread_Ok [OF assms(1,2) r1]
  have run1: "running s1" by (rule bframe_running [OF b1(8) assms(1)])
  have ds: "disksize s1 = disksize s" using b1(8) by (simp add: bframe_def bbase_def)
  obtain l s2 where r2: "bread 1 src s1 = Ok l s2" and q2: "bquiet {l, d} s2"
    using bread_total [OF run1 b1(3) q1, of src] assms(4,6,8) ds b1(4,11) by (auto simp: is_block_def)
  note b2 = bread_Ok [OF run1 b1(3) r2]
  have run2: "running s2" by (rule bframe_running [OF b2(8) run1])
  have ds2: "disksize s2 = disksize s" using b2(8) ds by (simp add: bframe_def bbase_def)
  have ne: "l \<noteq> d" using b2(2) by auto
  have "is_block 1 dst (buf_at s2 d)" using b1(4) b2(7) [of d] ne by simp
  moreover have "length (b_data (buf_at s2 l)) = BSIZE" using b2(5) view_length [OF b1(3)] by simp
  ultimately show ?thesis
    using copy_tail_total [OF run2 _ q2 ne _ _ _ b2(4,12)] b2(3) assms(5) ds2 r1 r2 by auto
qed

lemma copy_loop_total:
  assumes step: "\<And>i s. i < n \<Longrightarrow> running s \<Longrightarrow> bcache_ok {} s \<Longrightarrow> bquiet {} s \<Longrightarrow> I i s \<Longrightarrow>
      \<exists>t. body i s = Ok () t \<and> running t \<and> bcache_ok {} t \<and> bquiet {} t \<and> I (Suc i) t"
    and s: "running s" "bcache_ok {} s" "bquiet {} s" "I 0 s"
  shows "\<exists>t. for_each [0..<n] body s = Ok () t \<and> bquiet {} t"
proof -
  have "\<exists>t. for_each [0..<k] body s = Ok () t \<and> running t \<and> bcache_ok {} t \<and> bquiet {} t \<and> I k t"
    if "k \<le> n" for k
    using that
  proof (induction k)
    case 0
    with s show ?case by simp
  next
    case (Suc k)
    then obtain u where u: "for_each [0..<k] body s = Ok () u" "running u" "bcache_ok {} u"
      "bquiet {} u" "I k u" by auto
    with step [of k u] Suc.prems show ?case by (auto simp: for_each_append sq_Ok)
  qed
  from this [of n] show ?thesis by auto
qed

text \<open>The log and the blocks of the transaction lie on the disk.\<close>

definition log_in_range :: "'m klog_scheme \<Rightarrow> bool" where
  "log_in_range s \<longleftrightarrow> (\<forall>bn \<in> log_region s \<union> set (log_blocks s). bn < disksize s)"

lemma log_in_range_slot:
  assumes "log_in_range s" "log_wf s"
  shows "Suc i < LOGSIZE \<Longrightarrow> log_slot s i < disksize s" "l_start s < disksize s"
    "i < l_n s \<Longrightarrow> l_block s ! i < disksize s"
  using assms log_slot_region [of i s] log_start_region [of s] log_blocks_nth [OF assms(2), of i]
  by (auto simp: log_in_range_def)

lemma finite_dirty: "finite (dirty_blocks s)"
  by (simp add: dirty_blocks_def)

lemma write_log_total:
  fixes s :: "'m klog_scheme"
  assumes "running s" "bcache_ok {} s" "bquiet {} s" "log_wf s" "log_in_range s"
    and "set (log_blocks s) \<subseteq> dirty_blocks s" "card (dirty_blocks s) < NBUF"
    and "dirty_blocks s \<inter> log_region s = {}"
  shows "\<exists>t. write_log s = Ok () t \<and> bquiet {} t"
proof -
  let ?I = "\<lambda>(i :: nat) u. kbio.more u = kbio.more s \<and> dirty_blocks u = dirty_blocks s \<and> disksize u = disksize s"
  have "\<exists>t. for_each [0..<l_n s] log_block s = Ok () t \<and> bquiet {} t"
  proof (rule copy_loop_total [where I = ?I])
    fix i and u :: "'m klog_scheme"
    assume i: "i < l_n s" and u: "running u" "bcache_ok {} u" "bquiet {} u" and I: "?I i u"
    note m = more_klog [OF conjunct1 [OF I]] more_log_wf [OF conjunct1 [OF I]]
    have n: "Suc i < LOGSIZE" using i assms(4) by (simp add: log_wf_def)
    have src: "l_block s ! i \<in> dirty_blocks s"
      using log_blocks_nth [OF assms(4) i] assms(6) by auto
    have ne: "l_block s ! i \<noteq> log_slot s i" using log_block_slot(1) [OF assms(4) i n] .
    have dst: "log_slot s i \<notin> dirty_blocks s" using log_slot_region [OF n, of s] assms(8) by auto
    have b: "log_block i u = bnd (bread 1 (log_slot s i)) (\<lambda>d. bnd (bread 1 (l_block s ! i)) (\<lambda>l.
        bnd (bdata l) (\<lambda>x. sq (set_bdata d x) (sq (bwrite d) (sq (brelse l) (brelse d)))))) u"
      using assms(4) by (simp add: log_block_def m log_wf_def)
    obtain t where t: "log_block i u = Ok () t" "bquiet {} t"
      using write_log_step_total [OF u, of "l_block s ! i" "log_slot s i"] I ne src assms(7)
        log_in_range_slot(1,3) [OF assms(5,4), of i] i n unfolding b by auto
    have c: "copied (l_block s ! i) (log_slot s i) u t"
      using t(1) unfolding b by (rule write_log_step [OF u(1,2)])
    with t I dst show "\<exists>t. log_block i u = Ok () t \<and> running t \<and> bcache_ok {} t \<and> bquiet {} t \<and> ?I (Suc i) t"
      by (auto simp: copied_def bframe_def bbase_def)
  qed (use assms in auto)
  then show ?thesis by (simp add: write_log_def)
qed

lemma install_trans_total:
  fixes s :: "'m klog_scheme"
  assumes "running s" "bcache_ok {} s" "bquiet {} s" "log_wf s" "log_in_range s"
    and "dirty_blocks s = {} \<or> set (log_blocks s) \<subseteq> dirty_blocks s" "card (dirty_blocks s) < NBUF"
  shows "\<exists>t. install_trans s = Ok () t \<and> bquiet {} t"
proof -
  let ?I = "\<lambda>(i :: nat) u. kbio.more u = kbio.more s \<and> disksize u = disksize s \<and>
      card (dirty_blocks u) < NBUF \<and>
      (dirty_blocks u = {} \<or> (\<forall>j. i \<le> j \<longrightarrow> j < l_n s \<longrightarrow> l_block s ! j \<in> dirty_blocks u))"
  have "\<exists>t. for_each [0..<l_n s] install_block s = Ok () t \<and> bquiet {} t"
  proof (rule copy_loop_total [where I = ?I])
    fix i and u :: "'m klog_scheme"
    assume i: "i < l_n s" and u: "running u" "bcache_ok {} u" "bquiet {} u" and I: "?I i u"
    note m = more_klog [OF conjunct1 [OF I]] more_log_wf [OF conjunct1 [OF I]]
    have n: "Suc i < LOGSIZE" using i assms(4) by (simp add: log_wf_def)
    have ne: "log_slot s i \<noteq> l_block s ! i" using log_block_slot(1) [OF assms(4) i n] by simp
    have room: "l_block s ! i \<in> dirty_blocks u \<or> card (dirty_blocks u) + 1 < NBUF"
      using I i by (auto simp: NBUF_def MAXOPBLOCKS_def)
    have b: "install_block i u = bnd (bread 1 (log_slot s i)) (\<lambda>l. bnd (bread 1 (l_block s ! i)) (\<lambda>d.
        bnd (bdata l) (\<lambda>x. sq (set_bdata d x) (sq (bwrite d) (sq (brelse l) (brelse d)))))) u"
      using assms(4) by (simp add: install_block_def m log_wf_def)
    obtain t where t: "install_block i u = Ok () t" "bquiet {} t"
      using install_step_total [OF u, of "log_slot s i" "l_block s ! i"] I ne room
        log_in_range_slot(1,3) [OF assms(5,4), of i] i n unfolding b by auto
    have c: "copied (log_slot s i) (l_block s ! i) u t"
      using t(1) unfolding b by (rule install_step [OF u(1,2)])
    then have d: "dirty_blocks t = dirty_blocks u - {l_block s ! i}" by (simp add: copied_def)
    have "card (dirty_blocks t) \<le> card (dirty_blocks u)"
      unfolding d by (intro card_mono finite_dirty) auto
    moreover have "l_block s ! j \<in> dirty_blocks t" if "Suc i \<le> j" "j < l_n s" "dirty_blocks u \<noteq> {}" for j
      using that I log_block_eq [OF assms(4), of j i] i by (simp add: d)
    ultimately show "\<exists>t. install_block i u = Ok () t \<and> running t \<and> bcache_ok {} t \<and> bquiet {} t \<and> ?I (Suc i) t"
      using t I c d by (auto simp: copied_def bframe_def bbase_def)
  next
    have "l_block s ! j \<in> set (log_blocks s)" if "j < l_n s" for j
      using log_blocks_nth [OF assms(4) that] by auto
    with assms show "?I 0 s" by auto
  qed (use assms in auto)
  then show ?thesis by (simp add: install_trans_def)
qed

lemma write_block_total:
  assumes "running s" "bcache_ok {} s" "bquiet {} s" "bn < disksize s" "card (dirty_blocks s) < NBUF"
    and "length (f (view s bn)) = BSIZE"
  shows "\<exists>t. bnd (bread 1 bn) (\<lambda>b. bnd (bdata b) (\<lambda>d. sq (set_bdata b (f d)) (sq (bwrite b) (brelse b)))) s
      = Ok () t \<and> bquiet {} t"
proof -
  obtain b s1 where r1: "bread 1 bn s = Ok b s1" and q1: "bquiet {b} s1"
    using bread_total [OF assms(1,2,3,4)] assms(5) by auto
  note b1 = bread_Ok [OF assms(1,2) r1]
  have run1: "running s1" by (rule bframe_running [OF b1(8) assms(1)])
  define s2 where "s2 = upd_buf b (b_data_update (\<lambda>_. f (view s bn))) s1"
  have len: "b < length (bufs s1)" using b1(1) bcache_bounds(1) [OF b1(3)] by simp
  have s2: "running s2" "bcache_ok {b} s2" "bquiet {b} s2"
    using run1 q1 set_bdata_ok(1) [OF b1(3) insertI1 assms(6) b1(4)] by (simp_all add: s2_def bquiet_upd)
  have at2: "is_block 1 bn (buf_at s2 b)" "b_blockno (buf_at s2 b) < disksize s2"
    using b1(4,8) len assms(4) by (simp_all add: s2_def buf_at_upd_buf is_block_def bframe_def bbase_def)
  obtain s3 where r3: "bwrite b s2 = Ok () s3" and q3: "bquiet {b} s3"
    using bwrite_total [OF s2 insertI1 at2(2)] by auto
  have s3: "s3 = bwrite_effect b s2" using bwrite_Ok [OF s2(1,2) insertI1 r3] by simp
  have run3: "running s3" using s2 by (simp add: s3)
  have ok3: "bcache_ok {b} s3" unfolding s3 by (rule bwrite_effect_ok(1) [OF s2(2) insertI1 at2(1)])
  obtain t where "brelse b s3 = Ok () t" "bquiet ({b} - {b}) t"
    using brelse_total [OF run3 ok3 q3 insertI1] by auto
  with r1 r3 b1(5) show ?thesis by (auto simp: s2_def sq_Ok)
qed

lemma write_head_total:
  assumes "running s" "bcache_ok {} s" "bquiet {} s" "log_wf s" "log_in_range s"
    and "card (dirty_blocks s) < NBUF"
  shows "\<exists>t. write_head s = Ok () t \<and> bquiet {} t"
proof -
  have "length (put_arr 0 (head_bytes (l_n s) (l_block s)) (view s (l_start s))) = BSIZE"
    using view_length [OF assms(2), of "l_start s"] assms(4)
    by (subst length_put_arr) (simp_all add: size_defs log_wf_def length_head_bytes)
  from write_block_total [OF assms(1-3) log_in_range_slot(2) [OF assms(5,4)] assms(6),
      where f = "put_arr 0 (head_bytes (l_n s) (l_block s))", OF this]
  show ?thesis using assms(4) by (simp add: write_head_def log_wf_def)
qed

lemma log_in_range_cong:
  assumes "kbio.more t = kbio.more s" "disksize t = disksize s"
  shows "log_in_range t = log_in_range s"
  by (simp add: log_in_range_def more_log_wf [OF assms(1)] assms(2))

lemma wrote_disksize: "wrote ws s t \<Longrightarrow> disksize t = disksize s"
  by (simp add: wrote_def bbase_def)

lemma wrote_state: "wrote ws s t \<Longrightarrow> running t \<and> bcache_ok {} t"
  by (simp add: wrote_def)

lemma log_in_range_empty: "log_in_range s \<Longrightarrow> log_in_range (s\<lparr>l_n := 0\<rparr>)"
  by (simp add: log_in_range_def log_region_def log_blocks_def)

lemma bquiet_l_n [simp]: "bquiet H (s\<lparr>l_n := n\<rparr>) = bquiet H s"
  by (simp add: bquiet_def buf_at_def)

lemma commit_total:
  fixes s :: "'m klog_scheme"
  assumes rdy: "log_ready s" and q: "bquiet {} s" and rng: "log_in_range s"
  shows "\<exists>t. commit s = Ok () t \<and> bquiet {} t"
proof (cases "l_n s = 0")
  case True
  then show ?thesis using q by (simp add: commit_def)
next
  case False
  have s: "running s" "bcache_ok {} s" "log_wf s" and dirty: "dirty_blocks s = set (log_blocks s)"
    using rdy by (simp_all add: log_ready_def)
  have card: "card (dirty_blocks s) < NBUF"
    using card_length [of "log_blocks s"] s(3)
    by (simp add: dirty log_wf_def log_blocks_def NBUF_def LOGSIZE_def MAXOPBLOCKS_def)
  have disj: "dirty_blocks s \<inter> log_region s = {}" using s(3) by (simp add: dirty log_wf_def)
  obtain s1 where r1: "write_log s = Ok () s1" and q1: "bquiet {} s1"
    using write_log_total [OF s(1,2) q s(3) rng _ card disj] dirty by auto
  note w1 = write_log_Ok [OF s r1]
  have s1: "running s1" "bcache_ok {} s1" "log_wf s1" "log_in_range s1"
    using wrote_state [OF w1(1)] wrote_disksize [OF w1(1)] more_log_wf [OF w1(2)] s rng
      log_in_range_cong [OF w1(2)] by simp_all
  have sub: "fst ` set (log_writes s) \<subseteq> log_region s"
    unfolding fst_log_writes using log_slot_region [of _ s] s(3) by (auto simp: log_wf_def)
  have d1: "dirty_blocks s1 = dirty_blocks s" using w1(1) sub disj by (auto simp: wrote_def)
  obtain s2 where r2: "write_head s1 = Ok () s2" and q2: "bquiet {} s2"
    using write_head_total [OF s1(1,2) q1 s1(3,4)] card d1 by auto
  note w2 = write_head_Ok [OF s1(1-3) r2]
  have s2: "running s2" "bcache_ok {} s2" "log_wf s2" "log_in_range s2"
    using wrote_state [OF w2(1)] wrote_disksize [OF w2(1)] more_log_wf [OF w2(2)] s1
      log_in_range_cong [OF w2(2)] by simp_all
  have d2: "dirty_blocks s2 = dirty_blocks s"
    using w2(1) d1 disj log_start_region [of s] more_klog [OF w1(2)] by (auto simp: wrote_def)
  have lb: "log_blocks s2 = log_blocks s" using more_log_wf [OF w2(2)] more_log_wf [OF w1(2)] by simp
  obtain s3 where r3: "install_trans s2 = Ok () s3" and q3: "bquiet {} s3"
    using install_trans_total [OF s2(1,2) q2 s2(3,4)] card d2 lb dirty by auto
  note w3 = install_trans_Ok [OF s2(1-3) r3]
  have s3: "running s3" "bcache_ok {} s3" "log_wf s3" "log_in_range s3"
    using wrote_state [OF w3(1)] wrote_disksize [OF w3(1)] more_log_wf [OF w3(2)] s2
      log_in_range_cong [OF w3(2)] by simp_all
  have "card (dirty_blocks s3) \<le> card (dirty_blocks s)"
    using w3(1) d2 by (intro card_mono finite_dirty) (auto simp: wrote_def)
  then obtain t where "write_head (s3\<lparr>l_n := 0\<rparr>) = Ok () t" "bquiet {} t"
    using write_head_total [of "s3\<lparr>l_n := 0\<rparr>"] s3 q3 log_wf_empty log_in_range_empty card by auto
  with r1 r2 r3 False show ?thesis by (simp add: commit_def sq_Ok)
qed

lemma read_head_total:
  fixes s :: "'m klog_scheme"
  assumes "running s" "bcache_ok {} s" "bquiet {} s" "l_dev s = 1" "l_start s < disksize s"
    and "card (dirty_blocks s) < NBUF" "head_n (view s (l_start s)) \<le> LOGSIZE"
  shows "\<exists>t. read_head s = Ok () t \<and> bquiet {} t"
proof -
  obtain b s1 where r1: "bread 1 (l_start s) s = Ok b s1" and q1: "bquiet {b} s1"
    using bread_total [OF assms(1,2,3,5)] assms(6) by auto
  note b1 = bread_Ok [OF assms(1,2) r1]
  have run1: "running s1" by (rule bframe_running [OF b1(8) assms(1)])
  let ?n = "head_n (view s (l_start s))" and ?lh = "dec_logheader (view s (l_start s))"
  define s2 where "s2 = s1\<lparr>l_n := ?n, l_block := take ?n (lh_block ?lh) @ drop ?n (l_block s1)\<rparr>"
  have same: "bufs s2 = bufs s1" "lru s2 = lru s1" "disk s2 = disk s1" "slocks s2 = slocks s1"
    "ptab s2 = ptab s1" "cur s2 = cur s1" "held s2 = held s1"
    by (simp_all add: s2_def)
  note c = bcache_cong [OF same(1-6)]
  have "running s2" "bcache_ok {b} s2" "bquiet {b} s2"
    using run1 running_cong [of s2 s1] same c b1(3) q1 by (simp_all add: bquiet_def)
  from brelse_total [OF this insertI1] obtain t where "brelse b s2 = Ok () t" "bquiet {} t" by auto
  with r1 assms(4,7) b1(5) show ?thesis by (simp add: read_head_def head_n_def Let_def s2_def sq_Ok)
qed

lemma recover_from_log_total:
  fixes s :: "'m klog_scheme"
  assumes run: "running s" and ok: "bcache_ok {} s" and q: "bquiet {} s" and dev: "l_dev s = 1"
    and len: "length (l_block s) = LOGSIZE" and clean: "dirty_blocks s = {}"
    and bs: "distinct (head_list (disk s (l_start s)))"
      "set (head_list (disk s (l_start s))) \<inter> log_region s = {}"
      "head_n (disk s (l_start s)) < LOGSIZE"
    and rng: "\<forall>bn \<in> log_region s \<union> set (head_list (disk s (l_start s))). bn < disksize s"
  shows "\<exists>t. recover_from_log s = Ok () t \<and> bquiet {} t"
proof -
  have v: "view s = disk s" using view_clean [OF ok] clean by (intro ext) simp
  have card: "card (dirty_blocks s) < NBUF" by (simp add: clean NBUF_def MAXOPBLOCKS_def)
  obtain s1 where r1: "read_head s = Ok () s1" and q1: "bquiet {} s1"
    using read_head_total [OF run ok q dev _ card] bs(3) rng log_start_region [of s] v by auto
  note h = read_head_Ok [OF run ok dev r1, unfolded v]
  have lb: "log_blocks s1 = head_list (disk s (l_start s))"
    using h(8) by (simp add: log_blocks_def h(9,10) head_list_def dec_logheader_def)
  have reg: "log_region s1 = log_region s" by (simp add: log_region_def h)
  have wf1: "log_wf s1"
    using bs h(8) len by (simp add: log_wf_def lb reg h(9,10,12) dec_logheader_def)
  have rng1: "log_in_range s1" using rng h(7) by (simp add: log_in_range_def reg lb bbase_def)
  obtain s2 where r2: "install_trans s1 = Ok () s2" and q2: "bquiet {} s2"
    using install_trans_total [OF h(2,1) q1 wf1 rng1] card clean by (auto simp: h(6))
  note w = install_trans_Ok [OF h(2,1) wf1 r2]
  have s2: "running s2" "bcache_ok {} s2" "log_wf s2" "log_in_range s2" "dirty_blocks s2 = {}"
    using wrote_state [OF w(1)] wrote_disksize [OF w(1)] more_log_wf [OF w(2)] wf1 rng1
      log_in_range_cong [OF w(2)] w(1) clean by (simp_all add: wrote_def h(6))
  then obtain t where "write_head (s2\<lparr>l_n := 0\<rparr>) = Ok () t" "bquiet {} t"
    using write_head_total [of "s2\<lparr>l_n := 0\<rparr>"] q2 log_wf_empty log_in_range_empty card clean by auto
  with r1 r2 show ?thesis by (simp add: recover_from_log_def sq_Ok)
qed

section \<open>Transactions are atomic\<close>

text \<open>What recovery makes of a disk after \<open>k\<close> of the writes of a commit.\<close>

lemma recover_crashed:
  fixes s r :: "'m klog_scheme"
  assumes rdy: "log_ready s" and bt: "booted s r" and d: "disk r = apply_writes (take k (commit_writes s)) (disk s)"
    and r: "recover_from_log r = Ok () u" and bn: "bn \<notin> log_region s"
  shows "disk u bn = (if k \<le> l_n s then disk s bn else view s bn)"
proof -
  have s: "log_wf s" "l_n s < LOGSIZE" "head_n (disk s (l_start s)) = 0"
    using rdy by (simp_all add: log_ready_def log_wf_def)
  have b: "running r" "bcache_ok {} r" "dirty_blocks r = {}" "l_dev r = 1" "length (l_block r) = LOGSIZE"
    and st: "l_start r = l_start s" using bt by (simp_all add: booted_def)
  have reg: "log_region r = log_region s" "log_slot r = log_slot s"
    by (simp_all add: log_region_def log_slot_def [abs_def] st)
  have bnst: "bn \<noteq> l_start s" using bn log_start_region [of s] by auto
  have empty: "disk u bn = disk r bn" if hn: "head_n (disk r (l_start s)) = 0"
  proof -
    have hl: "head_list (disk r (l_start s)) = []" using hn by (simp add: head_list_def)
    obtain h where "wrote [(l_start s, h)] r u"
      using recover_from_log_Ok(1) [OF b(1,2,4,5,3) _ _ _ r, unfolded st hl] by (auto simp: hn LOGSIZE_def MAXOPBLOCKS_def)
    with bnst show ?thesis by (simp add: wrote_def)
  qed
  consider "k \<le> l_n s" | "l_n s < k" "k \<le> 2 * l_n s + 1" | "2 * l_n s + 1 < k" by linarith
  then show ?thesis
  proof cases
    case 1
    with crash_before_commit [OF 1 s(2), where f = "disk s"] bn empty s(3) show ?thesis by (simp add: d)
  next
    case 2
    note c = crash_while_installing [OF rdy 2, folded d]
    have hl: "head_list (disk r (l_start r)) = log_blocks s" "head_n (disk r (l_start r)) = l_n s"
      using c by (simp_all add: st)
    let ?ws = "map (\<lambda>i. (log_blocks s ! i, disk r (log_slot r i))) [0..<l_n s]"
    have ws: "?ws = block_writes s"
      using log_blocks_nth [OF s(1)] by (simp add: reg c(3))
    obtain h where "wrote (?ws @ [(l_start r, h)]) r u"
      using recover_from_log_Ok(1) [OF b(1,2,4,5,3) _ _ _ r] s(1) by (auto simp: hl reg log_wf_def)
    then have "disk u = apply_writes (block_writes s @ [(l_start s, h)]) (disk r)"
      unfolding ws st by (simp add: wrote_def)
    then have du: "disk u bn = apply_writes (block_writes s) (disk r) bn" using bnst by simp
    show ?thesis
    proof (cases "bn \<in> set (log_blocks s)")
      case True
      with 2 block_writes_at [OF s(1)] show ?thesis by (simp add: du)
    next
      case False
      then have "bn \<notin> fst ` set (block_writes s)" unfolding fst_blocks [OF s(1)] .
      from apply_writes_other [OF this] 2 c(4) [OF bn False] show ?thesis by (simp add: du)
    qed
  next
    case 3
    note c = crash_after_commit [OF rdy 3, folded d]
    with 3 empty bn show ?thesis by simp
  qed
qed

lemma recover_crashed_total:
  fixes s r :: "'m klog_scheme"
  assumes rdy: "log_ready s" and bt: "booted s r" and q: "bquiet {} r"
    and rng: "log_in_range s" "disksize r = disksize s"
    and d: "disk r = apply_writes (take k (commit_writes s)) (disk s)"
  shows "\<exists>u. recover_from_log r = Ok () u"
proof -
  have s: "log_wf s" "l_n s < LOGSIZE" "head_n (disk s (l_start s)) = 0"
    using rdy by (simp_all add: log_ready_def log_wf_def)
  have b: "running r" "bcache_ok {} r" "dirty_blocks r = {}" "l_dev r = 1" "length (l_block r) = LOGSIZE"
    and st: "l_start r = l_start s" using bt by (simp_all add: booted_def)
  have reg: "log_region r = log_region s" by (simp add: log_region_def st)
  let ?h = "disk r (l_start s)"
  have "head_list ?h = [] \<and> head_n ?h = 0 \<or> head_list ?h = log_blocks s \<and> head_n ?h = l_n s"
  proof -
    consider "k \<le> l_n s" | "l_n s < k" "k \<le> 2 * l_n s + 1" | "2 * l_n s + 1 < k" by linarith
    then show ?thesis
    proof cases
      case 1
      with crash_before_commit(1) [OF 1 s(2), where f = "disk s"] s(3) show ?thesis by (simp add: d head_list_def)
    next
      case 2
      from crash_while_installing(1,2) [OF rdy 2] show ?thesis by (simp add: d)
    next
      case 3
      with crash_after_commit(1) [OF rdy 3] show ?thesis by (simp add: d head_list_def)
    qed
  qed
  then have "distinct (head_list ?h)" "set (head_list ?h) \<inter> log_region s = {}" "head_n ?h < LOGSIZE"
    "\<forall>bn \<in> log_region s \<union> set (head_list ?h). bn < disksize s"
    using s rng(1) by (auto simp: log_wf_def log_in_range_def)
  then show ?thesis
    using recover_from_log_total [OF b(1,2) q b(4,5,3)] by (auto simp: st reg rng(2))
qed

text \<open>
  C1. Crash safety of the log (log.c): \<open>commit\<close> of a transaction returns, and if the machine
  crashes after any number \<open>k\<close> of its disk writes, \<open>recover_from_log\<close> on the next boot returns and
  leaves every block outside the log as it was before the transaction (\<open>k \<le> n\<close>) or as the
  transaction left it (\<open>k > n\<close>), never a mixture.
\<close>

theorem commit_crash_atomic:
  fixes s :: "'m klog_scheme"
  assumes "log_ready s" and "bquiet {} s" and "log_in_range s" and "0 < l_n s"
  shows "\<exists>t. commit s = Ok () t \<and>
    (\<forall>k r. booted s r \<and> bquiet {} r \<and> disksize r = disksize s \<and> disk r = crash_disk k s t \<longrightarrow>
      (\<exists>u. recover_from_log r = Ok () u \<and>
        (\<forall>bn. bn \<notin> log_region s \<longrightarrow> disk u bn = (if k \<le> l_n s then disk s bn else view s bn))))"
proof -
  obtain t where t: "commit s = Ok () t" using commit_total [OF assms(1-3)] by blast
  have "wrote (commit_writes s) s t"
    using assms(1,4) t by (intro commit_Ok(1)) (simp_all add: log_ready_def)
  then have c: "crash_disk k s t = apply_writes (take k (commit_writes s)) (disk s)" for k
    by (simp add: crash_disk_def writes_between_wrote)
  show ?thesis
  proof (rule exI [of _ t], rule conjI, rule t, intro allI impI)
    fix k and r :: "'m klog_scheme"
    assume a: "booted s r \<and> bquiet {} r \<and> disksize r = disksize s \<and> disk r = crash_disk k s t"
    then have d: "disk r = apply_writes (take k (commit_writes s)) (disk s)" by (simp add: c)
    obtain u where u: "recover_from_log r = Ok () u"
      using recover_crashed_total [OF assms(1) _ _ assms(3) _ d] a by auto
    from recover_crashed [OF assms(1) conjunct1 [OF a] d u] u
    show "\<exists>u. recover_from_log r = Ok () u \<and>
        (\<forall>bn. bn \<notin> log_region s \<longrightarrow> disk u bn = (if k \<le> l_n s then disk s bn else view s bn))"
      by blast
  qed
qed

text \<open>A transaction with one block, cached and modified, on an otherwise empty disk.\<close>

definition demo_log :: klog where
  "demo_log =
     (disk_state (\<lambda>_. replicate BSIZE 0) 1000
        \<lparr>l_start = 2, l_size = 30, l_outstanding = 0, l_committing = False, l_dev = 1, l_n = 1,
         l_block = 100 # replicate 29 0\<rparr>)
     \<lparr>bufs := zero_bufs[0 := zero_buf\<lparr>b_valid := True, b_dirty := True, b_dev := 1, b_blockno := 100,
                            b_data := replicate BSIZE 7\<rparr>]\<rparr>"

definition boot_log :: "(u32 \<Rightarrow> bytes) \<Rightarrow> klog" where
  "boot_log d =
     disk_state d 1000 \<lparr>l_start = 2, l_size = 30, l_outstanding = 0, l_committing = False, l_dev = 1,
       l_n = 0, l_block = replicate 30 0\<rparr>"

lemma klog_fields_more:
  fixes s :: klog
  assumes "kbio.more s = \<lparr>l_start = a, l_size = b, l_outstanding = c, l_committing = d, l_dev = e,
    l_n = f, l_block = g\<rparr>"
  shows "l_start s = a" "l_size s = b" "l_outstanding s = c" "l_committing s = d" "l_dev s = e"
    "l_n s = f" "l_block s = g"
  using assms by (cases s, simp)+

lemma demo_log_fields [simp]:
  "l_start demo_log = 2" "l_dev demo_log = 1" "l_n demo_log = 1" "l_block demo_log = 100 # replicate 29 0"
  "disk demo_log = (\<lambda>_. replicate BSIZE 0)" "disksize demo_log = 1000" "running demo_log"
  "lru demo_log = rev [0..<NBUF]" "slocks demo_log = (\<lambda>_. \<lparr>sl_locked = False, sl_pid = 0\<rparr>)"
  "bufs demo_log = zero_bufs[0 := zero_buf\<lparr>b_valid := True, b_dirty := True, b_dev := 1, b_blockno := 100,
                            b_data := replicate BSIZE 7\<rparr>]"
proof -
  have m: "kbio.more demo_log = \<lparr>l_start = 2, l_size = 30, l_outstanding = 0, l_committing = False,
      l_dev = 1, l_n = 1, l_block = 100 # replicate 29 0\<rparr>"
    by (simp add: demo_log_def)
  show "l_start demo_log = 2" "l_dev demo_log = 1" "l_n demo_log = 1"
    "l_block demo_log = 100 # replicate 29 0" using klog_fields_more [OF m] by auto
  have "running demo_log = running (disk_state (\<lambda>_. replicate BSIZE 0) 1000 (kbio.more demo_log) :: klog)"
    by (rule running_cong) (simp_all add: demo_log_def)
  then show "running demo_log" by simp
qed (simp_all add: demo_log_def)

lemma boot_log_fields [simp]:
  "l_start (boot_log d) = 2" "l_dev (boot_log d) = 1" "l_block (boot_log d) = replicate 30 0"
  "disk (boot_log d) = d" "disksize (boot_log d) = 1000"
proof -
  have m: "kbio.more (boot_log d) = \<lparr>l_start = 2, l_size = 30, l_outstanding = 0, l_committing = False,
      l_dev = 1, l_n = 0, l_block = replicate 30 0\<rparr>"
    by (simp add: boot_log_def)
  show "l_start (boot_log d) = 2" "l_dev (boot_log d) = 1" "l_block (boot_log d) = replicate 30 0"
    using klog_fields_more [OF m] by auto
qed (simp_all add: boot_log_def)

lemma demo_buf_at:
  "i < NBUF \<Longrightarrow> buf_at demo_log i =
     (if i = 0 then zero_buf\<lparr>b_valid := True, b_dirty := True, b_dev := 1, b_blockno := 100,
        b_data := replicate BSIZE 7\<rparr> else zero_buf)"
  by (simp add: buf_at_def zero_bufs_def nth_list_update)

lemma demo_cache:
  "bcache_ok {} demo_log" "bquiet {} demo_log" "dirty_blocks demo_log = {100}"
  "view demo_log 100 = replicate BSIZE 7"
proof -
  show ok: "bcache_ok {} demo_log"
    by (auto simp: bcache_ok_def bcache_wf_def blocks_unique_def demo_buf_at buf_ok_def zero_buf_def
        zero_bufs_def split: if_splits)
  show "bquiet {} demo_log" by (simp add: bquiet_def demo_buf_at zero_buf_def)
  have z: "0 < NBUF" by (simp add: NBUF_def MAXOPBLOCKS_def)
  then show "dirty_blocks demo_log = {100}"
    by (auto simp: dirty_blocks_def demo_buf_at zero_buf_def split: if_splits intro!: exI [of _ 0])
  have "view demo_log 100 = b_data (buf_at demo_log 0)"
    using ok z by (intro view_cached) (auto simp: bcache_ok_def caches_def is_block_def demo_buf_at)
  with z show "view demo_log 100 = replicate BSIZE 7" by (simp add: demo_buf_at)
qed

lemma demo_region: "log_region demo_log = (\<lambda>i. of_nat (i + 2)) ` {..<LOGSIZE}" "log_blocks demo_log = [100]"
  by (simp_all add: log_region_def log_blocks_def add.commute)

lemma demo_not_region: "(100 :: u32) \<notin> log_region demo_log"
proof
  assume "(100 :: u32) \<in> log_region demo_log"
  then obtain i where "i < LOGSIZE" "(of_nat 100 :: u32) = of_nat (i + 2)"
    by (auto simp: demo_region)
  then show False
    using of_nat_inj32 [of 100 "i + 2"] by (simp add: LOGSIZE_def MAXOPBLOCKS_def del: of_nat_numeral of_nat_add)
qed

lemma demo_ready: "log_ready demo_log" "log_in_range demo_log"
proof -
  have "head_n (replicate BSIZE 0) = 0"
    by (simp add: head_n_def dec_logheader_def sub_arr_def BSIZE_def dec32_def)
  then show "log_ready demo_log"
    using demo_cache demo_not_region
    by (simp add: log_ready_def log_wf_def demo_region(2) LOGSIZE_def MAXOPBLOCKS_def)
  have "of_nat (i + 2) < (1000 :: u32)" if "i < LOGSIZE" for i
  proof -
    have "i + 2 < 2 ^ 32" using that by (simp add: LOGSIZE_def MAXOPBLOCKS_def)
    then have "unat (of_nat (i + 2) :: u32) = i + 2" by (rule unat_of_nat32)
    with that show ?thesis unfolding word_less_nat_alt by (simp only:) (simp add: LOGSIZE_def MAXOPBLOCKS_def)
  qed
  then show "log_in_range demo_log" by (auto simp: log_in_range_def demo_region)
qed

lemma apply_writes_length:
  "\<forall>(bn, d) \<in> set ws. length d = n \<Longrightarrow> \<forall>bn. length (f bn) = n \<Longrightarrow> length (apply_writes ws f bn) = n"
  by (induction ws arbitrary: f) auto

lemma boot_log_booted:
  assumes "\<forall>bn. length (d bn) = BSIZE"
  shows "booted demo_log (boot_log d)" "bquiet {} (boot_log d)"
  by (simp_all add: booted_def)
    (simp_all add: boot_log_def disk_state_ok [OF assms] LOGSIZE_def MAXOPBLOCKS_def)

lemma commit_writes_length:
  assumes "log_ready s"
  shows "\<forall>(bn, d) \<in> set (commit_writes s). length d = BSIZE"
proof -
  have ok: "bcache_ok {} s" and wf: "log_wf s" using assms by (simp_all add: log_ready_def)
  have "length (head_on s) = BSIZE"
    using wf view_length [OF ok, of "l_start s"] unfolding head_on_def
    by (subst length_put_arr) (simp_all add: log_wf_def length_head_bytes size_defs)
  moreover from this have "length (put_arr 0 (head_bytes 0 (l_block s)) (head_on s)) = BSIZE"
    by (subst length_put_arr) (simp_all add: head_bytes_def enc32s_def BSIZE_def)
  ultimately show ?thesis
    using view_length [OF ok] by (auto simp: commit_writes_def log_writes_def)
qed

theorem commit_crash_atomic_witness:
  "\<exists>t r u. commit demo_log = Ok () t \<and> booted demo_log r \<and> disk r = crash_disk 2 demo_log t \<and>
     recover_from_log r = Ok () u \<and> disk u 100 = replicate BSIZE 7"
proof -
  obtain t where t: "commit demo_log = Ok () t" and
    rec: "\<And>k r. booted demo_log r \<and> bquiet {} r \<and> disksize r = disksize demo_log \<and>
        disk r = crash_disk k demo_log t \<Longrightarrow>
      \<exists>u. recover_from_log r = Ok () u \<and>
        (\<forall>bn. bn \<notin> log_region demo_log \<longrightarrow>
           disk u bn = (if k \<le> l_n demo_log then disk demo_log bn else view demo_log bn))"
    using commit_crash_atomic [OF demo_ready(1) demo_cache(2) demo_ready(2)]
    by (auto simp: LOGSIZE_def MAXOPBLOCKS_def)
  have w: "wrote (commit_writes demo_log) demo_log t"
    using t demo_ready(1) by (intro commit_Ok(1)) (simp_all add: log_ready_def)
  let ?d = "crash_disk 2 demo_log t"
  have "length (?d bn) = BSIZE" for bn
    unfolding crash_disk_def writes_between_wrote [OF w]
    using commit_writes_length [OF demo_ready(1)] by (intro apply_writes_length) (auto dest: in_set_takeD)
  then have "booted demo_log (boot_log ?d)" "bquiet {} (boot_log ?d)"
    using boot_log_booted [of ?d] by auto
  with rec [of "boot_log ?d" 2] t demo_not_region demo_cache(4) show ?thesis by fastforce
qed

lemma commit_effect:
  fixes s :: "'m klog_scheme"
  assumes "log_ready s" and "commit s = Ok () t"
  shows "log_ready t \<and> l_n t = 0 \<and> (\<forall>bn. bn \<notin> log_region s \<longrightarrow> disk t bn = view s bn \<and> view t bn = view s bn) \<and>
    bbase s t \<and> klog.more t = klog.more s \<and> l_start t = l_start s \<and> l_outstanding t = l_outstanding s \<and>
    l_committing t = l_committing s \<and> l_size t = l_size s"
proof (cases "l_n s = 0")
  case True
  then have "t = s" using assms(2) by (simp add: commit_def)
  then show ?thesis
    using assms(1) True log_ready_view [OF assms(1)] by (simp add: log_blocks_def)
next
  case False
  have s: "running s" "bcache_ok {} s" "log_wf s" "dirty_blocks s = set (log_blocks s)"
    using assms(1) by (simp_all add: log_ready_def)
  note c = commit_Ok [OF s(1-3) _ assms(2)]
  have w: "wrote (commit_writes s) s t" using c(1) False by simp
  have tk: "take (2 * l_n s + 2) (commit_writes s) = commit_writes s" by (simp add: commit_writes_def)
  note a = crash_after_commit [OF assms(1), of "2 * l_n s + 2", unfolded tk]
  have dt: "disk t = apply_writes (commit_writes s) (disk s)" using w by (simp add: wrote_def)
  have "set (log_blocks s) \<subseteq> fst ` set (commit_writes s)"
    using fst_blocks [OF s(3), of "\<lambda>i. view s (l_block s ! i)"] by (auto simp: commit_writes_def)
  then have clean: "dirty_blocks t = {}" using w s(4) by (auto simp: wrote_def)
  have lb: "log_blocks t = []" "l_n t = 0" using c(3) False by (simp_all add: log_blocks_def)
  have "log_ready t"
    using w c a(1) False clean lb by (simp add: log_ready_def wrote_def dt)
  moreover have "view t bn = disk t bn" for bn
    using w clean by (intro view_clean) (simp_all add: wrote_def)
  ultimately show ?thesis
    using a(2) lb c(4-9) False w by (simp add: dt wrote_def)
qed

lemma commit_done:
  fixes s :: "'m klog_scheme"
  assumes "log_ready s" and "commit s = Ok () t"
  shows "log_ready t" "l_n t = 0" "bn \<notin> log_region s \<Longrightarrow> disk t bn = view s bn \<and> view t bn = view s bn"
    "bbase s t" "klog.more t = klog.more s" "l_start t = l_start s" "l_outstanding t = l_outstanding s"
    "l_committing t = l_committing s" "l_size t = l_size s"
  using commit_effect [OF assms] by simp_all

text \<open>
  C2. After a commit (log.c) the transaction is complete: every block outside the log has on disk
  what the transaction wrote to the cache, no cached block is dirty, and the log is empty both in
  memory and on disk, so that the next transaction can begin.
\<close>

theorem commit_installs:
  fixes s :: "'m klog_scheme"
  assumes "log_ready s" and "commit s = Ok () t"
  shows "log_ready t \<and> l_n t = 0 \<and> (\<forall>bn. bn \<notin> log_region s \<longrightarrow> disk t bn = view s bn \<and> view t bn = view s bn)"
  using commit_done(1-3) [OF assms] by simp

theorem commit_installs_witness:
  "\<exists>t. commit demo_log = Ok () t \<and> l_n t = 0 \<and> disk t 100 = replicate BSIZE 7"
proof -
  obtain t where "commit demo_log = Ok () t"
    using commit_total [OF demo_ready(1) demo_cache(2) demo_ready(2)] by blast
  with commit_installs [OF demo_ready(1) this] demo_not_region demo_cache(4) show ?thesis by auto
qed

section \<open>Writing inside a transaction\<close>

text \<open>The blocks of the transaction after one more write: absorbed if it is there already.\<close>

definition log_add :: "u32 \<Rightarrow> u32 list \<Rightarrow> u32 list" where
  "log_add bn bs = (if bn \<in> set bs then bs else bs @ [bn])"

definition log_write_effect :: "nat \<Rightarrow> 'm klog_scheme \<Rightarrow> 'm klog_scheme" where
  "log_write_effect b s =
     (let bn = b_blockno (buf_at s b); i = log_index bn s in
      upd_buf b (b_dirty_update (\<lambda>_. True))
        (s\<lparr>l_block := (l_block s)[i := bn], l_n := (if i = l_n s then l_n s + 1 else l_n s)\<rparr>))"

definition in_trans :: "'m klog_scheme \<Rightarrow> bool" where
  "in_trans s \<longleftrightarrow> l_n s < LOGSIZE \<and> int (l_n s) < l_size s - 1 \<and> 1 \<le> l_outstanding s"

lemma log_index_held [simp]: "log_index bn (s\<lparr>held := h\<rparr>) = log_index bn s"
  by (simp add: log_index_def log_blocks_def split: option.split)

lemma log_write_run:
  assumes "LK_log \<notin> set (held s)" "in_trans s"
  shows "log_write b s = Ok () (log_write_effect b s)"
  using assms
  by (auto simp: log_write_def in_trans_def log_write_effect_def Let_def upd_buf_def)

lemma log_write_Ok:
  assumes "LK_log \<notin> set (held s)" "log_write b s = Ok x t"
  shows "in_trans s \<and> t = log_write_effect b s"
proof -
  have "in_trans s"
    using assms(2) by (auto simp: log_write_def in_trans_def not_le split: if_splits)
  with assms show ?thesis by (simp add: log_write_run)
qed

lemma log_index_cases:
  assumes "length (l_block s) = LOGSIZE" "l_n s \<le> LOGSIZE"
  shows "bn \<in> set (log_blocks s) \<and> log_index bn s < l_n s \<and> l_block s ! log_index bn s = bn \<or>
    bn \<notin> set (log_blocks s) \<and> log_index bn s = l_n s"
proof (cases "find_idx (\<lambda>x. x = bn) (log_blocks s)")
  case None
  then have "bn \<notin> set (log_blocks s)" by (auto simp: find_idx_None)
  with None show ?thesis by (simp add: log_index_def)
next
  case (Some i)
  then have "i < length (log_blocks s)" "log_blocks s ! i = bn" by (simp_all add: find_idx_Some)
  with Some assms show ?thesis
    by (auto simp: log_index_def log_blocks_def in_set_conv_nth)
qed

lemma log_write_blocks:
  assumes "length (l_block s) = LOGSIZE" "l_n s < LOGSIZE"
  shows "log_blocks (log_write_effect b s) = log_add (b_blockno (buf_at s b)) (log_blocks s)"
    and "length (l_block (log_write_effect b s)) = LOGSIZE"
    and "l_n (log_write_effect b s) \<le> LOGSIZE"
proof -
  let ?bn = "b_blockno (buf_at s b)"
  have f: "l_block (upd_buf b f u) = l_block u" "l_n (upd_buf b f u) = l_n u" for f and u :: "'a klog_scheme"
    by (simp_all add: upd_buf_def)
  note len = assms(1)
  from log_index_cases [OF assms(1) less_imp_le [OF assms(2)], of ?bn]
  show "log_blocks (log_write_effect b s) = log_add ?bn (log_blocks s)"
  proof
    assume a: "?bn \<in> set (log_blocks s) \<and> log_index ?bn s < l_n s \<and> l_block s ! log_index ?bn s = ?bn"
    then have "(l_block s)[log_index ?bn s := ?bn] = l_block s" by (metis list_update_id)
    with a show ?thesis by (simp add: log_write_effect_def Let_def log_blocks_def f log_add_def)
  next
    assume "?bn \<notin> set (log_blocks s) \<and> log_index ?bn s = l_n s"
    then show ?thesis using assms(2) len
      by (simp add: log_write_effect_def Let_def log_blocks_def f log_add_def take_Suc_conv_app_nth)
  qed
  show "length (l_block (log_write_effect b s)) = LOGSIZE" "l_n (log_write_effect b s) \<le> LOGSIZE"
    using len assms(2) by (simp_all add: log_write_effect_def Let_def f)
qed

lemma log_write_effect_fields [simp]:
  "l_start (log_write_effect b s) = l_start s" "l_size (log_write_effect b s) = l_size s"
  "l_outstanding (log_write_effect b s) = l_outstanding s" "l_dev (log_write_effect b s) = l_dev s"
  "l_committing (log_write_effect b s) = l_committing s" "klog.more (log_write_effect b s) = klog.more s"
  "disk (log_write_effect b s) = disk s" "dwrites (log_write_effect b s) = dwrites s"
  "slocks (log_write_effect b s) = slocks s" "held (log_write_effect b s) = held s"
  by (simp_all add: log_write_effect_def Let_def upd_buf_def)

lemma log_write_effect_bio:
  assumes "bcache_ok H s" "b \<in> H" "is_block 1 bn (buf_at s b)"
  shows "bcache_ok H (log_write_effect b s)" "view (log_write_effect b s) = view s"
    "dirty_blocks (log_write_effect b s) = insert bn (dirty_blocks s)"
    "buf_at (log_write_effect b s) i = (if i = b then (buf_at s b)\<lparr>b_dirty := True\<rparr> else buf_at s i)"
    "bbase s (log_write_effect b s)"
proof -
  define u where "u = (let bn = b_blockno (buf_at s b); i = log_index bn s in
      s\<lparr>l_block := (l_block s)[i := bn], l_n := (if i = l_n s then l_n s + 1 else l_n s)\<rparr>)"
  have e: "log_write_effect b s = upd_buf b (b_dirty_update (\<lambda>_. True)) u"
    by (simp add: log_write_effect_def u_def Let_def)
  have same: "bufs u = bufs s" "lru u = lru s" "disk u = disk s" "slocks u = slocks s"
    "ptab u = ptab s" "cur u = cur s" "held u = held s"
    by (simp_all add: u_def Let_def)
  note c = bcache_cong [OF same(1-6)]
  note d = set_dirty_ok [of H u b bn, folded e, unfolded c, OF assms]
  show "bcache_ok H (log_write_effect b s)" "view (log_write_effect b s) = view s"
    "dirty_blocks (log_write_effect b s) = insert bn (dirty_blocks s)" by (fact d)+
  show "buf_at (log_write_effect b s) i = (if i = b then (buf_at s b)\<lparr>b_dirty := True\<rparr> else buf_at s i)"
    using bcache_bounds(1,2) [OF assms(1)] assms(2) by (simp add: e buf_at_upd_buf c same)
  have "running u = running s" by (rule running_cong) (simp_all add: same)
  then have "bbase s u" by (simp add: bbase_def c same) (simp add: u_def Let_def)
  moreover have "bbase u (log_write_effect b s)"
    using bframe_upd_buf [of u b "b_dirty_update (\<lambda>_. True)"] by (simp add: e bframe_def)
  ultimately show "bbase s (log_write_effect b s)" by (rule bbase_trans)
qed

section \<open>Steps of a file system call\<close>

text \<open>
  \<open>tx H s\<close>: a process runs inside a transaction with the buffers in \<open>H\<close> checked out; exactly the
  blocks of the transaction are dirty. \<open>lframe\<close> is what the steps of a transaction leave alone.
\<close>

definition tx :: "nat set \<Rightarrow> 'm klog_scheme \<Rightarrow> bool" where
  "tx H s \<longleftrightarrow> running s \<and> bcache_ok H s \<and> length (l_block s) = LOGSIZE \<and> l_n s \<le> LOGSIZE \<and>
     distinct (log_blocks s) \<and> dirty_blocks s = set (log_blocks s)"

definition lframe :: "'m klog_scheme \<Rightarrow> 'm klog_scheme \<Rightarrow> bool" where
  "lframe s t \<longleftrightarrow> bbase s t \<and> klog.more t = klog.more s \<and> l_start t = l_start s \<and>
     l_size t = l_size s \<and> l_outstanding t = l_outstanding s \<and> l_dev t = l_dev s \<and>
     l_committing t = l_committing s \<and> disk t = disk s \<and> dwrites t = dwrites s"

lemma lframe_refl [simp]: "lframe s s"
  by (simp add: lframe_def)

lemma lframe_trans: "lframe s t \<Longrightarrow> lframe t u \<Longrightarrow> lframe s u"
  by (auto simp: lframe_def intro: bbase_trans)

lemma bframe_lframe: "bframe s t \<Longrightarrow> disk t = disk s \<Longrightarrow> dwrites t = dwrites s \<Longrightarrow> lframe s t"
  using more_klog [of t s] by (simp add: bframe_def lframe_def)

lemma tx_D: "tx H s \<Longrightarrow> running s" "tx H s \<Longrightarrow> bcache_ok H s"
  by (simp_all add: tx_def)

lemma tx_bread:
  assumes "tx H s" "bread 1 bn s = Ok b t"
  shows "tx (insert b H) t" "b \<notin> H" "is_block 1 bn (buf_at t b)" "b_data (buf_at t b) = view s bn"
    "view t = view s" "lframe s t" "i \<noteq> b \<Longrightarrow> buf_at t i = buf_at s i"
    "log_blocks t = log_blocks s" "b_dirty (buf_at t b) \<or> b_data (buf_at t b) = disk t bn"
proof -
  note r = bread_Ok [OF tx_D [OF assms(1)] assms(2)]
  have m: "kbio.more t = kbio.more s" using r(8) by (simp add: bframe_def)
  note mk = more_klog [OF m] more_log_wf [OF m]
  show "tx (insert b H) t"
    using assms(1) r bframe_running [OF r(8)] by (simp add: tx_def mk)
  show "lframe s t" using bframe_lframe r by blast
  show "log_blocks t = log_blocks s" by (fact mk)
  show "b \<notin> H" "is_block 1 bn (buf_at t b)" "b_data (buf_at t b) = view s bn"
    "view t = view s" "i \<noteq> b \<Longrightarrow> buf_at t i = buf_at s i"
    "b_dirty (buf_at t b) \<or> b_data (buf_at t b) = disk t bn" by (fact r)+
qed

lemma tx_brelse:
  assumes "tx H s" "b \<in> H" "is_block 1 bn (buf_at s b)"
    and "b_dirty (buf_at s b) \<or> b_data (buf_at s b) = disk s bn" "brelse b s = Ok x t"
  shows "tx (H - {b}) t" "view t = view s" "lframe s t" "i \<noteq> b \<Longrightarrow> buf_at t i = buf_at s i"
    "log_blocks t = log_blocks s"
proof -
  note r = brelse_Ok [OF tx_D [OF assms(1)] assms(2-5)]
  have m: "kbio.more t = kbio.more s" using r(5) by (simp add: bframe_def)
  note mk = more_klog [OF m] more_log_wf [OF m]
  show "tx (H - {b}) t" using assms(1) r by (simp add: tx_def mk)
  show "lframe s t" using bframe_lframe r by blast
  show "view t = view s" "i \<noteq> b \<Longrightarrow> buf_at t i = buf_at s i" "log_blocks t = log_blocks s"
    using r mk by simp_all
qed

lemma tx_read:
  assumes "tx H s" "bread 1 bn s = Ok b u" "brelse b u = Ok x t"
  shows "tx H t" "view t = view s" "lframe s t" "b_data (buf_at u b) = view s bn"
    "i \<in> H \<Longrightarrow> buf_at t i = buf_at s i" "log_blocks t = log_blocks s"
proof -
  note r = tx_bread [OF assms(1,2)]
  note e = tx_brelse [OF r(1) insertI1 r(3,9) assms(3)]
  have "insert b H - {b} = H" using r(2) by auto
  then show "tx H t" using e(1) by simp
  show "view t = view s" "b_data (buf_at u b) = view s bn" "log_blocks t = log_blocks s"
    using e r by simp_all
  show "lframe s t" using r(6) e(3) by (rule lframe_trans)
  show "i \<in> H \<Longrightarrow> buf_at t i = buf_at s i" using e(4) r(7) r(2) by metis
qed

text \<open>Modify a checked-out buffer and record it in the log.\<close>

lemma tx_modify:
  assumes "tx H s" "b \<in> H" "is_block 1 bn (buf_at s b)" "length d = BSIZE"
    and "sq (set_bdata b d) (log_write b) s = Ok x t"
  shows "tx H t" "view t = (view s)(bn := d)" "lframe s t"
    "buf_at t i = (if i = b then (buf_at s b)\<lparr>b_data := d, b_dirty := True\<rparr> else buf_at s i)"
    "log_blocks t = log_add bn (log_blocks s)"
proof -
  define u where "u = upd_buf b (b_data_update (\<lambda>_. d)) s"
  note u = set_bdata_ok [OF tx_D(2) [OF assms(1)] assms(2,4,3), folded u_def]
  have m: "kbio.more u = kbio.more s" by (simp add: u_def)
  note mk = more_klog [OF m] more_log_wf [OF m]
  have run: "running u" using tx_D(1) [OF assms(1)] by (simp add: u_def)
  then have "LK_log \<notin> set (held u)" by simp
  from log_write_Ok [OF this, of b x t] assms(5)
  have tr: "in_trans u" and t: "t = log_write_effect b u" by (auto simp: u_def)
  have len: "b < length (bufs s)" using bcache_bounds(1,2) [OF tx_D(2) [OF assms(1)]] assms(2) by simp
  have at: "buf_at u i = (if i = b then (buf_at s b)\<lparr>b_data := d\<rparr> else buf_at s i)" for i
    using len by (simp add: u_def buf_at_upd_buf)
  have blk: "is_block 1 bn (buf_at u b)" using assms(3) by (simp add: at is_block_def)
  note w = log_write_effect_bio [OF u(1) assms(2) blk, folded t]
  have ln: "length (l_block u) = LOGSIZE" "l_n u < LOGSIZE"
    using assms(1) tr by (simp_all add: mk tx_def in_trans_def)
  note wb = log_write_blocks [OF ln, of b, folded t]
  have bn: "b_blockno (buf_at u b) = bn" using blk by (simp add: is_block_def)
  show lb: "log_blocks t = log_add bn (log_blocks s)" using wb(1) by (simp add: bn mk)
  have "running t" using w(5) run by (simp add: bbase_def)
  moreover have "distinct (log_blocks t)" "dirty_blocks t = set (log_blocks t)"
    unfolding lb w(3) u(3) using assms(1) by (auto simp: tx_def log_add_def)
  ultimately show "tx H t" using w(1) wb(2,3) by (simp add: tx_def)
  show "view t = (view s)(bn := d)" using w(2) u(2) by simp
  show "buf_at t i = (if i = b then (buf_at s b)\<lparr>b_data := d, b_dirty := True\<rparr> else buf_at s i)"
    using w(4) [of i] by (simp add: at)
  have "lframe s u" using bframe_upd_buf [of s b "b_data_update (\<lambda>_. d)"]
    by (intro bframe_lframe) (simp_all add: u_def)
  moreover have "lframe u t" using w(5) by (simp add: lframe_def t)
  ultimately show "lframe s t" by (rule lframe_trans)
qed

end
