(* ===== verification/Inode.thy ===== *)
theory Inode
  imports Klog
begin

text \<open>
  Blocks and inodes (\<open>fs.c\<close>, up to \<open>itrunc\<close>): the block bitmap, the inodes on disk, the cache of
  inodes in memory, and the map from the blocks of a file to disk blocks.

  An inode pointer is an index into \<open>icache\<close>.

  What the operations do is shown in the theories \<open>Blocks\<close>, \<open>Icache\<close> and \<open>Fdata\<close>.
\<close>

section \<open>State\<close>

record inode =
  i_dev :: u32
  i_inum :: u32
  i_ref :: int
  i_valid :: bool
  i_perm :: u8
  i_type :: u8
  i_major :: u16
  i_minor :: u16
  i_nlink :: u16
  i_size :: u32
  i_addrs :: "u32 list"
  i_owner :: u32

record kino = klog +
  fs_sb :: superblock
  icache :: "inode list"

definition ino :: "'m kino_scheme \<Rightarrow> nat \<Rightarrow> inode" where
  "ino s ip = icache s ! ip"

definition upd_ino :: "nat \<Rightarrow> (inode \<Rightarrow> inode) \<Rightarrow> 'm kino_scheme \<Rightarrow> 'm kino_scheme" where
  "upd_ino ip f s = s\<lparr>icache := (icache s)[ip := f (icache s ! ip)]\<rparr>"

definition zero_inode :: inode where
  "zero_inode = \<lparr>i_dev = 0, i_inum = 0, i_ref = 0, i_valid = False, i_perm = 0, i_type = 0, i_major = 0,
     i_minor = 0, i_nlink = 0, i_size = 0, i_addrs = replicate (NDIRECT + 1) 0, i_owner = 0\<rparr>"

definition BBLOCK :: "nat \<Rightarrow> superblock \<Rightarrow> u32" where
  "BBLOCK b sb = of_nat (b div BPB) + sb_bmapstart sb"

definition IBLOCK :: "u32 \<Rightarrow> superblock \<Rightarrow> u32" where
  "IBLOCK i sb = of_nat (unat i div IPB) + sb_inodestart sb"

section \<open>Blocks\<close>

definition bzero :: "u32 \<Rightarrow> u32 \<Rightarrow> ('m kino_scheme, unit) km" where
  "bzero dev bno =
     bnd (bread dev bno) (\<lambda>bp.
     sq (sq (set_bdata bp (replicate BSIZE 0)) (log_write bp))
        (brelse bp))"

text \<open>Bit \<open>bi\<close> of a bitmap block: \<open>data[bi/8] & (1 << (bi % 8))\<close>, and setting and clearing it.\<close>

definition bm_test :: "bytes \<Rightarrow> nat \<Rightarrow> bool" where
  "bm_test d bi \<longleftrightarrow> bit (d ! (bi div 8)) (bi mod 8)"

definition bm_set :: "bytes \<Rightarrow> nat \<Rightarrow> bytes" where
  "bm_set d bi = d[bi div 8 := set_bit (bi mod 8) (d ! (bi div 8))]"

definition bm_clear :: "bytes \<Rightarrow> nat \<Rightarrow> bytes" where
  "bm_clear d bi = d[bi div 8 := unset_bit (bi mod 8) (d ! (bi div 8))]"

text \<open>The outer loop of \<open>balloc\<close> over the first blocks \<open>b\<close> that the bitmap blocks describe.\<close>

primrec balloc_from :: "nat list \<Rightarrow> u32 \<Rightarrow> ('m kino_scheme, u32) km" where
  "balloc_from [] dev = kpanic ''balloc: out of blocks''"
| "balloc_from (b # bs) dev =
     bnd (getk fs_sb) (\<lambda>sb.
     bnd (bread dev (BBLOCK b sb)) (\<lambda>bp.
     bnd (bdata bp) (\<lambda>d.
     case find (\<lambda>bi. \<not> bm_test d bi) [0..<min BPB (unat (sb_size sb) - b)] of
       Some bi \<Rightarrow>
         sq (sq (set_bdata bp (bm_set d bi)) (log_write bp))
        (sq (brelse bp)
        (sq (bzero dev (of_nat (b + bi)))
            (ret (of_nat (b + bi)))))
     | None \<Rightarrow> sq (brelse bp) (balloc_from bs dev))))"

definition bitmap_starts :: "nat \<Rightarrow> nat list" where
  "bitmap_starts n = map (\<lambda>k. k * BPB) [0..<(n + BPB - 1) div BPB]"

definition balloc :: "u32 \<Rightarrow> ('m kino_scheme, u32) km" where
  "balloc dev = bnd (getk (\<lambda>s. unat (sb_size (fs_sb s)))) (\<lambda>size. balloc_from (bitmap_starts size) dev)"

definition bfree :: "u32 \<Rightarrow> u32 \<Rightarrow> ('m kino_scheme, unit) km" where
  "bfree dev b =
     bnd (getk fs_sb) (\<lambda>sb.
     bnd (bread dev (BBLOCK (unat b) sb)) (\<lambda>bp.
     let bi = unat b mod BPB in
     bnd (bdata bp) (\<lambda>d.
     if \<not> bm_test d bi then kpanic ''freeing free block''
     else
       sq (sq (set_bdata bp (bm_clear d bi)) (log_write bp))
          (brelse bp))))"

section \<open>Inodes\<close>

definition iget :: "u32 \<Rightarrow> u32 \<Rightarrow> ('m kino_scheme, nat) km" where
  "iget dev inum =
     sq (acquire LK_icache)
    (bnd (getk icache) (\<lambda>ic.
     case find_idx (\<lambda>ip. i_ref ip > 0 \<and> i_dev ip = dev \<and> i_inum ip = inum) ic of
       Some ip \<Rightarrow>
         sq (modk (upd_ino ip (\<lambda>I. I\<lparr>i_ref := i_ref I + 1\<rparr>)))
        (sq (release LK_icache) (ret ip))
     | None \<Rightarrow>
         (case find_idx (\<lambda>ip. i_ref ip = 0) ic of
            None \<Rightarrow> kpanic ''iget: no inodes''
          | Some ip \<Rightarrow>
              sq (modk (upd_ino ip (\<lambda>I. I\<lparr>i_dev := dev, i_inum := inum, i_ref := 1, i_valid := False\<rparr>)))
             (sq (release LK_icache) (ret ip)))))"

text \<open>The slot of inode \<open>inum\<close> in its block.\<close>

definition dip_off :: "u32 \<Rightarrow> nat" where
  "dip_off inum = DINODE_SIZE * (unat inum mod IPB)"

definition dinode_in :: "bytes \<Rightarrow> u32 \<Rightarrow> dinode" where
  "dinode_in d inum = dec_dinode (sub_arr (dip_off inum) DINODE_SIZE d)"

definition put_dinode :: "u32 \<Rightarrow> dinode \<Rightarrow> bytes \<Rightarrow> bytes" where
  "put_dinode inum di d = put_arr (dip_off inum) (enc_dinode di) d"

definition zero_dinode :: dinode where
  "zero_dinode = \<lparr>d_perm = 0, d_type = 0, d_major = 0, d_minor = 0, d_nlink = 0, d_size = 0,
     d_addrs = replicate (NDIRECT + 1) 0, d_owner = 0\<rparr>"

primrec ialloc_from :: "nat list \<Rightarrow> u32 \<Rightarrow> u8 \<Rightarrow> ('m kino_scheme, nat) km" where
  "ialloc_from [] dev type = kpanic ''ialloc: no inodes''"
| "ialloc_from (i # is) dev type =
     (let inum = of_nat i in
      bnd (getk fs_sb) (\<lambda>sb.
      bnd (bread dev (IBLOCK inum sb)) (\<lambda>bp.
      bnd (bdata bp) (\<lambda>d.
      if d_type (dinode_in d inum) = 0 then
        sq (sq (set_bdata bp (put_dinode inum (zero_dinode\<lparr>d_type := type\<rparr>) d)) (log_write bp))
       (sq (brelse bp)
           (iget dev inum))
      else sq (brelse bp) (ialloc_from is dev type)))))"

definition ialloc :: "u32 \<Rightarrow> u8 \<Rightarrow> ('m kino_scheme, nat) km" where
  "ialloc dev type =
     bnd (getk (\<lambda>s. unat (sb_ninodes (fs_sb s)))) (\<lambda>n. ialloc_from [1..<n] dev type)"

definition dinode_of :: "inode \<Rightarrow> dinode" where
  "dinode_of I = \<lparr>d_perm = i_perm I, d_type = i_type I, d_major = i_major I, d_minor = i_minor I,
     d_nlink = i_nlink I, d_size = i_size I, d_addrs = i_addrs I, d_owner = i_owner I\<rparr>"

definition load_dinode :: "dinode \<Rightarrow> inode \<Rightarrow> inode" where
  "load_dinode d I = I\<lparr>i_perm := d_perm d, i_type := d_type d, i_major := d_major d, i_minor := d_minor d,
     i_nlink := d_nlink d, i_size := d_size d, i_addrs := d_addrs d, i_owner := d_owner d\<rparr>"

definition iupdate :: "nat \<Rightarrow> ('m kino_scheme, unit) km" where
  "iupdate ip =
     bnd (getk (\<lambda>s. (ino s ip, fs_sb s))) (\<lambda>(I, sb).
     bnd (bread (i_dev I) (IBLOCK (i_inum I) sb)) (\<lambda>bp.
     bnd (bdata bp) (\<lambda>d.
     sq (sq (set_bdata bp (put_dinode (i_inum I) (dinode_of I) d)) (log_write bp))
        (brelse bp))))"

definition idup :: "nat \<Rightarrow> ('m kino_scheme, nat) km" where
  "idup ip =
     sq (acquire LK_icache)
    (sq (modk (upd_ino ip (\<lambda>I. I\<lparr>i_ref := i_ref I + 1\<rparr>)))
    (sq (release LK_icache) (ret ip)))"

definition ilock :: "nat \<Rightarrow> ('m kino_scheme, unit) km" where
  "ilock ip =
     bnd (getk (\<lambda>s. i_ref (ino s ip))) (\<lambda>r.
     if r < 1 then kpanic ''ilock''
     else
       sq (acquiresleep (SL_inode ip))
      (bnd (getk (\<lambda>s. (ino s ip, fs_sb s))) (\<lambda>(I, sb).
       whenk (\<not> i_valid I)
         (bnd (bread (i_dev I) (IBLOCK (i_inum I) sb)) (\<lambda>bp.
          bnd (bdata bp) (\<lambda>d.
          sq (modk (upd_ino ip (load_dinode (dinode_in d (i_inum I)))))
         (sq (brelse bp)
         (sq (modk (upd_ino ip (\<lambda>I. I\<lparr>i_valid := True\<rparr>)))
             (bnd (getk (\<lambda>s. i_type (ino s ip))) (\<lambda>ty.
              whenk (ty = 0) (kpanic ''ilock: no type'')))))))))))"

definition iunlock :: "nat \<Rightarrow> ('m kino_scheme, unit) km" where
  "iunlock ip =
     bnd (holdingsleep (SL_inode ip)) (\<lambda>h.
     bnd (getk (\<lambda>s. i_ref (ino s ip))) (\<lambda>r.
     if \<not> h \<or> r < 1 then kpanic ''iunlock''
     else releasesleep (SL_inode ip)))"

section \<open>Blocks of a file\<close>

definition bmap :: "nat \<Rightarrow> nat \<Rightarrow> ('m kino_scheme, u32) km" where
  "bmap ip bn =
     bnd (getk (\<lambda>s. ino s ip)) (\<lambda>I.
     if bn < NDIRECT then
       (if i_addrs I ! bn = 0
        then bnd (balloc (i_dev I)) (\<lambda>addr.
             sq (modk (upd_ino ip (\<lambda>I. I\<lparr>i_addrs := (i_addrs I)[bn := addr]\<rparr>)))
                (ret addr))
        else ret (i_addrs I ! bn))
     else if bn - NDIRECT < NINDIRECT then
       (let k = bn - NDIRECT in
        bnd (if i_addrs I ! NDIRECT = 0
             then bnd (balloc (i_dev I)) (\<lambda>addr.
                  sq (modk (upd_ino ip (\<lambda>I. I\<lparr>i_addrs := (i_addrs I)[NDIRECT := addr]\<rparr>)))
                     (ret addr))
             else ret (i_addrs I ! NDIRECT)) (\<lambda>ind.
        bnd (bread (i_dev I) ind) (\<lambda>bp.
        bnd (bdata bp) (\<lambda>d.
        let addr = dec32 (sub_arr (4 * k) 4 d) in
        bnd (if addr = 0
             then bnd (balloc (i_dev I)) (\<lambda>addr.
                  bnd (bdata bp) (\<lambda>d.
                  sq (sq (set_bdata bp (put_arr (4 * k) (enc32 addr) d)) (log_write bp))
                     (ret addr)))
             else ret addr) (\<lambda>addr.
        sq (brelse bp) (ret addr))))))
     else kpanic ''bmap: out of range'')"

definition itrunc :: "nat \<Rightarrow> ('m kino_scheme, unit) km" where
  "itrunc ip =
     sq (for_each [0..<NDIRECT] (\<lambda>i.
          bnd (getk (\<lambda>s. ino s ip)) (\<lambda>I.
          whenk (i_addrs I ! i \<noteq> 0)
            (sq (bfree (i_dev I) (i_addrs I ! i))
                (modk (upd_ino ip (\<lambda>I. I\<lparr>i_addrs := (i_addrs I)[i := 0]\<rparr>)))))))
    (sq (bnd (getk (\<lambda>s. ino s ip)) (\<lambda>I.
         whenk (i_addrs I ! NDIRECT \<noteq> 0)
           (bnd (bread (i_dev I) (i_addrs I ! NDIRECT)) (\<lambda>bp.
            sq (for_each [0..<NINDIRECT] (\<lambda>j.
                 bnd (bdata bp) (\<lambda>d.
                 let a = dec32 (sub_arr (4 * j) 4 d) in
                 whenk (a \<noteq> 0) (bfree (i_dev I) a))))
           (sq (brelse bp)
           (sq (bfree (i_dev I) (i_addrs I ! NDIRECT))
               (modk (upd_ino ip (\<lambda>I. I\<lparr>i_addrs := (i_addrs I)[NDIRECT := 0]\<rparr>)))))))))
    (sq (modk (upd_ino ip (\<lambda>I. I\<lparr>i_size := 0\<rparr>)))
        (iupdate ip)))"

definition iput :: "nat \<Rightarrow> ('m kino_scheme, unit) km" where
  "iput ip =
     sq (acquiresleep (SL_inode ip))
    (sq (bnd (getk (\<lambda>s. ino s ip)) (\<lambda>I.
         whenk (i_valid I \<and> i_nlink I = 0)
           (sq (acquire LK_icache)
           (bnd (getk (\<lambda>s. i_ref (ino s ip))) (\<lambda>r.
            sq (release LK_icache)
               (whenk (r = 1)
                 (sq (itrunc ip)
                 (sq (modk (upd_ino ip (\<lambda>I. I\<lparr>i_type := 0\<rparr>)))
                 (sq (iupdate ip)
                     (modk (upd_ino ip (\<lambda>I. I\<lparr>i_valid := False\<rparr>))))))))))))
    (sq (releasesleep (SL_inode ip))
    (sq (acquire LK_icache)
    (sq (modk (upd_ino ip (\<lambda>I. I\<lparr>i_ref := i_ref I - 1\<rparr>)))
        (release LK_icache)))))"

definition iunlockput :: "nat \<Rightarrow> ('m kino_scheme, unit) km" where
  "iunlockput ip = sq (iunlock ip) (iput ip)"

end
