(* ===== verification/Console.thy ===== *)
theory Console
  imports Inode
begin

text \<open>
  The console (\<open>console.c\<close>): formatted output, the text screen, the line editor and the device
  functions. The screen's memory is \<open>crt\<close>, the cursor position the display adapter holds is
  \<open>crt_pos\<close>, and \<open>uart\<close> is the sequence of characters sent to the serial port. A character is an
  \<open>int\<close>, as in the code, with \<open>BACKSPACE\<close> outside the range of bytes.

  The function pointer \<open>getc\<close> of \<open>consoleintr\<close> is represented by the characters it delivers before
  it returns a negative value. \<open>procdump\<close>, which prints the process table, is in theory
  \<open>Proc\<close>: \<open>consoleintr\<close> returns whether it is to be called, and the interrupt handlers of theory \<open>Trap\<close> call it.
\<close>

section \<open>State\<close>

definition INPUT_BUF :: nat where "INPUT_BUF = 128"
definition BACKSPACE :: int where "BACKSPACE = 0x100"
definition CONSOLE :: nat where "CONSOLE = 1"

record kcons = kino +
  cons_locking :: bool
  in_buf :: bytes
  in_r :: u32
  in_w :: u32
  in_e :: u32
  crt :: "u16 list"
  crt_pos :: u16
  uart :: "int list"
  devsw_console :: bool

section \<open>Formatted output\<close>

definition digits :: "int list" where
  "digits = map of_char ''0123456789abcdef''"

text \<open>The digits of \<open>x\<close>, the least significant first, as the loop of \<open>printint\<close> produces them.\<close>

function digits_rev :: "nat \<Rightarrow> nat \<Rightarrow> int list" where
  "digits_rev base x =
     (digits ! (x mod base)) # (if base \<le> 1 \<or> x div base = 0 then [] else digits_rev base (x div base))"
  by pat_completeness auto
termination
  by (relation "measure snd") (auto simp: not_le div_greater_zero_iff intro!: div_less_dividend)

declare digits_rev.simps [simp del]

definition printint_chars :: "u32 \<Rightarrow> nat \<Rightarrow> bool \<Rightarrow> int list" where
  "printint_chars xx base sign =
     (let neg = (sign \<and> sint xx < 0);
          x = (if neg then - xx else xx);
          buf = digits_rev base (unat x) @ (if neg then [of_char CHR ''-''] else [])
      in rev buf)"

datatype fmt_arg = AWord u32 | AStr "bytes option"

definition byte_chars :: "bytes \<Rightarrow> int list" where
  "byte_chars bs = map uint bs"

definition arg_word :: "fmt_arg list \<Rightarrow> u32" where
  "arg_word as = (case as of AWord w # _ \<Rightarrow> w | _ \<Rightarrow> 0)"

definition arg_str :: "fmt_arg list \<Rightarrow> int list" where
  "arg_str as =
     (case as of AStr (Some s) # _ \<Rightarrow> byte_chars s | _ \<Rightarrow> map of_char ''(null)'')"

text \<open>
  The characters \<open>cprintf\<close> prints for a format string (without its NUL). An argument is read
  as the directive that consumes it expects it; a missing argument, which C reads from the stack
  unchecked, is taken as 0.
\<close>

fun cfmt :: "int list \<Rightarrow> fmt_arg list \<Rightarrow> int list" where
  "cfmt [] as = []"
| "cfmt [c] as = (if c = of_char CHR ''%'' then [] else [c])"
| "cfmt (c # d # f) as =
     (if c \<noteq> of_char CHR ''%'' then c # cfmt (d # f) as
      else if d = of_char CHR ''d'' then printint_chars (arg_word as) 10 True @ cfmt f (tl as)
      else if d = of_char CHR ''x'' \<or> d = of_char CHR ''p''
        then printint_chars (arg_word as) 16 False @ cfmt f (tl as)
      else if d = of_char CHR ''s'' then arg_str as @ cfmt f (tl as)
      else if d = of_char CHR ''%'' then of_char CHR ''%'' # cfmt f as
      else of_char CHR ''%'' # d # cfmt f as)"

section \<open>The screen\<close>

definition cgaputc :: "int \<Rightarrow> ('m kcons_scheme, unit) km" where
  "cgaputc c =
     bnd (getk (\<lambda>s. (uint (crt_pos s), crt s))) (\<lambda>(pos0, m0).
     let (pos, m) =
       (if c = 10 then (pos0 + (80 - pos0 mod 80), m0)
        else if c = BACKSPACE then (if pos0 > 0 then pos0 - 1 else pos0, m0)
        else (pos0 + 1, m0[nat pos0 := (word_of_int c AND 0xff) OR 0x0700]))
     in
     if pos < 0 \<or> pos > 25 * 80 then kpanic ''pos under/overflow''
     else
       let (pos', m') =
         (if pos div 80 \<ge> 24
          then (pos - 80,
                let up = take (23 * 80) (drop 80 m) @ drop (23 * 80) m
                in take (nat (pos - 80)) up @ replicate (24 * 80 - nat (pos - 80)) 0 @ drop (24 * 80) up)
          else (pos, m))
       in modk (\<lambda>s. s\<lparr>crt_pos := word_of_int pos', crt := m'[nat pos' := 0x0720]\<rparr>))"

definition consputc :: "int \<Rightarrow> ('m kcons_scheme, unit) km" where
  "consputc c =
     sq (modk (\<lambda>s. s\<lparr>uart := uart s @ (if c = BACKSPACE then [8, 32, 8] else [c])\<rparr>))
        (cgaputc c)"

definition cprintf :: "int list \<Rightarrow> fmt_arg list \<Rightarrow> ('m kcons_scheme, unit) km" where
  "cprintf fmt as =
     bnd (getk cons_locking) (\<lambda>locking.
     sq (whenk locking (acquire LK_cons))
    (sq (for_each (cfmt fmt as) consputc)
        (whenk locking (release LK_cons))))"

section \<open>Input\<close>

definition ctrl :: "char \<Rightarrow> int" where
  "ctrl x = of_char x - of_char CHR ''@''"

definition in_at :: "'m kcons_scheme \<Rightarrow> u32 \<Rightarrow> u8" where
  "in_at s i = in_buf s ! (unat i mod INPUT_BUF)"

text \<open>The loop that kills the line, with the length of the line as the argument that decreases.\<close>

primrec kill_line :: "nat \<Rightarrow> ('m kcons_scheme, unit) km" where
  "kill_line 0 = ret ()"
| "kill_line (Suc n) =
     bnd (getk (\<lambda>s. (in_e s, in_w s, in_at s (in_e s - 1)))) (\<lambda>(e, w, c).
     if e \<noteq> w \<and> c \<noteq> 10
     then sq (modk (\<lambda>s. s\<lparr>in_e := e - 1\<rparr>)) (sq (consputc BACKSPACE) (kill_line n))
     else ret ())"

definition console_char :: "int \<Rightarrow> ('m kcons_scheme, unit) km" where
  "console_char c =
     (if c = ctrl CHR ''P'' then ret ()
      else if c = ctrl CHR ''U'' then bnd (getk (\<lambda>s. unat (in_e s - in_w s))) kill_line
      else if c = ctrl CHR ''H'' \<or> c = 0x7f then
        bnd (getk (\<lambda>s. in_e s \<noteq> in_w s)) (\<lambda>more.
        whenk more (sq (modk (\<lambda>s. s\<lparr>in_e := in_e s - 1\<rparr>)) (consputc BACKSPACE)))
      else
        bnd (getk (\<lambda>s. unat (in_e s - in_r s) < INPUT_BUF)) (\<lambda>room.
        whenk (c \<noteq> 0 \<and> room)
          (let c = (if c = 13 then 10 else c) in
           sq (modk (\<lambda>s. s\<lparr>in_buf := (in_buf s)[unat (in_e s) mod INPUT_BUF := word_of_int c],
                           in_e := in_e s + 1\<rparr>))
          (sq (consputc c)
              (bnd (getk (\<lambda>s. in_e s = in_r s + of_nat INPUT_BUF)) (\<lambda>full.
               whenk (c = 10 \<or> c = ctrl CHR ''D'' \<or> full)
                 (sq (modk (\<lambda>s. s\<lparr>in_w := in_e s\<rparr>))
                     (wakeup CH_input))))))))"

definition consoleintr :: "int list \<Rightarrow> ('m kcons_scheme, bool) km" where
  "consoleintr cs =
     sq (acquire LK_cons)
    (sq (for_each cs console_char)
    (sq (release LK_cons)
        (ret (ctrl CHR ''P'' \<in> set cs))))"

text \<open>
  The loop of \<open>consoleread\<close>, with \<open>acc\<close> the bytes stored so far; \<open>None\<close> when the process was killed
  while waiting. A reader that is woken up continues here with the same arguments.
\<close>

fun consoleread_loop :: "nat \<Rightarrow> nat \<Rightarrow> bytes \<Rightarrow> ('m kcons_scheme, bytes option) km" where
  "consoleread_loop target 0 acc = ret (Some acc)"
| "consoleread_loop target (Suc n) acc =
     bnd (getk (\<lambda>s. (in_r s, in_w s))) (\<lambda>(r, w).
     if r = w then
       bnd curproc (\<lambda>p. if p_killed p then ret None else sleep CH_input LK_cons)
     else
       bnd (getk (\<lambda>s. in_at s r)) (\<lambda>c.
       sq (modk (\<lambda>s. s\<lparr>in_r := in_r s + 1\<rparr>))
          (if c = word_of_int (ctrl CHR ''D'') then
             sq (whenk (Suc n < target) (modk (\<lambda>s. s\<lparr>in_r := in_r s - 1\<rparr>)))
                (ret (Some acc))
           else if c = 10 then ret (Some (acc @ [c]))
           else consoleread_loop target n (acc @ [c]))))"

definition consoleread :: "nat \<Rightarrow> int \<Rightarrow> ('m kcons_scheme, int \<times> bytes) km" where
  "consoleread ip n =
     sq (iunlock ip)
    (sq (acquire LK_cons)
    (bnd (consoleread_loop (nat n) (nat n) []) (\<lambda>r.
     sq (release LK_cons)
    (sq (ilock ip)
        (case r of None \<Rightarrow> ret (-1, []) | Some bs \<Rightarrow> ret (int (length bs), bs))))))"

definition consolewrite :: "nat \<Rightarrow> bytes \<Rightarrow> ('m kcons_scheme, int) km" where
  "consolewrite ip buf =
     sq (iunlock ip)
    (sq (acquire LK_cons)
    (sq (for_each buf (\<lambda>c. consputc (uint c)))
    (sq (release LK_cons)
    (sq (ilock ip)
        (ret (int (length buf)))))))"

definition consoleinit :: "('m kcons_scheme, unit) km" where
  "consoleinit = modk (\<lambda>s. s\<lparr>devsw_console := True, cons_locking := True\<rparr>)"

end
