(* ===== verification/Fs.thy ===== *)
theory Fs
  imports Console
begin

text \<open>
  File contents, directories, path names and permissions (\<open>fs.c\<close>, from \<open>readi\<close> on).

  \<open>readi\<close> returns its result together with the bytes it stores at \<open>dst\<close>; \<open>writei\<close> takes the bytes at
  \<open>src\<close>. The loops over the blocks of a transfer run over the list \<open>chunks\<close> of pairs of a file
  offset and a number of bytes that stay within one block. A path is the list of its bytes
  before the terminating NUL; the buffer \<open>name\<close> is represented by the string in it (at most
  \<open>DIRSIZ\<close> bytes).
\<close>

section \<open>Initialisation\<close>

definition iinit :: "u32 \<Rightarrow> ('m kcons_scheme, unit) km" where
  "iinit dev =
     sq (for_each [0..<NINODE] (\<lambda>i. modk (initsleeplock (SL_inode i))))
    (sq (bnd (readsb dev) (\<lambda>x. modk (\<lambda>s. s\<lparr>fs_sb := x\<rparr>)))
    (bnd (getk fs_sb) (\<lambda>b.
     cprintf (map of_char (''sb: size %d nblocks %d ninodes %d nlog %d logstart %d'' @
         '' inodestart %d bmap start %d'') @ [10])
       [AWord (sb_size b), AWord (sb_nblocks b), AWord (sb_ninodes b), AWord (sb_nlog b),
        AWord (sb_logstart b), AWord (sb_inodestart b), AWord (sb_bmapstart b)])))"

section \<open>Reading and writing\<close>

function chunks :: "nat \<Rightarrow> nat \<Rightarrow> (nat \<times> nat) list" where
  "chunks off n =
     (if n = 0 then []
      else let m = min n (BSIZE - off mod BSIZE) in (off, m) # chunks (off + m) (n - m))"
  by pat_completeness auto
termination
  by (relation "measure snd") (auto simp: BSIZE_def)

declare chunks.simps [simp del]

primrec read_chunks :: "nat \<Rightarrow> (nat \<times> nat) list \<Rightarrow> ('m kcons_scheme, bytes) km" where
  "read_chunks ip [] = ret []"
| "read_chunks ip (c # cs) =
     bnd (getk (\<lambda>s. i_dev (ino s ip))) (\<lambda>dev.
     bnd (bmap ip (fst c div BSIZE)) (\<lambda>a.
     bnd (bread dev a) (\<lambda>bp.
     bnd (bdata bp) (\<lambda>d.
     sq (brelse bp)
    (bnd (read_chunks ip cs) (\<lambda>rest.
     ret (sub_arr (fst c mod BSIZE) (snd c) d @ rest)))))))"

text \<open>The device functions: only the console's are ever installed.\<close>

definition dev_present :: "inode \<Rightarrow> 'm kcons_scheme \<Rightarrow> bool" where
  "dev_present I s \<longleftrightarrow>
     \<not> (sint (i_major I) < 0 \<or> sint (i_major I) \<ge> int NDEV) \<and>
     sint (i_major I) = int CONSOLE \<and> devsw_console s"

definition readi :: "nat \<Rightarrow> u32 \<Rightarrow> u32 \<Rightarrow> ('m kcons_scheme, int \<times> bytes) km" where
  "readi ip off n =
     bnd (getk (\<lambda>s. (ino s ip, dev_present (ino s ip) s))) (\<lambda>(I, dev).
     if i_type I = T_DEV then
       (if dev then consoleread ip (sint n) else ret (-1, []))
     else if off > i_size I \<or> off + n < off then ret (-1, [])
     else
       let n = (if off + n > i_size I then i_size I - off else n) in
       bnd (read_chunks ip (chunks (unat off) (unat n))) (\<lambda>bs.
       ret (sint n, bs)))"

primrec write_chunks :: "nat \<Rightarrow> (nat \<times> nat) list \<Rightarrow> bytes \<Rightarrow> ('m kcons_scheme, unit) km" where
  "write_chunks ip [] src = ret ()"
| "write_chunks ip (c # cs) src =
     bnd (getk (\<lambda>s. i_dev (ino s ip))) (\<lambda>dev.
     bnd (bmap ip (fst c div BSIZE)) (\<lambda>a.
     bnd (bread dev a) (\<lambda>bp.
     bnd (bdata bp) (\<lambda>d.
     sq (sq (set_bdata bp (put_arr (fst c mod BSIZE) (take (snd c) src) d)) (log_write bp))
    (sq (brelse bp)
        (write_chunks ip cs (drop (snd c) src)))))))"

definition writei :: "nat \<Rightarrow> bytes \<Rightarrow> u32 \<Rightarrow> ('m kcons_scheme, int) km" where
  "writei ip src off =
     bnd (getk (\<lambda>s. (ino s ip, dev_present (ino s ip) s))) (\<lambda>(I, dev).
     let n = of_nat (length src) :: u32 in
     if i_type I = T_DEV then
       (if dev then consolewrite ip src else ret (-1))
     else if off > i_size I \<or> off + n < off then ret (-1)
     else if unat (off + n) > MAXFILE * BSIZE then ret (-1)
     else
       sq (write_chunks ip (chunks (unat off) (unat n)) src)
      (sq (bnd (getk (\<lambda>s. i_size (ino s ip))) (\<lambda>size.
           whenk (n > 0 \<and> off + n > size)
             (sq (modk (upd_ino ip (\<lambda>I. I\<lparr>i_size := off + n\<rparr>)))
                 (iupdate ip))))
          (ret (sint n))))"

section \<open>Directories\<close>

definition namecmp :: "bytes \<Rightarrow> bytes \<Rightarrow> int" where
  "namecmp s t = strncmp (cptr s) (cptr t) DIRSIZ"

definition dir_offsets :: "nat \<Rightarrow> nat list" where
  "dir_offsets n = map (\<lambda>k. k * DIRENT_SIZE) [0..<(n + DIRENT_SIZE - 1) div DIRENT_SIZE]"

primrec dirlookup_from ::
  "nat list \<Rightarrow> nat \<Rightarrow> bytes \<Rightarrow> ('m kcons_scheme, (nat \<times> nat) option) km" where
  "dirlookup_from [] dp name = ret None"
| "dirlookup_from (off # offs) dp name =
     bnd (readi dp (of_nat off) (of_nat DIRENT_SIZE)) (\<lambda>(r, bs).
     if r \<noteq> int DIRENT_SIZE then kpanic ''dirlookup read''
     else
       let de = dec_dirent bs in
       if de_inum de = 0 then dirlookup_from offs dp name
       else if namecmp name (de_name de) = 0 then
         bnd (getk (\<lambda>s. i_dev (ino s dp))) (\<lambda>dev.
         bnd (iget dev (ucast (de_inum de))) (\<lambda>ip.
         ret (Some (ip, off))))
       else dirlookup_from offs dp name)"

text \<open>The inode found and the offset of its entry, which the code stores at \<open>poff\<close>.\<close>

definition dirlookup :: "nat \<Rightarrow> bytes \<Rightarrow> ('m kcons_scheme, (nat \<times> nat) option) km" where
  "dirlookup dp name =
     bnd (getk (\<lambda>s. ino s dp)) (\<lambda>I.
     if i_type I \<noteq> T_DIR then kpanic ''dirlookup not DIR''
     else dirlookup_from (dir_offsets (unat (i_size I))) dp name)"

primrec dirlink_from :: "nat list \<Rightarrow> nat \<Rightarrow> nat \<Rightarrow> ('m kcons_scheme, nat) km" where
  "dirlink_from [] dp stop = ret stop"
| "dirlink_from (off # offs) dp stop =
     bnd (readi dp (of_nat off) (of_nat DIRENT_SIZE)) (\<lambda>(r, bs).
     if r \<noteq> int DIRENT_SIZE then kpanic ''dirlink read''
     else if de_inum (dec_dirent bs) = 0 then ret off
     else dirlink_from offs dp stop)"

definition new_dirent :: "bytes \<Rightarrow> u32 \<Rightarrow> dirent" where
  "new_dirent name inum = \<lparr>de_inum = ucast inum, de_name = strncpy_out (cptr name) DIRSIZ\<rparr>"

definition dirlink :: "nat \<Rightarrow> bytes \<Rightarrow> u32 \<Rightarrow> ('m kcons_scheme, int) km" where
  "dirlink dp name inum =
     bnd (dirlookup dp name) (\<lambda>found.
     case found of
       Some (ip, _) \<Rightarrow> sq (iput ip) (ret (-1))
     | None \<Rightarrow>
         bnd (getk (\<lambda>s. unat (i_size (ino s dp)))) (\<lambda>n.
         bnd (dirlink_from (dir_offsets n) dp (length (dir_offsets n) * DIRENT_SIZE)) (\<lambda>off.
         bnd (writei dp (enc_dirent (new_dirent name inum)) (of_nat off)) (\<lambda>r.
         if r \<noteq> int DIRENT_SIZE then kpanic ''dirlink'' else ret 0))))"

section \<open>Permissions\<close>

definition has_own :: "inode \<Rightarrow> proc \<Rightarrow> bool" where
  "has_own I p \<longleftrightarrow> p_uid p = i_owner I \<or> p_uid p = ROOT_UID"

definition has_read_permission :: "inode \<Rightarrow> proc \<Rightarrow> bool" where
  "has_read_permission I p \<longleftrightarrow>
     (if i_type I = T_DEV then True
      else if has_own I p then i_perm I AND MODE_RUSR \<noteq> 0
      else i_perm I AND MODE_ROTH \<noteq> 0)"

definition has_write_permission :: "inode \<Rightarrow> proc \<Rightarrow> bool" where
  "has_write_permission I p \<longleftrightarrow>
     (if i_type I = T_DEV then True
      else if has_own I p then i_perm I AND MODE_WUSR \<noteq> 0
      else i_perm I AND MODE_WOTH \<noteq> 0)"

definition has_execute_permission :: "inode \<Rightarrow> proc \<Rightarrow> bool" where
  "has_execute_permission I p \<longleftrightarrow>
     (if i_type I = T_DEV then True
      else if has_own I p then i_perm I AND MODE_XUSR \<noteq> 0
      else i_perm I AND MODE_XOTH \<noteq> 0)"

text \<open>The check of the current process against the inode \<open>ip\<close>.\<close>

definition permits :: "(inode \<Rightarrow> proc \<Rightarrow> bool) \<Rightarrow> nat \<Rightarrow> ('m kino_scheme, bool) km" where
  "permits has ip = bnd curproc (\<lambda>p. getk (\<lambda>s. has (ino s ip) p))"

section \<open>Paths\<close>

definition SLASH :: u8 where "SLASH = 47"

definition skipelem :: "bytes \<Rightarrow> (bytes \<times> bytes) option" where
  "skipelem path =
     (let p = dropWhile (\<lambda>c. c = SLASH) path in
      if p = [] then None
      else
        let elem = takeWhile (\<lambda>c. c \<noteq> SLASH) p;
            rest = dropWhile (\<lambda>c. c \<noteq> SLASH) p
        in Some (dropWhile (\<lambda>c. c = SLASH) rest, take DIRSIZ elem))"

lemma skipelem_shorter: "skipelem path = Some (rest, name) \<Longrightarrow> length rest < length path"
proof -
  assume a: "skipelem path = Some (rest, name)"
  let ?p = "dropWhile (\<lambda>c. c = SLASH) path"
  have ne: "?p \<noteq> []" and r: "rest = dropWhile (\<lambda>c. c = SLASH) (dropWhile (\<lambda>c. c \<noteq> SLASH) ?p)"
    using a by (auto simp: skipelem_def Let_def split: if_splits)
  from ne have "hd ?p \<noteq> SLASH" by (rule hd_dropWhile)
  with ne obtain c p' where p: "?p = c # p'" "c \<noteq> SLASH" by (cases ?p) auto
  have "length rest \<le> length (dropWhile (\<lambda>c. c \<noteq> SLASH) ?p)" by (simp add: r length_dropWhile_le)
  also have "\<dots> \<le> length p'" by (simp add: p length_dropWhile_le)
  also have "\<dots> < length ?p" by (simp add: p)
  also have "\<dots> \<le> length path" by (rule length_dropWhile_le)
  finally show ?thesis .
qed

text \<open>
  The loop of \<open>namex\<close>: the inode, or \<open>None\<close>, and the name of the last element copied.
\<close>

function namex_loop ::
  "bytes \<Rightarrow> bool \<Rightarrow> bytes \<Rightarrow> nat \<Rightarrow> ('m kcons_scheme, nat option \<times> bytes) km" where
  "namex_loop path parent name ip =
     (case skipelem path of
        None \<Rightarrow>
          if parent then sq (iput ip) (ret (None, name)) else ret (Some ip, name)
      | Some (path', name') \<Rightarrow>
          sq (ilock ip)
         (bnd (getk (\<lambda>s. i_type (ino s ip))) (\<lambda>ty.
          if ty \<noteq> T_DIR then sq (iunlockput ip) (ret (None, name'))
          else
            bnd (permits has_execute_permission ip) (\<lambda>ok.
            if \<not> ok then sq (iunlockput ip) (ret (None, name'))
            else if parent \<and> path' = [] then sq (iunlock ip) (ret (Some ip, name'))
            else
              bnd (dirlookup ip name') (\<lambda>found.
              case found of
                None \<Rightarrow> sq (iunlockput ip) (ret (None, name'))
              | Some (nxt, _) \<Rightarrow> sq (iunlockput ip) (namex_loop path' parent name' nxt))))))"
  by pat_completeness auto
termination
  by (relation "measure (\<lambda>(path, parent, name, ip). length path)") (auto simp: skipelem_shorter)

declare namex_loop.simps [simp del]

definition namex :: "bytes \<Rightarrow> bool \<Rightarrow> ('m kcons_scheme, nat option \<times> bytes) km" where
  "namex path parent =
     bnd (if path \<noteq> [] \<and> hd path = SLASH then iget ROOTDEV ROOTINO
          else bnd curproc (\<lambda>p. case p_cwd p of None \<Rightarrow> kpanic ''trap'' | Some cwd \<Rightarrow> idup cwd)) (\<lambda>ip.
     namex_loop path parent [] ip)"

definition namei :: "bytes \<Rightarrow> ('m kcons_scheme, nat option) km" where
  "namei path = bnd (namex path False) (\<lambda>(ip, name). ret ip)"

definition nameiparent :: "bytes \<Rightarrow> ('m kcons_scheme, nat option \<times> bytes) km" where
  "nameiparent path = namex path True"

section \<open>Creating a file\<close>

text \<open>
  \<open>create\<close> of \<open>sysfile.c\<close>, which \<open>usermanage.c\<close> and \<open>sysuser.c\<close> call too. It returns the new
  inode, or an existing file's, locked and referenced.
\<close>

definition dot :: bytes where "dot = [46]"
definition dotdot :: bytes where "dotdot = [46, 46]"

definition create_existing :: "nat \<Rightarrow> nat \<Rightarrow> u8 \<Rightarrow> ('m kcons_scheme, nat option) km" where
  "create_existing dp ip type =
     sq (iunlockput dp)
    (sq (ilock ip)
    (bnd (getk (\<lambda>s. i_type (ino s ip))) (\<lambda>ty.
     if type = T_FILE \<and> ty = T_FILE then
       bnd (permits has_write_permission ip) (\<lambda>ok.
       if \<not> ok then ret None else ret (Some ip))
     else sq (iunlockput ip) (ret None))))"

definition create_new ::
  "nat \<Rightarrow> bytes \<Rightarrow> u8 \<Rightarrow> u16 \<Rightarrow> u16 \<Rightarrow> ('m kcons_scheme, nat option) km" where
  "create_new dp name type major minor =
     bnd (getk (\<lambda>s. i_dev (ino s dp))) (\<lambda>dev.
     bnd (ialloc dev type) (\<lambda>ip.
     sq (ilock ip)
    (sq (modk (upd_ino ip (\<lambda>I. I\<lparr>i_major := major, i_minor := minor, i_nlink := 1\<rparr>)))
    (sq (iupdate ip)
    (sq (whenk (type = T_DIR)
          (sq (modk (upd_ino dp (\<lambda>I. I\<lparr>i_nlink := i_nlink I + 1\<rparr>)))
          (sq (iupdate dp)
          (bnd (getk (\<lambda>s. (i_inum (ino s ip), i_inum (ino s dp)))) (\<lambda>(inum, dinum).
           bnd (dirlink ip dot inum) (\<lambda>r.
           if r < 0 then kpanic ''create dots''
           else bnd (dirlink ip dotdot dinum) (\<lambda>r.
                whenk (r < 0) (kpanic ''create dots''))))))))
    (bnd (getk (\<lambda>s. i_inum (ino s ip))) (\<lambda>inum.
     bnd (dirlink dp name inum) (\<lambda>r.
     if r < 0 then kpanic ''create: dirlink''
     else sq (iunlockput dp) (ret (Some ip))))))))))"

definition create :: "bytes \<Rightarrow> u8 \<Rightarrow> u16 \<Rightarrow> u16 \<Rightarrow> ('m kcons_scheme, nat option) km" where
  "create path type major minor =
     bnd (nameiparent path) (\<lambda>(dpo, name).
     case dpo of
       None \<Rightarrow> ret None
     | Some dp \<Rightarrow>
         sq (ilock dp)
        (bnd (dirlookup dp name) (\<lambda>found.
         case found of
           Some (ip, _) \<Rightarrow> create_existing dp ip type
         | None \<Rightarrow>
             bnd (permits has_write_permission dp) (\<lambda>ok.
             if \<not> ok then sq (iunlockput dp) (ret None)
             else create_new dp name type major minor))))"

end
