(* ===== verification/Users.thy ===== *)
theory Users
  imports Fs
begin

text \<open>
  User accounts (\<open>usermanage.c\<close>): the table of users in memory and its copy in the file \<open>/passwd\<close>,
  the operations that search, add and delete users, and \<open>stati\<close> (\<open>fs.c\<close>), which asks for the
  name of a file's owner. Strings passed in are lists of the bytes before the NUL.
\<close>

section \<open>State\<close>

record kuser = kcons +
  utable :: "user list"
  next_uid :: u32
  utable_initialized :: bool
  utable_ip :: "nat option"

definition zero_user :: user where
  "zero_user = \<lparr>u_username = replicate USERNAME_MAXLEN 0, u_passwd = replicate USER_PW_MAXLEN 0, u_uid = 0\<rparr>"

definition str_root :: bytes where "str_root = [114, 111, 111, 116]"
definition str_0000 :: bytes where "str_0000 = [48, 48, 48, 48]"
definition path_passwd :: bytes where "path_passwd = [47, 112, 97, 115, 115, 119, 100]"

definition root_user :: user where
  "root_user = \<lparr>u_username = strncpy_out (cptr str_root) USERNAME_MAXLEN,
     u_passwd = strncpy_out (cptr str_0000) USER_PW_MAXLEN, u_uid = ROOT_UID\<rparr>"

definition UTABLE_SIZE :: nat where "UTABLE_SIZE = NUSER * USER_SIZE"

section \<open>The file \<open>/passwd\<close>\<close>

definition write_usertable :: "nat \<Rightarrow> ('m kuser_scheme, unit) km" where
  "write_usertable ip =
     bnd (getk (\<lambda>s. (next_uid s, utable s))) (\<lambda>(nu, ut).
     bnd (writei ip (enc32 nu) 0) (\<lambda>r.
     if r \<noteq> 4 then kpanic ''failed to write user table!''
     else
       bnd (writei ip (enc_utable ut) 4) (\<lambda>r.
       if r \<noteq> int UTABLE_SIZE then kpanic ''failed to write user table!'' else ret ())))"

definition export_usertable :: "('m kuser_scheme, unit) km" where
  "export_usertable =
     sq begin_op
    (bnd (getk utable_ip) (\<lambda>ipo.
     case ipo of
       None \<Rightarrow> kpanic ''ilock''
     | Some ip \<Rightarrow>
         sq (ilock ip)
        (sq (write_usertable ip)
        (sq (iunlock ip)
            end_op))))"

definition create_usertable :: "('m kuser_scheme, nat) km" where
  "create_usertable =
     sq (modk (\<lambda>s. s\<lparr>next_uid := ROOT_UID + 1, utable := root_user # replicate (NUSER - 1) zero_user\<rparr>))
    (bnd (create path_passwd T_FILE 0 0) (\<lambda>ipo.
     case ipo of
       None \<Rightarrow> kpanic ''failed to create user table!''
     | Some ip \<Rightarrow>
         sq (modk (upd_ino ip (\<lambda>I. I\<lparr>i_perm := MODE_RUSR OR MODE_WUSR, i_owner := ROOT_UID\<rparr>)))
        (sq (iupdate ip)
        (sq (write_usertable ip)
            (ret ip)))))"

definition read_usertable :: "nat \<Rightarrow> ('m kuser_scheme, unit) km" where
  "read_usertable ip =
     bnd (readi ip 0 4) (\<lambda>(r, bs).
     if r \<noteq> 4 then kpanic ''failed to initialize user table!''
     else
       sq (modk (\<lambda>s. s\<lparr>next_uid := dec32 bs\<rparr>))
      (bnd (readi ip 4 (of_nat UTABLE_SIZE)) (\<lambda>(r, bs).
       if r \<noteq> int UTABLE_SIZE then kpanic ''failed to initialize user table!''
       else modk (\<lambda>s. s\<lparr>utable := dec_utable bs\<rparr>))))"

definition init_usertable :: "('m kuser_scheme, int) km" where
  "init_usertable =
     bnd (getk utable_initialized) (\<lambda>ini.
     if ini then ret (-1)
     else
       sq begin_op
      (bnd (namei path_passwd) (\<lambda>ipo.
       bnd (case ipo of
              None \<Rightarrow> create_usertable
            | Some ip \<Rightarrow> sq (ilock ip) (sq (read_usertable ip) (ret ip))) (\<lambda>ip.
       sq (iunlock ip)
      (sq end_op
      (sq (modk (\<lambda>s. s\<lparr>utable_ip := Some ip, utable_initialized := True\<rparr>))
      (sq (modk (initsleeplock SL_utable))
          (ret 0))))))))"

section \<open>Searching the table\<close>

definition is_valid_username :: "bytes \<Rightarrow> bool" where
  "is_valid_username username \<longleftrightarrow>
     (case strlen (cptr username) of None \<Rightarrow> False | Some l \<Rightarrow> 2 \<le> l \<and> l < USERNAME_MAXLEN)"

definition is_valid_passwd :: "bytes \<Rightarrow> bool" where
  "is_valid_passwd passwd \<longleftrightarrow>
     (case strlen (cptr passwd) of None \<Rightarrow> False | Some l \<Rightarrow> 2 \<le> l \<and> l < USER_PW_MAXLEN)"

definition find_user_with_username :: "bytes \<Rightarrow> user list \<Rightarrow> nat option" where
  "find_user_with_username username us =
     find_idx (\<lambda>u. \<not> (u_uid u = 0 \<or> strncmp (cptr (u_username u)) (cptr username) USERNAME_MAXLEN \<noteq> 0)) us"

definition find_user_with_uid :: "u32 \<Rightarrow> user list \<Rightarrow> nat option" where
  "find_user_with_uid uid us = find_idx (\<lambda>u. \<not> (u_uid u = 0 \<or> u_uid u \<noteq> uid)) us"

section \<open>Operations\<close>

definition getuid :: "bytes \<Rightarrow> bytes \<Rightarrow> ('m kuser_scheme, u32) km" where
  "getuid username passwd =
     (if \<not> is_valid_username username \<or> \<not> is_valid_passwd passwd then
        sq (releasesleep SL_utable) (ret 0)
      else
        sq (acquiresleep SL_utable)
       (bnd (getk utable) (\<lambda>us.
        case find_user_with_username username us of
          None \<Rightarrow> sq (releasesleep SL_utable) (ret 0)
        | Some i \<Rightarrow>
            if strncmp (cptr (u_passwd (us ! i))) (cptr passwd) USER_PW_MAXLEN \<noteq> 0
            then sq (releasesleep SL_utable) (ret 0)
            else
              sq (releasesleep SL_utable)
                 (getk (\<lambda>s. u_uid (utable s ! i))))))"

text \<open>
  The loop of \<open>add_user\<close>: \<open>None\<close> when the name is taken, otherwise the last free entry it met, if any.
\<close>

primrec add_scan :: "user list \<Rightarrow> bytes \<Rightarrow> nat \<Rightarrow> nat option \<Rightarrow> nat option option" where
  "add_scan [] username i free = Some free"
| "add_scan (u # us) username i free =
     (if u_uid u = 0 then add_scan us username (i + 1) (Some i)
      else if strncmp (cptr (u_username u)) (cptr username) USERNAME_MAXLEN = 0 then None
      else add_scan us username (i + 1) free)"

definition new_user :: "bytes \<Rightarrow> bytes \<Rightarrow> u32 \<Rightarrow> user" where
  "new_user username passwd uid =
     \<lparr>u_username = strncpy_out (cptr username) USERNAME_MAXLEN,
      u_passwd = strncpy_out (cptr passwd) USER_PW_MAXLEN, u_uid = uid\<rparr>"

definition add_user :: "bytes \<Rightarrow> bytes \<Rightarrow> ('m kuser_scheme, u32) km" where
  "add_user username passwd =
     (if \<not> is_valid_username username \<or> \<not> is_valid_passwd passwd then ret 0
      else
        sq (acquiresleep SL_utable)
       (bnd (getk (\<lambda>s. add_scan (utable s) username 0 None)) (\<lambda>r.
        case r of
          None \<Rightarrow> sq (releasesleep SL_utable) (ret 0)
        | Some None \<Rightarrow> sq (releasesleep SL_utable) (ret 0)
        | Some (Some i) \<Rightarrow>
            sq (modk (\<lambda>s. s\<lparr>utable := (utable s)[i := new_user username passwd (next_uid s)],
                            next_uid := next_uid s + 1\<rparr>))
           (sq export_usertable
           (sq (releasesleep SL_utable)
               (getk (\<lambda>s. u_uid (utable s ! i))))))))"

definition delete_user :: "bytes \<Rightarrow> ('m kuser_scheme, int) km" where
  "delete_user username =
     (if \<not> is_valid_username username then ret (-1)
      else if strncmp (cptr str_root) (cptr username) USERNAME_MAXLEN = 0 then ret (-1)
      else
        sq (acquiresleep SL_utable)
       (bnd (getk (\<lambda>s. find_user_with_username username (utable s))) (\<lambda>r.
        case r of
          None \<Rightarrow> sq (releasesleep SL_utable) (ret (-1))
        | Some i \<Rightarrow>
            sq (modk (\<lambda>s. s\<lparr>utable := (utable s)[i := zero_user]\<rparr>))
           (sq export_usertable
           (sq (releasesleep SL_utable)
               (ret 0))))))"

text \<open>The result and, when it is 0, the 16 bytes stored at \<open>username\<close>.\<close>

definition get_username_with_uid :: "u32 \<Rightarrow> ('m kuser_scheme, int \<times> bytes) km" where
  "get_username_with_uid uid =
     sq (acquiresleep SL_utable)
    (bnd (getk utable) (\<lambda>us.
     case find_user_with_uid uid us of
       None \<Rightarrow> sq (releasesleep SL_utable) (ret (-1, []))
     | Some i \<Rightarrow>
         sq (releasesleep SL_utable)
            (ret (0, strncpy_out (cptr (u_username (us ! i))) USERNAME_MAXLEN))))"

section \<open>Status of a file\<close>

record kstat =
  st_perm :: u8
  st_type :: u8
  st_dev :: u32
  st_ino :: u32
  st_nlink :: u16
  st_size :: u32
  st_owner :: u32
  st_owner_name :: bytes

text \<open>\<open>old\<close> is the contents of \<open>st->owner_name\<close> before the call.\<close>

definition stati :: "nat \<Rightarrow> bytes \<Rightarrow> ('m kuser_scheme, kstat) km" where
  "stati ip old =
     bnd (getk (\<lambda>s. ino s ip)) (\<lambda>I.
     bnd (get_username_with_uid (i_owner I)) (\<lambda>(r, name).
     ret \<lparr>st_perm = i_perm I, st_type = i_type I, st_dev = i_dev I, st_ino = i_inum I,
          st_nlink = i_nlink I, st_size = i_size I, st_owner = i_owner I,
          st_owner_name = (if r \<noteq> 0 then old[0 := 0] else name)\<rparr>))"

end
