(* ===== verification/Vm.thy ===== *)
theory Vm
  imports Users
begin

text \<open>
  Virtual memory (\<open>vm.c\<close>): page directories and page tables live in the memory of theory \<open>Kalloc\<close>
  and are read and written there word by word, at the kernel virtual addresses the direct
  map \<open>P2V\<close> gives them. \<open>kdata\<close> is the address the linker gives to \<open>data\<close>, \<open>cr3\<close> the
  register that \<open>lcr3\<close> loads and \<open>ts_esp0\<close> the field of the task state segment; the segment
  descriptors, which no other code reads, have no counterpart.

  A loop over the pages of a range has as its first argument the number of its iterations,
  computed from the bounds of the range before the loop.
  \<open>translate\<close> is what the paging hardware does with an address; \<open>uload\<close> and \<open>ustore\<close> are the
  kernel's own accesses to the current user address space through it, which fault, and so panic
  in \<open>trap\<close>, at an address that is not mapped.
\<close>

section \<open>Page table entries (\<open>mmu.h\<close>)\<close>

definition NPDENTRIES :: nat where "NPDENTRIES = 1024"
definition PTE_P :: u32 where "PTE_P = 1"
definition PTE_W :: u32 where "PTE_W = 2"
definition PTE_U :: u32 where "PTE_U = 4"
definition PDX :: "u32 \<Rightarrow> u32" where "PDX va = drop_bit 22 va AND 0x3FF"
definition PTX :: "u32 \<Rightarrow> u32" where "PTX va = drop_bit 12 va AND 0x3FF"
definition PGADDR :: "u32 \<Rightarrow> u32 \<Rightarrow> u32 \<Rightarrow> u32" where
  "PGADDR d t x = (push_bit 22 d OR push_bit 12 t OR x)"
definition PTE_ADDR :: "u32 \<Rightarrow> u32" where "PTE_ADDR pte = pte AND NOT 0xFFF"
definition PTE_FLAGS :: "u32 \<Rightarrow> u32" where "PTE_FLAGS pte = pte AND 0xFFF"
definition KSTACKSIZE :: nat where "KSTACKSIZE = 4096"

text \<open>The addresses \<open>&pgdir[PDX(va)]\<close> and \<open>&pgtab[PTX(va)]\<close>.\<close>

definition pde_at :: "u32 \<Rightarrow> u32 \<Rightarrow> u32" where "pde_at pgdir va = pgdir + 4 * PDX va"
definition pte_at :: "u32 \<Rightarrow> u32 \<Rightarrow> u32" where "pte_at pgtab va = pgtab + 4 * PTX va"

record kvm = kuser +
  kdata :: u32
  kpgdir :: u32
  cr3 :: u32
  ts_esp0 :: u32

definition get32 :: "u32 \<Rightarrow> ('m kmem_scheme, u32) km" where
  "get32 a = getk (\<lambda>s. load32 (mem s) a)"

definition put32 :: "u32 \<Rightarrow> u32 \<Rightarrow> ('m kmem_scheme, unit) km" where
  "put32 a w = modk (\<lambda>s. s\<lparr>mem := store32 (mem s) a w\<rparr>)"

definition zero_page :: "u32 \<Rightarrow> ('m kmem_scheme, unit) km" where
  "zero_page a = modk (\<lambda>s. s\<lparr>mem := memset (mem s) (unat a) 0 PGSIZE\<rparr>)"

definition store_bytes :: "memory \<Rightarrow> nat \<Rightarrow> bytes \<Rightarrow> memory" where
  "store_bytes m a bs = (\<lambda>x. if a \<le> x \<and> x < a + length bs then bs ! (x - a) else m x)"

definition put_bytes :: "u32 \<Rightarrow> bytes \<Rightarrow> ('m kmem_scheme, unit) km" where
  "put_bytes a bs = modk (\<lambda>s. s\<lparr>mem := store_bytes (mem s) (unat a) bs\<rparr>)"

section \<open>Walking and extending a page table\<close>

definition walkpgdir :: "u32 \<Rightarrow> u32 \<Rightarrow> bool \<Rightarrow> ('m kmem_scheme, u32) km" where
  "walkpgdir pgdir va alloc =
     bnd (get32 (pde_at pgdir va)) (\<lambda>pde.
       if pde AND PTE_P \<noteq> 0 then ret (pte_at (P2V (PTE_ADDR pde)) va)
       else if \<not> alloc then ret 0
       else bnd kalloc (\<lambda>pgtab.
         if pgtab = 0 then ret 0
         else
           sq (zero_page pgtab)
          (sq (put32 (pde_at pgdir va) (V2P pgtab OR PTE_P OR PTE_W OR PTE_U))
              (ret (pte_at pgtab va)))))"

primrec mappages_loop :: "nat \<Rightarrow> u32 \<Rightarrow> u32 \<Rightarrow> u32 \<Rightarrow> u32 \<Rightarrow> ('m kmem_scheme, int) km" where
  "mappages_loop 0 pgdir a pa perm = ret 0"
| "mappages_loop (Suc n) pgdir a pa perm =
     bnd (walkpgdir pgdir a True) (\<lambda>pte.
       if pte = 0 then ret (-1)
       else bnd (get32 pte) (\<lambda>e.
         if e AND PTE_P \<noteq> 0 then kpanic ''remap''
         else
           sq (put32 pte (pa OR perm OR PTE_P))
              (mappages_loop n pgdir (a + of_nat PGSIZE) (pa + of_nat PGSIZE) perm)))"

definition mappages :: "u32 \<Rightarrow> u32 \<Rightarrow> u32 \<Rightarrow> u32 \<Rightarrow> u32 \<Rightarrow> ('m kmem_scheme, int) km" where
  "mappages pgdir va n pa perm =
     (let a = PGROUNDDOWN va; last = PGROUNDDOWN (va + n - 1)
      in mappages_loop (unat (last - a) div PGSIZE + 1) pgdir a pa perm)"

section \<open>Freeing\<close>

text \<open>
  Every iteration advances \<open>a\<close> by at least a page, so the number of pages between \<open>a\<close> and
  \<open>oldsz\<close> bounds the iterations. A loop that is not done by then is \<open>out_of_fuel\<close>; theory \<open>Vspace\<close> shows that this
  does not happen, and that more fuel changes nothing.
\<close>

primrec deallocuvm_loop :: "nat \<Rightarrow> u32 \<Rightarrow> u32 \<Rightarrow> u32 \<Rightarrow> ('m kmem_scheme, unit) km" where
  "deallocuvm_loop 0 pgdir oldsz a = (if \<not> a < oldsz then ret () else out_of_fuel)"
| "deallocuvm_loop (Suc n) pgdir oldsz a =
     (if \<not> a < oldsz then ret ()
      else bnd (walkpgdir pgdir a False) (\<lambda>pte.
        if pte = 0
        then deallocuvm_loop n pgdir oldsz (PGADDR (PDX a + 1) 0 0 - of_nat PGSIZE + of_nat PGSIZE)
        else bnd (get32 pte) (\<lambda>e.
          if e AND PTE_P \<noteq> 0 then
            if PTE_ADDR e = 0 then kpanic ''kfree''
            else
              sq (kfree (P2V (PTE_ADDR e)))
             (sq (put32 pte 0)
                 (deallocuvm_loop n pgdir oldsz (a + of_nat PGSIZE)))
          else deallocuvm_loop n pgdir oldsz (a + of_nat PGSIZE))))"

definition pages_between :: "u32 \<Rightarrow> u32 \<Rightarrow> nat" where
  "pages_between a b = (unat b - unat a + PGSIZE - 1) div PGSIZE"

definition deallocuvm :: "u32 \<Rightarrow> u32 \<Rightarrow> u32 \<Rightarrow> ('m kmem_scheme, u32) km" where
  "deallocuvm pgdir oldsz newsz =
     (if newsz \<ge> oldsz then ret oldsz
      else
        sq (deallocuvm_loop (pages_between (PGROUNDUP newsz) oldsz) pgdir oldsz (PGROUNDUP newsz))
           (ret newsz))"

definition free_pgtab :: "u32 \<Rightarrow> nat \<Rightarrow> ('m kmem_scheme, unit) km" where
  "free_pgtab pgdir i =
     bnd (get32 (pgdir + 4 * of_nat i)) (\<lambda>e.
       whenk (e AND PTE_P \<noteq> 0) (kfree (P2V (PTE_ADDR e))))"

definition freevm :: "u32 \<Rightarrow> ('m kmem_scheme, unit) km" where
  "freevm pgdir =
     (if pgdir = 0 then kpanic ''freevm: no pgdir''
      else
        sq (deallocuvm pgdir KERNBASE 0)
       (sq (for_each [0..<NPDENTRIES] (free_pgtab pgdir))
           (kfree pgdir)))"

section \<open>The kernel's part of an address space\<close>

record kmap_entry =
  km_virt :: u32
  km_phys_start :: u32
  km_phys_end :: u32
  km_perm :: u32

definition kmap :: "u32 \<Rightarrow> kmap_entry list" where
  "kmap data =
     [\<lparr>km_virt = KERNBASE, km_phys_start = 0, km_phys_end = EXTMEM, km_perm = PTE_W\<rparr>,
      \<lparr>km_virt = KERNLINK, km_phys_start = V2P KERNLINK, km_phys_end = V2P data, km_perm = 0\<rparr>,
      \<lparr>km_virt = data, km_phys_start = V2P data, km_phys_end = PHYSTOP, km_perm = PTE_W\<rparr>,
      \<lparr>km_virt = DEVSPACE, km_phys_start = DEVSPACE, km_phys_end = 0, km_perm = PTE_W\<rparr>]"

primrec map_kernel :: "kmap_entry list \<Rightarrow> u32 \<Rightarrow> ('m kmem_scheme, u32) km" where
  "map_kernel [] pgdir = ret pgdir"
| "map_kernel (k # ks) pgdir =
     bnd (mappages pgdir (km_virt k) (km_phys_end k - km_phys_start k) (km_phys_start k) (km_perm k))
       (\<lambda>r. if r < 0 then sq (freevm pgdir) (ret 0) else map_kernel ks pgdir)"

definition setupkvm :: "('m kvm_scheme, u32) km" where
  "setupkvm =
     bnd kalloc (\<lambda>pgdir.
       if pgdir = 0 then ret 0
       else
         sq (zero_page pgdir)
        (if P2V PHYSTOP > DEVSPACE then kpanic ''PHYSTOP too high''
         else bnd (getk kdata) (\<lambda>data. map_kernel (kmap data) pgdir)))"

definition lcr3 :: "u32 \<Rightarrow> ('m kvm_scheme, unit) km" where
  "lcr3 v = modk (\<lambda>s. s\<lparr>cr3 := v\<rparr>)"

definition switchkvm :: "('m kvm_scheme, unit) km" where
  "switchkvm = bnd (getk kpgdir) (\<lambda>d. lcr3 (V2P d))"

definition kvmalloc :: "('m kvm_scheme, unit) km" where
  "kvmalloc = sq (bnd setupkvm (\<lambda>d. modk (\<lambda>s. s\<lparr>kpgdir := d\<rparr>))) switchkvm"

definition switchuvm :: "nat option \<Rightarrow> ('m kvm_scheme, unit) km" where
  "switchuvm p =
     (case p of
        None \<Rightarrow> kpanic ''switchuvm: no process''
      | Some i \<Rightarrow>
          bnd (getk (\<lambda>s. ptab s ! i)) (\<lambda>q.
            if p_kstack q = 0 then kpanic ''switchuvm: no kstack''
            else if p_pgdir q = 0 then kpanic ''switchuvm: no pgdir''
            else
              sq (modk (\<lambda>s. s\<lparr>ts_esp0 := p_kstack q + of_nat KSTACKSIZE\<rparr>))
                 (lcr3 (V2P (p_pgdir q)))))"

section \<open>User memory\<close>

text \<open>
  \<open>inituvm\<close> does not check the result of \<open>kalloc\<close>: with a null pointer its \<open>memset\<close> faults, since the
  kernel's page table does not map page 0.
\<close>

definition inituvm :: "u32 \<Rightarrow> bytes \<Rightarrow> ('m kmem_scheme, unit) km" where
  "inituvm pgdir init =
     (if length init \<ge> PGSIZE then kpanic ''inituvm: more than a page''
      else bnd kalloc (\<lambda>m.
        if m = 0 then kpanic ''trap''
        else
          sq (zero_page m)
         (bnd (mappages pgdir 0 (of_nat PGSIZE) (V2P m) (PTE_W OR PTE_U)) (\<lambda>_.
          put_bytes m init))))"

primrec loaduvm_loop :: "nat \<Rightarrow> u32 \<Rightarrow> u32 \<Rightarrow> nat \<Rightarrow> u32 \<Rightarrow> u32 \<Rightarrow> u32 \<Rightarrow> ('m kcons_scheme, int) km" where
  "loaduvm_loop 0 pgdir addr ip off sz i = ret 0"
| "loaduvm_loop (Suc k) pgdir addr ip off sz i =
     bnd (walkpgdir pgdir (addr + i) False) (\<lambda>pte.
       if pte = 0 then kpanic ''loaduvm: address should exist''
       else bnd (get32 pte) (\<lambda>e.
         let n = (if sz - i < of_nat PGSIZE then sz - i else of_nat PGSIZE)
         in bnd (readi ip (off + i) n) (\<lambda>(r, bs).
              sq (put_bytes (P2V (PTE_ADDR e)) bs)
                 (if r \<noteq> uint n then ret (-1)
                  else loaduvm_loop k pgdir addr ip off sz (i + of_nat PGSIZE)))))"

definition loaduvm :: "u32 \<Rightarrow> u32 \<Rightarrow> nat \<Rightarrow> u32 \<Rightarrow> u32 \<Rightarrow> ('m kcons_scheme, int) km" where
  "loaduvm pgdir addr ip off sz =
     (if unat addr mod PGSIZE \<noteq> 0 then kpanic ''loaduvm: addr must be page aligned''
      else loaduvm_loop (pages_between 0 sz) pgdir addr ip off sz 0)"

primrec allocuvm_loop :: "nat \<Rightarrow> u32 \<Rightarrow> u32 \<Rightarrow> u32 \<Rightarrow> u32 \<Rightarrow> ('m kcons_scheme, u32) km" where
  "allocuvm_loop 0 pgdir oldsz newsz a = ret newsz"
| "allocuvm_loop (Suc n) pgdir oldsz newsz a =
     bnd kalloc (\<lambda>m.
       if m = 0 then
         sq (cprintf (map of_char ''allocuvm out of memory'' @ [10]) [])
        (sq (deallocuvm pgdir newsz oldsz)
            (ret 0))
       else
         sq (zero_page m)
        (bnd (mappages pgdir a (of_nat PGSIZE) (V2P m) (PTE_W OR PTE_U)) (\<lambda>r.
           if r < 0 then
             sq (cprintf (map of_char ''allocuvm out of memory (2)'' @ [10]) [])
            (sq (deallocuvm pgdir newsz oldsz)
            (sq (kfree m)
                (ret 0)))
           else allocuvm_loop n pgdir oldsz newsz (a + of_nat PGSIZE))))"

definition allocuvm :: "u32 \<Rightarrow> u32 \<Rightarrow> u32 \<Rightarrow> ('m kcons_scheme, u32) km" where
  "allocuvm pgdir oldsz newsz =
     (if newsz \<ge> KERNBASE then ret 0
      else if newsz < oldsz then ret oldsz
      else let a = PGROUNDUP oldsz in allocuvm_loop (pages_between a newsz) pgdir oldsz newsz a)"

definition clearpteu :: "u32 \<Rightarrow> u32 \<Rightarrow> ('m kmem_scheme, unit) km" where
  "clearpteu pgdir uva =
     bnd (walkpgdir pgdir uva False) (\<lambda>pte.
       if pte = 0 then kpanic ''clearpteu''
       else bnd (get32 pte) (\<lambda>e. put32 pte (e AND NOT PTE_U)))"

primrec copyuvm_loop :: "nat \<Rightarrow> u32 \<Rightarrow> u32 \<Rightarrow> u32 \<Rightarrow> ('m kmem_scheme, u32) km" where
  "copyuvm_loop 0 pgdir d i = ret d"
| "copyuvm_loop (Suc n) pgdir d i =
     bnd (walkpgdir pgdir i False) (\<lambda>pte.
       if pte = 0 then kpanic ''copyuvm: pte should exist''
       else bnd (get32 pte) (\<lambda>e.
         if e AND PTE_P = 0 then kpanic ''copyuvm: page not present''
         else bnd kalloc (\<lambda>m.
           if m = 0 then sq (freevm d) (ret 0)
           else
             sq (modk (\<lambda>s. s\<lparr>mem := memmove (mem s) (unat m) (unat (P2V (PTE_ADDR e))) PGSIZE\<rparr>))
            (bnd (mappages d i (of_nat PGSIZE) (V2P m) (PTE_FLAGS e)) (\<lambda>r.
               if r < 0 then sq (kfree m) (sq (freevm d) (ret 0))
               else copyuvm_loop n pgdir d (i + of_nat PGSIZE))))))"

definition copyuvm :: "u32 \<Rightarrow> u32 \<Rightarrow> ('m kvm_scheme, u32) km" where
  "copyuvm pgdir sz =
     bnd setupkvm (\<lambda>d. if d = 0 then ret 0 else copyuvm_loop (pages_between 0 sz) pgdir d 0)"

text \<open>
  \<open>uva2ka\<close> reads \<open>*pte\<close> without a test for a null \<open>pte\<close>, which \<open>walkpgdir\<close> returns for an
  address without a page table.
\<close>

definition uva2ka :: "u32 \<Rightarrow> u32 \<Rightarrow> ('m kmem_scheme, u32) km" where
  "uva2ka pgdir uva =
     bnd (walkpgdir pgdir uva False) (\<lambda>pte.
       if pte = 0 then undefined_behaviour
       else bnd (get32 pte) (\<lambda>e.
         ret (if e AND PTE_P = 0 then 0
              else if e AND PTE_U = 0 then 0
              else P2V (PTE_ADDR e))))"

function copyout_loop :: "u32 \<Rightarrow> u32 \<Rightarrow> bytes \<Rightarrow> ('m kmem_scheme, int) km" where
  "copyout_loop pgdir va bs =
     (if bs = [] then ret 0
      else
        let va0 = PGROUNDDOWN va; n = min (PGSIZE - unat (va - va0)) (length bs)
        in bnd (uva2ka pgdir va0) (\<lambda>pa0.
             if pa0 = 0 then ret (-1)
             else
               sq (put_bytes (pa0 + (va - va0)) (take n bs))
                  (copyout_loop pgdir (va0 + of_nat PGSIZE) (drop n bs))))"
  by pat_completeness auto

lemma PGROUNDDOWN_mask: "PGROUNDDOWN a = a AND NOT (mask 12)"
  by (simp add: PGROUNDDOWN_def PGSIZE_def mask_eq_exp_minus_1)

lemma page_split: "PGROUNDDOWN va + take_bit 12 va = va"
proof -
  have "PGROUNDDOWN va OR take_bit 12 va = va"
    by (rule bit_eqI) (auto simp: PGROUNDDOWN_mask bit_simps)
  moreover have "PGROUNDDOWN va + take_bit 12 va = PGROUNDDOWN va OR take_bit 12 va"
    by (rule disjunctive_add) (simp add: PGROUNDDOWN_mask bit_simps)
  ultimately show ?thesis by simp
qed

lemma page_offset: "va - PGROUNDDOWN va = take_bit 12 va"
  by (metis page_split add_diff_cancel_left')

lemma unat_page_offset: "unat (va - PGROUNDDOWN va) = unat va mod PGSIZE"
  by (simp add: page_offset take_bit_eq_mod PGSIZE_def unat_mod)

lemma page_offset_less: "unat (va - PGROUNDDOWN va) < PGSIZE"
  by (simp add: unat_page_offset) (simp add: PGSIZE_def)

termination copyout_loop
  using page_offset_less by (relation "measure (\<lambda>(_, _, bs). length bs)") (auto simp: PGSIZE_def)

declare copyout_loop.simps [simp del]

definition copyout :: "u32 \<Rightarrow> u32 \<Rightarrow> bytes \<Rightarrow> ('m kmem_scheme, int) km" where
  "copyout pgdir va bs = copyout_loop pgdir va bs"

section \<open>The kernel's accesses to user memory\<close>

definition translate :: "memory \<Rightarrow> u32 \<Rightarrow> u32 \<Rightarrow> u32 option" where
  "translate m pgdir va =
     (let pde = load32 m (pde_at pgdir va)
      in if pde AND PTE_P = 0 then None
         else let pte = load32 m (pte_at (P2V (PTE_ADDR pde)) va)
              in if pte AND PTE_P = 0 then None
                 else Some (P2V (PTE_ADDR pte) + (va AND 0xFFF)))"

definition uload8 :: "u32 \<Rightarrow> ('m kvm_scheme, u8) km" where
  "uload8 va s =
     (case translate (mem s) (P2V (cr3 s)) va of
        None \<Rightarrow> Panic ''trap''
      | Some a \<Rightarrow> Ok (mem s (unat a)) s)"

definition ustore8 :: "u32 \<Rightarrow> u8 \<Rightarrow> ('m kvm_scheme, unit) km" where
  "ustore8 va b s =
     (case translate (mem s) (P2V (cr3 s)) va of
        None \<Rightarrow> Panic ''trap''
      | Some a \<Rightarrow> Ok () (s\<lparr>mem := (mem s)(unat a := b)\<rparr>))"

primrec uload :: "nat \<Rightarrow> u32 \<Rightarrow> ('m kvm_scheme, bytes) km" where
  "uload 0 va = ret []"
| "uload (Suc n) va = bnd (uload8 va) (\<lambda>b. bnd (uload n (va + 1)) (\<lambda>bs. ret (b # bs)))"

fun ustore :: "u32 \<Rightarrow> bytes \<Rightarrow> ('m kvm_scheme, unit) km" where
  "ustore va [] = ret ()"
| "ustore va (b # bs) = sq (ustore8 va b) (ustore (va + 1) bs)"

end
