(* ===== verification/Files.thy ===== *)
theory Files
  imports Vm
begin

text \<open>
  Open files and pipes (\<open>file.c\<close>, \<open>pipe.c\<close>). An open file is an index into the table
  \<open>ftable\<close>; a pipe is the address of the page \<open>kalloc\<close> gave it, and \<open>pipes\<close> is the
  structure in that page. \<open>addr\<close> is a user address: the bytes of a transfer are read and
  written through the current page table.

  Theory \<open>Pipes\<close> shows that the ring buffer with its wrapping counters is a queue of at most
  \<open>PIPESIZE\<close> bytes.
\<close>

section \<open>State\<close>

definition PIPESIZE :: nat where "PIPESIZE = 512"

datatype filetype = FD_NONE | FD_PIPE | FD_INODE

record ofile =
  f_type :: filetype
  f_ref :: int
  f_readable :: bool
  f_writable :: bool
  f_pipe :: u32
  f_ip :: nat
  f_off :: u32

record pipe =
  pi_data :: bytes
  pi_nread :: u32
  pi_nwrite :: u32
  pi_readopen :: bool
  pi_writeopen :: bool

record kfile = kvm +
  ftable :: "ofile list"
  pipes :: "u32 \<Rightarrow> pipe"

definition upd_file :: "nat \<Rightarrow> (ofile \<Rightarrow> ofile) \<Rightarrow> 'm kfile_scheme \<Rightarrow> 'm kfile_scheme" where
  "upd_file f h s = s\<lparr>ftable := (ftable s)[f := h (ftable s ! f)]\<rparr>"

definition upd_pipe :: "u32 \<Rightarrow> (pipe \<Rightarrow> pipe) \<Rightarrow> 'm kfile_scheme \<Rightarrow> 'm kfile_scheme" where
  "upd_pipe p h s = s\<lparr>pipes := (pipes s)(p := h (pipes s p))\<rparr>"

section \<open>The file table\<close>

definition filealloc :: "('m kfile_scheme, nat option) km" where
  "filealloc =
     sq (acquire LK_ftable)
    (bnd (getk (\<lambda>s. find_idx (\<lambda>f. f_ref f = 0) (ftable s))) (\<lambda>r.
     case r of
       Some f \<Rightarrow>
         sq (modk (upd_file f (\<lambda>x. x\<lparr>f_ref := 1\<rparr>)))
        (sq (release LK_ftable) (ret (Some f)))
     | None \<Rightarrow> sq (release LK_ftable) (ret None)))"

definition filedup :: "nat \<Rightarrow> ('m kfile_scheme, nat) km" where
  "filedup f =
     sq (acquire LK_ftable)
    (bnd (getk (\<lambda>s. f_ref (ftable s ! f))) (\<lambda>r.
     if r < 1 then kpanic ''filedup''
     else
       sq (modk (upd_file f (\<lambda>x. x\<lparr>f_ref := f_ref x + 1\<rparr>)))
      (sq (release LK_ftable) (ret f))))"

definition pipeclose :: "u32 \<Rightarrow> bool \<Rightarrow> ('m kfile_scheme, unit) km" where
  "pipeclose p writable =
     sq (acquire (LK_pipe p))
    (sq (if writable
         then sq (modk (upd_pipe p (\<lambda>x. x\<lparr>pi_writeopen := False\<rparr>))) (wakeup (CH_pipe_nread p))
         else sq (modk (upd_pipe p (\<lambda>x. x\<lparr>pi_readopen := False\<rparr>))) (wakeup (CH_pipe_nwrite p)))
    (bnd (getk (\<lambda>s. pipes s p)) (\<lambda>x.
     if \<not> pi_readopen x \<and> \<not> pi_writeopen x
     then sq (release (LK_pipe p)) (kfree p)
     else release (LK_pipe p))))"

definition fileclose :: "nat \<Rightarrow> ('m kfile_scheme, unit) km" where
  "fileclose f =
     sq (acquire LK_ftable)
    (bnd (getk (\<lambda>s. ftable s ! f)) (\<lambda>x.
     if f_ref x < 1 then kpanic ''fileclose''
     else if f_ref x - 1 > 0 then
       sq (modk (upd_file f (\<lambda>x. x\<lparr>f_ref := f_ref x - 1\<rparr>)))
          (release LK_ftable)
     else
       sq (modk (upd_file f (\<lambda>x. x\<lparr>f_ref := 0, f_type := FD_NONE\<rparr>)))
      (sq (release LK_ftable)
          (case f_type x of
             FD_PIPE \<Rightarrow> pipeclose (f_pipe x) (f_writable x)
           | FD_INODE \<Rightarrow> sq begin_op (sq (iput (f_ip x)) end_op)
           | FD_NONE \<Rightarrow> ret ()))))"

section \<open>Pipes\<close>

definition pipealloc_bad :: "nat option \<Rightarrow> nat option \<Rightarrow> ('m kfile_scheme, (nat \<times> nat) option) km" where
  "pipealloc_bad f0 f1 =
     sq (case f0 of None \<Rightarrow> ret () | Some f \<Rightarrow> fileclose f)
    (sq (case f1 of None \<Rightarrow> ret () | Some f \<Rightarrow> fileclose f)
        (ret None))"

definition pipealloc :: "('m kfile_scheme, (nat \<times> nat) option) km" where
  "pipealloc =
     bnd filealloc (\<lambda>f0. case f0 of None \<Rightarrow> pipealloc_bad None None | Some f \<Rightarrow>
     bnd filealloc (\<lambda>f1. case f1 of None \<Rightarrow> pipealloc_bad f0 None | Some g \<Rightarrow>
     bnd kalloc (\<lambda>p.
       if p = 0 then pipealloc_bad f0 f1
       else
         sq (modk (upd_pipe p (\<lambda>x. x\<lparr>pi_readopen := True, pi_writeopen := True,
                                     pi_nwrite := 0, pi_nread := 0\<rparr>)))
        (sq (modk (upd_file f (\<lambda>x. x\<lparr>f_type := FD_PIPE, f_readable := True,
                                      f_writable := False, f_pipe := p\<rparr>)))
        (sq (modk (upd_file g (\<lambda>x. x\<lparr>f_type := FD_PIPE, f_readable := False,
                                      f_writable := True, f_pipe := p\<rparr>)))
            (ret (Some (f, g))))))))"

definition pipe_full :: "pipe \<Rightarrow> bool" where
  "pipe_full x \<longleftrightarrow> pi_nwrite x = pi_nread x + of_nat PIPESIZE"

definition pipe_empty :: "pipe \<Rightarrow> bool" where
  "pipe_empty x \<longleftrightarrow> pi_nread x = pi_nwrite x"

definition pipe_push :: "u8 \<Rightarrow> pipe \<Rightarrow> pipe" where
  "pipe_push b x =
     x\<lparr>pi_data := (pi_data x)[unat (pi_nwrite x) mod PIPESIZE := b], pi_nwrite := pi_nwrite x + 1\<rparr>"

definition pipe_head :: "pipe \<Rightarrow> u8" where
  "pipe_head x = pi_data x ! (unat (pi_nread x) mod PIPESIZE)"

definition pipe_pop :: "pipe \<Rightarrow> pipe" where
  "pipe_pop x = x\<lparr>pi_nread := pi_nread x + 1\<rparr>"

primrec pipewrite_loop :: "nat \<Rightarrow> u32 \<Rightarrow> u32 \<Rightarrow> int \<Rightarrow> ('m kfile_scheme, int) km" where
  "pipewrite_loop 0 p addr n =
     sq (wakeup (CH_pipe_nread p)) (sq (release (LK_pipe p)) (ret n))"
| "pipewrite_loop (Suc k) p addr n =
     bnd (getk (\<lambda>s. pipes s p)) (\<lambda>x.
       if pipe_full x then
         bnd curproc (\<lambda>c.
           if \<not> pi_readopen x \<or> p_killed c then sq (release (LK_pipe p)) (ret (-1))
           else sq (wakeup (CH_pipe_nread p)) (sleep (CH_pipe_nwrite p) (LK_pipe p)))
       else
         bnd (uload8 addr) (\<lambda>b.
         sq (modk (upd_pipe p (pipe_push b)))
            (pipewrite_loop k p (addr + 1) n)))"

definition pipewrite :: "u32 \<Rightarrow> u32 \<Rightarrow> int \<Rightarrow> ('m kfile_scheme, int) km" where
  "pipewrite p addr n = sq (acquire (LK_pipe p)) (pipewrite_loop (nat n) p addr n)"

primrec piperead_loop :: "nat \<Rightarrow> u32 \<Rightarrow> u32 \<Rightarrow> int \<Rightarrow> ('m kfile_scheme, int) km" where
  "piperead_loop 0 p addr i = ret i"
| "piperead_loop (Suc k) p addr i =
     bnd (getk (\<lambda>s. pipes s p)) (\<lambda>x.
       if pipe_empty x then ret i
       else
         sq (modk (upd_pipe p pipe_pop))
        (sq (ustore8 addr (pipe_head x))
            (piperead_loop k p (addr + 1) (i + 1))))"

definition piperead :: "u32 \<Rightarrow> u32 \<Rightarrow> int \<Rightarrow> ('m kfile_scheme, int) km" where
  "piperead p addr n =
     sq (acquire (LK_pipe p))
    (bnd (getk (\<lambda>s. pipes s p)) (\<lambda>x.
     if pipe_empty x \<and> pi_writeopen x then
       bnd curproc (\<lambda>c.
         if p_killed c then sq (release (LK_pipe p)) (ret (-1))
         else sleep (CH_pipe_nread p) (LK_pipe p))
     else
       bnd (piperead_loop (nat n) p addr 0) (\<lambda>i.
       sq (wakeup (CH_pipe_nwrite p))
      (sq (release (LK_pipe p)) (ret i)))))"

section \<open>Operations on open files\<close>

text \<open>
  The fields of \<open>struct stat\<close> at their offsets; the padding bytes are left alone.
\<close>

definition put_stat :: "u32 \<Rightarrow> kstat \<Rightarrow> ('m kvm_scheme, unit) km" where
  "put_stat st k =
     sq (ustore st [st_perm k, st_type k])
    (sq (ustore (st + 4) (enc32 (st_dev k) @ enc32 (st_ino k) @ enc16 (st_nlink k)))
        (ustore (st + 16) (enc32 (st_size k) @ enc32 (st_owner k) @ st_owner_name k)))"

definition STAT_SIZE :: nat where "STAT_SIZE = 40"

definition filestat :: "nat \<Rightarrow> u32 \<Rightarrow> ('m kfile_scheme, int) km" where
  "filestat f st =
     bnd (getk (\<lambda>s. ftable s ! f)) (\<lambda>x.
     if f_type x = FD_INODE then
       sq (ilock (f_ip x))
      (bnd (uload 16 (st + 24)) (\<lambda>old.
       bnd (stati (f_ip x) old) (\<lambda>k.
       sq (put_stat st k)
      (sq (iunlock (f_ip x))
          (ret 0)))))
     else ret (-1))"

definition fileread :: "nat \<Rightarrow> u32 \<Rightarrow> int \<Rightarrow> ('m kfile_scheme, int) km" where
  "fileread f addr n =
     bnd (getk (\<lambda>s. ftable s ! f)) (\<lambda>x.
     if \<not> f_readable x then ret (-1)
     else case f_type x of
       FD_PIPE \<Rightarrow> piperead (f_pipe x) addr n
     | FD_INODE \<Rightarrow>
         sq (ilock (f_ip x))
        (bnd (readi (f_ip x) (f_off x) (word_of_int n)) (\<lambda>(r, bs).
         sq (ustore addr bs)
        (sq (whenk (r > 0) (modk (upd_file f (\<lambda>y. y\<lparr>f_off := f_off y + word_of_int r\<rparr>))))
        (sq (iunlock (f_ip x))
            (ret r)))))
     | FD_NONE \<Rightarrow> kpanic ''fileread'')"

definition filewrite_max :: nat where
  "filewrite_max = ((MAXOPBLOCKS - 1 - 1 - 2) div 2) * 512"

text \<open>
  The loop of \<open>filewrite\<close> with \<open>k\<close> bytes left, of which each pass writes at least one; its result says
  whether all of them were written. The offset is read again in each pass.
\<close>

function filewrite_loop :: "nat \<Rightarrow> nat \<Rightarrow> u32 \<Rightarrow> ('m kfile_scheme, bool) km" where
  "filewrite_loop k f addr =
     (if k = 0 then ret True
      else
        let n1 = min k filewrite_max
        in bnd (getk (\<lambda>s. f_ip (ftable s ! f))) (\<lambda>ip.
           sq begin_op
          (sq (ilock ip)
          (bnd (uload n1 addr) (\<lambda>src.
           bnd (getk (\<lambda>s. f_off (ftable s ! f))) (\<lambda>off.
           bnd (writei ip src off) (\<lambda>r.
           sq (whenk (r > 0) (modk (upd_file f (\<lambda>y. y\<lparr>f_off := f_off y + word_of_int r\<rparr>))))
          (sq (iunlock ip)
          (sq end_op
          (if r < 0 then ret False
           else if r \<noteq> int n1 then kpanic ''short filewrite''
           else filewrite_loop (k - n1) f (addr + of_nat n1)))))))))))"
  by pat_completeness auto
termination
  by (relation "measure fst") (auto simp: filewrite_max_def MAXOPBLOCKS_def)

declare filewrite_loop.simps [simp del]

definition filewrite :: "nat \<Rightarrow> u32 \<Rightarrow> int \<Rightarrow> ('m kfile_scheme, int) km" where
  "filewrite f addr n =
     bnd (getk (\<lambda>s. ftable s ! f)) (\<lambda>x.
     if \<not> f_writable x then ret (-1)
     else case f_type x of
       FD_PIPE \<Rightarrow> pipewrite (f_pipe x) addr n
     | FD_INODE \<Rightarrow> bnd (filewrite_loop (nat n) f addr) (\<lambda>ok. ret (if ok then n else -1))
     | FD_NONE \<Rightarrow> kpanic ''filewrite'')"

end
