(* ===== verification/Proc.thy ===== *)
theory Proc
  imports Files
begin

text \<open>
  Processes (\<open>proc.c\<close>): creation, growth, \<open>fork\<close>, \<open>exit\<close>, \<open>wait\<close>, \<open>kill\<close>, the
  scheduler and the process listing. \<open>sched\<close>, \<open>yield\<close>, \<open>sleep\<close> and \<open>wakeup\<close> are in theory
  \<open>Kstate\<close>.

  A process is an index into the table. The trap frame and the saved context, which the code keeps
  at the top of the kernel stack, are the fields \<open>p_tf\<close> and \<open>p_context\<close>; the trap frame of a
  new process keeps its old contents until it is assigned. \<open>sym_forkret\<close>, \<open>sym_trapret\<close>
  and \<open>sym_initcode\<close> stand for the addresses and the bytes the linker provides, \<open>this_cpu\<close> for
  the number of this CPU, \<open>cr2\<close> for the fault address register.

  \<open>scheduler run\<close> is one round of the endless loop of \<open>scheduler\<close>; what a process does between the two context switches is
  its argument \<open>run\<close>.
\<close>

definition SEG_UCODE :: nat where "SEG_UCODE = 3"
definition SEG_UDATA :: nat where "SEG_UDATA = 4"
definition DPL_USER :: u16 where "DPL_USER = 3"
definition FL_IF :: u32 where "FL_IF = 0x200"
definition TRAPFRAME_SIZE :: nat where "TRAPFRAME_SIZE = 76"

record kproc = kfile +
  sym_forkret :: u32
  sym_trapret :: u32
  sym_initcode :: bytes
  forkret_first :: bool
  ticks :: u32
  this_cpu :: nat
  cr2 :: u32

definition nproc :: "nat \<Rightarrow> 'm kbase_scheme \<Rightarrow> proc" where
  "nproc i s = ptab s ! i"

section \<open>Creating processes\<close>

definition allocproc :: "('m kproc_scheme, nat option) km" where
  "allocproc =
     sq (acquire LK_ptable)
    (bnd (getk (\<lambda>s. find_idx (\<lambda>p. p_state p = UNUSED) (ptab s))) (\<lambda>r.
     case r of
       None \<Rightarrow> sq (release LK_ptable) (ret None)
     | Some i \<Rightarrow>
         bnd (getk nextpid) (\<lambda>pid.
         sq (modk (upd_proc i (\<lambda>p. p\<lparr>p_state := EMBRYO, p_pid := pid\<rparr>)))
        (sq (modk (\<lambda>s. s\<lparr>nextpid := pid + 1\<rparr>))
        (sq (release LK_ptable)
        (bnd kalloc (\<lambda>k.
         sq (modk (upd_proc i (\<lambda>p. p\<lparr>p_kstack := k\<rparr>)))
        (if k = 0 then
           sq (modk (upd_proc i (\<lambda>p. p\<lparr>p_state := UNUSED\<rparr>))) (ret None)
         else
           let sp = k + of_nat KSTACKSIZE - of_nat TRAPFRAME_SIZE - 4
           in bnd (getk (\<lambda>s. (sym_trapret s, sym_forkret s))) (\<lambda>(tr, fr).
              sq (put32 sp tr)
             (sq (modk (upd_proc i (\<lambda>p. p\<lparr>p_context := zero_context\<lparr>cx_eip := fr\<rparr>\<rparr>)))
                 (ret (Some i))))))))))))"

definition str_initcode :: bytes where
  "str_initcode = [105, 110, 105, 116, 99, 111, 100, 101]"

definition user_tf :: trapframe where
  "user_tf =
     zero_trapframe\<lparr>tf_cs := of_nat (SEG_UCODE * 8) OR DPL_USER,
                     tf_ds := of_nat (SEG_UDATA * 8) OR DPL_USER,
                     tf_es := of_nat (SEG_UDATA * 8) OR DPL_USER,
                     tf_ss := of_nat (SEG_UDATA * 8) OR DPL_USER,
                     tf_eflags := FL_IF, tf_esp := of_nat PGSIZE, tf_eip := 0\<rparr>"

definition userinit :: "('m kproc_scheme, unit) km" where
  "userinit =
     bnd allocproc (\<lambda>p.
     sq (modk (\<lambda>s. s\<lparr>initproc := p\<rparr>))
    (case p of
       None \<Rightarrow> kpanic ''trap''
     | Some i \<Rightarrow>
         bnd setupkvm (\<lambda>d.
         sq (modk (upd_proc i (\<lambda>p. p\<lparr>p_pgdir := d\<rparr>)))
        (if d = 0 then kpanic ''userinit: out of memory?''
         else
           bnd (getk sym_initcode) (\<lambda>code.
           sq (inituvm d code)
          (sq (modk (upd_proc i (\<lambda>p. p\<lparr>p_sz := of_nat PGSIZE, p_tf := user_tf, p_uid := ROOT_UID,
                 p_name := safestrcpy (p_name p) (cptr str_initcode) 16\<rparr>)))
          (bnd (namei [SLASH]) (\<lambda>ip.
           sq (modk (upd_proc i (\<lambda>p. p\<lparr>p_cwd := ip\<rparr>)))
          (sq (acquire LK_ptable)
          (sq (modk (upd_proc i (\<lambda>p. p\<lparr>p_state := RUNNABLE\<rparr>)))
              (release LK_ptable)))))))))))"

definition growproc :: "int \<Rightarrow> ('m kproc_scheme, int) km" where
  "growproc n =
     bnd curproc (\<lambda>p.
     bnd (if n > 0 then allocuvm (p_pgdir p) (p_sz p) (p_sz p + word_of_int n)
          else if n < 0 then deallocuvm (p_pgdir p) (p_sz p) (p_sz p + word_of_int n)
          else ret (p_sz p)) (\<lambda>sz.
       if n \<noteq> 0 \<and> sz = 0 then ret (-1)
       else
         sq (upd_curproc (\<lambda>p. p\<lparr>p_sz := sz\<rparr>))
        (bnd myproc (\<lambda>i.
         sq (switchuvm i)
            (ret 0)))))"

definition change_user :: "u32 \<Rightarrow> ('m kproc_scheme, unit) km" where
  "change_user uid = upd_curproc (\<lambda>p. p\<lparr>p_uid := uid\<rparr>)"

definition fork_file :: "nat \<Rightarrow> nat \<Rightarrow> nat \<Rightarrow> ('m kproc_scheme, unit) km" where
  "fork_file c np fd =
     bnd (getk (\<lambda>s. p_ofile (ptab s ! c) ! fd)) (\<lambda>x.
     case x of
       None \<Rightarrow> ret ()
     | Some f \<Rightarrow>
         bnd (filedup f) (\<lambda>g.
         modk (upd_proc np (\<lambda>p. p\<lparr>p_ofile := (p_ofile p)[fd := Some g]\<rparr>))))"

definition fork :: "('m kproc_scheme, int) km" where
  "fork =
     bnd myproc (\<lambda>me.
     bnd allocproc (\<lambda>r.
     case (me, r) of
       (_, None) \<Rightarrow> ret (-1)
     | (None, Some np) \<Rightarrow> kpanic ''trap''
     | (Some c, Some np) \<Rightarrow>
         bnd (getk (\<lambda>s. ptab s ! c)) (\<lambda>cp.
         bnd (copyuvm (p_pgdir cp) (p_sz cp)) (\<lambda>d.
         sq (modk (upd_proc np (\<lambda>p. p\<lparr>p_pgdir := d\<rparr>)))
        (if d = 0 then
           bnd (getk (\<lambda>s. p_kstack (ptab s ! np))) (\<lambda>k.
           sq (kfree k)
          (sq (modk (upd_proc np (\<lambda>p. p\<lparr>p_kstack := 0, p_state := UNUSED\<rparr>)))
              (ret (-1))))
         else
           sq (modk (upd_proc np (\<lambda>p. p\<lparr>p_uid := p_uid cp, p_sz := p_sz cp, p_parent := Some c,
                                         p_tf := (p_tf cp)\<lparr>tf_eax := 0\<rparr>\<rparr>)))
          (sq (for_each [0..<NOFILE] (fork_file c np))
          (bnd (case p_cwd cp of None \<Rightarrow> kpanic ''trap'' | Some ip \<Rightarrow> idup ip) (\<lambda>ip.
           sq (modk (upd_proc np (\<lambda>p. p\<lparr>p_cwd := Some ip,
                  p_name := safestrcpy (p_name p) (cptr (p_name cp)) 16\<rparr>)))
          (bnd (getk (\<lambda>s. p_pid (ptab s ! np))) (\<lambda>pid.
           sq (acquire LK_ptable)
          (sq (modk (upd_proc np (\<lambda>p. p\<lparr>p_state := RUNNABLE\<rparr>)))
          (sq (release LK_ptable)
              (ret pid)))))))))))))"

section \<open>Exit, wait and kill\<close>

definition close_fd :: "nat \<Rightarrow> ('m kproc_scheme, unit) km" where
  "close_fd fd =
     bnd curproc (\<lambda>p.
     case p_ofile p ! fd of
       None \<Rightarrow> ret ()
     | Some f \<Rightarrow>
         sq (fileclose f)
            (upd_curproc (\<lambda>p. p\<lparr>p_ofile := (p_ofile p)[fd := None]\<rparr>)))"

definition wakeup1_proc :: "nat option \<Rightarrow> 'm kbase_scheme \<Rightarrow> 'm kbase_scheme" where
  "wakeup1_proc p s = (case p of None \<Rightarrow> s | Some i \<Rightarrow> wakeup1 (CH_proc i) s)"

definition reparent :: "nat \<Rightarrow> nat \<Rightarrow> 'm kbase_scheme \<Rightarrow> 'm kbase_scheme" where
  "reparent c i s =
     (if p_parent (ptab s ! i) = Some c
      then let s' = upd_proc i (\<lambda>p. p\<lparr>p_parent := initproc s\<rparr>) s
           in if p_state (ptab s ! i) = ZOMBIE then wakeup1_proc (initproc s) s' else s'
      else s)"

definition exit :: "('m kproc_scheme, 'a) km" where
  "exit =
     bnd myproc (\<lambda>me.
     bnd (getk initproc) (\<lambda>ini.
     if me = ini then kpanic ''init exiting''
     else case me of
       None \<Rightarrow> kpanic ''trap''
     | Some c \<Rightarrow>
         sq (for_each [0..<NOFILE] close_fd)
        (sq begin_op
        (bnd (getk (\<lambda>s. p_cwd (ptab s ! c))) (\<lambda>cwd.
         sq (case cwd of None \<Rightarrow> kpanic ''trap'' | Some ip \<Rightarrow> iput ip)
        (sq end_op
        (sq (modk (upd_proc c (\<lambda>p. p\<lparr>p_cwd := None\<rparr>)))
        (sq (acquire LK_ptable)
        (sq (modk (\<lambda>s. wakeup1_proc (p_parent (ptab s ! c)) s))
        (sq (for_each [0..<NPROC] (\<lambda>i. modk (reparent c i)))
        (sq (modk (upd_proc c (\<lambda>p. p\<lparr>p_state := ZOMBIE\<rparr>)))
            sched)))))))))))"

definition is_zombie_of :: "nat option \<Rightarrow> proc \<Rightarrow> bool" where
  "is_zombie_of c p \<longleftrightarrow> p_parent p = c \<and> p_state p = ZOMBIE"

definition havekids :: "nat option \<Rightarrow> proc list \<Rightarrow> bool" where
  "havekids c ps \<longleftrightarrow> (\<exists>p \<in> set ps. p_parent p = c)"

definition wait :: "('m kproc_scheme, int) km" where
  "wait =
     bnd myproc (\<lambda>me.
     sq (acquire LK_ptable)
    (bnd (getk ptab) (\<lambda>ps.
     case find_idx (is_zombie_of me) ps of
       Some i \<Rightarrow>
         let p = ps ! i
         in sq (kfree (p_kstack p))
           (sq (modk (upd_proc i (\<lambda>p. p\<lparr>p_kstack := 0\<rparr>)))
           (sq (freevm (p_pgdir p))
           (sq (modk (upd_proc i (\<lambda>p. p\<lparr>p_pid := 0, p_parent := None, p_name := (p_name p)[0 := 0],
                                        p_killed := False, p_state := UNUSED\<rparr>)))
           (sq (release LK_ptable)
               (ret (p_pid p))))))
     | None \<Rightarrow>
         bnd curproc (\<lambda>c.
         if \<not> havekids me ps \<or> p_killed c then sq (release LK_ptable) (ret (-1))
         else sleep (CH_proc (the me)) LK_ptable))))"

definition kill_proc :: "proc \<Rightarrow> proc" where
  "kill_proc p =
     p\<lparr>p_killed := True, p_state := (if p_state p = SLEEPING then RUNNABLE else p_state p)\<rparr>"

definition kill :: "int \<Rightarrow> ('m kproc_scheme, int) km" where
  "kill pid =
     sq (acquire LK_ptable)
    (bnd (getk (\<lambda>s. find_idx (\<lambda>p. p_pid p = pid) (ptab s))) (\<lambda>r.
     case r of
       Some i \<Rightarrow> sq (modk (upd_proc i kill_proc)) (sq (release LK_ptable) (ret 0))
     | None \<Rightarrow> sq (release LK_ptable) (ret (-1))))"

section \<open>The scheduler\<close>

text \<open>
  One CPU's turn for process \<open>j\<close>: the part of the loop of \<open>scheduler\<close> that runs for a RUNNABLE process. \<open>run j\<close> is what
  happens from the switch to the process until it switches back.
\<close>

definition scheduler_turn ::
  "(nat \<Rightarrow> 'm kproc_scheme \<Rightarrow> 'm kproc_scheme) \<Rightarrow> nat \<Rightarrow> ('m kproc_scheme, unit) km" where
  "scheduler_turn run j =
     sq (modk (\<lambda>s. s\<lparr>cur := Some j\<rparr>))
    (sq (switchuvm (Some j))
    (sq (modk (upd_proc j (\<lambda>p. p\<lparr>p_state := RUNNING\<rparr>)))
    (sq (modk (run j))
    (sq switchkvm
        (modk (\<lambda>s. s\<lparr>cur := None\<rparr>))))))"

text \<open>The loop over the table, with the list of the processes it has run.\<close>

primrec scheduler_loop ::
  "(nat \<Rightarrow> 'm kproc_scheme \<Rightarrow> 'm kproc_scheme) \<Rightarrow> nat list \<Rightarrow> ('m kproc_scheme, nat list) km" where
  "scheduler_loop run [] = ret []"
| "scheduler_loop run (j # js) =
     bnd (getk (\<lambda>s. p_state (ptab s ! j))) (\<lambda>st.
     if st \<noteq> RUNNABLE then scheduler_loop run js
     else sq (scheduler_turn run j) (bnd (scheduler_loop run js) (\<lambda>ps. ret (j # ps))))"

definition scheduler :: "(nat \<Rightarrow> 'm kproc_scheme \<Rightarrow> 'm kproc_scheme) \<Rightarrow> ('m kproc_scheme, nat list) km" where
  "scheduler run =
     sq (acquire LK_ptable)
    (bnd (scheduler_loop run [0..<NPROC]) (\<lambda>ps.
     sq (release LK_ptable)
        (ret ps)))"

definition forkret :: "('m kproc_scheme, unit) km" where
  "forkret =
     sq (release LK_ptable)
    (bnd (getk forkret_first) (\<lambda>fst_run.
     whenk fst_run
       (sq (modk (\<lambda>s. s\<lparr>forkret_first := False\<rparr>))
       (sq (iinit ROOTDEV)
       (sq (initlog ROOTDEV)
           (bnd init_usertable (\<lambda>_. ret ())))))))"

section \<open>Process listing\<close>

text \<open>The stack walk of \<open>getcallerpcs\<close> (\<open>spinlock.c\<close>), from a frame pointer on; it fills the rest with 0.\<close>

primrec callerpcs :: "nat \<Rightarrow> memory \<Rightarrow> u32 \<Rightarrow> u32 list" where
  "callerpcs 0 m ebp = []"
| "callerpcs (Suc n) m ebp =
     (if ebp = 0 \<or> ebp < KERNBASE \<or> ebp = 0xffffffff then replicate (Suc n) 0
      else load32 m (ebp + 4) # callerpcs n m (load32 m ebp))"

definition getcallerpcs :: "memory \<Rightarrow> u32 \<Rightarrow> u32 list" where
  "getcallerpcs m v = callerpcs 10 m (v - 8)"

definition state_name :: "procstate \<Rightarrow> bytes" where
  "state_name st =
     map of_char (case st of UNUSED \<Rightarrow> ''unused'' | EMBRYO \<Rightarrow> ''embryo'' | SLEEPING \<Rightarrow> ''sleep ''
                  | RUNNABLE \<Rightarrow> ''runble'' | RUNNING \<Rightarrow> ''run   '' | ZOMBIE \<Rightarrow> ''zombie'')"

definition cstr_of :: "bytes \<Rightarrow> bytes" where
  "cstr_of bs = takeWhile (\<lambda>b. b \<noteq> 0) bs"

definition procdump_one :: "nat \<Rightarrow> ('m kproc_scheme, unit) km" where
  "procdump_one i =
     bnd (getk (\<lambda>s. (ptab s ! i, mem s))) (\<lambda>(p, m).
     whenk (p_state p \<noteq> UNUSED)
       (sq (cprintf (map of_char ''%d %s %s'')
              [AWord (word_of_int (p_pid p)), AStr (Some (state_name (p_state p))),
               AStr (Some (cstr_of (p_name p)))])
       (sq (whenk (p_state p = SLEEPING)
              (for_each (takeWhile (\<lambda>pc. pc \<noteq> 0) (getcallerpcs m (cx_ebp (p_context p) + 8)))
                 (\<lambda>pc. cprintf (map of_char '' %p'') [AWord pc])))
           (cprintf [10] []))))"

definition procdump :: "('m kproc_scheme, unit) km" where
  "procdump = for_each [0..<NPROC] procdump_one"

end
