(* ===== verification/Exec.thy ===== *)
theory Exec
  imports Proc
begin

text \<open>
  \<open>exec\<close> (\<open>exec.c\<close>, \<open>elf.h\<close>): reading an ELF image from a file into a new address space,
  building the user stack and switching to it. \<open>argv\<close> is the list of the argument strings without their
  NULs. Each \<open>goto bad\<close> is a call of \<open>exec_bad\<close>.
\<close>

definition MAXARG :: nat where "MAXARG = 32"
definition ELF_MAGIC :: u32 where "ELF_MAGIC = 0x464C457F"
definition ELF_PROG_LOAD :: u32 where "ELF_PROG_LOAD = 1"

record elfhdr =
  elf_magic :: u32
  elf_elf :: bytes
  elf_type :: u16
  elf_machine :: u16
  elf_version :: u32
  elf_entry :: u32
  elf_phoff :: u32
  elf_shoff :: u32
  elf_flags :: u32
  elf_ehsize :: u16
  elf_phentsize :: u16
  elf_phnum :: u16
  elf_shentsize :: u16
  elf_shnum :: u16
  elf_shstrndx :: u16

record proghdr =
  ph_type :: u32
  ph_off :: u32
  ph_vaddr :: u32
  ph_paddr :: u32
  ph_filesz :: u32
  ph_memsz :: u32
  ph_flags :: u32
  ph_align :: u32

definition ELFHDR_SIZE :: nat where "ELFHDR_SIZE = 52"
definition PROGHDR_SIZE :: nat where "PROGHDR_SIZE = 32"

definition enc_elfhdr :: "elfhdr \<Rightarrow> bytes" where
  "enc_elfhdr h =
     enc32 (elf_magic h) @ elf_elf h @ enc16 (elf_type h) @ enc16 (elf_machine h) @
     enc32 (elf_version h) @ enc32 (elf_entry h) @ enc32 (elf_phoff h) @ enc32 (elf_shoff h) @
     enc32 (elf_flags h) @ enc16 (elf_ehsize h) @ enc16 (elf_phentsize h) @ enc16 (elf_phnum h) @
     enc16 (elf_shentsize h) @ enc16 (elf_shnum h) @ enc16 (elf_shstrndx h)"

definition dec_elfhdr :: "bytes \<Rightarrow> elfhdr" where
  "dec_elfhdr bs =
     (let w = (\<lambda>i. dec32 (sub_arr i 4 bs)); h = (\<lambda>i. dec16 (sub_arr i 2 bs))
      in \<lparr>elf_magic = w 0, elf_elf = sub_arr 4 12 bs, elf_type = h 16, elf_machine = h 18,
          elf_version = w 20, elf_entry = w 24, elf_phoff = w 28, elf_shoff = w 32,
          elf_flags = w 36, elf_ehsize = h 40, elf_phentsize = h 42, elf_phnum = h 44,
          elf_shentsize = h 46, elf_shnum = h 48, elf_shstrndx = h 50\<rparr>)"

definition enc_proghdr :: "proghdr \<Rightarrow> bytes" where
  "enc_proghdr p =
     enc32s [ph_type p, ph_off p, ph_vaddr p, ph_paddr p, ph_filesz p, ph_memsz p, ph_flags p, ph_align p]"

definition dec_proghdr :: "bytes \<Rightarrow> proghdr" where
  "dec_proghdr bs =
     (let w = (\<lambda>i. dec32 (sub_arr (4 * i) 4 bs))
      in \<lparr>ph_type = w 0, ph_off = w 1, ph_vaddr = w 2, ph_paddr = w 3, ph_filesz = w 4,
          ph_memsz = w 5, ph_flags = w 6, ph_align = w 7\<rparr>)"

section \<open>The steps of \<open>exec\<close>\<close>

definition exec_bad :: "u32 \<Rightarrow> nat option \<Rightarrow> ('m kproc_scheme, int) km" where
  "exec_bad pgdir ip =
     sq (whenk (pgdir \<noteq> 0) (freevm pgdir))
    (sq (case ip of None \<Rightarrow> ret () | Some i \<Rightarrow> sq (iunlockput i) end_op)
        (ret (-1)))"

text \<open>The loop over the program headers: the new size, or \<open>None\<close> for \<open>goto bad\<close>.\<close>

primrec exec_load :: "nat \<Rightarrow> nat \<Rightarrow> u32 \<Rightarrow> u32 \<Rightarrow> u32 \<Rightarrow> ('m kproc_scheme, u32 option) km" where
  "exec_load 0 ip pgdir off sz = ret (Some sz)"
| "exec_load (Suc k) ip pgdir off sz =
     bnd (readi ip off (of_nat PROGHDR_SIZE)) (\<lambda>(r, bs).
     if r \<noteq> int PROGHDR_SIZE then ret None
     else
       let ph = dec_proghdr bs; nxt = off + of_nat PROGHDR_SIZE
       in if ph_type ph \<noteq> ELF_PROG_LOAD then exec_load k ip pgdir nxt sz
          else if ph_memsz ph < ph_filesz ph then ret None
          else if ph_vaddr ph + ph_memsz ph < ph_vaddr ph then ret None
          else
            bnd (allocuvm pgdir sz (ph_vaddr ph + ph_memsz ph)) (\<lambda>sz'.
            if sz' = 0 then ret None
            else if unat (ph_vaddr ph) mod PGSIZE \<noteq> 0 then ret None
            else
              bnd (loaduvm pgdir (ph_vaddr ph) ip (ph_off ph) (ph_filesz ph)) (\<lambda>r.
              if r < 0 then ret None else exec_load k ip pgdir nxt sz')))"

text \<open>The loop over the arguments: the stack pointer and the argument pointers, or \<open>None\<close>.\<close>

primrec exec_args ::
  "bytes list \<Rightarrow> u32 \<Rightarrow> u32 \<Rightarrow> u32 list \<Rightarrow> ('m kproc_scheme, (u32 \<times> u32 list) option) km" where
  "exec_args [] pgdir sp ptrs = ret (Some (sp, ptrs))"
| "exec_args (a # as) pgdir sp ptrs =
     (if length ptrs \<ge> MAXARG then ret None
      else
        let sp' = (sp - (of_nat (length a) + 1)) AND NOT 3
        in bnd (copyout pgdir sp' (a @ [0])) (\<lambda>r.
           if r < 0 then ret None else exec_args as pgdir sp' (ptrs @ [sp'])))"

definition exec_ustack :: "u32 \<Rightarrow> u32 list \<Rightarrow> u32 list" where
  "exec_ustack sp ptrs =
     [0xffffffff, of_nat (length ptrs), sp - (of_nat (length ptrs) + 1) * 4] @ ptrs @ [0]"

text \<open>What follows the last \<open>/\<close> of a path.\<close>

fun last_elem :: "bytes \<Rightarrow> bytes \<Rightarrow> bytes" where
  "last_elem lst [] = lst"
| "last_elem lst (c # s) = last_elem (if c = SLASH then s else lst) s"

definition exec_commit :: "bytes \<Rightarrow> u32 \<Rightarrow> u32 \<Rightarrow> u32 \<Rightarrow> u32 \<Rightarrow> ('m kproc_scheme, int) km" where
  "exec_commit path pgdir sz entry sp =
     bnd curproc (\<lambda>p.
     sq (upd_curproc (\<lambda>p. p\<lparr>p_name := safestrcpy (p_name p) (cptr (last_elem path path)) 16\<rparr>))
    (sq (upd_curproc (\<lambda>p. p\<lparr>p_pgdir := pgdir, p_sz := sz,
                            p_tf := (p_tf p)\<lparr>tf_eip := entry, tf_esp := sp\<rparr>\<rparr>))
    (bnd myproc (\<lambda>i.
     sq (switchuvm i)
    (sq (freevm (p_pgdir p))
        (ret 0))))))"

definition exec_stack :: "bytes \<Rightarrow> bytes list \<Rightarrow> u32 \<Rightarrow> u32 \<Rightarrow> u32 \<Rightarrow> ('m kproc_scheme, int) km" where
  "exec_stack path argv pgdir entry sz0 =
     bnd (allocuvm pgdir (PGROUNDUP sz0) (PGROUNDUP sz0 + 2 * of_nat PGSIZE)) (\<lambda>sz.
     if sz = 0 then exec_bad pgdir None
     else
       sq (clearpteu pgdir (sz - 2 * of_nat PGSIZE))
      (bnd (exec_args argv pgdir sz []) (\<lambda>r.
       case r of
         None \<Rightarrow> exec_bad pgdir None
       | Some (sp, ptrs) \<Rightarrow>
           let us = exec_ustack sp ptrs; sp' = sp - (3 + of_nat (length ptrs) + 1) * 4
           in bnd (copyout pgdir sp' (enc32s us)) (\<lambda>r.
              if r < 0 then exec_bad pgdir None
              else exec_commit path pgdir sz entry sp'))))"

definition exec :: "bytes \<Rightarrow> bytes list \<Rightarrow> ('m kproc_scheme, int) km" where
  "exec path argv =
     sq begin_op
    (bnd (namei path) (\<lambda>ipo.
     case ipo of
       None \<Rightarrow> sq end_op (sq (cprintf (map of_char ''exec: fail'' @ [10]) []) (ret (-1)))
     | Some ip \<Rightarrow>
         sq (ilock ip)
        (bnd (permits has_execute_permission ip) (\<lambda>ok.
         if \<not> ok then exec_bad 0 (Some ip)
         else
           bnd (readi ip 0 (of_nat ELFHDR_SIZE)) (\<lambda>(r, bs).
           if r \<noteq> int ELFHDR_SIZE then exec_bad 0 (Some ip)
           else if elf_magic (dec_elfhdr bs) \<noteq> ELF_MAGIC then exec_bad 0 (Some ip)
           else
             bnd setupkvm (\<lambda>pgdir.
             if pgdir = 0 then exec_bad 0 (Some ip)
             else
               bnd (exec_load (unat (elf_phnum (dec_elfhdr bs))) ip pgdir (elf_phoff (dec_elfhdr bs)) 0) (\<lambda>szo.
               case szo of
                 None \<Rightarrow> exec_bad pgdir (Some ip)
               | Some sz \<Rightarrow>
                   sq (iunlockput ip)
                  (sq end_op
                      (exec_stack path argv pgdir (elf_entry (dec_elfhdr bs)) sz)))))))))"

end
