(* ===== verification/Sysfile.thy ===== *)
theory Sysfile
  imports Exec
begin

text \<open>
  System call arguments (\<open>syscall.c\<close>) and the system calls on files (\<open>sysfile.c\<close>).

  An argument that fails its checks is \<open>None\<close>. A string argument is the list of its bytes before
  the NUL; the code keeps a pointer into user memory, which nobody else can change during the call.
\<close>

section \<open>Arguments\<close>

definition fetchint :: "u32 \<Rightarrow> ('m kproc_scheme, u32 option) km" where
  "fetchint addr =
     bnd curproc (\<lambda>p.
     if addr \<ge> p_sz p \<or> addr + 4 > p_sz p then ret None
     else bnd (uload 4 addr) (\<lambda>bs. ret (Some (dec32 bs))))"

primrec fetchstr_loop :: "nat \<Rightarrow> u32 \<Rightarrow> ('m kproc_scheme, bytes option) km" where
  "fetchstr_loop 0 a = ret None"
| "fetchstr_loop (Suc n) a =
     bnd (uload8 a) (\<lambda>b.
     if b = 0 then ret (Some [])
     else bnd (fetchstr_loop n (a + 1)) (\<lambda>r. ret (map_option ((#) b) r)))"

definition fetchstr :: "u32 \<Rightarrow> ('m kproc_scheme, bytes option) km" where
  "fetchstr addr =
     bnd curproc (\<lambda>p.
     if addr \<ge> p_sz p then ret None
     else fetchstr_loop (unat (p_sz p) - unat addr) addr)"

definition argint :: "nat \<Rightarrow> ('m kproc_scheme, u32 option) km" where
  "argint n = bnd curproc (\<lambda>p. fetchint (tf_esp (p_tf p) + 4 + 4 * of_nat n))"

definition argptr :: "nat \<Rightarrow> int \<Rightarrow> ('m kproc_scheme, u32 option) km" where
  "argptr n k =
     bnd (argint n) (\<lambda>r.
     case r of
       None \<Rightarrow> ret None
     | Some i \<Rightarrow>
         bnd curproc (\<lambda>p.
         ret (if k < 0 \<or> i \<ge> p_sz p \<or> i + word_of_int k > p_sz p then None else Some i)))"

definition argstr :: "nat \<Rightarrow> ('m kproc_scheme, bytes option) km" where
  "argstr n =
     bnd (argint n) (\<lambda>r. case r of None \<Rightarrow> ret None | Some addr \<Rightarrow> fetchstr addr)"

section \<open>File descriptors\<close>

definition argfd :: "nat \<Rightarrow> ('m kproc_scheme, (nat \<times> nat) option) km" where
  "argfd n =
     bnd (argint n) (\<lambda>r.
     case r of
       None \<Rightarrow> ret None
     | Some fd \<Rightarrow>
         if sint fd < 0 \<or> sint fd \<ge> int NOFILE then ret None
         else
           bnd curproc (\<lambda>p.
           ret (case p_ofile p ! unat fd of None \<Rightarrow> None | Some f \<Rightarrow> Some (unat fd, f))))"

definition fdalloc :: "nat \<Rightarrow> ('m kproc_scheme, int) km" where
  "fdalloc f =
     bnd curproc (\<lambda>p.
     case find_idx (\<lambda>x. x = None) (p_ofile p) of
       None \<Rightarrow> ret (-1)
     | Some fd \<Rightarrow>
         sq (upd_curproc (\<lambda>p. p\<lparr>p_ofile := (p_ofile p)[fd := Some f]\<rparr>))
            (ret (int fd)))"

definition sys_dup :: "('m kproc_scheme, int) km" where
  "sys_dup =
     bnd (argfd 0) (\<lambda>r.
     case r of
       None \<Rightarrow> ret (-1)
     | Some (_, f) \<Rightarrow>
         bnd (fdalloc f) (\<lambda>fd.
         if fd < 0 then ret (-1) else bnd (filedup f) (\<lambda>_. ret fd)))"

definition sys_rw :: "(nat \<Rightarrow> u32 \<Rightarrow> int \<Rightarrow> ('m kproc_scheme, int) km) \<Rightarrow> ('m kproc_scheme, int) km" where
  "sys_rw io =
     bnd (argfd 0) (\<lambda>r.
     case r of
       None \<Rightarrow> ret (-1)
     | Some (_, f) \<Rightarrow>
         bnd (argint 2) (\<lambda>r.
         case r of
           None \<Rightarrow> ret (-1)
         | Some n \<Rightarrow>
             bnd (argptr 1 (sint n)) (\<lambda>r.
             case r of None \<Rightarrow> ret (-1) | Some p \<Rightarrow> io f p (sint n))))"

definition sys_read :: "('m kproc_scheme, int) km" where
  "sys_read = sys_rw fileread"

definition sys_write :: "('m kproc_scheme, int) km" where
  "sys_write = sys_rw filewrite"

definition sys_close :: "('m kproc_scheme, int) km" where
  "sys_close =
     bnd (argfd 0) (\<lambda>r.
     case r of
       None \<Rightarrow> ret (-1)
     | Some (fd, f) \<Rightarrow>
         sq (upd_curproc (\<lambda>p. p\<lparr>p_ofile := (p_ofile p)[fd := None]\<rparr>))
        (sq (fileclose f)
            (ret 0)))"

definition sys_fstat :: "('m kproc_scheme, int) km" where
  "sys_fstat =
     bnd (argfd 0) (\<lambda>r.
     case r of
       None \<Rightarrow> ret (-1)
     | Some (_, f) \<Rightarrow>
         bnd (argptr 1 (int STAT_SIZE)) (\<lambda>r.
         case r of None \<Rightarrow> ret (-1) | Some st \<Rightarrow> filestat f st))"

section \<open>Links\<close>

definition sys_link_bad :: "nat \<Rightarrow> ('m kproc_scheme, int) km" where
  "sys_link_bad ip =
     sq (ilock ip)
    (sq (modk (upd_ino ip (\<lambda>I. I\<lparr>i_nlink := i_nlink I - 1\<rparr>)))
    (sq (iupdate ip)
    (sq (iunlockput ip)
    (sq end_op
        (ret (-1))))))"

definition link_at :: "bytes \<Rightarrow> nat \<Rightarrow> ('m kproc_scheme, int) km" where
  "link_at new ip =
     bnd (nameiparent new) (\<lambda>(dpo, name).
     case dpo of
       None \<Rightarrow> sys_link_bad ip
     | Some dp \<Rightarrow>
         sq (ilock dp)
        (bnd (getk (\<lambda>s. (i_dev (ino s dp), i_dev (ino s ip), i_inum (ino s ip)))) (\<lambda>(ddev, idev, inum).
         bnd (if ddev \<noteq> idev then ret (-1) else dirlink dp name inum) (\<lambda>r.
         if r < 0 then sq (iunlockput dp) (sys_link_bad ip)
         else
           sq (iunlockput dp)
          (sq (iput ip)
          (sq end_op
              (ret 0)))))))"

definition sys_link :: "('m kproc_scheme, int) km" where
  "sys_link =
     bnd (argstr 0) (\<lambda>r. case r of None \<Rightarrow> ret (-1) | Some old \<Rightarrow>
     bnd (argstr 1) (\<lambda>r. case r of None \<Rightarrow> ret (-1) | Some new \<Rightarrow>
     sq begin_op
    (bnd (namei old) (\<lambda>ipo.
     case ipo of
       None \<Rightarrow> sq end_op (ret (-1))
     | Some ip \<Rightarrow>
         sq (ilock ip)
        (bnd (getk (\<lambda>s. i_type (ino s ip))) (\<lambda>ty.
         if ty = T_DIR then sq (iunlockput ip) (sq end_op (ret (-1)))
         else
           sq (modk (upd_ino ip (\<lambda>I. I\<lparr>i_nlink := i_nlink I + 1\<rparr>)))
          (sq (iupdate ip)
          (sq (iunlock ip)
              (link_at new ip)))))))))"

text \<open>The loop of \<open>isdirempty\<close>, over the offsets of the entries after the first two.\<close>

primrec dirempty_from :: "nat list \<Rightarrow> nat \<Rightarrow> ('m kproc_scheme, bool) km" where
  "dirempty_from [] dp = ret True"
| "dirempty_from (off # offs) dp =
     bnd (readi dp (of_nat off) (of_nat DIRENT_SIZE)) (\<lambda>(r, bs).
     if r \<noteq> int DIRENT_SIZE then kpanic ''isdirempty: readi''
     else if de_inum (dec_dirent bs) \<noteq> 0 then ret False
     else dirempty_from offs dp)"

definition isdirempty :: "nat \<Rightarrow> ('m kproc_scheme, bool) km" where
  "isdirempty dp =
     bnd (getk (\<lambda>s. i_size (ino s dp))) (\<lambda>sz.
     dirempty_from (drop 2 (dir_offsets (unat sz))) dp)"

definition unlink_bad :: "nat \<Rightarrow> ('m kproc_scheme, int) km" where
  "unlink_bad dp = sq (iunlockput dp) (sq end_op (ret (-1)))"

definition unlink_entry :: "nat \<Rightarrow> nat \<Rightarrow> nat \<Rightarrow> ('m kproc_scheme, int) km" where
  "unlink_entry dp ip off =
     bnd (writei dp (replicate DIRENT_SIZE 0) (of_nat off)) (\<lambda>r.
     if r \<noteq> int DIRENT_SIZE then kpanic ''unlink: writei''
     else
       bnd (getk (\<lambda>s. i_type (ino s ip))) (\<lambda>ty.
       sq (whenk (ty = T_DIR)
             (sq (modk (upd_ino dp (\<lambda>I. I\<lparr>i_nlink := i_nlink I - 1\<rparr>))) (iupdate dp)))
      (sq (iunlockput dp)
      (sq (modk (upd_ino ip (\<lambda>I. I\<lparr>i_nlink := i_nlink I - 1\<rparr>)))
      (sq (iupdate ip)
      (sq (iunlockput ip)
      (sq end_op
          (ret 0))))))))"

definition sys_unlink :: "('m kproc_scheme, int) km" where
  "sys_unlink =
     bnd (argstr 0) (\<lambda>r. case r of None \<Rightarrow> ret (-1) | Some path \<Rightarrow>
     sq begin_op
    (bnd (nameiparent path) (\<lambda>(dpo, name).
     case dpo of
       None \<Rightarrow> sq end_op (ret (-1))
     | Some dp \<Rightarrow>
         sq (ilock dp)
        (bnd (permits has_write_permission dp) (\<lambda>ok.
         if \<not> ok then unlink_bad dp
         else if namecmp name dot = 0 \<or> namecmp name dotdot = 0 then unlink_bad dp
         else
           bnd (dirlookup dp name) (\<lambda>found.
           case found of
             None \<Rightarrow> unlink_bad dp
           | Some (ip, off) \<Rightarrow>
               sq (ilock ip)
              (bnd (getk (\<lambda>s. ino s ip)) (\<lambda>I.
               if sint (i_nlink I) < 1 then kpanic ''unlink: nlink < 1''
               else
                 bnd (if i_type I = T_DIR then bnd (isdirempty ip) (\<lambda>e. ret (\<not> e)) else ret False)
                   (\<lambda>full.
                    if full then sq (iunlockput ip) (unlink_bad dp)
                    else unlink_entry dp ip off)))))))))"

section \<open>Permissions\<close>

definition sys_chmod :: "('m kproc_scheme, int) km" where
  "sys_chmod =
     bnd (argstr 0) (\<lambda>r. case r of None \<Rightarrow> ret (-1) | Some path \<Rightarrow>
     bnd (argint 1) (\<lambda>r. case r of None \<Rightarrow> ret (-1) | Some mode \<Rightarrow>
     sq begin_op
    (bnd (namei path) (\<lambda>ipo.
     case ipo of
       None \<Rightarrow> sq end_op (ret (-1))
     | Some ip \<Rightarrow>
         sq (ilock ip)
        (bnd (permits has_own ip) (\<lambda>ok.
         if \<not> ok then sq (iunlockput ip) (sq end_op (ret (-1)))
         else
           sq (modk (upd_ino ip (\<lambda>I. I\<lparr>i_perm := ucast (mode AND MODE_ALL)\<rparr>)))
          (sq (iupdate ip)
          (sq (iunlockput ip)
          (sq end_op
              (ret 0))))))))))"

section \<open>Opening and creating\<close>

definition O_RDONLY :: u32 where "O_RDONLY = 0"
definition O_WRONLY :: u32 where "O_WRONLY = 1"
definition O_RDWR :: u32 where "O_RDWR = 2"
definition O_CREATE :: u32 where "O_CREATE = 0x200"

definition set_mode :: "u8 \<Rightarrow> u32 \<Rightarrow> nat \<Rightarrow> ('m kproc_scheme, unit) km" where
  "set_mode perm owner ip =
     sq (modk (upd_ino ip (\<lambda>I. I\<lparr>i_perm := perm, i_owner := owner\<rparr>))) (iupdate ip)"

definition FILE_MODE :: u8 where "FILE_MODE = MODE_RUSR OR MODE_WUSR OR MODE_ROTH"
definition DIR_MODE :: u8 where
  "DIR_MODE = MODE_RUSR OR MODE_WUSR OR MODE_XUSR OR MODE_ROTH OR MODE_XOTH"

definition open_fail :: "nat \<Rightarrow> ('m kproc_scheme, int) km" where
  "open_fail ip = sq (iunlockput ip) (sq end_op (ret (-1)))"

text \<open>The inode \<open>open\<close> works on, locked and referenced, or \<open>None\<close> when it has failed.\<close>

definition open_inode :: "bytes \<Rightarrow> u32 \<Rightarrow> ('m kproc_scheme, nat option) km" where
  "open_inode path omode =
     (if omode AND O_CREATE \<noteq> 0 then
        bnd (create path T_FILE 0 0) (\<lambda>ipo.
        case ipo of
          None \<Rightarrow> sq end_op (ret None)
        | Some ip \<Rightarrow>
            bnd curproc (\<lambda>p.
            sq (set_mode FILE_MODE (p_uid p) ip)
               (ret (Some ip))))
      else
        bnd (namei path) (\<lambda>ipo.
        case ipo of
          None \<Rightarrow> sq end_op (ret None)
        | Some ip \<Rightarrow>
            sq (ilock ip)
           (bnd (getk (\<lambda>s. i_type (ino s ip))) (\<lambda>ty.
            if ty = T_DIR \<and> omode \<noteq> O_RDONLY then sq (iunlockput ip) (sq end_op (ret None))
            else ret (Some ip)))))"

definition open_file :: "nat \<Rightarrow> u32 \<Rightarrow> ('m kproc_scheme, int) km" where
  "open_file ip omode =
     bnd filealloc (\<lambda>fo.
     case fo of
       None \<Rightarrow> open_fail ip
     | Some f \<Rightarrow>
         bnd (fdalloc f) (\<lambda>fd.
         if fd < 0 then sq (fileclose f) (open_fail ip)
         else
           sq (iunlock ip)
          (sq end_op
          (sq (modk (upd_file f (\<lambda>x. x\<lparr>f_type := FD_INODE, f_ip := ip, f_off := 0,
                 f_readable := omode AND O_WRONLY = 0,
                 f_writable := omode AND O_WRONLY \<noteq> 0 \<or> omode AND O_RDWR \<noteq> 0\<rparr>)))
              (ret fd)))))"

definition sys_open :: "('m kproc_scheme, int) km" where
  "sys_open =
     bnd (argstr 0) (\<lambda>r. case r of None \<Rightarrow> ret (-1) | Some path \<Rightarrow>
     bnd (argint 1) (\<lambda>r. case r of None \<Rightarrow> ret (-1) | Some omode \<Rightarrow>
     sq begin_op
    (bnd (open_inode path omode) (\<lambda>ipo.
     case ipo of
       None \<Rightarrow> ret (-1)
     | Some ip \<Rightarrow>
         bnd (permits has_read_permission ip) (\<lambda>rd.
         if (omode = O_RDONLY \<or> omode = O_RDWR) \<and> \<not> rd then open_fail ip
         else
           bnd (permits has_write_permission ip) (\<lambda>wr.
           if (omode = O_WRONLY \<or> omode = O_RDWR) \<and> \<not> wr then open_fail ip
           else open_file ip omode))))))"

definition sys_mkdir :: "('m kproc_scheme, int) km" where
  "sys_mkdir =
     sq begin_op
    (bnd (argstr 0) (\<lambda>r.
     bnd (case r of None \<Rightarrow> ret None | Some path \<Rightarrow> create path T_DIR 0 0) (\<lambda>ipo.
     case ipo of
       None \<Rightarrow> sq end_op (ret (-1))
     | Some ip \<Rightarrow>
         bnd curproc (\<lambda>p.
         sq (set_mode DIR_MODE (p_uid p) ip)
        (sq (iunlockput ip)
        (sq end_op
            (ret 0)))))))"

definition sys_mknod :: "('m kproc_scheme, int) km" where
  "sys_mknod =
     sq begin_op
    (bnd (argstr 0) (\<lambda>r0.
     bnd (case r0 of None \<Rightarrow> ret None | Some path \<Rightarrow> argint 1) (\<lambda>r1.
     bnd (case r1 of None \<Rightarrow> ret None | Some major \<Rightarrow> argint 2) (\<lambda>r2.
     bnd (case (r0, r1, r2) of
            (Some path, Some major, Some minor) \<Rightarrow> create path T_DEV (ucast major) (ucast minor)
          | _ \<Rightarrow> ret None) (\<lambda>ipo.
     case ipo of
       None \<Rightarrow> sq end_op (ret (-1))
     | Some ip \<Rightarrow> sq (iunlockput ip) (sq end_op (ret 0)))))))"

definition sys_chdir :: "('m kproc_scheme, int) km" where
  "sys_chdir =
     sq begin_op
    (bnd (argstr 0) (\<lambda>r.
     bnd (case r of None \<Rightarrow> ret None | Some path \<Rightarrow> namei path) (\<lambda>ipo.
     case ipo of
       None \<Rightarrow> sq end_op (ret (-1))
     | Some ip \<Rightarrow>
         sq (ilock ip)
        (bnd (getk (\<lambda>s. i_type (ino s ip))) (\<lambda>ty.
         if ty \<noteq> T_DIR then sq (iunlockput ip) (sq end_op (ret (-1)))
         else
           bnd (permits has_execute_permission ip) (\<lambda>ok.
           if \<not> ok then sq (iunlockput ip) (sq end_op (ret (-1)))
           else
             sq (iunlock ip)
            (bnd curproc (\<lambda>p.
             sq (case p_cwd p of None \<Rightarrow> kpanic ''trap'' | Some cwd \<Rightarrow> iput cwd)
            (sq end_op
            (sq (upd_curproc (\<lambda>p. p\<lparr>p_cwd := Some ip\<rparr>))
                (ret 0)))))))))))"

section \<open>Programs and pipes\<close>

text \<open>The loop of \<open>sys_exec\<close>: the argument strings, or \<open>None\<close> for an error.\<close>

primrec exec_argv :: "nat \<Rightarrow> u32 \<Rightarrow> ('m kproc_scheme, bytes list option) km" where
  "exec_argv 0 uargv = ret None"
| "exec_argv (Suc k) uargv =
     bnd (fetchint uargv) (\<lambda>r. case r of None \<Rightarrow> ret None | Some uarg \<Rightarrow>
     if uarg = 0 then ret (Some [])
     else
       bnd (fetchstr uarg) (\<lambda>r. case r of None \<Rightarrow> ret None | Some a \<Rightarrow>
       bnd (exec_argv k (uargv + 4)) (\<lambda>as. ret (map_option ((#) a) as))))"

definition sys_exec :: "('m kproc_scheme, int) km" where
  "sys_exec =
     bnd (argstr 0) (\<lambda>r. case r of None \<Rightarrow> ret (-1) | Some path \<Rightarrow>
     bnd (argint 1) (\<lambda>r. case r of None \<Rightarrow> ret (-1) | Some uargv \<Rightarrow>
     bnd (exec_argv MAXARG uargv) (\<lambda>r. case r of None \<Rightarrow> ret (-1) | Some argv \<Rightarrow>
     exec path argv)))"

definition sys_pipe_bad :: "nat \<Rightarrow> nat \<Rightarrow> int \<Rightarrow> ('m kproc_scheme, int) km" where
  "sys_pipe_bad f g fd0 =
     sq (whenk (fd0 \<ge> 0) (upd_curproc (\<lambda>p. p\<lparr>p_ofile := (p_ofile p)[nat fd0 := None]\<rparr>)))
    (sq (fileclose f)
    (sq (fileclose g)
        (ret (-1))))"

definition sys_pipe :: "('m kproc_scheme, int) km" where
  "sys_pipe =
     bnd (argptr 0 8) (\<lambda>r. case r of None \<Rightarrow> ret (-1) | Some fd \<Rightarrow>
     bnd pipealloc (\<lambda>r. case r of None \<Rightarrow> ret (-1) | Some (f, g) \<Rightarrow>
     bnd (fdalloc f) (\<lambda>fd0.
     if fd0 < 0 then sys_pipe_bad f g fd0
     else
       bnd (fdalloc g) (\<lambda>fd1.
       if fd1 < 0 then sys_pipe_bad f g fd0
       else
         sq (ustore fd (enc32 (word_of_int fd0)))
        (sq (ustore (fd + 4) (enc32 (word_of_int fd1)))
            (ret 0))))))"

end
