(* ===== verification/Kbd.thy ===== *)
theory Kbd
  imports Console
begin

text \<open>
  The keyboard driver (\<open>kbd.c\<close>, \<open>kbd.h\<close>): scan codes to characters, with the state of the shift
  keys in \<open>shift\<close>. The tables of \<open>kbd.h\<close> are the lists of their first entries, as character
  codes, with the designated entries in \<open>keypad\<close>; all other entries are 0.
\<close>

definition SHIFT :: u32 where "SHIFT = 1"
definition CTL :: u32 where "CTL = 2"
definition ALT :: u32 where "ALT = 4"
definition CAPSLOCK :: u32 where "CAPSLOCK = 8"
definition NUMLOCK :: u32 where "NUMLOCK = 16"
definition SCROLLLOCK :: u32 where "SCROLLLOCK = 32"
definition E0ESC :: u32 where "E0ESC = 64"

definition shiftcode :: "nat \<Rightarrow> u32" where
  "shiftcode d =
     (if d = 0x1D then CTL else if d = 0x2A then SHIFT else if d = 0x36 then SHIFT
      else if d = 0x38 then ALT else if d = 0x9D then CTL else if d = 0xB8 then ALT else 0)"

definition togglecode :: "nat \<Rightarrow> u32" where
  "togglecode d =
     (if d = 0x3A then CAPSLOCK else if d = 0x45 then NUMLOCK else if d = 0x46 then SCROLLLOCK else 0)"

text \<open>The entries from 0x80 on, for the keys with an escape code; the maps differ in the first two.\<close>

definition keypad :: "u8 \<Rightarrow> u8 \<Rightarrow> nat \<Rightarrow> u8" where
  "keypad enter slash d =
     (if d = 0x9C then enter else if d = 0xB5 then slash
      else if d = 0xC8 then 0xE2 else if d = 0xD0 then 0xE3
      else if d = 0xC9 then 0xE6 else if d = 0xD1 then 0xE7
      else if d = 0xCB then 0xE4 else if d = 0xCD then 0xE5
      else if d = 0x97 then 0xE0 else if d = 0xCF then 0xE1
      else if d = 0xD2 then 0xE8 else if d = 0xD3 then 0xE9
      else 0)"

definition normalcodes :: "u8 list" where
  "normalcodes =
    [0, 27, 49, 50, 51, 52, 53, 54,
     55, 56, 57, 48, 45, 61, 8, 9,
     113, 119, 101, 114, 116, 121, 117, 105,
     111, 112, 91, 93, 10, 0, 97, 115,
     100, 102, 103, 104, 106, 107, 108, 59,
     39, 96, 0, 92, 122, 120, 99, 118,
     98, 110, 109, 44, 46, 47, 0, 42,
     0, 32, 0, 0, 0, 0, 0, 0,
     0, 0, 0, 0, 0, 0, 0, 55,
     56, 57, 45, 52, 53, 54, 43, 49,
     50, 51, 48, 46, 0, 0, 0, 0]"

definition shiftcodes :: "u8 list" where
  "shiftcodes =
    [0, 27, 33, 64, 35, 36, 37, 94,
     38, 42, 40, 41, 95, 43, 8, 9,
     81, 87, 69, 82, 84, 89, 85, 73,
     79, 80, 123, 125, 10, 0, 65, 83,
     68, 70, 71, 72, 74, 75, 76, 58,
     34, 126, 0, 124, 90, 88, 67, 86,
     66, 78, 77, 60, 62, 63, 0, 42,
     0, 32, 0, 0, 0, 0, 0, 0,
     0, 0, 0, 0, 0, 0, 0, 55,
     56, 57, 45, 52, 53, 54, 43, 49,
     50, 51, 48, 46, 0, 0, 0, 0]"

definition ctlcodes :: "u8 list" where
  "ctlcodes =
    [0, 0, 0, 0, 0, 0, 0, 0,
     0, 0, 0, 0, 0, 0, 0, 0,
     17, 23, 5, 18, 20, 25, 21, 9,
     15, 16, 0, 0, 13, 0, 1, 19,
     4, 6, 7, 8, 10, 11, 12, 0,
     0, 0, 0, 28, 26, 24, 3, 22,
     2, 14, 13, 0, 0, 239, 0, 0]"

definition normalmap :: "nat \<Rightarrow> u8" where
  "normalmap d = (if d < length normalcodes then normalcodes ! d else keypad 10 47 d)"

definition shiftmap :: "nat \<Rightarrow> u8" where
  "shiftmap d = (if d < length shiftcodes then shiftcodes ! d else keypad 10 47 d)"

definition ctlmap :: "nat \<Rightarrow> u8" where
  "ctlmap d = (if d < length ctlcodes then ctlcodes ! d else keypad 13 239 d)"

definition charcode :: "u32 \<Rightarrow> nat \<Rightarrow> u8" where
  "charcode i = (if i = 0 then normalmap else if i = 1 then shiftmap else ctlmap)"

definition capslock :: "u32 \<Rightarrow> u32" where
  "capslock c =
     (if 97 \<le> c \<and> c \<le> 122 then c + 65 - 97 else if 65 \<le> c \<and> c \<le> 90 then c + 97 - 65 else c)"

text \<open>
  \<open>kbdgetc\<close> with the scan code waiting in the controller, if any: its result and the new shift
  state.
\<close>

definition kbdgetc :: "u8 option \<Rightarrow> u32 \<Rightarrow> int \<times> u32" where
  "kbdgetc inp shift =
     (case inp of
        None \<Rightarrow> (-1, shift)
      | Some code \<Rightarrow>
          let data = unat code
          in if data = 0xE0 then (0, shift OR E0ESC)
             else if data \<ge> 0x80 then
               let d = (if shift AND E0ESC \<noteq> 0 then data else data - 0x80)
               in (0, shift AND NOT (shiftcode d OR E0ESC))
             else
               let d = (if shift AND E0ESC \<noteq> 0 then data + 0x80 else data);
                   sh1 = (if shift AND E0ESC \<noteq> 0 then shift AND NOT E0ESC else shift);
                   sh2 = (sh1 OR shiftcode d) XOR togglecode d;
                   c = ucast (charcode (sh2 AND (CTL OR SHIFT)) d)
               in (uint (if sh2 AND CAPSLOCK \<noteq> 0 then capslock c else c), sh2))"

text \<open>The characters \<open>consoleintr\<close> gets for the scan codes that are waiting.\<close>

primrec kbd_chars :: "u8 list \<Rightarrow> u32 \<Rightarrow> int list \<times> u32" where
  "kbd_chars [] shift = ([], shift)"
| "kbd_chars (d # ds) shift =
     (let (c, shift') = kbdgetc (Some d) shift; (cs, shift'') = kbd_chars ds shift'
      in (c # cs, shift''))"

end
