(* ===== verification/Trap.thy ===== *)
theory Trap
  imports Sysfile Kbd
begin

text \<open>
  The remaining system calls (\<open>sysproc.c\<close>, \<open>sysuser.c\<close>), the dispatch of system calls (\<open>syscall.c\<close>), traps
  and interrupts (\<open>trap.c\<close>) and the boot sequence (\<open>main.c\<close>).

  \<open>trap\<close> takes the trap frame and the bytes that wait in the keyboard controller or the
  serial port. The acknowledgement of an interrupt to the local APIC has no effect on the modelled
  state. \<open>trap_resume\<close> is what runs after a \<open>yield\<close>.
\<close>

record ktrap = kproc +
  kbd_shift :: u32

section \<open>Processes\<close>

definition sys_fork :: "('m kproc_scheme, int) km" where
  "sys_fork = fork"

definition sys_exit :: "('m kproc_scheme, int) km" where
  "sys_exit = exit"

definition sys_wait :: "('m kproc_scheme, int) km" where
  "sys_wait = wait"

definition sys_kill :: "('m kproc_scheme, int) km" where
  "sys_kill = bnd (argint 0) (\<lambda>r. case r of None \<Rightarrow> ret (-1) | Some pid \<Rightarrow> kill (sint pid))"

definition sys_getpid :: "('m kproc_scheme, int) km" where
  "sys_getpid = bnd curproc (\<lambda>p. ret (p_pid p))"

definition sys_sbrk :: "('m kproc_scheme, int) km" where
  "sys_sbrk =
     bnd (argint 0) (\<lambda>r. case r of None \<Rightarrow> ret (-1) | Some n \<Rightarrow>
     bnd curproc (\<lambda>p.
     bnd (growproc (sint n)) (\<lambda>r.
     if r < 0 then ret (-1) else ret (sint (p_sz p)))))"

text \<open>
  The loop of \<open>sys_sleep\<close> with the tick it started at; the comparison with \<open>n\<close> is unsigned.
\<close>

definition sleep_until :: "u32 \<Rightarrow> u32 \<Rightarrow> ('m kproc_scheme, int) km" where
  "sleep_until n ticks0 =
     bnd (getk ticks) (\<lambda>t.
     if t - ticks0 < n then
       bnd curproc (\<lambda>p.
       if p_killed p then sq (release LK_ticks) (ret (-1))
       else sleep CH_ticks LK_ticks)
     else sq (release LK_ticks) (ret 0))"

definition sys_sleep :: "('m kproc_scheme, int) km" where
  "sys_sleep =
     bnd (argint 0) (\<lambda>r. case r of None \<Rightarrow> ret (-1) | Some n \<Rightarrow>
     sq (acquire LK_ticks)
    (bnd (getk ticks) (sleep_until n)))"

definition sys_uptime :: "('m kproc_scheme, int) km" where
  "sys_uptime =
     sq (acquire LK_ticks)
    (bnd (getk ticks) (\<lambda>x.
     sq (release LK_ticks)
        (ret (sint x))))"

section \<open>Users\<close>

definition home_path :: "bytes \<Rightarrow> bytes" where
  "home_path username = SLASH # cstr_of (strncpy_out (cptr username) USERNAME_MAXLEN)"

definition create_home_directory :: "bytes \<Rightarrow> u32 \<Rightarrow> ('m kproc_scheme, unit) km" where
  "create_home_directory username uid =
     sq begin_op
    (bnd (create (home_path username) T_DIR 0 0) (\<lambda>ipo.
     case ipo of
       None \<Rightarrow> end_op
     | Some ip \<Rightarrow>
         sq (set_mode DIR_MODE uid ip)
        (sq (iunlockput ip)
            end_op)))"

definition set_cwd_as_home_directory :: "bytes \<Rightarrow> ('m kproc_scheme, unit) km" where
  "set_cwd_as_home_directory username =
     sq begin_op
    (bnd (namei (if strncmp (cptr str_root) (cptr username) USERNAME_MAXLEN \<noteq> 0
                 then home_path username else [SLASH])) (\<lambda>ipo.
     case ipo of
       None \<Rightarrow> end_op
     | Some ip \<Rightarrow>
         sq (ilock ip)
        (bnd (getk (\<lambda>s. i_type (ino s ip))) (\<lambda>ty.
         if ty \<noteq> T_DIR then sq (iunlockput ip) end_op
         else
           sq (iunlock ip)
          (bnd curproc (\<lambda>p.
           sq (case p_cwd p of None \<Rightarrow> kpanic ''trap'' | Some cwd \<Rightarrow> iput cwd)
          (sq end_op
              (upd_curproc (\<lambda>p. p\<lparr>p_cwd := Some ip\<rparr>)))))))))"

definition sys_login :: "('m kproc_scheme, int) km" where
  "sys_login =
     bnd (argstr 0) (\<lambda>r. case r of None \<Rightarrow> ret (-1) | Some username \<Rightarrow>
     bnd (argstr 1) (\<lambda>r. case r of None \<Rightarrow> ret (-1) | Some passwd \<Rightarrow>
     bnd (getuid username passwd) (\<lambda>uid.
     if uid = 0 then ret (-1)
     else
       sq (set_cwd_as_home_directory username)
      (sq (change_user uid)
          (ret 0)))))"

definition sys_addUser :: "('m kproc_scheme, int) km" where
  "sys_addUser =
     bnd curproc (\<lambda>p.
     if p_uid p \<noteq> ROOT_UID then ret (-1)
     else
       bnd (argstr 0) (\<lambda>r. case r of None \<Rightarrow> ret (-1) | Some username \<Rightarrow>
       bnd (argstr 1) (\<lambda>r. case r of None \<Rightarrow> ret (-1) | Some passwd \<Rightarrow>
       bnd (add_user username passwd) (\<lambda>new_uid.
       if new_uid = 0 then ret (-1)
       else
         sq (create_home_directory username new_uid)
            (ret 0)))))"

definition sys_deleteUser :: "('m kproc_scheme, int) km" where
  "sys_deleteUser =
     bnd curproc (\<lambda>p.
     if p_uid p \<noteq> ROOT_UID then ret (-1)
     else
       bnd (argstr 0) (\<lambda>r. case r of None \<Rightarrow> ret (-1) | Some username \<Rightarrow>
       delete_user username))"

section \<open>Dispatch\<close>

definition syscalls :: "int \<Rightarrow> ('m kproc_scheme, int) km option" where
  "syscalls num =
     (if num = 1 then Some sys_fork else if num = 2 then Some sys_exit
      else if num = 3 then Some sys_wait else if num = 4 then Some sys_pipe
      else if num = 5 then Some sys_read else if num = 6 then Some sys_kill
      else if num = 7 then Some sys_exec else if num = 8 then Some sys_fstat
      else if num = 9 then Some sys_chdir else if num = 10 then Some sys_dup
      else if num = 11 then Some sys_getpid else if num = 12 then Some sys_sbrk
      else if num = 13 then Some sys_sleep else if num = 14 then Some sys_uptime
      else if num = 15 then Some sys_open else if num = 16 then Some sys_write
      else if num = 17 then Some sys_mknod else if num = 18 then Some sys_unlink
      else if num = 19 then Some sys_link else if num = 20 then Some sys_mkdir
      else if num = 21 then Some sys_close else if num = 22 then Some sys_login
      else if num = 23 then Some sys_addUser else if num = 24 then Some sys_deleteUser
      else if num = 25 then Some sys_chmod else None)"

definition set_eax :: "int \<Rightarrow> ('m kproc_scheme, unit) km" where
  "set_eax r = upd_curproc (\<lambda>p. p\<lparr>p_tf := (p_tf p)\<lparr>tf_eax := word_of_int r\<rparr>\<rparr>)"

definition syscall :: "('m kproc_scheme, unit) km" where
  "syscall =
     bnd curproc (\<lambda>p.
     let num = sint (tf_eax (p_tf p))
     in case syscalls num of
          Some f \<Rightarrow> bnd f set_eax
        | None \<Rightarrow>
            sq (cprintf (map of_char ''%d %s: unknown sys call %d'' @ [10])
                  [AWord (word_of_int (p_pid p)), AStr (Some (cstr_of (p_name p))), AWord (word_of_int num)])
               (set_eax (-1)))"

section \<open>Traps\<close>

definition T_SYSCALL :: u32 where "T_SYSCALL = 64"
definition T_IRQ0 :: u32 where "T_IRQ0 = 32"
definition IRQ_TIMER :: u32 where "IRQ_TIMER = 0"
definition IRQ_KBD :: u32 where "IRQ_KBD = 1"
definition IRQ_COM1 :: u32 where "IRQ_COM1 = 4"
definition IRQ_IDE :: u32 where "IRQ_IDE = 14"
definition IRQ_SPURIOUS :: u32 where "IRQ_SPURIOUS = 31"

definition exit_if_killed :: "('m kproc_scheme, unit) km" where
  "exit_if_killed = bnd curproc (\<lambda>p. if p_killed p then exit else ret ())"

definition clock_tick :: "('m kproc_scheme, unit) km" where
  "clock_tick =
     bnd (getk this_cpu) (\<lambda>c.
     whenk (c = 0)
       (sq (acquire LK_ticks)
       (sq (modk (\<lambda>s. s\<lparr>ticks := ticks s + 1\<rparr>))
       (sq (wakeup CH_ticks)
           (release LK_ticks)))))"

text \<open>\<open>consoleintr\<close>, with the process listing it may ask for.\<close>

definition console_input :: "int list \<Rightarrow> ('m kproc_scheme, unit) km" where
  "console_input cs = bnd (consoleintr cs) (\<lambda>dump. whenk dump procdump)"

definition kbdintr :: "u8 list \<Rightarrow> ('m ktrap_scheme, unit) km" where
  "kbdintr codes =
     bnd (getk (\<lambda>s. kbd_chars codes (kbd_shift s))) (\<lambda>(cs, shift).
     sq (modk (\<lambda>s. s\<lparr>kbd_shift := shift\<rparr>))
        (console_input cs))"

definition uartintr :: "u8 list \<Rightarrow> ('m kproc_scheme, unit) km" where
  "uartintr bs = console_input (map uint bs)"

definition unexpected_trap :: "trapframe \<Rightarrow> ('m kproc_scheme, unit) km" where
  "unexpected_trap tf =
     bnd (getk (\<lambda>s. (cur s, this_cpu s, cr2 s))) (\<lambda>(me, cpu, fault).
     if me = None \<or> tf_cs tf AND 3 = 0 then
       sq (cprintf (map of_char ''unexpected trap %d from cpu %d eip %x (cr2=0x%x)'' @ [10])
             [AWord (tf_trapno tf), AWord (of_nat cpu), AWord (tf_eip tf), AWord fault])
          (kpanic ''trap'')
     else
       bnd curproc (\<lambda>p.
       sq (cprintf (map of_char (''pid %d %s: trap %d err %d on cpu %d '' @
                                 ''eip 0x%x addr 0x%x--kill proc'') @ [10])
             [AWord (word_of_int (p_pid p)), AStr (Some (cstr_of (p_name p))), AWord (tf_trapno tf),
              AWord (tf_err tf), AWord (of_nat cpu), AWord (tf_eip tf), AWord fault])
          (upd_curproc (\<lambda>p. p\<lparr>p_killed := True\<rparr>))))"

definition handle_irq :: "trapframe \<Rightarrow> u8 list \<Rightarrow> ('m ktrap_scheme, unit) km" where
  "handle_irq tf inp =
     (let no = tf_trapno tf
      in if no = T_IRQ0 + IRQ_TIMER then clock_tick
         else if no = T_IRQ0 + IRQ_IDE then ret ()
         else if no = T_IRQ0 + IRQ_IDE + 1 then ret ()
         else if no = T_IRQ0 + IRQ_KBD then kbdintr inp
         else if no = T_IRQ0 + IRQ_COM1 then uartintr inp
         else if no = T_IRQ0 + 7 \<or> no = T_IRQ0 + IRQ_SPURIOUS then
           bnd (getk this_cpu) (\<lambda>c.
           cprintf (map of_char ''cpu%d: spurious interrupt at %x:%x'' @ [10])
             [AWord (of_nat c), AWord (ucast (tf_cs tf)), AWord (tf_eip tf)])
         else unexpected_trap tf)"

definition exit_to_user :: "trapframe \<Rightarrow> ('m kproc_scheme, unit) km" where
  "exit_to_user tf =
     bnd myproc (\<lambda>me.
     if me = None then ret ()
     else bnd curproc (\<lambda>p. if p_killed p \<and> tf_cs tf AND 3 = DPL_USER then exit else ret ()))"

definition trap_resume :: "trapframe \<Rightarrow> ('m kproc_scheme, unit) km" where
  "trap_resume tf = sq (release LK_ptable) (exit_to_user tf)"

definition trap :: "trapframe \<Rightarrow> u8 list \<Rightarrow> ('m ktrap_scheme, unit) km" where
  "trap tf inp =
     (if tf_trapno tf = T_SYSCALL then
        sq exit_if_killed
       (sq (upd_curproc (\<lambda>p. p\<lparr>p_tf := tf\<rparr>))
       (sq syscall
           exit_if_killed))
      else
        sq (handle_irq tf inp)
       (sq (exit_to_user tf)
       (bnd (getk (\<lambda>s. cur s \<noteq> None \<and> p_state (proc_at s) = RUNNING)) (\<lambda>run.
        if run \<and> tf_trapno tf = T_IRQ0 + IRQ_TIMER then yield
        else exit_to_user tf))))"

section \<open>Boot\<close>

text \<open>
  The order of initialisation on a machine with one CPU. Left out are the calls that only program
  interrupt controllers, the serial port and segment registers, and \<open>startothers\<close>, which does
  nothing there.
\<close>

definition main :: "('m kproc_scheme, unit) km" where
  "main =
     bnd (getk kend) (\<lambda>e.
     sq (kinit1 e (P2V (4 * 1024 * 1024)))
    (sq kvmalloc
    (sq consoleinit
    (sq binit
    (sq (kinit2 (P2V (4 * 1024 * 1024)) (P2V PHYSTOP))
    (sq userinit
    (bnd (getk this_cpu) (\<lambda>c.
     cprintf (map of_char ''cpu%d: starting %d'' @ [10]) [AWord (of_nat c), AWord (of_nat c)]))))))))"

end
