(* ===== verification/Blocks.thy ===== *)
theory Blocks
  imports Inode
begin

text \<open>
  The block allocator of \<open>fs.c\<close>. \<open>room k H s\<close> says that the running process is in a transaction
  that can still log \<open>k\<close> blocks, with the buffers in \<open>H\<close> checked out and no other process using the
  cache; under it every step returns. The lemmas give \<open>balloc\<close> and \<open>bfree\<close> their effect on
  the set of blocks in use and on the contents of the blocks.
\<close>

section \<open>Steps that return\<close>

definition room :: "nat \<Rightarrow> nat set \<Rightarrow> 'm klog_scheme \<Rightarrow> bool" where
  "room k H s \<longleftrightarrow> tx H s \<and> bquiet H s \<and> finite H \<and> 1 \<le> l_outstanding s \<and>
     l_n s + k + 3 \<le> LOGSIZE \<and> int (l_n s + k) < l_size s \<and> l_dev s = 1 \<and>
     (\<forall>bn\<in>set (log_blocks s). bn < disksize s \<and> bn \<notin> log_region s)"

definition unheld :: "nat set \<Rightarrow> u32 \<Rightarrow> 'm kbio_scheme \<Rightarrow> bool" where
  "unheld H bn s \<longleftrightarrow> (\<forall>i\<in>H. \<not> is_block 1 bn (buf_at s i))"

lemma unheld_empty [simp]: "unheld {} bn s"
  by (simp add: unheld_def)

lemma room_mono: "room k H s \<Longrightarrow> j \<le> k \<Longrightarrow> room j H s"
  by (auto simp: room_def)

lemma tx_l_n: "tx H s \<Longrightarrow> l_n s = length (log_blocks s)"
  by (simp add: tx_def log_blocks_def)

lemma card_dirty_tx: "tx H s \<Longrightarrow> card (dirty_blocks s) = l_n s"
  by (simp add: tx_def distinct_card log_blocks_def)

lemma lframe_room:
  assumes "lframe s t"
  shows "log_region t = log_region s" "l_outstanding t = l_outstanding s" "l_size t = l_size s"
    "l_dev t = l_dev s" "disksize t = disksize s"
  using assms by (simp_all add: lframe_def log_region_def bbase_def)

lemma room_bread:
  assumes "room k H s" "bn < disksize s" "unheld H bn s" "card H \<le> 2"
  shows "\<exists>b t. bread 1 bn s = Ok b t \<and> room k (insert b H) t"
proof -
  have tx: "tx H s" and q: "bquiet H s" and fin: "finite H" using assms(1) by (simp_all add: room_def)
  have "card (dirty_blocks s) + card H < NBUF"
    using assms(1,4) card_dirty_tx [OF tx] by (simp add: room_def NBUF_def LOGSIZE_def)
  then obtain b t where r: "bread 1 bn s = Ok b t" "bquiet (insert b H) t"
    using bread_total [OF tx_D [OF tx] q assms(2) fin] assms(3) by (auto simp: unheld_def)
  note t = tx_bread [OF tx r(1)]
  have "l_n t = l_n s" using t(1,8) tx by (simp add: tx_l_n)
  then show ?thesis using r t(1,8) assms(1) by (auto simp: room_def lframe_room [OF t(6)])
qed

lemma room_brelse:
  assumes "room k H s" "b \<in> H" "is_block 1 bn (buf_at s b)"
    and "b_dirty (buf_at s b) \<or> b_data (buf_at s b) = disk s bn"
  shows "\<exists>t. brelse b s = Ok () t \<and> room k (H - {b}) t"
proof -
  have tx: "tx H s" and q: "bquiet H s" using assms(1) by (simp_all add: room_def)
  obtain t where r: "brelse b s = Ok () t" "bquiet (H - {b}) t"
    using brelse_total [OF tx_D [OF tx] q assms(2)] by auto
  note t = tx_brelse [OF tx assms(2-4) r(1)]
  have "l_n t = l_n s" using t(1,5) tx by (simp add: tx_l_n)
  then show ?thesis using r t(1,5) assms(1) by (auto simp: room_def lframe_room [OF t(3)])
qed

lemma room_modify:
  assumes "room (Suc k) H s" "b \<in> H" "is_block 1 bn (buf_at s b)" "length d = BSIZE"
    and "bn < disksize s" "bn \<notin> log_region s"
  shows "\<exists>t. sq (set_bdata b d) (log_write b) s = Ok () t \<and> room k H t"
proof -
  have tx: "tx H s" and q: "bquiet H s" using assms(1) by (simp_all add: room_def)
  define u where "u = upd_buf b (b_data_update (\<lambda>_. d)) s"
  have m: "kbio.more u = kbio.more s" by (simp add: u_def)
  have "in_trans u" using assms(1) by (simp add: more_klog [OF m] in_trans_def room_def)
  moreover have "running u" using tx_D(1) [OF tx] by (simp add: u_def)
  ultimately have w: "log_write b u = Ok () (log_write_effect b u)" by (intro log_write_run) simp_all
  have r: "sq (set_bdata b d) (log_write b) s = Ok () (log_write_effect b u)"
    using w by (simp add: set_bdata_def sq_Ok u_def)
  note t = tx_modify [OF tx assms(2-4) r]
  have "bquiet H u" using q by (auto simp: u_def intro: bquiet_upd)
  then have "bquiet H (log_write_effect b u)"
    unfolding log_write_effect_def Let_def
    by (intro bquiet_upd) (simp_all add: bquiet_def buf_at_def)
  moreover have "l_n (log_write_effect b u) \<le> Suc (l_n s)"
    unfolding tx_l_n [OF t(1)] tx_l_n [OF tx] t(5) by (simp add: log_add_def)
  moreover have "set (log_blocks (log_write_effect b u)) \<subseteq> insert bn (set (log_blocks s))"
    by (auto simp: t(5) log_add_def)
  ultimately show ?thesis using r t(1) assms(1,5,6) more_klog [OF m]
    by (auto simp: room_def lframe_room [OF t(3)])
qed

text \<open>Reading a block, and replacing its contents, as the file system code does it.\<close>

lemma read_block:
  assumes "room k H s" "bn < disksize s" "unheld H bn s" "card H \<le> 2"
  obtains b u t where "bread 1 bn s = Ok b u" "bdata b u = Ok (view s bn) u" "brelse b u = Ok () t"
    "room k H t" "view t = view s" "lframe s t" "\<forall>i\<in>H. buf_at t i = buf_at s i" "b \<notin> H"
proof -
  obtain b u where r: "bread 1 bn s = Ok b u" "room k (insert b H) u"
    using room_bread [OF assms] by blast
  have tx: "tx H s" using assms(1) by (simp add: room_def)
  note b = tx_bread [OF tx r(1)]
  obtain t where t: "brelse b u = Ok () t" "room k (insert b H - {b}) t"
    using room_brelse [OF r(2) insertI1 b(3,9)] by blast
  note a = tx_read [OF tx r(1) t(1)]
  have "insert b H - {b} = H" using b(2) by auto
  with r t a b show thesis by (intro that [of b u t]) (simp_all add: bdata_def)
qed

lemma modify_block:
  assumes "room (Suc k) H s" "bn < disksize s" "unheld H bn s" "card H \<le> 2" "bn \<notin> log_region s" "length d = BSIZE"
  obtains b u v t where "bread 1 bn s = Ok b u" "bdata b u = Ok (view s bn) u"
    "sq (set_bdata b d) (log_write b) u = Ok () v" "brelse b v = Ok () t"
    "room k H t" "view t = (view s)(bn := d)" "lframe s t" "\<forall>i\<in>H. buf_at t i = buf_at s i"
proof -
  obtain b u where r: "bread 1 bn s = Ok b u" "room (Suc k) (insert b H) u"
    using room_bread [OF assms(1-4)] by blast
  have tx: "tx H s" using assms(1) by (simp add: room_def)
  note b = tx_bread [OF tx r(1)]
  obtain v where v: "sq (set_bdata b d) (log_write b) u = Ok () v" "room k (insert b H) v"
    using room_modify [OF r(2) insertI1 b(3) assms(6)] assms(2,5) by (auto simp: lframe_room [OF b(6)])
  note w = tx_modify [OF b(1) insertI1 b(3) assms(6) v(1)]
  have blk: "is_block 1 bn (buf_at v b)" and dirty: "b_dirty (buf_at v b) \<or> b_data (buf_at v b) = disk v bn"
    using b(3) by (simp_all add: w(4) is_block_def)
  obtain t where t: "brelse b v = Ok () t" "room k (insert b H - {b}) t"
    using room_brelse [OF v(2) insertI1 blk dirty] by blast
  note e = tx_brelse [OF w(1) insertI1 blk dirty t(1)]
  have H: "insert b H - {b} = H" using b(2) by auto
  have "buf_at t i = buf_at s i" if "i \<in> H" for i
  proof -
    have "i \<noteq> b" using that b(2) by auto
    then show ?thesis using b(7) [of i] e(4) [of i] w(4) [of i] by simp
  qed
  moreover have "lframe s t" using b(6) w(3) e(3) by (blast intro: lframe_trans)
  moreover have "view t = (view s)(bn := d)" using e(2) w(2) b(5) by simp
  ultimately show thesis using r v t b(4) H by (intro that [of b u v t]) (simp_all add: bdata_def)
qed

lemma unheld_same: "(\<And>i. i \<in> H \<Longrightarrow> buf_at t i = buf_at s i) \<Longrightarrow> unheld H bn t = unheld H bn s"
  by (auto simp: unheld_def)

section \<open>The bitmap\<close>

lemma bm_length [simp]: "length (bm_set d i) = length d" "length (bm_clear d i) = length d"
  by (simp_all add: bm_set_def bm_clear_def)

lemma bm_test_set: "i div 8 < length d \<Longrightarrow> bm_test (bm_set d i) j \<longleftrightarrow> i = j \<or> bm_test d j"
  by (auto simp: bm_test_def bm_set_def nth_list_update bit_set_bit_iff div_mod_decomp [symmetric])
     (metis div_mod_decomp)+

lemma bm_test_clear: "i div 8 < length d \<Longrightarrow> bm_test (bm_clear d i) j \<longleftrightarrow> i \<noteq> j \<and> bm_test d j"
  by (auto simp: bm_test_def bm_clear_def nth_list_update bit_unset_bit_iff)
     (metis div_mod_decomp)+

lemma BPB_pos [simp]: "0 < BPB"
  by (simp add: BPB_def BSIZE_def)

lemma more_kino:
  fixes s t :: "'m kino_scheme"
  assumes "lframe s t"
  shows "fs_sb t = fs_sb s" "icache t = icache s" "kino.more t = kino.more s" "disksize t = disksize s"
    "log_region t = log_region s"
  using assms by (cases s, cases t, simp add: lframe_def bbase_def log_region_def)+

text \<open>The blocks the bitmap marks as used.\<close>

definition used :: "'m kino_scheme \<Rightarrow> nat \<Rightarrow> bool" where
  "used s b \<longleftrightarrow> bm_test (view s (BBLOCK b (fs_sb s))) (b mod BPB)"

definition fs_size :: "'m kino_scheme \<Rightarrow> nat" where
  "fs_size s = unat (sb_size (fs_sb s))"

text \<open>
  The file system lies on the disk, its bitmap blocks and the blocks of the log are marked as used, and
  the two do not overlap.
\<close>

definition bitmap_ok :: "'m kino_scheme \<Rightarrow> bool" where
  "bitmap_ok s \<longleftrightarrow> sb_size (fs_sb s) \<le> disksize s \<and>
     (\<forall>b<fs_size s. unat (BBLOCK b (fs_sb s)) < fs_size s \<and> used s (unat (BBLOCK b (fs_sb s))) \<and>
        BBLOCK b (fs_sb s) \<notin> log_region s) \<and>
     (\<forall>bn\<in>log_region s. unat bn < fs_size s \<and> used s (unat bn))"

lemma BBLOCK_eq:
  assumes "b < 2 ^ 32" "c < 2 ^ 32"
  shows "BBLOCK b sb = BBLOCK c sb \<longleftrightarrow> b div BPB = c div BPB"
proof -
  have "b div BPB < 2 ^ 32" "c div BPB < 2 ^ 32"
    using assms by (meson div_le_dividend le_less_trans)+
  then show ?thesis using of_nat_inj32 [of "b div BPB" "c div BPB"] by (simp add: BBLOCK_def)
qed

lemma fs_size_bound: "b < fs_size s \<Longrightarrow> b < 2 ^ 32"
proof -
  have "unat (sb_size (fs_sb s)) < 2 ^ LENGTH(32)" by (rule unsigned_less)
  then show "b < fs_size s \<Longrightarrow> b < 2 ^ 32" by (simp add: fs_size_def)
qed

lemma of_nat_disk:
  assumes "bitmap_ok s" "b < fs_size s"
  shows "(of_nat b :: u32) < disksize s"
  using assms fs_size_bound [OF assms(2)]
  by (simp add: bitmap_ok_def fs_size_def word_less_nat_alt word_le_nat_alt unat_of_nat)

lemma BBLOCK_disk:
  assumes "bitmap_ok s" "b < fs_size s"
  shows "BBLOCK b (fs_sb s) < disksize s" "BBLOCK b (fs_sb s) \<notin> log_region s"
  using assms by (auto simp: bitmap_ok_def fs_size_def word_less_nat_alt word_le_nat_alt)

section \<open>Allocation\<close>

definition held_used :: "nat set \<Rightarrow> 'm kino_scheme \<Rightarrow> bool" where
  "held_used H s \<longleftrightarrow> (\<forall>i\<in>H. used s (unat (b_blockno (buf_at s i)))) \<and>
     (\<forall>b<fs_size s. unheld H (BBLOCK b (fs_sb s)) s)"

lemma held_used_empty [simp]: "held_used {} s"
  by (simp add: held_used_def)

definition take_block :: "nat \<Rightarrow> 'm kino_scheme \<Rightarrow> u32 \<Rightarrow> bytes" where
  "take_block b s = (view s)(BBLOCK b (fs_sb s) := bm_set (view s (BBLOCK b (fs_sb s))) (b mod BPB),
     of_nat b := replicate BSIZE 0)"

lemma bzero_run:
  assumes "room (Suc k) H s" "bn < disksize s" "unheld H bn s" "card H \<le> 2" "bn \<notin> log_region s"
  shows "\<exists>t. bzero 1 bn s = Ok () t \<and> room k H t \<and> view t = (view s)(bn := replicate BSIZE 0) \<and>
    lframe s t \<and> (\<forall>i\<in>H. buf_at t i = buf_at s i)"
proof -
  obtain b u v t where r: "bread 1 bn s = Ok b u" "bdata b u = Ok (view s bn) u"
    "sq (set_bdata b (replicate BSIZE 0)) (log_write b) u = Ok () v" "brelse b v = Ok () t"
    and t: "room k H t" "view t = (view s)(bn := replicate BSIZE 0)" "lframe s t"
    "\<forall>i\<in>H. buf_at t i = buf_at s i"
    using modify_block [OF assms length_replicate] by metis
  have "bzero 1 bn s = Ok () t" using r by (simp add: bzero_def bnd_Ok sq_Ok)
  with t show ?thesis by blast
qed

lemma room_view_length:
  fixes s :: "'m klog_scheme"
  shows "room k H s \<Longrightarrow> length (view s bn) = BSIZE"
  using view_length by (auto simp: room_def tx_def)

lemma balloc_found:
  assumes r: "room (Suc (Suc k)) H s" "card H \<le> 2" "bitmap_ok s" "held_used H s"
    and b: "b + bi < fs_size s" "b mod BPB = 0" "bi < BPB" "\<not> used s (b + bi)"
    and f: "find (\<lambda>bi. \<not> bm_test (view s (BBLOCK b (fs_sb s))) bi) [0..<min BPB (fs_size s - b)] = Some bi"
  shows "\<exists>t. balloc_from (b # bs) 1 s = Ok (of_nat (b + bi)) t \<and> room k H t \<and>
    view t = take_block (b + bi) s \<and> lframe s t \<and> (\<forall>i\<in>H. buf_at t i = buf_at s i)"
proof -
  let ?B = "BBLOCK b (fs_sb s)" and ?n = "b + bi"
  have eq: "BBLOCK ?n (fs_sb s) = ?B" "?n mod BPB = bi"
    using b(2,3) by (auto simp: BBLOCK_def div_add1_eq [of b] mod_add_eq [symmetric, of b])
  have un: "unheld H ?B s" and dsk: "?B < disksize s" and len: "length (bm_set (view s ?B) bi) = BSIZE"
    using r(4) b(1) BBLOCK_disk(1) [OF r(3), of b] room_view_length [OF r(1)] by (simp_all add: held_used_def)
  obtain p u v w where m: "bread 1 ?B s = Ok p u" "bdata p u = Ok (view s ?B) u"
    "sq (set_bdata p (bm_set (view s ?B) bi)) (log_write p) u = Ok () v" "brelse p v = Ok () w"
    and w: "room (Suc k) H w" "view w = (view s)(?B := bm_set (view s ?B) bi)" "lframe s w"
    "\<forall>i\<in>H. buf_at w i = buf_at s i"
    using modify_block [OF r(1) dsk un r(2) BBLOCK_disk(2) [OF r(3)] len] b(1) by (metis add_lessD1)
  have "unheld H (of_nat ?n) w"
  proof -
    have "b_blockno (buf_at s i) \<noteq> of_nat ?n" if "i \<in> H" for i
      using that r(4) b(4) unat_of_nat32 [OF fs_size_bound [OF b(1)]] by (auto simp: held_used_def)
    then show ?thesis by (auto simp: unheld_def is_block_def w(4))
  qed
  moreover have "of_nat ?n < disksize w" using of_nat_disk [OF r(3) b(1)] more_kino(4) [OF w(3)] by simp
  moreover have "of_nat ?n \<notin> log_region w"
    using r(3) b(1,4) unat_of_nat32 [OF fs_size_bound [OF b(1)]] by (auto simp: bitmap_ok_def more_kino(5) [OF w(3)])
  ultimately obtain t where t: "bzero 1 (of_nat ?n) w = Ok () t" "room k H t"
      "view t = (view w)(of_nat ?n := replicate BSIZE 0)" "lframe w t" "\<forall>i\<in>H. buf_at t i = buf_at w i"
    using bzero_run [OF w(1) _ _ r(2)] by blast
  have "balloc_from (b # bs) 1 s = Ok (of_nat ?n) t"
    using f m t(1) by (simp add: bnd_Ok sq_Ok fs_size_def del: of_nat_add)
  then show ?thesis
    using t w by (intro exI [of _ t]) (auto simp: take_block_def eq intro: lframe_trans)
qed

lemma same_view:
  assumes "lframe s t" "view t = view s"
  shows "used t = used s" "fs_size t = fs_size s" "bitmap_ok t = bitmap_ok s"
    "take_block b t = take_block b s"
  by (simp_all add: used_def [abs_def] fs_size_def bitmap_ok_def take_block_def more_kino [OF assms(1)] assms(2))

lemma same_held_used:
  assumes "lframe s t" "view t = view s" "\<forall>i\<in>H. buf_at t i = buf_at s i"
  shows "held_used H t = held_used H s"
  using assms(3) by (auto simp: held_used_def same_view [OF assms(1,2)] more_kino [OF assms(1)] unheld_def)

lemma used_in_block:
  assumes "b mod BPB = 0" "bi < BPB"
  shows "used s (b + bi) \<longleftrightarrow> bm_test (view s (BBLOCK b (fs_sb s))) bi"
proof -
  have "(b + bi) div BPB = b div BPB" "(b + bi) mod BPB = bi"
    using assms by (simp_all add: div_add1_eq [of b] mod_add_eq [symmetric, of b])
  then show ?thesis by (simp add: used_def BBLOCK_def)
qed

lemma find_upt_Some:
  assumes "find P [0..<n] = Some i"
  shows "i < n" "P i" "\<forall>j<i. \<not> P j"
  using assms by (auto simp: find_Some_iff)

lemma balloc_scan:
  assumes "room (Suc (Suc k)) H s" "card H \<le> 2" "bitmap_ok s" "held_used H s"
    and "\<forall>b<j * BPB. b < fs_size s \<longrightarrow> used s b" "\<exists>b<fs_size s. \<not> used s b"
    and "j + d = (fs_size s + BPB - 1) div BPB"
  shows "\<exists>b t. balloc_from (map (\<lambda>k. k * BPB) [j..<j + d]) 1 s = Ok (of_nat b) t \<and> b < fs_size s \<and>
    \<not> used s b \<and> (\<forall>c<b. used s c) \<and> room k H t \<and> view t = take_block b s \<and> lframe s t \<and>
    (\<forall>i\<in>H. buf_at t i = buf_at s i)"
  using assms
proof (induction d arbitrary: j s)
  case 0
  have "fs_size s \<le> j * BPB"
  proof -
    have "fs_size s + BPB - 1 < (j + 1) * BPB" using 0(7) by (metis BPB_pos add.right_neutral div_less_iff_less_mult less_add_one)
    then show ?thesis by simp
  qed
  with 0 show ?case by auto
next
  case (Suc d)
  let ?b = "j * BPB" and ?B = "BBLOCK (j * BPB) (fs_sb s)" and ?r = "map (\<lambda>k. k * BPB) [Suc j..<Suc j + d]"
  let ?f = "find (\<lambda>bi. \<not> bm_test (view s ?B) bi) [0..<min BPB (fs_size s - ?b)]"
  have list: "map (\<lambda>k. k * BPB) [j..<j + Suc d] = ?b # ?r" by (simp add: upt_rec [of j])
  have lt: "?b < fs_size s"
  proof (rule ccontr)
    assume "\<not> ?b < fs_size s"
    then have "fs_size s + BPB - 1 < (j + 1) * BPB" by (simp add: less_diff_conv2 Suc_le_eq)
    then have "(fs_size s + BPB - 1) div BPB < j + 1" by (simp add: div_less_iff_less_mult)
    with Suc(8) show False by simp
  qed
  show ?case
  proof (cases ?f)
    case (Some bi)
    note f = find_upt_Some [OF Some]
    have lb: "?b + bi < fs_size s" "bi < BPB" using f(1) by auto
    have u: "\<not> used s (?b + bi)" "\<forall>c<?b + bi. used s c"
    proof -
      show "\<not> used s (?b + bi)" using f used_in_block [of ?b bi s] by simp
      show "\<forall>c<?b + bi. used s c"
      proof (intro allI impI)
        fix c assume "c < ?b + bi"
        then consider "c < ?b" | i where "c = ?b + i" "i < bi" by (metis le_Suc_ex add_less_cancel_left not_le)
        then show "used s c" using Suc(6) f lb used_in_block [of ?b _ s] by cases auto
      qed
    qed
    with balloc_found [OF Suc(2-5) lb(1) _ lb(2) u(1) Some] u lb(1) show ?thesis
      unfolding list by (metis mod_mult_self2_is_0)
  next
    case None
    have un: "unheld H ?B s" using Suc(5) lt by (simp add: held_used_def)
    obtain p u t where m: "bread 1 ?B s = Ok p u" "bdata p u = Ok (view s ?B) u" "brelse p u = Ok () t"
      and t: "room (Suc (Suc k)) H t" "view t = view s" "lframe s t" "\<forall>i\<in>H. buf_at t i = buf_at s i"
      using read_block [OF Suc(2) BBLOCK_disk(1) [OF Suc(4) lt] un Suc(3)] by metis
    note sv = same_view [OF t(3,2)]
    have step: "balloc_from (?b # ?r) 1 s = balloc_from ?r 1 t"
      using m None by (simp add: bnd_Ok sq_Ok fs_size_def)
    have "\<forall>b<Suc j * BPB. b < fs_size t \<longrightarrow> used t b"
    proof (intro allI impI)
      fix c assume c: "c < Suc j * BPB" "c < fs_size t"
      show "used t c"
      proof (cases "c < ?b")
        case True
        then show ?thesis using Suc(6) c(2) by (simp add: sv)
      next
        case False
        then have i: "c - ?b < BPB" "c - ?b < fs_size s - ?b" using c by (auto simp: sv)
        then have "bm_test (view s ?B) (c - ?b)" using None by (auto simp: find_None_iff)
        then show ?thesis using used_in_block [of ?b "c - ?b" s] i(1) False by (simp add: sv)
      qed
    qed
    moreover have "bitmap_ok t" "held_used H t" "\<exists>b<fs_size t. \<not> used t b"
      "Suc j + d = (fs_size t + BPB - 1) div BPB"
      using Suc(4,5,7,8) same_held_used [OF t(3,2,4)] by (simp_all add: sv)
    ultimately obtain b w where w: "balloc_from ?r 1 t = Ok (of_nat b) w" "b < fs_size t" "\<not> used t b"
      "\<forall>c<b. used t c" "room k H w" "view w = take_block b t" "lframe t w" "\<forall>i\<in>H. buf_at w i = buf_at t i"
      using Suc.IH [OF t(1) Suc(3)] by blast
    show ?thesis unfolding list step
      using w t(4) lframe_trans [OF t(3) w(7)] by (intro exI [of _ b] exI [of _ w]) (simp add: sv)
  qed
qed

lemma balloc_run:
  assumes "room (Suc (Suc k)) H s" "card H \<le> 2" "bitmap_ok s" "held_used H s" "\<exists>b<fs_size s. \<not> used s b"
  shows "\<exists>b t. balloc 1 s = Ok (of_nat b) t \<and> b < fs_size s \<and> \<not> used s b \<and> (\<forall>c<b. used s c) \<and>
    room k H t \<and> view t = take_block b s \<and> lframe s t \<and> (\<forall>i\<in>H. buf_at t i = buf_at s i)"
  using balloc_scan [OF assms(1-4) _ assms(5), of 0 "(fs_size s + BPB - 1) div BPB"]
  by (simp add: balloc_def bitmap_starts_def fs_size_def)

lemma div_mod_eqI: "c div n = b div n \<Longrightarrow> c mod n = b mod n \<Longrightarrow> c = (b :: nat)"
  by (metis div_mult_mod_eq)

lemma used_take:
  assumes "bitmap_ok s" "\<forall>bn. length (view s bn) = BSIZE" "b < fs_size s" "\<not> used s b"
    and "fs_sb t = fs_sb s" "\<forall>c<fs_size s. view t (BBLOCK c (fs_sb s)) = take_block b s (BBLOCK c (fs_sb s))"
    and "c < fs_size s"
  shows "used t c \<longleftrightarrow> c = b \<or> used s c"
proof -
  let ?C = "BBLOCK c (fs_sb s)" and ?B = "BBLOCK b (fs_sb s)"
  have n: "?C \<noteq> of_nat b" "?B \<noteq> of_nat b"
    using assms unat_of_nat32 [OF fs_size_bound [OF assms(3)]] by (auto simp: bitmap_ok_def)
  have "b mod BPB div 8 < length (view s ?B)"
    using assms(2) mod_less_divisor [OF BPB_pos, of b] by (simp add: BPB_def less_mult_imp_div_less)
  note t = bm_test_set [OF this, of "c mod BPB"]
  have blk: "?C = ?B \<longleftrightarrow> c div BPB = b div BPB"
    using BBLOCK_eq fs_size_bound assms(3,7) by blast
  have uc: "used t c \<longleftrightarrow> bm_test (if ?C = ?B then bm_set (view s ?B) (b mod BPB) else view s ?C) (c mod BPB)"
    using n assms(6,7) by (simp add: used_def assms(5) take_block_def)
  show ?thesis
  proof (cases "?C = ?B")
    case True
    then have "c = b \<longleftrightarrow> b mod BPB = c mod BPB" using blk div_mod_eqI by metis
    with True t uc show ?thesis by (simp add: used_def)
  next
    case False
    then show ?thesis using blk uc by (auto simp: used_def)
  qed
qed

lemma bitmap_ok_take:
  assumes "bitmap_ok s" "\<forall>bn. length (view s bn) = BSIZE" "b < fs_size s" "\<not> used s b"
    and "fs_sb t = fs_sb s" "\<forall>c<fs_size s. view t (BBLOCK c (fs_sb s)) = take_block b s (BBLOCK c (fs_sb s))"
    and "disksize t = disksize s" "log_region t = log_region s"
  shows "bitmap_ok t"
  using assms(1) used_take [OF assms(1-6)]
  by (auto simp: bitmap_ok_def fs_size_def assms(5,7,8))

definition give_block :: "nat \<Rightarrow> 'm kino_scheme \<Rightarrow> u32 \<Rightarrow> bytes" where
  "give_block b s =
     (view s)(BBLOCK b (fs_sb s) := bm_clear (view s (BBLOCK b (fs_sb s))) (b mod BPB))"

lemma bfree_run:
  assumes "room (Suc k) H s" "card H \<le> 2" "bitmap_ok s" "unheld H (BBLOCK (unat b) (fs_sb s)) s"
    and "unat b < fs_size s" "used s (unat b)"
  shows "\<exists>t. bfree 1 b s = Ok () t \<and> room k H t \<and> view t = give_block (unat b) s \<and> lframe s t \<and>
    (\<forall>i\<in>H. buf_at t i = buf_at s i)"
proof -
  let ?B = "BBLOCK (unat b) (fs_sb s)" and ?bi = "unat b mod BPB"
  have "length (bm_clear (view s ?B) ?bi) = BSIZE" using room_view_length [OF assms(1)] by simp
  then obtain p u v t where m: "bread 1 ?B s = Ok p u" "bdata p u = Ok (view s ?B) u"
    "sq (set_bdata p (bm_clear (view s ?B) ?bi)) (log_write p) u = Ok () v" "brelse p v = Ok () t"
    and t: "room k H t" "view t = (view s)(?B := bm_clear (view s ?B) ?bi)" "lframe s t"
      "\<forall>i\<in>H. buf_at t i = buf_at s i"
    using modify_block [OF assms(1) BBLOCK_disk(1) [OF assms(3,5)] assms(4,2) BBLOCK_disk(2) [OF assms(3,5)]] by metis
  have "bfree 1 b s = Ok () t"
    using m assms(6) by (simp add: bfree_def bnd_Ok sq_Ok used_def Let_def)
  with t show ?thesis by (simp add: give_block_def)
qed

lemma used_give:
  assumes "\<forall>bn. length (view s bn) = BSIZE" "b < 2 ^ 32" "c < 2 ^ 32"
    and "lframe s t" "view t = give_block b s"
  shows "used t c \<longleftrightarrow> c \<noteq> b \<and> used s c"
proof -
  let ?C = "BBLOCK c (fs_sb s)" and ?B = "BBLOCK b (fs_sb s)"
  have "b mod BPB div 8 < length (view s ?B)"
    using assms(1) mod_less_divisor [OF BPB_pos, of b] by (simp add: BPB_def less_mult_imp_div_less)
  note t = bm_test_clear [OF this, of "c mod BPB"]
  have blk: "?C = ?B \<longleftrightarrow> c div BPB = b div BPB" by (rule BBLOCK_eq [OF assms(3,2)])
  have uc: "used t c \<longleftrightarrow> bm_test (if ?C = ?B then bm_clear (view s ?B) (b mod BPB) else view s ?C) (c mod BPB)"
    by (simp add: used_def more_kino [OF assms(4)] assms(5) give_block_def)
  show ?thesis
  proof (cases "?C = ?B")
    case True
    then have "c = b \<longleftrightarrow> b mod BPB = c mod BPB" using blk div_mod_eqI by metis
    with True t uc show ?thesis by (auto simp: used_def)
  next
    case False
    then show ?thesis using blk uc by (auto simp: used_def)
  qed
qed

lemma bfree_free_panics:
  assumes "room k H s" "card H \<le> 2" "bitmap_ok s" "unheld H (BBLOCK (unat b) (fs_sb s)) s"
    and "unat b < fs_size s" "\<not> used s (unat b)"
  shows "bfree 1 b s = Panic ''freeing free block''"
proof -
  let ?B = "BBLOCK (unat b) (fs_sb s)"
  obtain p u where "bread 1 ?B s = Ok p u" "bdata p u = Ok (view s ?B) u"
    using read_block [OF assms(1) BBLOCK_disk(1) [OF assms(3,5)] assms(4,2)] by metis
  with assms(6) show ?thesis by (simp add: bfree_def bnd_Ok used_def Let_def)
qed

section \<open>The interface of the allocator\<close>

text \<open>
  What the rest of the file system relies on: a client that allocates blocks gets blocks that were
  free, each of them once and filled with zeros, and the contents of the blocks in use stay.
\<close>

locale block_allocator =
  fixes ready :: "nat \<Rightarrow> 's \<Rightarrow> bool"
    and free :: "'s \<Rightarrow> nat set"
    and data :: "'s \<Rightarrow> nat set"
    and content :: "'s \<Rightarrow> nat \<Rightarrow> bytes"
    and alloc :: "('s, u32) km"
    and dealloc :: "u32 \<Rightarrow> ('s, unit) km"
  assumes free_data: "ready k s \<Longrightarrow> free s \<subseteq> data s \<and> finite (free s) \<and> (\<forall>b\<in>data s. b < 2 ^ 32)"
    and alloc_ok: "ready (k + 2) s \<Longrightarrow> free s \<noteq> {} \<Longrightarrow>
          \<exists>b t. alloc s = Ok (of_nat b) t \<and> ready k t \<and> data t = data s \<and> b \<in> free s \<and>
            free t = free s - {b} \<and> content t b = replicate BSIZE 0 \<and>
            (\<forall>c\<in>data s. c \<noteq> b \<longrightarrow> content t c = content s c)"
    and dealloc_ok: "ready (k + 1) s \<Longrightarrow> b \<in> data s \<Longrightarrow> b \<notin> free s \<Longrightarrow>
          \<exists>t. dealloc (of_nat b) s = Ok () t \<and> ready k t \<and> data t = data s \<and>
            free t = insert b (free s) \<and> (\<forall>c\<in>data s. content t c = content s c)"
    and dealloc_free: "ready k s \<Longrightarrow> b \<in> free s \<Longrightarrow> dealloc (of_nat b) s = Panic ''freeing free block''"
begin

primrec alloc_many :: "nat \<Rightarrow> ('s, u32 list) km" where
  "alloc_many 0 = ret []"
| "alloc_many (Suc n) = bnd alloc (\<lambda>b. bnd (alloc_many n) (\<lambda>bs. ret (b # bs)))"

lemma alloc_many_distinct:
  assumes "ready (2 * n + k) s" "n \<le> card (free s)"
  shows "\<exists>bs t. alloc_many n s = Ok (map of_nat bs) t \<and> ready k t \<and> data t = data s \<and> length bs = n \<and>
    distinct bs \<and> set bs \<subseteq> free s \<and> free t = free s - set bs \<and>
    (\<forall>b\<in>set bs. content t b = replicate BSIZE 0) \<and>
    (\<forall>c\<in>data s - set bs. content t c = content s c)"
  using assms
proof (induction n arbitrary: s)
  case 0
  then show ?case by (intro exI [of _ "[]"] exI [of _ s]) simp
next
  case (Suc n)
  have "ready (2 * n + k + 2) s" using Suc.prems(1) by (simp add: ac_simps)
  moreover have "free s \<noteq> {}" using Suc.prems(2) by auto
  ultimately obtain b u where u: "alloc s = Ok (of_nat b) u" "ready (2 * n + k) u" "data u = data s"
      "b \<in> free s" "free u = free s - {b}" "content u b = replicate BSIZE 0"
      "\<forall>c\<in>data s. c \<noteq> b \<longrightarrow> content u c = content s c"
    using alloc_ok by blast
  have fd: "free s \<subseteq> data s" "finite (free s)" using free_data [OF Suc.prems(1)] by simp_all
  have "n \<le> card (free u)" using Suc.prems(2) u(4,5) fd by (simp add: card_Diff_singleton)
  then obtain bs t where t: "alloc_many n u = Ok (map of_nat bs) t" "ready k t" "data t = data u"
      "length bs = n" "distinct bs" "set bs \<subseteq> free u" "free t = free u - set bs"
      "\<forall>b\<in>set bs. content t b = replicate BSIZE 0" "\<forall>c\<in>data u - set bs. content t c = content u c"
    using Suc.IH [OF u(2)] by blast
  have "b \<in> data u - set bs" using t(6) u(3-5) fd(1) by auto
  then have "content t b = replicate BSIZE 0" using t(9) u(6) by simp
  moreover have "\<forall>c\<in>data s - set (b # bs). content t c = content s c"
  proof
    fix c assume "c \<in> data s - set (b # bs)"
    then have "c \<in> data u - set bs" "c \<in> data s" "c \<noteq> b" by (simp_all add: u(3))
    then show "content t c = content s c" using t(9) u(7) by simp
  qed
  moreover have "alloc_many (Suc n) s = Ok (map of_nat (b # bs)) t" by (simp add: bnd_Ok u(1) t(1))
  moreover have "b \<notin> set bs" "set bs \<subseteq> free s" using t(6) unfolding u(5) by auto
  moreover have "free t = free s - set (b # bs)" unfolding t(7) u(5) by auto
  ultimately show ?case
    using t(2-5,8) u(3,4) by (intro exI [of _ "b # bs"] exI [of _ t]) simp
qed

lemma alloc_dealloc:
  assumes "ready (k + 3) s" "free s \<noteq> {}"
  shows "\<exists>t. bnd alloc dealloc s = Ok () t \<and> ready k t \<and> free t = free s \<and>
    (\<forall>c\<in>data s - free s. content t c = content s c)"
proof -
  have "ready (k + 1 + 2) s" using assms(1) by (simp add: numeral_3_eq_3 numeral_2_eq_2)
  from alloc_ok [OF this assms(2)] obtain b u where u: "alloc s = Ok (of_nat b) u" "ready (k + 1) u"
      "data u = data s" "b \<in> free s" "free u = free s - {b}"
      "\<forall>c\<in>data s. c \<noteq> b \<longrightarrow> content u c = content s c" by blast
  have fd: "free s \<subseteq> data s" using free_data [OF assms(1)] by simp
  have b: "b \<in> data u" "b \<notin> free u" using u(3-5) fd by auto
  obtain t where t: "dealloc (of_nat b) u = Ok () t" "ready k t" "free t = insert b (free u)"
      "\<forall>c\<in>data u. content t c = content u c"
    using dealloc_ok [OF u(2) b] by blast
  have "content t c = content s c" if "c \<in> data s - free s" for c
  proof -
    have "c \<in> data s" "c \<noteq> b" using that u(4) by auto
    then show ?thesis using t(4) u(3,6) by simp
  qed
  moreover have "free t = free s" using t(3) u(4,5) by auto
  ultimately show ?thesis using t(1,2) u(1) by (intro exI [of _ t]) (simp add: bnd_Ok)
qed

end

definition fs_ready :: "nat \<Rightarrow> 'm kino_scheme \<Rightarrow> bool" where
  "fs_ready k s \<longleftrightarrow> room k {} s \<and> bitmap_ok s"

definition free_blocks :: "'m kino_scheme \<Rightarrow> nat set" where
  "free_blocks s = {b. b < fs_size s \<and> \<not> used s b}"

definition data_blocks :: "'m kino_scheme \<Rightarrow> nat set" where
  "data_blocks s = {b. b < fs_size s \<and> of_nat b \<notin> log_region s \<and> (\<forall>c<fs_size s. of_nat b \<noteq> BBLOCK c (fs_sb s))}"

lemma fs_ready_length: "fs_ready k s \<Longrightarrow> \<forall>bn. length (view s bn) = BSIZE"
  using room_view_length by (auto simp: fs_ready_def)

lemma unat_data: "b \<in> data_blocks s \<Longrightarrow> unat (of_nat b :: u32) = b"
  using fs_size_bound [of b s] by (simp add: data_blocks_def unat_of_nat)

lemma free_in_data: "bitmap_ok s \<Longrightarrow> free_blocks s \<subseteq> data_blocks s"
proof
  fix b assume ok: "bitmap_ok s" and "b \<in> free_blocks s"
  then have b: "b < fs_size s" "\<not> used s b" by (simp_all add: free_blocks_def)
  moreover have "of_nat b \<noteq> BBLOCK c (fs_sb s)" if "c < fs_size s" for c
  proof
    assume "of_nat b = BBLOCK c (fs_sb s)"
    then have "unat (BBLOCK c (fs_sb s)) = b" using unat_of_nat32 [OF fs_size_bound [OF b(1)]] by simp
    then show False using that ok b(2) by (metis bitmap_ok_def)
  qed
  moreover have "of_nat b \<notin> log_region s"
    using ok b unat_of_nat32 [OF fs_size_bound [OF b(1)]] by (auto simp: bitmap_ok_def)
  ultimately show "b \<in> data_blocks s" by (simp add: data_blocks_def)
qed

lemma fs_lframe:
  assumes "lframe s t"
  shows "fs_size t = fs_size s" "data_blocks t = data_blocks s"
  by (simp_all add: fs_size_def data_blocks_def more_kino [OF assms])

interpretation ba: block_allocator fs_ready free_blocks data_blocks "\<lambda>s b. view s (of_nat b)" "balloc 1" "bfree 1"
proof unfold_locales
  fix k and s :: "'a kino_scheme" and b
  show "fs_ready k s \<Longrightarrow> free_blocks s \<subseteq> data_blocks s \<and> finite (free_blocks s) \<and> (\<forall>b\<in>data_blocks s. b < 2 ^ 32)"
    using free_in_data [of s] fs_size_bound [of _ s] by (auto simp: fs_ready_def data_blocks_def free_blocks_def)
next
  fix k and s :: "'a kino_scheme"
  assume r: "fs_ready (k + 2) s" and "free_blocks s \<noteq> {}"
  then have "\<exists>b<fs_size s. \<not> used s b" by (auto simp: free_blocks_def)
  moreover have ok: "room (Suc (Suc k)) {} s" "bitmap_ok s" using r by (simp_all add: fs_ready_def)
  ultimately obtain b t where b: "balloc 1 s = Ok (of_nat b) t" "b < fs_size s" "\<not> used s b"
      "room k {} t" "view t = take_block b s" "lframe s t"
    using balloc_run [of k "{}" s] by auto
  have bv: "\<forall>c<fs_size s. view t (BBLOCK c (fs_sb s)) = take_block b s (BBLOCK c (fs_sb s))" by (simp add: b(5))
  note tk = ok(2) fs_ready_length [OF r] b(2,3) more_kino(1) [OF b(6)] bv
  note ut = used_take [OF tk]
  have "free_blocks t = free_blocks s - {b}" using ut fs_lframe [OF b(6)] by (auto simp: free_blocks_def)
  moreover have "fs_ready k t"
    using b(4) bitmap_ok_take [OF tk more_kino(4,5) [OF b(6)]] by (simp add: fs_ready_def)
  moreover have "view t (of_nat c) = view s (of_nat c)" if "c \<in> data_blocks s" "c \<noteq> b" for c
    using that b(2,5) of_nat_inj32 [OF fs_size_bound fs_size_bound, of c s b s]
    by (auto simp: take_block_def data_blocks_def)
  ultimately show "\<exists>b t. balloc 1 s = Ok (of_nat b) t \<and> fs_ready k t \<and> data_blocks t = data_blocks s \<and>
      b \<in> free_blocks s \<and> free_blocks t = free_blocks s - {b} \<and> view t (of_nat b) = replicate BSIZE 0 \<and>
      (\<forall>c\<in>data_blocks s. c \<noteq> b \<longrightarrow> view t (of_nat c) = view s (of_nat c))"
    using b fs_lframe [OF b(6)]
    by (intro exI [of _ b] exI [of _ t]) (simp add: free_blocks_def take_block_def)
next
  fix k b and s :: "'a kino_scheme"
  assume r: "fs_ready (k + 1) s" and b: "b \<in> data_blocks s" "b \<notin> free_blocks s"
  have ok: "room (Suc k) {} s" "bitmap_ok s" and lt: "b < fs_size s" "used s b"
    using r b by (auto simp: fs_ready_def data_blocks_def free_blocks_def)
  obtain t where t: "bfree 1 (of_nat b) s = Ok () t" "room k {} t" "view t = give_block b s" "lframe s t"
    using bfree_run [OF ok(1) _ ok(2), of "of_nat b"] lt unat_data [OF b(1)] by auto
  note ut = used_give [OF fs_ready_length [OF r] fs_size_bound [OF lt(1)] _ t(4,3)]
  have ut': "used t c \<longleftrightarrow> c \<noteq> b \<and> used s c" if "c < fs_size s" for c
    using ut fs_size_bound [OF that] by simp
  have "bitmap_ok t"
    using ok(2) ut' b(1) unat_data [OF b(1)] fs_lframe [OF t(4)]
    by (auto simp: bitmap_ok_def more_kino [OF t(4)] data_blocks_def)
  moreover have "free_blocks t = insert b (free_blocks s)"
    using ut' lt fs_lframe [OF t(4)] by (auto simp: free_blocks_def)
  moreover have "view t (of_nat c) = view s (of_nat c)" if "c \<in> data_blocks s" for c
    using that t(3) lt by (auto simp: give_block_def data_blocks_def)
  ultimately show "\<exists>t. bfree 1 (of_nat b) s = Ok () t \<and> fs_ready k t \<and> data_blocks t = data_blocks s \<and>
      free_blocks t = insert b (free_blocks s) \<and>
      (\<forall>c\<in>data_blocks s. view t (of_nat c) = view s (of_nat c))"
    using t fs_lframe [OF t(4)] by (intro exI [of _ t]) (simp add: fs_ready_def)
next
  fix k b and s :: "'a kino_scheme"
  assume r: "fs_ready k s" and b: "b \<in> free_blocks s"
  then show "bfree 1 (of_nat b) s = Panic ''freeing free block''"
    using bfree_free_panics [of k "{}" s "of_nat b"] unat_of_nat32 [OF fs_size_bound, of b s]
    by (auto simp: fs_ready_def free_blocks_def)
qed

section \<open>Properties\<close>

text \<open>
  C28. Any number of \<open>balloc\<close> calls (fs.c) in a transaction that has room for them return that many
  different blocks, all of which the bitmap had marked as free. Afterwards exactly these are marked as used in
  addition, they are filled with zeros, and no other data block has changed.
\<close>

theorem balloc_fresh_blocks:
  assumes "fs_ready (2 * n) s" and "n \<le> card (free_blocks s)"
  shows "\<exists>bs t. ba.alloc_many n s = Ok (map of_nat bs) t \<and> length bs = n \<and> distinct bs \<and>
    set bs \<subseteq> free_blocks s \<and> free_blocks t = free_blocks s - set bs \<and>
    (\<forall>b\<in>set bs. view t (of_nat b) = replicate BSIZE 0) \<and>
    (\<forall>c\<in>data_blocks s - set bs. view t (of_nat c) = view s (of_nat c))"
  using ba.alloc_many_distinct [of n 0 s] assms by auto

text \<open>
  \<open>bfree\<close> (fs.c) clears the bit of a block in use, which makes exactly that block free and leaves the
  contents of all data blocks alone; for a block that is already free it panics.
\<close>

theorem bfree_frees:
  assumes "fs_ready 1 s" and "b \<in> data_blocks s"
  shows "if b \<in> free_blocks s then bfree 1 (of_nat b) s = Panic ''freeing free block''
    else \<exists>t. bfree 1 (of_nat b) s = Ok () t \<and> free_blocks t = insert b (free_blocks s) \<and>
      (\<forall>c\<in>data_blocks s. view t (of_nat c) = view s (of_nat c))"
  using ba.dealloc_ok [of 0 s b] ba.dealloc_free [of 1 s b] assms by auto

text \<open>
  A disk of the size and layout that \<open>mkfs\<close> gives it: the blocks before 59, among them the
  bitmap in block 58, are in use.
\<close>

definition demo_sb :: superblock where
  "demo_sb = \<lparr>sb_size = 1000, sb_nblocks = 941, sb_ninodes = 200, sb_nlog = 30, sb_logstart = 2,
     sb_inodestart = 32, sb_bmapstart = 58\<rparr>"

definition demo_bitmap :: bytes where
  "demo_bitmap = replicate 7 255 @ [7] @ replicate 504 0"

definition demo_disk :: "u32 \<Rightarrow> bytes" where
  "demo_disk bn = (if bn = 58 then demo_bitmap else replicate BSIZE 0)"

definition fs_state :: "(u32 \<Rightarrow> bytes) \<Rightarrow> inode list \<Rightarrow> 'm \<Rightarrow> 'm kino_scheme" where
  "fs_state d ic x =
     disk_state d 1000 \<lparr>l_start = 2, l_size = 30, l_outstanding = 1, l_committing = False, l_dev = 1,
       l_n = 0, l_block = replicate LOGSIZE 0, fs_sb = demo_sb, icache = ic, \<dots> = x\<rparr>"

lemma fs_state_more:
  fixes s :: "'m kino_scheme"
  assumes "kbio.more s = \<lparr>l_start = a, l_size = b, l_outstanding = c, l_committing = d, l_dev = e,
    l_n = f, l_block = g, fs_sb = sb, icache = ic, \<dots> = x\<rparr>"
  shows "l_start s = a" "l_size s = b" "l_outstanding s = c" "l_committing s = d" "l_dev s = e"
    "l_n s = f" "l_block s = g" "fs_sb s = sb" "icache s = ic" "kino.more s = x"
  using assms by (cases s, simp)+

lemma fs_state_fields [simp]:
  "l_start (fs_state d ic x) = 2" "l_size (fs_state d ic x) = 30" "l_outstanding (fs_state d ic x) = 1"
  "l_committing (fs_state d ic x) = False" "l_dev (fs_state d ic x) = 1" "l_n (fs_state d ic x) = 0"
  "l_block (fs_state d ic x) = replicate LOGSIZE 0" "fs_sb (fs_state d ic x) = demo_sb"
  "icache (fs_state d ic x) = ic" "kino.more (fs_state d ic x) = x"
proof -
  have m: "kbio.more (fs_state d ic x) = \<lparr>l_start = 2, l_size = 30, l_outstanding = 1,
      l_committing = False, l_dev = 1, l_n = 0, l_block = replicate LOGSIZE 0, fs_sb = demo_sb,
      icache = ic, \<dots> = x\<rparr>"
    by (simp add: fs_state_def)
  show "l_start (fs_state d ic x) = 2" "l_size (fs_state d ic x) = 30" "l_outstanding (fs_state d ic x) = 1"
    "l_committing (fs_state d ic x) = False" "l_dev (fs_state d ic x) = 1" "l_n (fs_state d ic x) = 0"
    "l_block (fs_state d ic x) = replicate LOGSIZE 0" "fs_sb (fs_state d ic x) = demo_sb"
    "icache (fs_state d ic x) = ic" "kino.more (fs_state d ic x) = x"
    by (fact fs_state_more [OF m])+
qed

lemma fs_state_base [simp]:
  "bufs (fs_state d ic x) = zero_bufs" "disk (fs_state d ic x) = d" "disksize (fs_state d ic x) = 1000"
  "running (fs_state d ic x)" "held (fs_state d ic x) = []" "cur (fs_state d ic x) = Some 0"
  "slocks (fs_state d ic x) = (\<lambda>_. \<lparr>sl_locked = False, sl_pid = 0\<rparr>)"
  "ptab (fs_state d ic x) = [zero_proc\<lparr>p_state := RUNNING, p_pid := 1\<rparr>]"
  by (simp_all add: fs_state_def)

lemma fs_state_room:
  assumes "\<forall>bn. length (d bn) = BSIZE" "k \<le> 27"
  shows "room k {} (fs_state d ic x)" "view (fs_state d ic x) = d"
proof -
  have ok: "bcache_ok {} (fs_state d ic x)" "bquiet {} (fs_state d ic x)" "dirty_blocks (fs_state d ic x) = {}"
    by (simp_all add: fs_state_def disk_state_ok [OF assms(1)])
  show "view (fs_state d ic x) = d" by (simp add: fs_state_def disk_state_ok [OF assms(1)])
  show "room k {} (fs_state d ic x)"
    using ok assms(2) by (simp add: room_def tx_def log_blocks_def LOGSIZE_def MAXOPBLOCKS_def)
qed

lemma fs_state_region: "bn \<in> log_region (fs_state d ic x) \<longleftrightarrow> 2 \<le> unat bn \<and> unat bn < 32"
proof -
  have e: "(2 :: u32) + of_nat i = of_nat (i + 2)" for i by simp
  have "bn \<in> log_region (fs_state d ic x) \<longleftrightarrow> (\<exists>i<30. bn = of_nat (i + 2))"
    unfolding log_region_def fs_state_fields e image_iff by (auto simp: LOGSIZE_def MAXOPBLOCKS_def)
  also have "\<dots> \<longleftrightarrow> (\<exists>i<30. unat bn = i + 2)"
    unfolding word_unat_eq_iff by (intro ex_cong1 conj_cong refl) (subst unat_of_nat32, simp_all)
  also have "\<dots> \<longleftrightarrow> 2 \<le> unat bn \<and> unat bn < 32" by presburger
  finally show ?thesis .
qed

lemma demo_disk_length: "\<forall>bn. length (demo_disk bn) = BSIZE"
  by (simp add: demo_disk_def demo_bitmap_def BSIZE_def)

lemma demo_bitmap_bits: "b < 1000 \<Longrightarrow> bm_test demo_bitmap b \<longleftrightarrow> b < 59"
proof -
  assume b: "b < 1000"
  have m: "(255 :: u8) = mask 8" "(7 :: u8) = mask 3" by (simp_all add: mask_eq_exp_minus_1)
  have "demo_bitmap ! i = (if i < 7 then mask 8 else if i = 7 then mask 3 else 0)" if "i < 512" for i
    using that by (auto simp: demo_bitmap_def nth_append nth_Cons' m)
  moreover have "b div 8 < 512" using b by simp
  moreover have "b < 59 \<longleftrightarrow> b div 8 < 7 \<or> b div 8 = 7 \<and> b mod 8 < 3" by presburger
  ultimately show ?thesis by (auto simp: bm_test_def bit_simps)
qed

text \<open>Every disk with this bitmap has the same blocks in use.\<close>

definition demo_like :: "(u32 \<Rightarrow> bytes) \<Rightarrow> bool" where
  "demo_like d \<longleftrightarrow> (\<forall>bn. length (d bn) = BSIZE) \<and> d 58 = demo_bitmap"

lemma demo_disk_like [simp]: "demo_like demo_disk"
  using demo_disk_length by (simp add: demo_like_def) (simp add: demo_disk_def)

lemma like_used:
  assumes "demo_like d" "b < 1000"
  shows "used (fs_state d ic x) b \<longleftrightarrow> b < 59"
proof -
  have "BBLOCK b demo_sb = 58" "b mod BPB = b"
    using assms(2) by (simp_all add: BBLOCK_def BPB_def BSIZE_def demo_sb_def)
  moreover have "view (fs_state d ic x) = d"
    using assms(1) by (intro fs_state_room(2) [OF _ le0]) (simp add: demo_like_def)
  ultimately show ?thesis
    using demo_bitmap_bits [OF assms(2)] assms(1) by (simp add: used_def demo_like_def)
qed

lemma like_ready:
  assumes "demo_like d"
  shows "k \<le> 27 \<Longrightarrow> fs_ready k (fs_state d ic x)" "free_blocks (fs_state d ic x) = {59..<1000}"
    "bitmap_ok (fs_state d ic x)"
    "b < 1000 \<Longrightarrow> 32 \<le> b \<Longrightarrow> b \<noteq> 58 \<Longrightarrow> b \<in> data_blocks (fs_state d ic x)"
proof -
  note used = like_used [OF assms]
  have sz: "fs_size (fs_state d ic x) = 1000" by (simp add: fs_size_def demo_sb_def)
  have B: "BBLOCK b demo_sb = 58" if "b < 1000" for b
    using that by (simp add: BBLOCK_def BPB_def BSIZE_def demo_sb_def)
  show ok: "bitmap_ok (fs_state d ic x)"
    using used [of _ ic x] by (auto simp: bitmap_ok_def sz B fs_state_region) (simp add: demo_sb_def)
  show "k \<le> 27 \<Longrightarrow> fs_ready k (fs_state d ic x)"
    using ok assms fs_state_room(1) [of d k ic x] by (simp add: fs_ready_def demo_like_def)
  show "free_blocks (fs_state d ic x) = {59..<1000}"
    by (auto simp: free_blocks_def sz used)
  show "b \<in> data_blocks (fs_state d ic x)" if "b < 1000" "32 \<le> b" "b \<noteq> 58"
  proof -
    have "(of_nat b :: u32) \<noteq> 58" using that of_nat_inj32 [of b 58] by simp
    then show ?thesis using that unat_of_nat32 [of b] by (simp add: data_blocks_def sz B fs_state_region)
  qed
qed

lemma demo_used: "b < 1000 \<Longrightarrow> used (fs_state demo_disk ic x) b \<longleftrightarrow> b < 59"
  by (simp add: like_used)

lemma fs_demo_ready:
  assumes "k \<le> 27"
  shows "fs_ready k (fs_state demo_disk ic x)" "free_blocks (fs_state demo_disk ic x) = {59..<1000}"
  using assms by (simp_all add: like_ready)

theorem balloc_fresh_blocks_witness:
  "\<exists>bs t. ba.alloc_many 3 (fs_state demo_disk [] () :: kino) = Ok (map of_nat bs) t \<and> length bs = 3 \<and>
     distinct bs \<and> set bs \<subseteq> {59..<1000} \<and> free_blocks t = {59..<1000} - set bs"
  using balloc_fresh_blocks [of 3 "fs_state demo_disk [] () :: kino"] fs_demo_ready [of 6 "[]" "()"] by auto

theorem bfree_frees_witness:
  "(\<exists>t. bfree 1 40 (fs_state demo_disk [] () :: kino) = Ok () t \<and> free_blocks t = insert 40 {59..<1000}) \<and>
   bfree 1 70 (fs_state demo_disk [] () :: kino) = Panic ''freeing free block''"
proof -
  have d: "b \<in> data_blocks (fs_state demo_disk [] () :: kino)" if "b < 1000" "32 \<le> b" "b \<noteq> 58" for b
    using that by (simp add: like_ready)
  show ?thesis
    using bfree_frees [of "fs_state demo_disk [] () :: kino" 40] bfree_frees [of "fs_state demo_disk [] () :: kino" 70]
      d [of 40] d [of 70] fs_demo_ready [of 1 "[]" "()"] by auto
qed

end
