(* ===== verification/Icache.thy ===== *)
theory Icache
  imports Blocks
begin

text \<open>
  The inode cache and the inodes on disk (\<open>fs.c\<close>): \<open>iupdate\<close> writes one slot of the inode area and
  leaves the others alone, \<open>ilock\<close> loads that slot, and the cache holds one entry per inode in use.
\<close>

section \<open>Steps that leave the buffer cache alone\<close>

lemma cache_keep:
  fixes s t :: "'m klog_scheme"
  assumes "bufs t = bufs s" "lru t = lru s" "disk t = disk s"
    and "\<And>i. slocks t (SL_buf i) = slocks s (SL_buf i)" "p_pid (proc_at t) = p_pid (proc_at s)"
  shows "view t = view s" "buf_at t = buf_at s" "bcache_ok H t = bcache_ok H s"
    "dirty_blocks t = dirty_blocks s" "bquiet H t = bquiet H s"
proof -
  show at: "buf_at t = buf_at s" using assms(1) by (simp add: buf_at_def fun_eq_iff)
  have "caches t = caches s" by (simp add: caches_def at fun_eq_iff)
  then show "view t = view s" using assms(3) by (intro ext) (simp add: view_def at split: option.split)
  show "bcache_ok H t = bcache_ok H s"
    using assms by (simp add: bcache_ok_def bcache_wf_def blocks_unique_def at holds_def)
  show "dirty_blocks t = dirty_blocks s" "bquiet H t = bquiet H s"
    using assms(4) by (simp_all add: dirty_blocks_def bquiet_def at)
qed

lemma room_keep:
  fixes s t :: "'m klog_scheme"
  assumes "room k H s" and "running t" "bufs t = bufs s" "lru t = lru s" "disk t = disk s"
    and "\<And>i. slocks t (SL_buf i) = slocks s (SL_buf i)" "p_pid (proc_at t) = p_pid (proc_at s)"
    and "l_n t = l_n s" "l_block t = l_block s" "l_outstanding t = l_outstanding s" "l_size t = l_size s"
    and "l_start t = l_start s" "l_dev t = l_dev s" "disksize t = disksize s"
  shows "room k H t" "view t = view s" "buf_at t = buf_at s"
proof -
  note c = cache_keep [OF assms(3-7)]
  show "buf_at t = buf_at s" "view t = view s" by (fact c)+
  have "log_blocks t = log_blocks s" using assms(8,9) by (simp add: log_blocks_def)
  then show "room k H t" using assms(1,2,8-14) by (simp add: room_def tx_def log_region_def c)
qed

lemma upd_ino_fields [simp]:
  "bufs (upd_ino ip f s) = bufs s" "lru (upd_ino ip f s) = lru s" "disk (upd_ino ip f s) = disk s"
  "slocks (upd_ino ip f s) = slocks s" "ptab (upd_ino ip f s) = ptab s" "cur (upd_ino ip f s) = cur s"
  "held (upd_ino ip f s) = held s" "l_n (upd_ino ip f s) = l_n s" "l_block (upd_ino ip f s) = l_block s"
  "l_outstanding (upd_ino ip f s) = l_outstanding s" "l_size (upd_ino ip f s) = l_size s"
  "fs_sb (upd_ino ip f s) = fs_sb s" "kino.more (upd_ino ip f s) = kino.more s"
  "disksize (upd_ino ip f s) = disksize s" "dwrites (upd_ino ip f s) = dwrites s"
  "l_start (upd_ino ip f s) = l_start s" "l_dev (upd_ino ip f s) = l_dev s"
  "l_committing (upd_ino ip f s) = l_committing s"
  "mem (upd_ino ip f s) = mem s" "length (icache (upd_ino ip f s)) = length (icache s)"
  by (simp_all add: upd_ino_def)

lemma log_region_upd_ino [simp]: "log_region (upd_ino ip f s) = log_region s"
  by (simp add: log_region_def)

lemma proc_at_upd_ino [simp]: "proc_at (upd_ino ip f s) = proc_at s"
  by (simp add: proc_at_def)

lemma running_upd_ino [simp]: "running (upd_ino ip f s) = running s"
  by (rule running_cong) simp_all

lemma ino_upd_ino:
  "ip < length (icache s) \<Longrightarrow> ino (upd_ino ip f s) j = (if j = ip then f (ino s ip) else ino s j)"
  by (simp add: ino_def upd_ino_def)

lemma ino_other [simp]: "j \<noteq> ip \<Longrightarrow> ino (upd_ino ip f s) j = ino s j"
  by (simp add: ino_def upd_ino_def)

lemma room_upd_ino:
  assumes "room k H s"
  shows "room k H (upd_ino ip f s)" "view (upd_ino ip f s) = view s" "buf_at (upd_ino ip f s) = buf_at s"
  using assms room_keep [OF assms, of "upd_ino ip f s"] by (simp_all add: room_def tx_def)

lemma room_lock:
  fixes s :: "'m klog_scheme"
  assumes "room k H s"
  shows "room k H (lock_for (SL_inode ip) s)" "view (lock_for (SL_inode ip) s) = view s"
    "buf_at (lock_for (SL_inode ip) s) = buf_at s"
proof -
  let ?t = "lock_for (SL_inode ip) s"
  have "running s" using assms by (simp add: room_def tx_def)
  moreover have "bufs ?t = bufs s" "lru ?t = lru s" "disk ?t = disk s" "l_n ?t = l_n s"
    "l_block ?t = l_block s" "l_outstanding ?t = l_outstanding s" "l_size ?t = l_size s"
    "l_start ?t = l_start s" "l_dev ?t = l_dev s" "disksize ?t = disksize s"
    by (simp_all add: lock_for_def)
  ultimately show "room k H ?t" "view ?t = view s" "buf_at ?t = buf_at s"
    using room_keep [OF assms, of ?t] by simp_all
qed

lemma more_unlock:
  fixes s :: "'m kino_scheme"
  shows "bufs (unlock l s) = bufs s" "lru (unlock l s) = lru s" "disk (unlock l s) = disk s"
    "l_n (unlock l s) = l_n s" "l_block (unlock l s) = l_block s" "l_outstanding (unlock l s) = l_outstanding s"
    "l_size (unlock l s) = l_size s" "fs_sb (unlock l s) = fs_sb s" "icache (unlock l s) = icache s"
    "kino.more (unlock l s) = kino.more s" "disksize (unlock l s) = disksize s" "dwrites (unlock l s) = dwrites s"
    "mem (unlock l s) = mem s" "l_start (unlock l s) = l_start s" "l_dev (unlock l s) = l_dev s"
    "l_committing (unlock l s) = l_committing s"
  by (simp_all add: unlock_def wakeup1_def)

lemma room_unlock:
  fixes s :: "'m kino_scheme"
  assumes "room k H s"
  shows "room k H (unlock (SL_inode ip) s)" "view (unlock (SL_inode ip) s) = view s"
    "buf_at (unlock (SL_inode ip) s) = buf_at s"
proof -
  have "running s" using assms by (simp add: room_def tx_def)
  then show "room k H (unlock (SL_inode ip) s)" "view (unlock (SL_inode ip) s) = view s"
    "buf_at (unlock (SL_inode ip) s) = buf_at s"
    using room_keep [OF assms, of "unlock (SL_inode ip) s"] by (simp_all add: more_unlock)
qed

section \<open>What file system steps leave alone\<close>

definition fsframe :: "'m kino_scheme \<Rightarrow> 'm kino_scheme \<Rightarrow> bool" where
  "fsframe s t \<longleftrightarrow> cur t = cur s \<and> proc_at t = proc_at s \<and> disk t = disk s \<and> dwrites t = dwrites s \<and>
     disksize t = disksize s \<and> fs_sb t = fs_sb s \<and> kino.more t = kino.more s \<and> mem t = mem s \<and>
     length (icache t) = length (icache s) \<and> slocks t SL_utable = slocks s SL_utable \<and>
     l_start t = l_start s \<and> l_size t = l_size s \<and> l_outstanding t = l_outstanding s \<and>
     l_committing t = l_committing s"

lemma fsframe_refl [simp]: "fsframe s s"
  by (simp add: fsframe_def)

lemma fsframe_trans: "fsframe s t \<Longrightarrow> fsframe t u \<Longrightarrow> fsframe s u"
  by (simp add: fsframe_def)

lemma lframe_fsframe: "lframe s t \<Longrightarrow> fsframe s t"
  using more_kino [of s t] by (auto simp: fsframe_def lframe_def bbase_def)

lemma fsframe_upd_ino [simp]: "fsframe s (upd_ino ip f s)"
  by (simp add: fsframe_def)

lemma fsframe_lock [simp]: "fsframe s (lock_for (SL_inode ip) s)"
  by (simp add: fsframe_def) (simp add: lock_for_def)

lemma fsframe_unlock: "running s \<Longrightarrow> fsframe s (unlock (SL_inode ip) s)"
  by (simp add: fsframe_def more_unlock)

section \<open>Inodes on disk\<close>

definition dinode_at :: "'m kino_scheme \<Rightarrow> u32 \<Rightarrow> dinode" where
  "dinode_at s inum = dinode_in (view s (IBLOCK inum (fs_sb s))) inum"

lemma IPB_pos [simp]: "0 < IPB"
  by (simp add: IPB_def BSIZE_def DINODE_SIZE_def)

lemma dip_slot: "(unat inum mod IPB + 1) * DINODE_SIZE \<le> BSIZE"
proof -
  have "unat inum mod IPB + 1 \<le> IPB" using mod_less_divisor [OF IPB_pos, of "unat inum"] by linarith
  then have "(unat inum mod IPB + 1) * DINODE_SIZE \<le> IPB * DINODE_SIZE" by (rule mult_right_mono) simp
  then show ?thesis by (simp add: IPB_def BSIZE_def DINODE_SIZE_def)
qed

lemma length_put_dinode:
  assumes "wf_dinode di" "length d = BSIZE"
  shows "length (put_dinode inum di d) = BSIZE"
  using assms dip_slot [of inum] c_dinode.enc_length [OF assms(1)]
  by (simp add: put_dinode_def put_arr_def dip_off_def ac_simps)

lemma dinode_put_same:
  assumes "wf_dinode di" "length d = BSIZE"
  shows "dinode_in (put_dinode inum di d) inum = di"
  using c_dinode.at_same [OF assms(1), of "dip_off inum" d] assms(2) dip_slot [of inum]
  by (simp add: dinode_in_def put_dinode_def dip_off_def ac_simps)

lemma dinode_put_other:
  assumes "wf_dinode di" "length d = BSIZE" "unat inum mod IPB \<noteq> unat j mod IPB"
  shows "dinode_in (put_dinode inum di d) j = dinode_in d j"
  using c_dinode.at_other [OF assms(1) _ assms(3), of d] assms(2) dip_slot [of inum]
  by (simp add: dinode_in_def put_dinode_def dip_off_def ac_simps)

definition write_inode :: "u32 \<Rightarrow> dinode \<Rightarrow> 'm kino_scheme \<Rightarrow> u32 \<Rightarrow> bytes" where
  "write_inode inum di s =
     (view s)(IBLOCK inum (fs_sb s) := put_dinode inum di (view s (IBLOCK inum (fs_sb s))))"

lemma iupdate_run:
  assumes "room (Suc k) H s" "card H \<le> 2" "i_dev (ino s ip) = 1" "length (i_addrs (ino s ip)) = NDIRECT + 1"
    and "IBLOCK (i_inum (ino s ip)) (fs_sb s) < disksize s"
    and "IBLOCK (i_inum (ino s ip)) (fs_sb s) \<notin> log_region s"
    and "unheld H (IBLOCK (i_inum (ino s ip)) (fs_sb s)) s"
  shows "\<exists>t. iupdate ip s = Ok () t \<and> room k H t \<and> lframe s t \<and>
    view t = write_inode (i_inum (ino s ip)) (dinode_of (ino s ip)) s \<and> (\<forall>i\<in>H. buf_at t i = buf_at s i)"
proof -
  let ?I = "ino s ip" and ?B = "IBLOCK (i_inum (ino s ip)) (fs_sb s)"
  let ?d = "put_dinode (i_inum ?I) (dinode_of ?I) (view s ?B)"
  have "wf_dinode (dinode_of ?I)" using assms(4) by (simp add: wf_dinode_def dinode_of_def)
  then have "length ?d = BSIZE" by (rule length_put_dinode [OF _ room_view_length [OF assms(1)]])
  then obtain b u v t where m: "bread 1 ?B s = Ok b u" "bdata b u = Ok (view s ?B) u"
      "sq (set_bdata b ?d) (log_write b) u = Ok () v" "brelse b v = Ok () t"
    and t: "room k H t" "view t = (view s)(?B := ?d)" "lframe s t" "\<forall>i\<in>H. buf_at t i = buf_at s i"
    using modify_block [OF assms(1,5,7,2,6)] by metis
  have "iupdate ip s = Ok () t" using m assms(3) by (simp add: iupdate_def)
  with t show ?thesis by (simp add: write_inode_def)
qed

text \<open>Two inodes share a slot only if they are the same.\<close>

lemma unat32_less: "unat (x :: u32) < 2 ^ 32"
proof -
  have "unat x < 2 ^ LENGTH(32)" by (rule unsigned_less)
  then show ?thesis by simp
qed

lemma inode_slot:
  assumes "IBLOCK i sb = IBLOCK j sb" "unat i mod IPB = unat j mod IPB"
  shows "i = j"
proof -
  have "unat i div IPB < 2 ^ 32" "unat j div IPB < 2 ^ 32"
    using unat32_less by (blast intro: le_less_trans [OF div_le_dividend])+
  with assms(1) have "unat i div IPB = unat j div IPB" by (simp add: IBLOCK_def of_nat_inj32)
  with assms(2) have "unat i = unat j" by (metis div_mult_mod_eq)
  then show ?thesis by (simp add: word_unat_eq_iff)
qed

lemma dinode_at_write:
  fixes s t :: "'m kino_scheme"
  assumes "wf_dinode di" "\<forall>bn. length (view s bn) = BSIZE" "fs_sb t = fs_sb s" "view t = write_inode inum di s"
  shows "dinode_at t j = (if j = inum then di else dinode_at s j)"
proof (cases "IBLOCK j (fs_sb s) = IBLOCK inum (fs_sb s)")
  case True
  let ?d = "view s (IBLOCK inum (fs_sb s))"
  have at: "dinode_at t j = dinode_in (put_dinode inum di ?d) j" "dinode_at s j = dinode_in ?d j"
    using True by (simp_all add: dinode_at_def write_inode_def assms(3,4))
  have len: "length ?d = BSIZE" using assms(2) by simp
  show ?thesis
  proof (cases "j = inum")
    case True
    then show ?thesis using at dinode_put_same [OF assms(1) len] by simp
  next
    case False
    then have "unat inum mod IPB \<noteq> unat j mod IPB" using inode_slot True by metis
    then show ?thesis using at dinode_put_other [OF assms(1) len] False by simp
  qed
next
  case False
  then show ?thesis using assms by (auto simp: dinode_at_def write_inode_def)
qed

section \<open>Locking an inode\<close>

definition inode_ok :: "nat \<Rightarrow> 'm kino_scheme \<Rightarrow> bool" where
  "inode_ok ip s \<longleftrightarrow> ip < length (icache s) \<and> 1 \<le> i_ref (ino s ip) \<and> i_dev (ino s ip) = 1 \<and>
     IBLOCK (i_inum (ino s ip)) (fs_sb s) < disksize s \<and>
     IBLOCK (i_inum (ino s ip)) (fs_sb s) \<notin> log_region s"

definition loaded :: "nat \<Rightarrow> 'm kino_scheme \<Rightarrow> inode" where
  "loaded ip s =
     (if i_valid (ino s ip) then ino s ip
      else (load_dinode (dinode_at s (i_inum (ino s ip))) (ino s ip))\<lparr>i_valid := True\<rparr>)"

lemma more_lock:
  fixes s :: "'m kino_scheme"
  shows "fs_sb (lock_for l s) = fs_sb s" "icache (lock_for l s) = icache s" "ino (lock_for l s) = ino s"
    "disksize (lock_for l s) = disksize s" "log_region (lock_for l s) = log_region s"
  by (simp_all add: lock_for_def ino_def fun_eq_iff log_region_def)

lemma lframe_slocks: "lframe s t \<Longrightarrow> slocks t (SL_inode j) = slocks s (SL_inode j)"
  by (simp add: lframe_def bbase_def)

lemma ilock_run:
  assumes r: "room k H s" "card H \<le> 2" and ip: "inode_ok ip s"
    and free: "\<not> sl_locked (slocks s (SL_inode ip))" and un: "unheld H (IBLOCK (i_inum (ino s ip)) (fs_sb s)) s"
    and ty: "i_type (loaded ip s) \<noteq> 0 \<or> i_valid (ino s ip)"
  shows "\<exists>t. ilock ip s = Ok () t \<and> room k H t \<and> view t = view s \<and> fsframe s t \<and> ino t ip = loaded ip s \<and>
    (\<forall>j. j \<noteq> ip \<longrightarrow> ino t j = ino s j) \<and> holds (SL_inode ip) t \<and>
    (\<forall>j. j \<noteq> ip \<longrightarrow> slocks t (SL_inode j) = slocks s (SL_inode j)) \<and> (\<forall>i\<in>H. buf_at t i = buf_at s i)"
proof -
  let ?u = "lock_for (SL_inode ip) s" and ?I = "ino s ip"
  have run: "running s" using r(1) by (simp add: room_def tx_def)
  note u = room_lock [OF r(1), of ip] more_lock [of "SL_inode ip" s]
  have ilk: "ilock ip s = whenk (\<not> i_valid ?I)
      (bnd (bread (i_dev ?I) (IBLOCK (i_inum ?I) (fs_sb s))) (\<lambda>bp.
       bnd (bdata bp) (\<lambda>d.
       sq (modk (upd_ino ip (load_dinode (dinode_in d (i_inum ?I)))))
      (sq (brelse bp)
      (sq (modk (upd_ino ip (\<lambda>I. I\<lparr>i_valid := True\<rparr>)))
          (bnd (getk (\<lambda>s. i_type (ino s ip))) (\<lambda>ty.
           whenk (ty = 0) (kpanic ''ilock: no type''))))))))  ?u"
    using ip running_acquiresleep [OF run free] by (simp add: ilock_def inode_ok_def u)
  show ?thesis
  proof (cases "i_valid ?I")
    case True
    then show ?thesis
      using ilk u by (intro exI [of _ ?u]) (simp add: loaded_def holds_def)
  next
    case False
    let ?B = "IBLOCK (i_inum ?I) (fs_sb s)"
    have "unheld H ?B ?u" "?B < disksize ?u" using un ip by (simp_all add: unheld_def u inode_ok_def)
    then obtain b v where v: "bread 1 ?B ?u = Ok b v" "room k (insert b H) v"
      using room_bread [OF u(1) _ _ r(2)] by blast
    have txu: "tx H ?u" using u(1) by (simp add: room_def)
    note b = tx_bread [OF txu v(1)]
    have vk: "icache v = icache s" "fs_sb v = fs_sb s" using more_kino [OF b(6)] by (simp_all add: u)
    define v' where "v' = upd_ino ip (load_dinode (dinode_in (b_data (buf_at v b)) (i_inum ?I))) v"
    note v' = room_upd_ino [OF v(2), of ip "load_dinode (dinode_in (b_data (buf_at v b)) (i_inum ?I))", folded v'_def]
    have "is_block 1 ?B (buf_at v' b)" "b_dirty (buf_at v' b) \<or> b_data (buf_at v' b) = disk v' ?B"
      using b(3,9) by (simp_all add: v') (simp_all add: v'_def)
    note bl = this
    obtain w where w: "brelse b v' = Ok () w" "room k (insert b H - {b}) w"
      using room_brelse [OF v'(1) insertI1 bl] by blast
    have tx': "tx (insert b H) v'" using v'(1) by (simp add: room_def)
    note e = tx_brelse [OF tx' insertI1 bl w(1)]
    have H: "insert b H - {b} = H" using b(2) by auto
    define t where "t = upd_ino ip (\<lambda>I. I\<lparr>i_valid := True\<rparr>) w"
    have wk: "icache w = icache v'" using more_kino [OF e(3)] by simp
    have len: "ip < length (icache v)" "ip < length (icache w)"
      using ip by (simp_all add: wk inode_ok_def vk) (simp add: v'_def vk)
    have d: "b_data (buf_at v b) = view s ?B" using b(4) by (simp add: u)
    have it: "ino t ip = loaded ip s"
      using len False by (simp add: t_def ino_upd_ino) (simp add: ino_def wk v'_def upd_ino_def vk loaded_def d dinode_at_def)
    have ij: "ino t j = ino s j" if "j \<noteq> ip" for j
      using that by (simp add: t_def) (simp add: ino_def wk v'_def upd_ino_def vk)
    have "i_type (ino w ip) = i_type (loaded ip s)"
      using len False by (simp add: ino_def wk v'_def upd_ino_def vk loaded_def d dinode_at_def)
    then have "i_type (ino t ip) \<noteq> 0" using ty False by (simp add: it)
    then have ok: "ilock ip s = Ok () t"
      using ilk False ip v(1) w(1) by (simp add: inode_ok_def v'_def [symmetric] t_def [symmetric])
    have rt: "room k H t" "view t = view w" "buf_at t = buf_at w"
      using room_upd_ino [of k H w ip] w(2) by (simp_all add: t_def H)
    have "fsframe s ?u" "fsframe ?u v" "fsframe v v'" "fsframe v' w" "fsframe w t"
      using lframe_fsframe [OF b(6)] lframe_fsframe [OF e(3)] by (simp_all add: v'_def t_def)
    then have fr: "fsframe s t" by (meson fsframe_trans)
    have sl: "slocks t (SL_inode j) = slocks ?u (SL_inode j)" for j
      using lframe_slocks [OF b(6)] lframe_slocks [OF e(3)] by (simp add: t_def) (simp add: v'_def)
    have "\<forall>i\<in>H. buf_at t i = buf_at s i"
    proof
      fix i assume "i \<in> H"
      then have "i \<noteq> b" using b(2) by auto
      then show "buf_at t i = buf_at s i" using b(7) e(4) by (simp add: rt v' u)
    qed
    moreover have "holds (SL_inode ip) t" using sl [of ip] fr by (simp add: holds_def fsframe_def)
    moreover have "view t = view s" using e(2) b(5) by (simp add: rt v' u)
    ultimately show ?thesis
      using ok rt(1) fr it ij sl by (intro exI [of _ t]) simp
  qed
qed

lemma iunlock_run:
  assumes "running s" "holds (SL_inode ip) s" "1 \<le> i_ref (ino s ip)"
  shows "iunlock ip s = Ok () (unlock (SL_inode ip) s)"
  using assms by (simp add: iunlock_def running_holdingsleep running_releasesleep)

text \<open>\<open>iput\<close> of an inode that keeps a link or another reference.\<close>

lemma iput_run:
  assumes "running s" "\<not> sl_locked (slocks s (SL_inode ip))"
    and "\<not> (i_valid (ino s ip) \<and> i_nlink (ino s ip) = 0 \<and> i_ref (ino s ip) = 1)"
  shows "iput ip s =
    Ok () (upd_ino ip (\<lambda>I. I\<lparr>i_ref := i_ref I - 1\<rparr>) (unlock (SL_inode ip) (lock_for (SL_inode ip) s)))"
proof -
  let ?u = "lock_for (SL_inode ip) s"
  have run: "running ?u" using assms(1) by simp
  have lk: "LK_icache \<notin> set (held ?u)" "LK_icache \<notin> set (held (unlock (SL_inode ip) ?u))"
    using assms(1) by simp_all
  have "whenk (i_valid (ino s ip) \<and> i_nlink (ino s ip) = 0)
      (sq (acquire LK_icache)
      (bnd (getk (\<lambda>s. i_ref (ino s ip))) (\<lambda>r.
       sq (release LK_icache)
          (whenk (r = 1)
            (sq (itrunc ip)
            (sq (modk (upd_ino ip (\<lambda>I. I\<lparr>i_type := 0\<rparr>)))
            (sq (iupdate ip)
                (modk (upd_ino ip (\<lambda>I. I\<lparr>i_valid := False\<rparr>)))))))))) ?u = Ok () ?u"
    using assms(3) lk(1) by (auto simp: whenk_def more_lock ino_def)
  then show ?thesis
    using running_acquiresleep [OF assms(1,2)] running_releasesleep [OF run] lk(2)
    by (simp add: iput_def more_lock) (simp add: upd_ino_def)
qed

section \<open>One entry per inode\<close>

definition icache_ok :: "'m kino_scheme \<Rightarrow> bool" where
  "icache_ok s \<longleftrightarrow> length (icache s) = NINODE \<and> (\<forall>i<NINODE. 0 \<le> i_ref (ino s i)) \<and>
     (\<forall>i<NINODE. \<forall>j<NINODE. 0 < i_ref (ino s i) \<longrightarrow> 0 < i_ref (ino s j) \<longrightarrow>
        i_dev (ino s i) = i_dev (ino s j) \<longrightarrow> i_inum (ino s i) = i_inum (ino s j) \<longrightarrow> i = j)"

definition cached :: "u32 \<Rightarrow> u32 \<Rightarrow> inode \<Rightarrow> bool" where
  "cached dev inum I \<longleftrightarrow> 0 < i_ref I \<and> i_dev I = dev \<and> i_inum I = inum"

definition iget_upd :: "u32 \<Rightarrow> u32 \<Rightarrow> inode \<Rightarrow> inode" where
  "iget_upd dev inum I =
     (if cached dev inum I then I\<lparr>i_ref := i_ref I + 1\<rparr>
      else I\<lparr>i_dev := dev, i_inum := inum, i_ref := 1, i_valid := False\<rparr>)"

lemma iget_run:
  assumes "running s" "icache_ok s" "\<exists>i<NINODE. cached dev inum (ino s i) \<or> i_ref (ino s i) = 0"
  shows "\<exists>ip. iget dev inum s = Ok ip (upd_ino ip (iget_upd dev inum) s) \<and> ip < NINODE \<and>
    (cached dev inum (ino s ip) \<or> i_ref (ino s ip) = 0 \<and> (\<forall>j<NINODE. \<not> cached dev inum (ino s j)))"
proof -
  let ?f = "find_idx (\<lambda>ip. i_ref ip > 0 \<and> i_dev ip = dev \<and> i_inum ip = inum) (icache s)"
  let ?g = "find_idx (\<lambda>ip. i_ref ip = 0) (icache s)"
  have lk: "LK_icache \<notin> set (held s)" and len: "length (icache s) = NINODE"
    using assms by (simp_all add: icache_ok_def)
  show ?thesis
  proof (cases ?f)
    case (Some ip)
    from find_idx_SomeD [OF Some] have ip: "ip < NINODE" "cached dev inum (ino s ip)"
      by (simp_all add: len cached_def ino_def)
    have "iget dev inum s = Ok ip (upd_ino ip (\<lambda>I. I\<lparr>i_ref := i_ref I + 1\<rparr>) s)"
      using lk Some by (simp add: iget_def) (simp add: upd_ino_def)
    also have "upd_ino ip (\<lambda>I. I\<lparr>i_ref := i_ref I + 1\<rparr>) s = upd_ino ip (iget_upd dev inum) s"
      using ip(2) by (simp add: upd_ino_def iget_upd_def ino_def)
    finally show ?thesis using ip by blast
  next
    case None
    then have no: "\<not> cached dev inum (ino s j)" if "j < NINODE" for j
      using that by (simp add: find_idx_None cached_def ino_def len)
    with assms(3) obtain i where "i < NINODE" "i_ref (icache s ! i) = 0" by (auto simp: ino_def)
    then have "?g \<noteq> None" by (simp add: find_idx_None len) (metis len nth_mem)
    then obtain ip where g: "?g = Some ip" by auto
    from find_idx_SomeD [OF g] have ip: "ip < NINODE" "i_ref (ino s ip) = 0"
      by (simp_all add: len ino_def)
    have "iget dev inum s =
        Ok ip (upd_ino ip (\<lambda>I. I\<lparr>i_dev := dev, i_inum := inum, i_ref := 1, i_valid := False\<rparr>) s)"
      using lk None g by (simp add: iget_def) (simp add: upd_ino_def)
    also have "upd_ino ip (\<lambda>I. I\<lparr>i_dev := dev, i_inum := inum, i_ref := 1, i_valid := False\<rparr>) s =
        upd_ino ip (iget_upd dev inum) s"
      using no [OF ip(1)] by (simp add: upd_ino_def iget_upd_def ino_def)
    finally show ?thesis using ip no by blast
  qed
qed

lemma icache_ok_upd:
  assumes "icache_ok s" "ip < NINODE" "0 \<le> i_ref (f (ino s ip))"
    and "\<And>j. j < NINODE \<Longrightarrow> j \<noteq> ip \<Longrightarrow> 0 < i_ref (f (ino s ip)) \<Longrightarrow>
      \<not> cached (i_dev (f (ino s ip))) (i_inum (f (ino s ip))) (ino s j)"
  shows "icache_ok (upd_ino ip f s)"
proof -
  have len: "ip < length (icache s)" "length (icache s) = NINODE" using assms(1,2) by (simp_all add: icache_ok_def)
  have at: "ino (upd_ino ip f s) j = (if j = ip then f (ino s ip) else ino s j)" for j
    by (rule ino_upd_ino [OF len(1)])
  show ?thesis
    unfolding icache_ok_def
  proof (intro conjI allI impI)
    show "length (icache (upd_ino ip f s)) = NINODE" using len by simp
    show "0 \<le> i_ref (ino (upd_ino ip f s) i)" if "i < NINODE" for i
      using that assms(1,3) by (simp add: at icache_ok_def)
    fix i j
    assume h: "i < NINODE" "j < NINODE" "0 < i_ref (ino (upd_ino ip f s) i)" "0 < i_ref (ino (upd_ino ip f s) j)"
      "i_dev (ino (upd_ino ip f s) i) = i_dev (ino (upd_ino ip f s) j)"
      "i_inum (ino (upd_ino ip f s) i) = i_inum (ino (upd_ino ip f s) j)"
    consider "i = j" | "i = ip" "j \<noteq> ip" | "i \<noteq> ip" "j = ip" | "i \<noteq> ip" "j \<noteq> ip" by blast
    then show "i = j"
    proof cases
      case 2
      then show ?thesis using h assms(4) [of j] by (simp add: at cached_def)
    next
      case 3
      then show ?thesis using h assms(4) [of i] by (simp add: at cached_def)
    next
      case 4
      then have "0 < i_ref (ino s i)" "0 < i_ref (ino s j)" "i_dev (ino s i) = i_dev (ino s j)"
        "i_inum (ino s i) = i_inum (ino s j)" using h(3-) by (simp_all add: at)
      then show ?thesis using assms(1) h(1,2) unfolding icache_ok_def by blast
    qed simp
  qed
qed

lemma iget_upd_ok:
  assumes "icache_ok s" "ip < NINODE"
    and c: "cached dev inum (ino s ip) \<or> i_ref (ino s ip) = 0 \<and> (\<forall>j<NINODE. \<not> cached dev inum (ino s j))"
  shows "icache_ok (upd_ino ip (iget_upd dev inum) s)" "cached dev inum (ino (upd_ino ip (iget_upd dev inum) s) ip)"
    "j < NINODE \<Longrightarrow> cached dev inum (ino s j) \<Longrightarrow> j = ip"
    "ino (upd_ino ip (iget_upd dev inum) s) k = (if k = ip then iget_upd dev inum (ino s ip) else ino s k)"
proof -
  have len: "ip < length (icache s)" using assms(1,2) by (simp add: icache_ok_def)
  note at = ino_upd_ino [OF len, of "iget_upd dev inum"]
  have uniq: "j = ip" if "j < NINODE" "cached dev inum (ino s j)" for j
    using that c assms(1,2) by (auto simp: icache_ok_def cached_def)
  have u: "0 < i_ref (iget_upd dev inum (ino s ip))" "i_dev (iget_upd dev inum (ino s ip)) = dev"
    "i_inum (iget_upd dev inum (ino s ip)) = inum"
    using c by (auto simp: iget_upd_def cached_def)
  show "icache_ok (upd_ino ip (iget_upd dev inum) s)"
    by (rule icache_ok_upd [OF assms(1,2)]) (use u uniq in auto)
  show "cached dev inum (ino (upd_ino ip (iget_upd dev inum) s) ip)" using u by (simp add: at cached_def)
  show "j < NINODE \<Longrightarrow> cached dev inum (ino s j) \<Longrightarrow> j = ip" by (rule uniq)
  show "ino (upd_ino ip (iget_upd dev inum) s) k = (if k = ip then iget_upd dev inum (ino s ip) else ino s k)" by (rule at)
qed

text \<open>
  C29. Two calls of \<open>iget\<close> (fs.c) for one inode share one cache entry. The first call returns the entry of the inode, if
  it has one, with one reference more and nothing else changed; otherwise a free entry with the device and number of the inode, one reference and the
  contents marked as not read from disk. The second call returns the same entry, with one reference more and nothing else changed. Neither call changes
  another entry or any other part of the state, and after each the entry is the only one in use for the inode and the invariant of
  the cache holds.
\<close>

theorem iget_shares_entry:
  assumes "running s" and "icache_ok s"
    and "\<exists>i<NINODE. cached dev inum (ino s i) \<or> i_ref (ino s i) = 0"
  shows "\<exists>ip I t u. ip < NINODE \<and> iget dev inum s = Ok ip t \<and> iget dev inum t = Ok ip u \<and>
    (if \<exists>j<NINODE. cached dev inum (ino s j)
     then cached dev inum (ino s ip) \<and> I = (ino s ip)\<lparr>i_ref := i_ref (ino s ip) + 1\<rparr>
     else i_ref (ino s ip) = 0 \<and> I = (ino s ip)\<lparr>i_dev := dev, i_inum := inum, i_ref := 1, i_valid := False\<rparr>) \<and>
    t = s\<lparr>icache := (icache s)[ip := I]\<rparr> \<and> u = s\<lparr>icache := (icache s)[ip := I\<lparr>i_ref := i_ref I + 1\<rparr>]\<rparr> \<and>
    icache_ok t \<and> icache_ok u \<and>
    (\<forall>j<NINODE. cached dev inum (ino t j) \<longleftrightarrow> j = ip) \<and> (\<forall>j<NINODE. cached dev inum (ino u j) \<longleftrightarrow> j = ip)"
proof -
  let ?f = "iget_upd dev inum"
  obtain ip where ip: "iget dev inum s = Ok ip (upd_ino ip ?f s)" "ip < NINODE" and c: "cached dev inum (ino s ip) \<or>
        i_ref (ino s ip) = 0 \<and> (\<forall>j<NINODE. \<not> cached dev inum (ino s j))" using iget_run [OF assms] by blast
  define t where "t = upd_ino ip ?f s"
  note u1 = iget_upd_ok [OF assms(2) ip(2) c, folded t_def]
  have rt: "running t" using assms(1) by (simp add: t_def)
  obtain jp where jp: "iget dev inum t = Ok jp (upd_ino jp ?f t)" "jp < NINODE" and d: "cached dev inum (ino t jp) \<or>
        i_ref (ino t jp) = 0 \<and> (\<forall>j<NINODE. \<not> cached dev inum (ino t j))" using iget_run [OF rt u1(1)] ip(2) u1(2) by blast
  have one: "(\<forall>j<NINODE. cached dev inum (ino t j) \<longleftrightarrow> j = ip)" using u1(2,3) by (auto simp: u1(4))
  have same: "jp = ip" using d jp(2) ip(2) one by auto
  note u2 = iget_upd_ok [OF u1(1) jp(2) d, unfolded same]
  have two: "(\<forall>j<NINODE. cached dev inum (ino (upd_ino ip ?f t) j) \<longleftrightarrow> j = ip)" using u2(2,3) one by (auto simp: u2(4))
  have t: "t = s\<lparr>icache := (icache s)[ip := ?f (ino s ip)]\<rparr>" by (simp add: t_def upd_ino_def ino_def)
  have "?f (ino t ip) = (ino t ip)\<lparr>i_ref := i_ref (ino t ip) + 1\<rparr>" using u1(2) by (simp add: iget_upd_def)
  then have u: "upd_ino ip ?f t = s\<lparr>icache := (icache s)[ip := (?f (ino s ip))\<lparr>i_ref := i_ref (?f (ino s ip)) + 1\<rparr>]\<rparr>"
    using u1(4) [of ip] by (simp add: upd_ino_def ino_def [symmetric]) (simp add: t)
  have "if \<exists>j<NINODE. cached dev inum (ino s j)
      then cached dev inum (ino s ip) \<and> ?f (ino s ip) = (ino s ip)\<lparr>i_ref := i_ref (ino s ip) + 1\<rparr>
      else i_ref (ino s ip) = 0 \<and> ?f (ino s ip) = (ino s ip)\<lparr>i_dev := dev, i_inum := inum, i_ref := 1, i_valid := False\<rparr>"
    using c ip(2) by (auto simp: iget_upd_def)
  then show ?thesis
    using ip jp(1) u1(1) u2(1) one two t u unfolding same t_def [symmetric] by blast
qed

theorem iget_shares_entry_witness:
  "\<exists>ip t u. iget 1 5 (fs_state demo_disk (replicate NINODE zero_inode) () :: kino) = Ok ip t \<and> iget 1 5 t = Ok ip u \<and>
     i_ref (ino t ip) = 1 \<and> i_ref (ino u ip) = 2 \<and> \<not> i_valid (ino u ip) \<and> icache_ok u"
proof -
  let ?s = "fs_state demo_disk (replicate NINODE zero_inode) () :: kino"
  have z: "icache ?s = replicate NINODE zero_inode" "\<forall>i<NINODE. ino ?s i = zero_inode" by (simp_all add: ino_def)
  have ok: "icache_ok ?s" by (simp add: icache_ok_def z) (simp add: zero_inode_def)
  have "0 < NINODE" by (simp add: NINODE_def)
  then have "\<exists>i<NINODE. cached 1 5 (ino ?s i) \<or> i_ref (ino ?s i) = 0" using z(2) by (auto simp: zero_inode_def)
  moreover have "running ?s" by (simp only: fs_state_base)
  ultimately obtain ip I t u where r: "ip < NINODE" "iget 1 5 ?s = Ok ip t" "iget 1 5 t = Ok ip u"
      "if \<exists>j<NINODE. cached 1 5 (ino ?s j) then cached 1 5 (ino ?s ip) \<and> I = (ino ?s ip)\<lparr>i_ref := i_ref (ino ?s ip) + 1\<rparr>
       else i_ref (ino ?s ip) = 0 \<and> I = (ino ?s ip)\<lparr>i_dev := 1, i_inum := 5, i_ref := 1, i_valid := False\<rparr>"
      "t = ?s\<lparr>icache := (icache ?s)[ip := I]\<rparr>" "u = ?s\<lparr>icache := (icache ?s)[ip := I\<lparr>i_ref := i_ref I + 1\<rparr>]\<rparr>" "icache_ok u"
    using iget_shares_entry [OF _ ok, of 1 5] by blast
  have "i_ref I = 1 \<and> \<not> i_valid I" using r(4) z(2) by (auto simp: cached_def zero_inode_def)
  moreover have "ino t ip = I" "ino u ip = I\<lparr>i_ref := i_ref I + 1\<rparr>" using r(1) by (simp_all add: r(5,6) ino_def z)
  ultimately show ?thesis using r(2,3,7) by auto
qed

section \<open>Writing an inode and reading it back\<close>

text \<open>The cache entry of the inode after it has been recycled: only its identity is left.\<close>

definition recycled :: "inode \<Rightarrow> inode" where
  "recycled I = zero_inode\<lparr>i_dev := i_dev I, i_inum := i_inum I, i_ref := 1\<rparr>"

text \<open>
  C30. What \<open>iupdate\<close> (fs.c) writes is what \<open>ilock\<close> reads: if the cache entry of an inode is
  recycled after \<open>iupdate\<close>, locking the inode again restores its permission bits, type, device
  numbers, link count, size, owner and block addresses, and no other inode on disk has changed.
\<close>

theorem iupdate_ilock_roundtrip:
  assumes "room 1 {} s" and "inode_ok ip s" and "length (i_addrs (ino s ip)) = NDIRECT + 1"
    and "i_type (ino s ip) \<noteq> 0" and "\<not> sl_locked (slocks s (SL_inode ip))"
  shows "\<exists>t u. iupdate ip s = Ok () t \<and> ilock ip (upd_ino ip recycled t) = Ok () u \<and>
    dinode_of (ino u ip) = dinode_of (ino s ip) \<and> i_valid (ino u ip) \<and> holds (SL_inode ip) u \<and>
    (\<forall>j. j \<noteq> i_inum (ino s ip) \<longrightarrow> dinode_at u j = dinode_at s j)"
proof -
  let ?I = "ino s ip"
  obtain t where t: "iupdate ip s = Ok () t" "room 0 {} t" "lframe s t"
      "view t = write_inode (i_inum ?I) (dinode_of ?I) s"
    using iupdate_run [of 0 "{}" s ip] assms(1-3) by (auto simp: inode_ok_def)
  have wf: "wf_dinode (dinode_of ?I)" using assms(3) by (simp add: wf_dinode_def dinode_of_def)
  note tk = more_kino [OF t(3)]
  have da: "dinode_at t j = (if j = i_inum ?I then dinode_of ?I else dinode_at s j)" for j
    using room_view_length [OF assms(1)] by (intro dinode_at_write [OF wf _ tk(1) t(4)]) simp
  define v where "v = upd_ino ip recycled t"
  have len: "ip < length (icache t)" using assms(2) by (simp add: tk inode_ok_def)
  have iv: "ino v ip = recycled ?I" using ino_upd_ino [OF len] by (simp add: v_def) (simp add: ino_def tk)
  note rv = room_upd_ino [OF t(2), of ip recycled, folded v_def]
  have "inode_ok ip v" using assms(2) len by (simp add: inode_ok_def iv) (simp add: v_def tk recycled_def)
  moreover have "\<not> sl_locked (slocks v (SL_inode ip))"
    using assms(5) lframe_slocks [OF t(3)] by (simp add: v_def)
  moreover have dv: "dinode_at v j = dinode_at t j" for j by (simp add: dinode_at_def rv) (simp add: v_def)
  have ld: "loaded ip v = (load_dinode (dinode_of ?I) (recycled ?I))\<lparr>i_valid := True\<rparr>"
    by (simp add: loaded_def iv dv da) (simp add: recycled_def zero_inode_def)
  have "i_type (loaded ip v) \<noteq> 0 \<or> i_valid (ino v ip)"
    using assms(4) by (simp add: ld load_dinode_def dinode_of_def)
  ultimately obtain u where u: "ilock ip v = Ok () u" "view u = view v" "fsframe v u" "ino u ip = loaded ip v"
      "holds (SL_inode ip) u"
    using ilock_run [OF rv(1), of ip] by auto
  have "dinode_at u j = dinode_at v j" for j using u(2,3) by (simp add: dinode_at_def fsframe_def)
  then have "dinode_at u j = dinode_at s j" if "j \<noteq> i_inum ?I" for j using that by (simp add: dv da)
  moreover have "dinode_of (ino u ip) = dinode_of ?I" "i_valid (ino u ip)"
    by (simp_all add: u(4) ld) (simp add: dinode_of_def load_dinode_def)
  ultimately show ?thesis using t(1) u(1,5) by (auto simp: v_def)
qed

theorem iupdate_ilock_roundtrip_witness:
  "\<exists>t u. iupdate 0 (fs_state demo_disk [zero_inode\<lparr>i_dev := 1, i_inum := 7, i_ref := 1, i_valid := True,
        i_type := T_FILE, i_perm := 52, i_size := 12\<rparr>] () :: kino) = Ok () t \<and>
     ilock 0 (upd_ino 0 recycled t) = Ok () u \<and> i_perm (ino u 0) = 52 \<and> i_size (ino u 0) = 12"
proof -
  let ?I = "zero_inode\<lparr>i_dev := 1, i_inum := 7, i_ref := 1, i_valid := True, i_type := T_FILE,
    i_perm := 52, i_size := 12\<rparr>"
  let ?s = "fs_state demo_disk [?I] () :: kino"
  have at: "ino ?s 0 = ?I" by (simp add: ino_def)
  have "IBLOCK 7 demo_sb = 32" by (simp add: IBLOCK_def demo_sb_def IPB_def BSIZE_def DINODE_SIZE_def)
  then have "inode_ok 0 ?s" by (simp add: inode_ok_def at fs_state_region)
  moreover have "room 1 {} ?s" by (rule fs_state_room [OF demo_disk_length]) simp
  moreover have "length (i_addrs (ino ?s 0)) = NDIRECT + 1" "i_type (ino ?s 0) \<noteq> 0"
    unfolding at by (simp_all add: zero_inode_def T_FILE_def)
  ultimately obtain t u where r: "iupdate 0 ?s = Ok () t" "ilock 0 (upd_ino 0 recycled t) = Ok () u"
      "dinode_of (ino u 0) = dinode_of (ino ?s 0)"
    using iupdate_ilock_roundtrip [of ?s 0] by auto
  then have "i_perm (ino u 0) = 52" "i_size (ino u 0) = 12" by (simp_all add: at dinode_of_def)
  with r show ?thesis by blast
qed

end
