(* ===== verification/Fdata.thy ===== *)
theory Fdata
  imports Icache Fs
begin

text \<open>
  The contents of files: \<open>bmap\<close>, \<open>readi\<close> and \<open>writei\<close> (\<open>fs.c\<close>) in terms of the bytes of a file.

  \<open>baddr\<close> is the disk block of a block of a file, found through the direct and the indirect
  addresses; \<open>file_ok\<close> says that these blocks are pairwise different, marked as used and apart
  from the bitmap and the inode blocks. \<open>fbyte\<close> is a byte of the file; a block that is not there
  yet reads as zeros.
\<close>

section \<open>Blocks of a file\<close>

definition baddr :: "'m kino_scheme \<Rightarrow> inode \<Rightarrow> nat \<Rightarrow> u32" where
  "baddr s I n =
     (if n < NDIRECT then i_addrs I ! n
      else if i_addrs I ! NDIRECT = 0 then 0
      else dec32 (sub_arr (4 * (n - NDIRECT)) 4 (view s (i_addrs I ! NDIRECT))))"

text \<open>All blocks of a file; the indirect block is number \<open>MAXFILE\<close>.\<close>

definition bptr :: "'m kino_scheme \<Rightarrow> inode \<Rightarrow> nat \<Rightarrow> u32" where
  "bptr s I n = (if n < MAXFILE then baddr s I n else i_addrs I ! NDIRECT)"

definition file_ok :: "nat \<Rightarrow> 'm kino_scheme \<Rightarrow> bool" where
  "file_ok ip s \<longleftrightarrow> inode_ok ip s \<and> length (i_addrs (ino s ip)) = NDIRECT + 1 \<and> bitmap_ok s \<and> used s 0 \<and>
     unat (IBLOCK (i_inum (ino s ip)) (fs_sb s)) \<in> data_blocks s \<and>
     used s (unat (IBLOCK (i_inum (ino s ip)) (fs_sb s))) \<and> IBLOCK (i_inum (ino s ip)) (fs_sb s) \<noteq> 0 \<and>
     (\<forall>n\<le>MAXFILE. bptr s (ino s ip) n \<noteq> 0 \<longrightarrow> unat (bptr s (ino s ip) n) \<in> data_blocks s \<and>
        used s (unat (bptr s (ino s ip) n)) \<and>
        bptr s (ino s ip) n \<noteq> IBLOCK (i_inum (ino s ip)) (fs_sb s)) \<and>
     (\<forall>m\<le>MAXFILE. \<forall>n\<le>MAXFILE. bptr s (ino s ip) m \<noteq> 0 \<longrightarrow>
        bptr s (ino s ip) m = bptr s (ino s ip) n \<longrightarrow> m = n)"

definition fblk :: "'m kino_scheme \<Rightarrow> inode \<Rightarrow> nat \<Rightarrow> bytes" where
  "fblk s I n = (if baddr s I n = 0 then replicate BSIZE 0 else view s (baddr s I n))"

definition fbyte :: "'m kino_scheme \<Rightarrow> inode \<Rightarrow> nat \<Rightarrow> u8" where
  "fbyte s I p = fblk s I (p div BSIZE) ! (p mod BSIZE)"

lemma max_sizes: "NDIRECT < MAXFILE" "MAXFILE = NDIRECT + NINDIRECT" "4 * NINDIRECT = BSIZE"
  by (simp_all add: MAXFILE_def NINDIRECT_def NDIRECT_def BSIZE_def)

lemma file_okD:
  assumes "file_ok ip s"
  shows "inode_ok ip s" "length (i_addrs (ino s ip)) = NDIRECT + 1" "bitmap_ok s" "ip < length (icache s)"
    "i_dev (ino s ip) = 1" "used s 0"
  using assms by (simp_all add: file_ok_def inode_ok_def)

lemma bptr_data:
  assumes "file_ok ip s" "n \<le> MAXFILE" "bptr s (ino s ip) n \<noteq> 0"
  shows "bptr s (ino s ip) n < disksize s" "used s (unat (bptr s (ino s ip) n))"
    "unat (bptr s (ino s ip) n) \<in> data_blocks s" "c < fs_size s \<Longrightarrow> bptr s (ino s ip) n \<noteq> BBLOCK c (fs_sb s)"
proof -
  show "used s (unat (bptr s (ino s ip) n))" and d: "unat (bptr s (ino s ip) n) \<in> data_blocks s"
    using assms by (simp_all add: file_ok_def)
  then have "unat (bptr s (ino s ip) n) < fs_size s" by (simp add: data_blocks_def)
  then show "bptr s (ino s ip) n < disksize s"
    using of_nat_disk [OF file_okD(3) [OF assms(1)]] by fastforce
  show "c < fs_size s \<Longrightarrow> bptr s (ino s ip) n \<noteq> BBLOCK c (fs_sb s)" using d by (simp add: data_blocks_def)
qed

lemma bptr_region:
  assumes "file_ok ip s" "n \<le> MAXFILE" "bptr s (ino s ip) n \<noteq> 0"
  shows "bptr s (ino s ip) n \<notin> log_region s"
  using bptr_data(3) [OF assms] by (simp add: data_blocks_def)

lemma bptr_inj:
  assumes "file_ok ip s" "m \<le> MAXFILE" "n \<le> MAXFILE" "bptr s (ino s ip) m \<noteq> 0"
    and "bptr s (ino s ip) m = bptr s (ino s ip) n"
  shows "m = n"
  using assms unfolding file_ok_def by blast

lemma baddr_bptr: "n < MAXFILE \<Longrightarrow> baddr s I n = bptr s I n"
  by (simp add: bptr_def)

section \<open>Finding a block that is there\<close>

lemma bmap_present:
  assumes "room k {} s" "file_ok ip s" "n < MAXFILE" "baddr s (ino s ip) n \<noteq> 0"
  shows "\<exists>t. bmap ip n s = Ok (baddr s (ino s ip) n) t \<and> room k {} t \<and> view t = view s \<and> lframe s t"
proof (cases "n < NDIRECT")
  case True
  then have "bmap ip n s = Ok (baddr s (ino s ip) n) s" using assms(4) by (simp add: bmap_def baddr_def)
  with assms(1) show ?thesis by auto
next
  case False
  let ?I = "ino s ip"
  have ind: "i_addrs ?I ! NDIRECT \<noteq> 0" using False assms(4) by (auto simp: baddr_def split: if_splits)
  then have "i_addrs ?I ! NDIRECT < disksize s"
    using bptr_data(1) [OF assms(2), of MAXFILE] by (simp add: bptr_def)
  then obtain b u t where m: "bread 1 (i_addrs ?I ! NDIRECT) s = Ok b u"
      "bdata b u = Ok (view s (i_addrs ?I ! NDIRECT)) u" "brelse b u = Ok () t"
    and t: "room k {} t" "view t = view s" "lframe s t"
    using read_block [OF assms(1), of "i_addrs ?I ! NDIRECT"] by (metis card.empty unheld_empty zero_le)
  have "n - NDIRECT < NINDIRECT" using False assms(3) by (simp add: max_sizes)
  then have "bmap ip n s = Ok (baddr s ?I n) t"
    using m False ind assms(4) file_okD(5) [OF assms(2)] by (simp add: bmap_def Let_def baddr_def)
  with t show ?thesis by blast
qed

section \<open>Growing a file\<close>

text \<open>
  \<open>touched d ip s t\<close>: from \<open>s\<close> to \<open>t\<close> the file got at most \<open>d\<close> new blocks and nothing that belongs to
  another file has changed. \<open>grown\<close>: moreover its contents are the same.
\<close>

definition touched :: "nat \<Rightarrow> nat \<Rightarrow> 'm kino_scheme \<Rightarrow> 'm kino_scheme \<Rightarrow> bool" where
  "touched d ip s t \<longleftrightarrow> file_ok ip t \<and> fsframe s t \<and> (\<forall>j. slocks t (SL_inode j) = slocks s (SL_inode j)) \<and>
     (\<forall>j. j \<noteq> ip \<longrightarrow> ino t j = ino s j) \<and> ino t ip = (ino s ip)\<lparr>i_addrs := i_addrs (ino t ip)\<rparr> \<and>
     (d = 0 \<longrightarrow> ino t ip = ino s ip) \<and>
     (\<forall>m\<le>MAXFILE. bptr t (ino t ip) m = bptr s (ino s ip) m \<or>
        bptr s (ino s ip) m = 0 \<and> unat (bptr t (ino t ip) m) \<in> free_blocks s) \<and>
     free_blocks t \<subseteq> free_blocks s \<and> card (free_blocks s) \<le> card (free_blocks t) + d \<and>
     (\<forall>c\<in>data_blocks s - free_blocks s. (\<forall>m\<le>MAXFILE. unat (bptr s (ino s ip) m) \<noteq> c) \<longrightarrow>
        view t (of_nat c) = view s (of_nat c))"

definition grown :: "nat \<Rightarrow> nat \<Rightarrow> 'm kino_scheme \<Rightarrow> 'm kino_scheme \<Rightarrow> bool" where
  "grown d ip s t \<longleftrightarrow> touched d ip s t \<and> (\<forall>m<MAXFILE. fblk t (ino t ip) m = fblk s (ino s ip) m)"

lemma fsframe_blocks:
  assumes "fsframe s t"
  shows "fs_size t = fs_size s" "data_blocks t = data_blocks s" "fs_sb t = fs_sb s" "disksize t = disksize s"
    "log_region t = log_region s"
  using assms by (simp_all add: fsframe_def fs_size_def data_blocks_def log_region_def)

lemma used_not_free: "used s b \<Longrightarrow> b \<notin> free_blocks s"
  by (simp add: free_blocks_def)

lemma touched_trans:
  assumes a: "touched d ip s t" and b: "touched e ip t u"
  shows "touched (d + e) ip s u"
proof -
  note A = a [unfolded touched_def] and B = b [unfolded touched_def]
  have fr: "fsframe s u" using A B fsframe_trans by blast
  have fs: "fsframe s t" using A by blast
  have sub: "free_blocks u \<subseteq> free_blocks s" "card (free_blocks s) \<le> card (free_blocks u) + (d + e)"
    using A B by auto
  have ptr: "bptr u (ino u ip) m = bptr s (ino s ip) m \<or>
      bptr s (ino s ip) m = 0 \<and> unat (bptr u (ino u ip) m) \<in> free_blocks s" if "m \<le> MAXFILE" for m
  proof -
    have "bptr t (ino t ip) m = bptr s (ino s ip) m \<or>
        bptr s (ino s ip) m = 0 \<and> unat (bptr t (ino t ip) m) \<in> free_blocks s" using A that by blast
    moreover have "bptr u (ino u ip) m = bptr t (ino t ip) m \<or>
        bptr t (ino t ip) m = 0 \<and> unat (bptr u (ino u ip) m) \<in> free_blocks s" using A B that by blast
    ultimately show ?thesis by auto
  qed
  have other: "view u (of_nat c) = view s (of_nat c)"
    if c: "c \<in> data_blocks s - free_blocks s" "\<forall>m\<le>MAXFILE. unat (bptr s (ino s ip) m) \<noteq> c" for c
  proof -
    have "view t (of_nat c) = view s (of_nat c)" using A c by blast
    moreover have "c \<in> data_blocks t - free_blocks t" using A c(1) fsframe_blocks(2) [OF fs] by blast
    moreover have "unat (bptr t (ino t ip) m) \<noteq> c" if "m \<le> MAXFILE" for m
      using A c that by (metis DiffD2)
    ultimately show ?thesis using B by metis
  qed
  show ?thesis
    unfolding touched_def
  proof (intro conjI allI ballI impI)
    show "file_ok ip u" using B by blast
    show "fsframe s u" by (rule fr)
    show "slocks u (SL_inode j) = slocks s (SL_inode j)" for j using A B by metis
    show "ino u j = ino s j" if "j \<noteq> ip" for j using A B that by metis
    show "ino u ip = (ino s ip)\<lparr>i_addrs := i_addrs (ino u ip)\<rparr>"
    proof -
      have "ino t ip = (ino s ip)\<lparr>i_addrs := i_addrs (ino t ip)\<rparr>"
        "ino u ip = (ino t ip)\<lparr>i_addrs := i_addrs (ino u ip)\<rparr>" using A B by blast+
      then show ?thesis by (metis inode.update_convs(11) inode.surjective)
    qed
    show "bptr u (ino u ip) m = bptr s (ino s ip) m \<or>
        bptr s (ino s ip) m = 0 \<and> unat (bptr u (ino u ip) m) \<in> free_blocks s" if "m \<le> MAXFILE" for m
      using ptr that .
    show "free_blocks u \<subseteq> free_blocks s" "card (free_blocks s) \<le> card (free_blocks u) + (d + e)" by (fact sub)+
    show "ino u ip = ino s ip" if "d + e = 0" using A B that by simp
    show "view u (of_nat c) = view s (of_nat c)"
      if "c \<in> data_blocks s - free_blocks s" "\<forall>m\<le>MAXFILE. unat (bptr s (ino s ip) m) \<noteq> c" for c
      using other that .
  qed
qed

lemma grown_trans: "grown d ip s t \<Longrightarrow> grown e ip t u \<Longrightarrow> grown (d + e) ip s u"
  using touched_trans [of d ip s t e u] by (simp add: grown_def)

lemma grown_refl: "file_ok ip s \<Longrightarrow> grown d ip s s"
  by (simp add: grown_def touched_def)

lemma grown_view:
  assumes "file_ok ip s" "lframe s t" "view t = view s"
  shows "grown d ip s t"
proof -
  note mk = more_kino [OF assms(2)] and sv = same_view [OF assms(2,3)]
  have i: "ino t = ino s" by (simp add: ino_def fun_eq_iff mk)
  have p: "bptr t = bptr s" "fblk t = fblk s" "data_blocks t = data_blocks s" "free_blocks t = free_blocks s"
    by (simp_all add: bptr_def fblk_def baddr_def data_blocks_def free_blocks_def fun_eq_iff assms(3) mk sv)
  have "file_ok ip t" using assms(1) by (simp add: file_ok_def inode_ok_def i p sv mk)
  then show ?thesis
    using lframe_fsframe [OF assms(2)] lframe_slocks [OF assms(2)] by (simp add: grown_def touched_def i p assms(3))
qed

lemma grown_step:
  assumes ok: "file_ok ip s" "\<forall>bn. length (view s bn) = BSIZE" and b: "b < fs_size s" "\<not> used s b"
    and n: "n \<le> MAXFILE" "bptr s (ino s ip) n = 0"
    and fr: "fsframe s u" "\<And>j. slocks u (SL_inode j) = slocks s (SL_inode j)" "\<And>j. j \<noteq> ip \<Longrightarrow> ino u j = ino s j"
    and iu: "ino u ip = (ino s ip)\<lparr>i_addrs := A\<rparr>" "length A = NDIRECT + 1"
    and ptr: "\<And>m. m \<le> MAXFILE \<Longrightarrow> bptr u (ino u ip) m = (if m = n then of_nat b else bptr s (ino s ip) m)"
    and vw: "\<And>x. x = 0 \<or> x \<noteq> bptr s (ino s ip) MAXFILE \<Longrightarrow> view u x = take_block b s x"
  shows "grown 1 ip s u"
proof -
  let ?I = "ino s ip" and ?IB = "IBLOCK (i_inum (ino s ip)) (fs_sb s)"
  note fb = fsframe_blocks [OF fr(1)]
  have bb: "unat (of_nat b :: u32) = b" using unat_of_nat32 [OF fs_size_bound [OF b(1)]] .
  have bok: "bitmap_ok s" using file_okD(3) [OF ok(1)] .
  have bmp: "\<forall>c<fs_size s. view u (BBLOCK c (fs_sb s)) = take_block b s (BBLOCK c (fs_sb s))"
  proof (intro allI impI)
    fix c assume "c < fs_size s"
    then have "BBLOCK c (fs_sb s) = 0 \<or> BBLOCK c (fs_sb s) \<noteq> bptr s ?I MAXFILE"
      using bptr_data(4) [OF ok(1), of MAXFILE c] by (metis order_refl)
    then show "view u (BBLOCK c (fs_sb s)) = take_block b s (BBLOCK c (fs_sb s))" by (rule vw)
  qed
  note us = used_take [OF bok ok(2) b fb(3) bmp]
  have bu: "bitmap_ok u" by (rule bitmap_ok_take [OF bok ok(2) b fb(3) bmp fb(4,5)])
  have bdat: "b \<in> data_blocks s" "b \<in> free_blocks s"
    using free_in_data [OF bok] b by (auto simp: free_blocks_def)
  have free: "free_blocks u = free_blocks s - {b}" using us by (auto simp: free_blocks_def fb)
  have IB: "unat ?IB \<in> data_blocks s" "used s (unat ?IB)" "?IB \<noteq> 0" using ok(1) by (simp_all add: file_ok_def)
  have old: "unat (bptr s ?I m) \<in> data_blocks s" "used s (unat (bptr s ?I m))" "bptr s ?I m \<noteq> ?IB"
      "bptr s ?I m \<noteq> of_nat b" "view u (bptr s ?I m) = view s (bptr s ?I m) \<or> m = MAXFILE"
    if "m \<le> MAXFILE" "bptr s ?I m \<noteq> 0" for m
  proof -
    show d: "unat (bptr s ?I m) \<in> data_blocks s" "used s (unat (bptr s ?I m))" "bptr s ?I m \<noteq> ?IB"
      using ok(1) that by (simp_all add: file_ok_def)
    show nb: "bptr s ?I m \<noteq> of_nat b" using d(2) b(2) bb by auto
    show "view u (bptr s ?I m) = view s (bptr s ?I m) \<or> m = MAXFILE"
    proof (cases "m = MAXFILE")
      case False
      then have "bptr s ?I m \<noteq> bptr s ?I MAXFILE" using bptr_inj [OF ok(1) that(1) _ that(2)] by blast
      then show ?thesis
        using vw [of "bptr s ?I m"] nb bptr_data(4) [OF ok(1) that b(1)] by (simp add: take_block_def)
    qed simp
  qed
  have in_size: "c < fs_size s" if "c \<in> data_blocks s" for c using that by (simp add: data_blocks_def)
  have fok: "file_ok ip u"
    unfolding file_ok_def
  proof (intro conjI allI impI)
    show "inode_ok ip u" using file_okD(1) [OF ok(1)] fr(1) by (simp add: inode_ok_def iu fb fsframe_def)
    show "length (i_addrs (ino u ip)) = NDIRECT + 1" by (simp add: iu)
    show "bitmap_ok u" by (rule bu)
    show "used u 0" using us [of 0] file_okD(6) [OF ok(1)] b(1) by simp
    show "unat (IBLOCK (i_inum (ino u ip)) (fs_sb u)) \<in> data_blocks u"
      "used u (unat (IBLOCK (i_inum (ino u ip)) (fs_sb u)))" "IBLOCK (i_inum (ino u ip)) (fs_sb u) \<noteq> 0"
      using IB us [OF in_size [OF IB(1)]] by (simp_all add: iu fb)
    fix m assume m: "m \<le> MAXFILE" "bptr u (ino u ip) m \<noteq> 0"
    show "unat (bptr u (ino u ip) m) \<in> data_blocks u" "used u (unat (bptr u (ino u ip) m))"
      "bptr u (ino u ip) m \<noteq> IBLOCK (i_inum (ino u ip)) (fs_sb u)"
    proof -
      consider "m = n" | "m \<noteq> n" "bptr s ?I m \<noteq> 0" using m ptr [OF m(1)] by (cases "m = n") auto
      then have "unat (bptr u (ino u ip) m) \<in> data_blocks u \<and> used u (unat (bptr u (ino u ip) m)) \<and>
          bptr u (ino u ip) m \<noteq> ?IB"
      proof cases
        case 1
        have "of_nat b \<noteq> ?IB" using IB(2) b(2) bb by auto
        then show ?thesis using 1 ptr [OF m(1)] bdat(1) us [OF b(1)] bb by (simp add: fb)
      next
        case 2
        note o = old [OF m(1) 2(2)]
        show ?thesis using 2 ptr [OF m(1)] o us [OF in_size [OF o(1)]] by (simp add: fb)
      qed
      then show "unat (bptr u (ino u ip) m) \<in> data_blocks u" "used u (unat (bptr u (ino u ip) m))"
        "bptr u (ino u ip) m \<noteq> IBLOCK (i_inum (ino u ip)) (fs_sb u)" by (simp_all add: iu fb)
    qed
  next
    fix l m assume lm: "l \<le> MAXFILE" "m \<le> MAXFILE" "bptr u (ino u ip) l \<noteq> 0"
      "bptr u (ino u ip) l = bptr u (ino u ip) m"
    show "l = m"
    proof (cases "l = n \<or> m = n")
      case True
      show ?thesis
      proof (rule ccontr)
        assume "l \<noteq> m"
        then obtain k where k: "k \<le> MAXFILE" "bptr s ?I k = of_nat b" "bptr s ?I k \<noteq> 0"
          using True lm ptr [OF lm(1)] ptr [OF lm(2)] by (auto split: if_splits)
        then show False using old(4) by blast
      qed
    next
      case False
      then show ?thesis using lm ptr [OF lm(1)] ptr [OF lm(2)] bptr_inj [OF ok(1) lm(1,2)] by simp
    qed
  qed
  have blk: "fblk u (ino u ip) m = fblk s ?I m" if m: "m < MAXFILE" for m
  proof (cases "m = n")
    case True
    have "view u (of_nat b) = replicate BSIZE 0"
    proof -
      have "of_nat b = (0 :: u32) \<or> of_nat b \<noteq> bptr s ?I MAXFILE" using old(4) [of MAXFILE] by fastforce
      then show ?thesis using vw by (simp add: take_block_def)
    qed
    then show ?thesis using True n(2) ptr [of m] m by (simp add: fblk_def baddr_bptr)
  next
    case False
    then show ?thesis using old(5) [of m] m ptr [of m] by (auto simp: fblk_def baddr_bptr)
  qed
  show ?thesis
    unfolding grown_def touched_def
  proof (intro conjI allI impI ballI)
    show "card (free_blocks s) \<le> card (free_blocks u) + 1"
      using bdat(2) by (simp add: free card_Diff_singleton)
    show "bptr u (ino u ip) m = bptr s ?I m \<or> bptr s ?I m = 0 \<and> unat (bptr u (ino u ip) m) \<in> free_blocks s"
      if "m \<le> MAXFILE" for m
      using ptr [OF that] n(2) bdat(2) bb by simp
    fix c assume c: "c \<in> data_blocks s - free_blocks s" "\<forall>m\<le>MAXFILE. unat (bptr s ?I m) \<noteq> c"
    have cc: "unat (of_nat c :: u32) = c" using unat_data c(1) by blast
    then have "of_nat c \<noteq> bptr s ?I MAXFILE" using c(2) by (metis order_refl)
    moreover have "c \<noteq> b" using c(1) bdat(2) by blast
    then have "of_nat c \<noteq> (of_nat b :: u32)" using cc bb by metis
    moreover have "of_nat c \<noteq> BBLOCK b (fs_sb s)" using c(1) b(1) by (simp add: data_blocks_def)
    ultimately show "view u (of_nat c) = view s (of_nat c)" using vw by (simp add: take_block_def)
  qed (use fok fr iu blk free in simp_all)
qed

section \<open>Allocating a block for a file\<close>

lemma dec32_zeros: "off + 4 \<le> BSIZE \<Longrightarrow> dec32 (sub_arr off 4 (replicate BSIZE 0)) = 0"
  by (simp add: sub_arr_def dec32_def eval_nat_numeral)

lemma view_take:
  assumes "file_ok ip s" "m \<le> MAXFILE" "bptr s (ino s ip) m \<noteq> 0" "b < fs_size s" "\<not> used s b"
  shows "take_block b s (bptr s (ino s ip) m) = view s (bptr s (ino s ip) m)"
proof -
  have "bptr s (ino s ip) m \<noteq> of_nat b"
    using bptr_data(2) [OF assms(1-3)] assms(5) unat_of_nat32 [OF fs_size_bound [OF assms(4)]] by auto
  then show ?thesis using bptr_data(4) [OF assms(1-3) assms(4)] by (simp add: take_block_def)
qed

lemma not_used_0:
  assumes "used s 0" "b < fs_size s" "\<not> used s b"
  shows "(of_nat b :: u32) \<noteq> 0"
  using assms unat_of_nat32 [OF fs_size_bound [OF assms(2)]] by (metis unsigned_0)

lemma alloc_addr:
  assumes r: "room (Suc (Suc k)) {} s" and ok: "file_ok ip s" and free: "free_blocks s \<noteq> {}"
    and n: "n \<le> NDIRECT" "i_addrs (ino s ip) ! n = 0"
  shows "\<exists>b t u. balloc 1 s = Ok b t \<and> u = upd_ino ip (\<lambda>I. I\<lparr>i_addrs := (i_addrs I)[n := b]\<rparr>) t \<and>
    room k {} u \<and> grown 1 ip s u \<and> b \<noteq> 0 \<and>
    bptr u (ino u ip) (if n < NDIRECT then n else MAXFILE) = b"
proof -
  let ?I = "ino s ip" and ?p = "if n < NDIRECT then n else MAXFILE"
  have "\<exists>b<fs_size s. \<not> used s b" using free by (auto simp: free_blocks_def)
  then obtain b t where b: "balloc 1 s = Ok (of_nat b) t" "b < fs_size s" "\<not> used s b" "room k {} t"
      "view t = take_block b s" "lframe s t"
    using balloc_run [OF r _ file_okD(3) [OF ok]] by auto
  define u where "u = upd_ino ip (\<lambda>I. I\<lparr>i_addrs := (i_addrs I)[n := of_nat b]\<rparr>) t"
  note mk = more_kino [OF b(6)]
  have len: "ip < length (icache t)" using file_okD(4) [OF ok] by (simp add: mk)
  have it: "ino t = ino s" by (simp add: ino_def fun_eq_iff mk)
  have iu: "ino u ip = ?I\<lparr>i_addrs := (i_addrs ?I)[n := of_nat b]\<rparr>" "\<And>j. j \<noteq> ip \<Longrightarrow> ino u j = ino s j"
    using ino_upd_ino [OF len] by (simp_all add: u_def it)
  note ru = room_upd_ino [OF b(4), of ip "\<lambda>I. I\<lparr>i_addrs := (i_addrs I)[n := of_nat b]\<rparr>", folded u_def]
  have vu: "view u = take_block b s" by (simp add: ru b(5))
  have nz: "(of_nat b :: u32) \<noteq> 0" by (rule not_used_0 [OF file_okD(6) [OF ok] b(2,3)])
  have la: "length (i_addrs ?I) = NDIRECT + 1" by (rule file_okD(2) [OF ok])
  have ptr: "bptr u (ino u ip) m = (if m = ?p then of_nat b else bptr s ?I m)" if m: "m \<le> MAXFILE" for m
  proof -
    consider "m < NDIRECT" | "NDIRECT \<le> m" "m < MAXFILE" | "m = MAXFILE"
      using m by (meson le_neq_implies_less not_le)
    then show ?thesis
    proof cases
      case 1
      then show ?thesis using la n max_sizes(1) by (auto simp: bptr_def baddr_def iu nth_list_update)
    next
      case 2
      have off: "4 * (m - NDIRECT) + 4 \<le> BSIZE" using 2 by (simp add: max_sizes(2,3)) (use max_sizes(3) in linarith)
      show ?thesis
      proof (cases "n < NDIRECT")
        case True
        then show ?thesis
          using 2 la view_take [OF ok _ _ b(2,3), of MAXFILE]
          by (auto simp: bptr_def baddr_def iu vu nth_list_update)
      next
        case False
        then have "take_block b s (of_nat b) = replicate BSIZE 0" by (simp add: take_block_def)
        then show ?thesis
          using 2 False la n nz dec32_zeros [OF off]
          by (auto simp: bptr_def baddr_def iu vu nth_list_update)
      qed
    next
      case 3
      then show ?thesis using la n max_sizes(1) by (auto simp: bptr_def iu nth_list_update)
    qed
  qed
  have p: "?p \<le> MAXFILE" "bptr s ?I ?p = 0" using n max_sizes(1) by (auto simp: bptr_def baddr_def)
  have fr: "fsframe s u" using fsframe_trans [OF lframe_fsframe [OF b(6)] fsframe_upd_ino] by (simp add: u_def)
  have sl: "slocks u (SL_inode j) = slocks s (SL_inode j)" for j
    using lframe_slocks [OF b(6)] by (simp add: u_def)
  have "grown 1 ip s u"
    using room_view_length [OF r] la
    by (intro grown_step [OF ok _ b(2,3) p fr sl iu(2) iu(1) _ ptr]) (simp_all add: vu)
  then show ?thesis
    using b(1) ru(1) nz ptr [OF p(1)] by (intro exI [of _ "of_nat b"] exI [of _ t] exI [of _ u]) (simp add: u_def)
qed

text \<open>Checking out the indirect block, allocating while it is held, and recording the new address in it.\<close>

lemma alloc_in_block:
  assumes r: "room (Suc (Suc (Suc k))) {} s" and ok: "file_ok ip s" and free: "free_blocks s \<noteq> {}"
    and ind: "ind = i_addrs (ino s ip) ! NDIRECT" "ind \<noteq> 0" and d: "\<And>b. length (d b) = BSIZE"
  shows "\<exists>p v b w x t. bread 1 ind s = Ok p v \<and> bdata p v = Ok (view s ind) v \<and> balloc 1 v = Ok (of_nat b) w \<and>
    bdata p w = Ok (view s ind) w \<and> sq (set_bdata p (d (of_nat b))) (log_write p) w = Ok () x \<and>
    brelse p x = Ok () t \<and> room k {} t \<and> lframe s t \<and> b < fs_size s \<and> \<not> used s b \<and>
    view t = (take_block b s)(ind := d (of_nat b))"
proof -
  let ?I = "ino s ip"
  have bp: "bptr s ?I MAXFILE = ind" by (simp add: bptr_def ind)
  note pd = bptr_data [OF ok order_refl, unfolded bp, OF ind(2)]
  obtain p v where v: "bread 1 ind s = Ok p v" "room (Suc (Suc (Suc k))) {p} v"
    using room_bread [OF r pd(1)] by auto
  have txs: "tx {} s" using r by (simp add: room_def)
  note b1 = tx_bread [OF txs v(1)]
  note sv = same_view [OF b1(6,5)]
  have hu: "held_used {p} v"
    using b1(3) pd by (auto simp: held_used_def sv unheld_def is_block_def more_kino [OF b1(6)])
  have "\<exists>b<fs_size v. \<not> used v b" using free by (auto simp: free_blocks_def sv)
  then obtain b w where w: "balloc 1 v = Ok (of_nat b) w" "b < fs_size v" "\<not> used v b" "room (Suc k) {p} w"
      "view w = take_block b v" "lframe v w" "\<forall>i\<in>{p}. buf_at w i = buf_at v i"
    using balloc_run [OF v(2) _ _ hu] file_okD(3) [OF ok] by (auto simp: sv)
  have at: "buf_at w p = buf_at v p" using w(7) by simp
  have blk: "is_block 1 ind (buf_at w p)" using b1(3) by (simp add: at)
  have "ind < disksize w" "ind \<notin> log_region w"
    using pd(1) bptr_region [OF ok order_refl, unfolded bp, OF ind(2)]
    by (simp_all only: lframe_room [OF w(6)] lframe_room [OF b1(6)] not_False_eq_True)
  then obtain x where x: "sq (set_bdata p (d (of_nat b))) (log_write p) w = Ok () x" "room k {p} x"
    using room_modify [OF w(4) insertI1 blk d] by blast
  have txw: "tx {p} w" using w(4) by (simp add: room_def)
  note m = tx_modify [OF txw _ blk d x(1)]
  have bx: "is_block 1 ind (buf_at x p)" "b_dirty (buf_at x p) \<or> b_data (buf_at x p) = disk x ind"
    using blk m(4) by (simp_all add: is_block_def)
  obtain t where t: "brelse p x = Ok () t" "room k ({p} - {p}) t"
    using room_brelse [OF x(2) _ bx] by auto
  have txx: "tx {p} x" using x(2) by (simp add: room_def)
  note e = tx_brelse [OF txx _ bx t(1)]
  have vt: "view t = (take_block b s)(ind := d (of_nat b))"
    using e(2) m(2) w(5) by (simp add: sv)
  have "lframe s t" using b1(6) w(6) m(3) e(3) by (blast intro: lframe_trans)
  moreover have "bdata p v = Ok (view s ind) v" "bdata p w = Ok (view s ind) w"
    using b1(4) by (simp_all add: bdata_def at)
  moreover have "b < fs_size s" "\<not> used s b" "room k {} t" using w(2,3) t(2) by (simp_all add: sv)
  ultimately show ?thesis using v(1) w(1) x(1) t(1) vt by blast
qed

lemma alloc_ind:
  assumes r: "room (Suc (Suc (Suc k))) {} s" and ok: "file_ok ip s" and free: "free_blocks s \<noteq> {}"
    and n: "NDIRECT \<le> n" "n < MAXFILE" and ind: "ind = i_addrs (ino s ip) ! NDIRECT" "ind \<noteq> 0"
    and z: "baddr s (ino s ip) n = 0"
  shows "\<exists>p v b w x t. bread 1 ind s = Ok p v \<and> bdata p v = Ok (view s ind) v \<and> balloc 1 v = Ok b w \<and>
    bdata p w = Ok (view s ind) w \<and>
    sq (set_bdata p (put_arr (4 * (n - NDIRECT)) (enc32 b) (view s ind))) (log_write p) w = Ok () x \<and>
    brelse p x = Ok () t \<and> room k {} t \<and> grown 1 ip s t \<and> b \<noteq> 0 \<and> baddr t (ino t ip) n = b"
proof -
  let ?I = "ino s ip" and ?d = "\<lambda>b. put_arr (4 * (n - NDIRECT)) (enc32 b) (view s ind)"
  have len: "length (view s ind) = BSIZE" using room_view_length [OF r] .
  have off: "4 * (m - NDIRECT) + 4 \<le> BSIZE" if "NDIRECT \<le> m" "m < MAXFILE" for m
    using that by (simp add: max_sizes(2,3)) (use max_sizes(3) in linarith)
  have el: "length (enc32 b) = 4" for b using c32.enc_length by simp
  obtain p v b w x t where a: "bread 1 ind s = Ok p v" "bdata p v = Ok (view s ind) v"
      "balloc 1 v = Ok (of_nat b) w" "bdata p w = Ok (view s ind) w"
      "sq (set_bdata p (?d (of_nat b))) (log_write p) w = Ok () x" "brelse p x = Ok () t"
    and t: "room k {} t" "lframe s t" "b < fs_size s" "\<not> used s b" "view t = (take_block b s)(ind := ?d (of_nat b))"
    using alloc_in_block [OF r ok free ind, of ?d] len off [OF n] el by auto
  note mk = more_kino [OF t(2)]
  have it: "ino t = ino s" by (simp add: ino_def fun_eq_iff mk)
  have bp: "bptr s ?I MAXFILE = ind" by (simp add: bptr_def ind)
  have same: "dec32 (sub_arr (4 * (m - NDIRECT)) 4 (?d (of_nat b))) =
      (if m = n then of_nat b else dec32 (sub_arr (4 * (m - NDIRECT)) 4 (view s ind)))"
    if m: "NDIRECT \<le> m" "m < MAXFILE" for m
  proof (cases "m = n")
    case True
    then show ?thesis
      using c32.at_same [where off = "4 * (n - NDIRECT)" and blk = "view s ind" and x = "of_nat b"] len off [OF n] by simp
  next
    case False
    then have "4 * (m - NDIRECT) + 4 \<le> 4 * (n - NDIRECT) \<or> 4 * (n - NDIRECT) + 4 \<le> 4 * (m - NDIRECT)"
      using m n by linarith
    then have "sub_arr (4 * (m - NDIRECT)) 4 (?d (of_nat b)) = sub_arr (4 * (m - NDIRECT)) 4 (view s ind)"
      using len off [OF n] off [OF m] el by (intro sub_put_disjoint) auto
    with False show ?thesis by simp
  qed
  have ptr: "bptr t (ino t ip) m = (if m = n then of_nat b else bptr s ?I m)" if m: "m \<le> MAXFILE" for m
  proof -
    consider "m < NDIRECT" | "NDIRECT \<le> m" "m < MAXFILE" | "m = MAXFILE"
      using m by (meson le_neq_implies_less not_le)
    then show ?thesis
      using n ind(2) same by cases (auto simp: bptr_def baddr_def it t(5) ind(1) [symmetric])
  qed
  have "bptr s ?I n = 0" "n \<le> MAXFILE" using z n by (simp_all add: bptr_def)
  moreover have "ino t ip = ?I\<lparr>i_addrs := i_addrs ?I\<rparr>" by (simp add: it)
  ultimately have "grown 1 ip s t"
    using room_view_length [OF r] file_okD(2) [OF ok] lframe_slocks [OF t(2)]
    by (intro grown_step [OF ok _ t(3,4) _ _ lframe_fsframe [OF t(2)] _ _ _ _ ptr])
       (auto simp: it t(5) bp ind(2))
  moreover have "(of_nat b :: u32) \<noteq> 0" by (rule not_used_0 [OF file_okD(6) [OF ok] t(3,4)])
  moreover have "baddr t (ino t ip) n = of_nat b" using ptr [of n] n by (simp add: baddr_bptr)
  ultimately show ?thesis using a t(1) by blast
qed

text \<open>The part of \<open>bmap\<close> that looks up an address in the indirect block.\<close>

definition bmap_ind :: "u32 \<Rightarrow> nat \<Rightarrow> ('m kino_scheme, u32) km" where
  "bmap_ind ind k =
     bnd (bread 1 ind) (\<lambda>bp.
     bnd (bdata bp) (\<lambda>d.
     let addr = dec32 (sub_arr (4 * k) 4 d) in
     bnd (if addr = 0
          then bnd (balloc 1) (\<lambda>addr.
               bnd (bdata bp) (\<lambda>d.
               sq (sq (set_bdata bp (put_arr (4 * k) (enc32 addr) d)) (log_write bp))
                  (ret addr)))
          else ret addr) (\<lambda>addr.
     sq (brelse bp) (ret addr))))"

lemma bmap_ind_run:
  assumes r: "room (Suc (Suc (Suc k))) {} s" and ok: "file_ok ip s" and free: "free_blocks s \<noteq> {}"
    and n: "NDIRECT \<le> n" "n < MAXFILE" and ind: "ind = i_addrs (ino s ip) ! NDIRECT" "ind \<noteq> 0"
  shows "\<exists>a t. bmap_ind ind (n - NDIRECT) s = Ok a t \<and> room k {} t \<and> grown 1 ip s t \<and> a \<noteq> 0 \<and>
    baddr t (ino t ip) n = a"
proof (cases "baddr s (ino s ip) n = 0")
  case True
  then have z: "dec32 (sub_arr (4 * (n - NDIRECT)) 4 (view s ind)) = 0" using n(1) ind by (simp add: baddr_def)
  obtain p v b w x t where a: "bread 1 ind s = Ok p v" "bdata p v = Ok (view s ind) v" "balloc 1 v = Ok b w"
      "bdata p w = Ok (view s ind) w"
      "sq (set_bdata p (put_arr (4 * (n - NDIRECT)) (enc32 b) (view s ind))) (log_write p) w = Ok () x"
      "brelse p x = Ok () t" and t: "room k {} t" "grown 1 ip s t" "b \<noteq> 0" "baddr t (ino t ip) n = b"
    using alloc_ind [OF r ok free n ind True] by blast
  have "bmap_ind ind (n - NDIRECT) s = Ok b t" using a z by (simp add: bmap_ind_def Let_def)
  with t show ?thesis by blast
next
  case False
  then have z: "dec32 (sub_arr (4 * (n - NDIRECT)) 4 (view s ind)) = baddr s (ino s ip) n"
    using n(1) ind by (simp add: baddr_def)
  have "ind < disksize s" using bptr_data(1) [OF ok order_refl] ind by (simp add: bptr_def)
  then obtain b u t where m: "bread 1 ind s = Ok b u" "bdata b u = Ok (view s ind) u" "brelse b u = Ok () t"
    and t: "room (Suc (Suc (Suc k))) {} t" "view t = view s" "lframe s t"
    using read_block [OF r, of ind] by (metis card.empty unheld_empty zero_le)
  have i: "ino t = ino s" by (simp add: ino_def fun_eq_iff more_kino [OF t(3)])
  have "bmap_ind ind (n - NDIRECT) s = Ok (baddr s (ino s ip) n) t"
    using m False by (simp add: bmap_ind_def Let_def z)
  moreover have "baddr t (ino t ip) n = baddr s (ino s ip) n" by (simp add: baddr_def i t(2))
  moreover have "room k {} t" using t(1) by (rule room_mono) simp
  ultimately show ?thesis using False grown_view [OF ok t(3,2)] by blast
qed

lemma touched_mono: "touched d ip s t \<Longrightarrow> d \<le> e \<Longrightarrow> touched e ip s t"
  by (auto simp: touched_def)

lemma grown_mono: "grown d ip s t \<Longrightarrow> d \<le> e \<Longrightarrow> grown e ip s t"
  by (auto simp: grown_def touched_def)

lemma grown_free:
  assumes "grown d ip s t" "d < card (free_blocks s)"
  shows "free_blocks t \<noteq> {}"
  using assms by (auto simp: grown_def touched_def)

lemma bmap_run:
  assumes r: "room (k + 5) {} s" and ok: "file_ok ip s" and free: "2 \<le> card (free_blocks s)"
    and n: "n < MAXFILE"
  shows "\<exists>a t. bmap ip n s = Ok a t \<and> room k {} t \<and> grown 2 ip s t \<and> a \<noteq> 0 \<and> baddr t (ino t ip) n = a"
proof -
  let ?I = "ino s ip"
  have dev: "i_dev ?I = 1" by (rule file_okD(5) [OF ok])
  have r5: "room (Suc (Suc (k + 3))) {} s" using r by (rule room_mono) simp
  have fr: "free_blocks s \<noteq> {}" using free by auto
  show ?thesis
  proof (cases "n < NDIRECT")
    case direct: True
    show ?thesis
    proof (cases "i_addrs ?I ! n = 0")
      case True
      obtain b t u where t: "balloc 1 s = Ok b t" "u = upd_ino ip (\<lambda>I. I\<lparr>i_addrs := (i_addrs I)[n := b]\<rparr>) t"
          "room (k + 3) {} u" "grown 1 ip s u" "b \<noteq> 0" "bptr u (ino u ip) n = b"
        using alloc_addr [OF r5 ok fr _ True] direct by (auto simp: less_imp_le)
      have "bmap ip n s = Ok b u" using t(1,2) True direct dev by (simp add: bmap_def)
      then show ?thesis
        using t n grown_mono [OF t(4), of 2] room_mono [OF t(3), of k] by (auto simp: baddr_bptr)
    next
      case False
      then have "bmap ip n s = Ok (i_addrs ?I ! n) s" using direct by (simp add: bmap_def)
      then show ?thesis
        using False direct grown_refl [OF ok] room_mono [OF r, of k] by (auto simp: baddr_def)
    qed
  next
    case indirect: False
    then have lt: "n - NDIRECT < NINDIRECT" and ge: "NDIRECT \<le> n" using n by (simp_all add: max_sizes(2))
    show ?thesis
    proof (cases "i_addrs ?I ! NDIRECT = 0")
      case True
      obtain b t u where t: "balloc 1 s = Ok b t" "u = upd_ino ip (\<lambda>I. I\<lparr>i_addrs := (i_addrs I)[NDIRECT := b]\<rparr>) t"
          "room (k + 3) {} u" "grown 1 ip s u" "b \<noteq> 0" "bptr u (ino u ip) MAXFILE = b"
        using alloc_addr [OF r5 ok fr order_refl True] by auto
      have oku: "file_ok ip u" using t(4) by (simp add: grown_def touched_def)
      have ru: "room (Suc (Suc (Suc k))) {} u" using t(3) by (rule room_mono) simp
      have ind: "b = i_addrs (ino u ip) ! NDIRECT" using t(6) by (simp add: bptr_def)
      obtain a w where w: "bmap_ind b (n - NDIRECT) u = Ok a w" "room k {} w" "grown 1 ip u w" "a \<noteq> 0"
          "baddr w (ino w ip) n = a"
        using bmap_ind_run [OF ru oku grown_free [OF t(4)] ge n ind t(5)] free by auto
      have "bmap ip n s = Ok a w"
        using w(1) t(1,2) True indirect lt dev by (simp add: bmap_def bmap_ind_def Let_def cong: if_cong)
      then show ?thesis using w grown_trans [OF t(4) w(3)] by (auto simp: numeral_2_eq_2)
    next
      case False
      have rs: "room (Suc (Suc (Suc k))) {} s" using r by (rule room_mono) simp
      obtain a w where w: "bmap_ind (i_addrs ?I ! NDIRECT) (n - NDIRECT) s = Ok a w" "room k {} w" "grown 1 ip s w"
          "a \<noteq> 0" "baddr w (ino w ip) n = a"
        using bmap_ind_run [OF rs ok fr ge n refl False] by auto
      have "bmap ip n s = Ok a w"
        using w(1) False indirect lt dev by (simp add: bmap_def bmap_ind_def Let_def cong: if_cong)
      then show ?thesis using w grown_mono [OF w(3), of 2] by auto
    qed
  qed
qed

end
