(* ===== verification/Frw.thy ===== *)
theory Frw
  imports Fdata
begin

text \<open>
  Reading and writing files: \<open>readi\<close> and \<open>writei\<close> (\<open>fs.c\<close>) return and store exactly the bytes of the
  requested range. A transfer is a list of chunks, each inside one block; \<open>chunk_ok\<close> says so, and
  the lemmas on \<open>chunks\<close> put the pieces together.
\<close>

section \<open>Chunks\<close>

definition chunk_ok :: "nat \<times> nat \<Rightarrow> bool" where
  "chunk_ok c \<longleftrightarrow> fst c mod BSIZE + snd c \<le> BSIZE \<and> fst c div BSIZE < MAXFILE"

lemma chunks_0 [simp]: "chunks off 0 = []"
  by (simp add: chunks.simps)

lemma chunks_step:
  assumes "0 < n" "m = min n (BSIZE - off mod BSIZE)"
  shows "chunks off n = (off, m) # chunks (off + m) (n - m)" "0 < m" "m \<le> n" "off mod BSIZE + m \<le> BSIZE"
proof -
  have "off mod BSIZE < BSIZE" by (simp add: BSIZE_def)
  then show "0 < m" "m \<le> n" "off mod BSIZE + m \<le> BSIZE" using assms by auto
  show "chunks off n = (off, m) # chunks (off + m) (n - m)"
    using assms by (subst chunks.simps) (simp add: Let_def)
qed

lemma chunk_in_block:
  assumes "off mod BSIZE + m \<le> BSIZE" "i < m"
  shows "(off + i) div BSIZE = off div BSIZE" "(off + i) mod BSIZE = off mod BSIZE + i"
proof -
  have lt: "off mod BSIZE + i < BSIZE" using assms by simp
  have e: "off + i = BSIZE * (off div BSIZE) + (off mod BSIZE + i)" by (metis add.assoc mult_div_mod_eq)
  show "(off + i) div BSIZE = off div BSIZE" by (subst e, subst div_mult_self4) (use lt in simp_all)
  show "(off + i) mod BSIZE = off mod BSIZE + i" by (subst e, subst mod_mult_self4) (use lt in simp)
qed

lemma chunk_bytes:
  assumes "off mod BSIZE + m \<le> BSIZE" "length (fblk s I (off div BSIZE)) = BSIZE"
  shows "sub_arr (off mod BSIZE) m (fblk s I (off div BSIZE)) = map (fbyte s I) [off..<off + m]"
proof (rule nth_equalityI)
  show "length (sub_arr (off mod BSIZE) m (fblk s I (off div BSIZE))) = length (map (fbyte s I) [off..<off + m])"
    using assms by (simp add: sub_arr_def)
  fix i assume "i < length (sub_arr (off mod BSIZE) m (fblk s I (off div BSIZE)))"
  then have "i < m" using assms by (simp add: sub_arr_def)
  then show "sub_arr (off mod BSIZE) m (fblk s I (off div BSIZE)) ! i = map (fbyte s I) [off..<off + m] ! i"
    using assms chunk_in_block [OF assms(1), of i] by (simp add: sub_arr_def fbyte_def)
qed

text \<open>The chunk with \<open>src\<close> stored over its range.\<close>

lemma chunk_put:
  assumes "off mod BSIZE + m \<le> BSIZE" "length src = m" "length d = BSIZE" "p mod BSIZE < BSIZE"
  shows "(if p div BSIZE = off div BSIZE then put_arr (off mod BSIZE) src d else e) ! (p mod BSIZE) =
    (if off \<le> p \<and> p < off + m then src ! (p - off)
     else (if p div BSIZE = off div BSIZE then d else e) ! (p mod BSIZE))"
proof (cases "p div BSIZE = off div BSIZE")
  case True
  have "p = BSIZE * (off div BSIZE) + p mod BSIZE" "off = BSIZE * (off div BSIZE) + off mod BSIZE"
    by (metis True mult_div_mod_eq, simp)
  then have "off \<le> p \<longleftrightarrow> off mod BSIZE \<le> p mod BSIZE" "p < off + m \<longleftrightarrow> p mod BSIZE < off mod BSIZE + m"
    "p - off = p mod BSIZE - off mod BSIZE"
    by linarith+
  then show ?thesis using True assms by (simp add: nth_put_arr)
next
  case False
  then have "\<not> (off \<le> p \<and> p < off + m)"
    using chunk_in_block(1) [OF assms(1), of "p - off"] by (metis add_diff_inverse_nat less_diff_conv2 not_le add.commute)
  then show ?thesis using False by auto
qed

section \<open>Reading\<close>

lemma grown_sameD:
  assumes "grown d ip s t"
  shows "file_ok ip t" "fsframe s t" "m < MAXFILE \<Longrightarrow> fblk t (ino t ip) m = fblk s (ino s ip) m"
  using assms by (simp_all add: grown_def touched_def)

lemma baddr_disk:
  assumes "file_ok ip s" "n < MAXFILE" "baddr s (ino s ip) n \<noteq> 0"
  shows "baddr s (ino s ip) n < disksize s"
  using bptr_data(1) [OF assms(1), of n] assms(2,3) by (simp add: baddr_bptr)

lemma lframe_file:
  assumes "lframe s t" "view t = view s"
  shows "ino t = ino s" "baddr t = baddr s" "fblk t = fblk s" "fbyte t = fbyte s"
proof -
  note mk = more_kino [OF assms(1)]
  show "ino t = ino s" "baddr t = baddr s" by (simp_all add: ino_def baddr_def fun_eq_iff mk assms(2))
  then show "fblk t = fblk s" by (simp add: fblk_def fun_eq_iff assms(2))
  then show "fbyte t = fbyte s" by (simp add: fbyte_def fun_eq_iff)
qed

lemma read_chunks_run:
  assumes "room k {} s" "file_ok ip s" "\<forall>p. off \<le> p \<and> p < off + n \<longrightarrow> baddr s (ino s ip) (p div BSIZE) \<noteq> 0"
    and "off + n \<le> MAXFILE * BSIZE"
  shows "\<exists>t. read_chunks ip (chunks off n) s = Ok (map (fbyte s (ino s ip)) [off..<off + n]) t \<and>
    room k {} t \<and> view t = view s \<and> lframe s t"
  using assms
proof (induction off n arbitrary: s rule: chunks.induct)
  case (1 off n)
  show ?case
  proof (cases "n = 0")
    case True
    then show ?thesis using 1(2) by auto
  next
    case False
    define m where "m = min n (BSIZE - off mod BSIZE)"
    have c: "chunks off n = (off, m) # chunks (off + m) (n - m)" "0 < m" "m \<le> n" "off mod BSIZE + m \<le> BSIZE"
      using chunks_step [OF _ m_def] False by auto
    let ?I = "ino s ip" and ?n = "off div BSIZE"
    have B: "0 < BSIZE" by (simp add: BSIZE_def)
    have n: "?n < MAXFILE" using 1(5) False B by (simp add: less_mult_imp_div_less)
    have a: "baddr s ?I ?n \<noteq> 0" using 1(4) False by simp
    obtain t1 where t1: "bmap ip ?n s = Ok (baddr s ?I ?n) t1" "room k {} t1" "view t1 = view s" "lframe s t1"
      using bmap_present [OF 1(2,3) n a] by blast
    have "baddr s ?I ?n < disksize t1" using baddr_disk [OF 1(3) n a] more_kino [OF t1(4)] t1(4)
      by (simp add: lframe_def bbase_def)
    then obtain b u t2 where m: "bread 1 (baddr s ?I ?n) t1 = Ok b u"
        "bdata b u = Ok (view t1 (baddr s ?I ?n)) u" "brelse b u = Ok () t2"
      and t2: "room k {} t2" "view t2 = view t1" "lframe t1 t2"
      using read_block [OF t1(2), of "baddr s ?I ?n"] by (metis card.empty unheld_empty zero_le)
    have fr: "lframe s t2" "view t2 = view s" using t1 t2 lframe_trans by auto
    note same = lframe_file [OF fr]
    have ok2: "file_ok ip t2" using grown_view [OF 1(3) fr] grown_sameD(1) by blast
    have "\<exists>t. read_chunks ip (chunks (off + m) (n - m)) t2 =
        Ok (map (fbyte t2 (ino t2 ip)) [off + m..<off + m + (n - m)]) t \<and> room k {} t \<and> view t = view t2 \<and> lframe t2 t"
      using False 1(4,5) c(3) by (intro "1.IH" [OF _ m_def t2(1) ok2]) (auto simp: same)
    then obtain t where t: "read_chunks ip (chunks (off + m) (n - m)) t2 =
        Ok (map (fbyte s ?I) [off + m..<off + n]) t" "room k {} t" "view t = view t2" "lframe t2 t"
      using c(3) by (auto simp: same)
    have d: "view t1 (baddr s ?I ?n) = fblk s ?I ?n" using a t1(3) by (simp add: fblk_def)
    have "length (fblk s ?I ?n) = BSIZE" using room_view_length [OF 1(2)] a by (simp add: fblk_def)
    note bs = chunk_bytes [OF c(4) this]
    have "[off..<off + n] = [off..<off + m] @ [off + m..<off + n]" using c(3) by (metis le_add1 le_add_diff_inverse upt_add_eq_append add.assoc)
    then have "read_chunks ip (chunks off n) s = Ok (map (fbyte s ?I) [off..<off + n]) t"
      using t1(1) m t(1) file_okD(5) [OF 1(3)] by (simp add: c(1) d bs)
    then show ?thesis using t fr lframe_trans by auto
  qed
qed

text \<open>The blocks of a file up to its size are there.\<close>

definition mapped :: "nat \<Rightarrow> 'm kino_scheme \<Rightarrow> bool" where
  "mapped ip s \<longleftrightarrow> unat (i_size (ino s ip)) \<le> MAXFILE * BSIZE \<and>
     (\<forall>p<unat (i_size (ino s ip)). baddr s (ino s ip) (p div BSIZE) \<noteq> 0)"

lemma sint_nonneg: "unat (n :: u32) < 2 ^ 31 \<Longrightarrow> sint n = int (unat n)"
proof -
  assume "unat n < 2 ^ 31"
  then have "int (unat n) < int (2 ^ 31)" by (simp only: of_nat_less_iff)
  then have l: "uint n < 2 ^ 31" by simp
  have "signed_take_bit 31 (uint n) = uint n"
    by (rule signed_take_bit_int_eq_self [OF _ l]) (rule order_trans [of _ 0], simp_all)
  then show ?thesis by (simp add: sint_uint)
qed

lemma small_sint: "unat (n :: u32) \<le> MAXFILE * BSIZE \<Longrightarrow> sint n = int (unat n)"
  by (rule sint_nonneg) (simp add: MAXFILE_def NDIRECT_def NINDIRECT_def BSIZE_def)

lemma readi_run:
  assumes "room k {} s" "file_ok ip s" "mapped ip s" "i_type (ino s ip) \<noteq> T_DEV"
    and "off \<le> i_size (ino s ip)" "unat off + unat n < 2 ^ 32"
    and e: "e = min (unat off + unat n) (unat (i_size (ino s ip)))"
  shows "\<exists>t. readi ip off n s = Ok (int (e - unat off), map (fbyte s (ino s ip)) [unat off..<e]) t \<and>
    room k {} t \<and> view t = view s \<and> lframe s t"
proof -
  let ?I = "ino s ip"
  define n' where "n' = (if off + n > i_size ?I then i_size ?I - off else n)"
  have on: "unat (off + n) = unat off + unat n" using assms(6) by (simp add: unat_plus_if_size word_size)
  have le: "unat off \<le> unat (i_size ?I)" using assms(5) by (simp add: word_le_nat_alt)
  have ee: "unat n' = e - unat off" "unat off + unat n' = e"
    using le assms(5) by (auto simp: n'_def e on word_less_nat_alt unat_sub)
  have sz: "unat (i_size ?I) \<le> MAXFILE * BSIZE" using assms(3) by (simp add: mapped_def)
  have E: "e \<le> unat (i_size ?I)" by (simp add: e)
  obtain t where t: "read_chunks ip (chunks (unat off) (unat n')) s =
        Ok (map (fbyte s ?I) [unat off..<unat off + unat n']) t" "room k {} t" "view t = view s" "lframe s t"
    using read_chunks_run [OF assms(1,2), of "unat off" "unat n'"] assms(3) E sz by (auto simp: mapped_def ee(2))
  have "sint n' = int (e - unat off)" using small_sint [of n'] ee E sz by simp
  moreover have "\<not> (i_size ?I < off \<or> off + n < off)"
    using le on by (simp add: word_less_nat_alt)
  ultimately have "readi ip off n s = Ok (int (e - unat off), map (fbyte s ?I) [unat off..<e]) t"
    using t(1) assms(4) n'_def ee(2) by (simp add: readi_def Let_def)
  with t show ?thesis by blast
qed

section \<open>Writing\<close>

lemma store_outside:
  assumes ok: "file_ok ip s" and a: "unat a \<in> data_blocks s" "i_addrs (ino s ip) ! NDIRECT = 0 \<or> i_addrs (ino s ip) ! NDIRECT \<noteq> a"
    and t: "lframe s t" "view t = (view s)(a := d)"
  shows "file_ok ip t" "baddr t (ino s ip) m = baddr s (ino s ip) m" "free_blocks t = free_blocks s"
proof -
  let ?I = "ino s ip"
  note mk = more_kino [OF t(1)] and fs = lframe_fsframe [OF t(1)]
  note fb = fsframe_blocks [OF fs]
  have i: "ino t = ino s" by (simp add: ino_def fun_eq_iff mk)
  have ba: "baddr t ?I m = baddr s ?I m" for m using a(2) by (auto simp: baddr_def t(2))
  then have bp: "bptr t ?I m = bptr s ?I m" for m by (simp add: bptr_def)
  have us: "used t c = used s c" if "c < fs_size s" for c
    using a(1) that by (auto simp: used_def fb t(2) data_blocks_def)
  have pos: "0 < fs_size s" using ok by (auto simp: file_ok_def data_blocks_def)
  show "free_blocks t = free_blocks s" using us by (auto simp: free_blocks_def fb)
  have "bitmap_ok t" using file_okD(3) [OF ok] us by (simp add: bitmap_ok_def fb)
  moreover have "inode_ok ip t" using file_okD(1) [OF ok] fs by (simp add: inode_ok_def i fb fsframe_def)
  moreover have "used t (unat (bptr s ?I m))" if "m \<le> MAXFILE" "bptr s ?I m \<noteq> 0" for m
    using us bptr_data(2,3) [OF ok that] by (simp add: data_blocks_def)
  moreover have "used t (unat (IBLOCK (i_inum ?I) (fs_sb s)))"
    using ok us by (simp add: file_ok_def data_blocks_def)
  ultimately show "file_ok ip t"
    using ok us [OF pos] by (simp add: file_ok_def i bp fb)
  show "baddr t ?I m = baddr s ?I m" by (rule ba)
qed

lemma store_block:
  assumes ok: "file_ok ip s" and n: "n < MAXFILE" "a = baddr s (ino s ip) n" "a \<noteq> 0"
    and t: "lframe s t" "view t = (view s)(a := d)"
  shows "touched 0 ip s t"
    and "m < MAXFILE \<Longrightarrow> fblk t (ino t ip) m = (if m = n then d else fblk s (ino s ip) m)"
proof -
  let ?I = "ino s ip"
  note mk = more_kino [OF t(1)] and fs = lframe_fsframe [OF t(1)]
  have i: "ino t = ino s" by (simp add: ino_def fun_eq_iff mk)
  have a: "a = bptr s ?I n" using n by (simp add: baddr_bptr)
  have neq: "bptr s ?I m \<noteq> a" if "m \<le> MAXFILE" "m \<noteq> n" for m
    using bptr_inj [OF ok less_imp_le [OF n(1)] that(1)] that(2) n(3) unfolding a by metis
  have "unat a \<in> data_blocks s" using bptr_data(3) [OF ok less_imp_le [OF n(1)]] n(3) by (simp add: a)
  moreover have "i_addrs ?I ! NDIRECT \<noteq> a" using neq [of MAXFILE] n(1) by (simp add: bptr_def)
  ultimately have ot: "file_ok ip t" "\<And>m. baddr t ?I m = baddr s ?I m" "free_blocks t = free_blocks s"
    using store_outside [OF ok _ _ t] by auto
  then have bp: "bptr t ?I m = bptr s ?I m" for m by (simp add: bptr_def)
  have other: "view t (of_nat c) = view s (of_nat c)"
    if "c \<in> data_blocks s" "\<forall>m\<le>MAXFILE. unat (bptr s ?I m) \<noteq> c" for c
    using that n(1) unat_data [OF that(1)] by (auto simp: t(2) a)
  show "touched 0 ip s t"
    using fs lframe_slocks [OF t(1)] other ot by (simp add: touched_def i bp)
  show "m < MAXFILE \<Longrightarrow> fblk t (ino t ip) m = (if m = n then d else fblk s ?I m)"
    using n neq [of m] by (auto simp: fblk_def i ot t(2) baddr_bptr)
qed

lemma grown_touched: "grown d ip s t \<Longrightarrow> touched d ip s t"
  by (simp add: grown_def)

lemma touchedD:
  assumes "touched d ip s t"
  shows "file_ok ip t" "fsframe s t" "card (free_blocks s) \<le> card (free_blocks t) + d"
    "ino t ip = (ino s ip)\<lparr>i_addrs := i_addrs (ino t ip)\<rparr>" "\<And>j. j \<noteq> ip \<Longrightarrow> ino t j = ino s j"
    "\<And>m. m < MAXFILE \<Longrightarrow> baddr s (ino s ip) m \<noteq> 0 \<Longrightarrow> baddr t (ino t ip) m = baddr s (ino s ip) m"
proof -
  show "file_ok ip t" "fsframe s t" "card (free_blocks s) \<le> card (free_blocks t) + d"
    "ino t ip = (ino s ip)\<lparr>i_addrs := i_addrs (ino t ip)\<rparr>" "\<And>j. j \<noteq> ip \<Longrightarrow> ino t j = ino s j"
    using assms by (auto simp: touched_def)
  show "baddr t (ino t ip) m = baddr s (ino s ip) m" if "m < MAXFILE" "baddr s (ino s ip) m \<noteq> 0" for m
    using assms that by (auto simp: touched_def baddr_bptr dest: spec [of _ m])
qed

text \<open>
  The number of chunks whose block is not there yet: each of them needs at most two free blocks, itself and
  the indirect block, and room for five more writes in the transaction.
\<close>

definition missing :: "'m kino_scheme \<Rightarrow> nat \<Rightarrow> (nat \<times> nat) list \<Rightarrow> nat" where
  "missing s ip cs = length (filter (\<lambda>(o1, m). baddr s (ino s ip) (o1 div BSIZE) = 0) cs)"

lemma missing_le: "missing s ip cs \<le> length cs"
  by (simp add: missing_def)

lemma missing_Cons:
  "missing s ip ((o1, m) # cs) = (if baddr s (ino s ip) (o1 div BSIZE) = 0 then 1 else 0) + missing s ip cs"
  by (simp add: missing_def)

lemma missing_mono:
  assumes "touched d ip s t" "\<forall>(o1, m)\<in>set cs. o1 div BSIZE < MAXFILE"
  shows "missing t ip cs \<le> missing s ip cs"
  using assms(2)
proof (induction cs)
  case (Cons c cs)
  obtain o1 m where c: "c = (o1, m)" by (cases c)
  have "baddr t (ino t ip) (o1 div BSIZE) = 0 \<Longrightarrow> baddr s (ino s ip) (o1 div BSIZE) = 0"
    using touchedD(6) [OF assms(1), of "o1 div BSIZE"] Cons.prems by (fastforce simp: c)
  then show ?case using Cons by (auto simp: c missing_Cons)
qed (simp add: missing_def)

lemma chunks_blocks: "off + n \<le> MAXFILE * BSIZE \<Longrightarrow> \<forall>(o1, m)\<in>set (chunks off n). o1 div BSIZE < MAXFILE"
proof (induction off n rule: chunks.induct)
  case (1 off n)
  show ?case
  proof (cases "n = 0")
    case False
    define m where "m = min n (BSIZE - off mod BSIZE)"
    have c: "chunks off n = (off, m) # chunks (off + m) (n - m)" "0 < m" "m \<le> n"
      using chunks_step [OF _ m_def] False by auto
    have "off div BSIZE < MAXFILE" using 1(2) False by (simp add: less_mult_imp_div_less BSIZE_def)
    then show ?thesis using "1.IH" [OF False m_def] 1(2) c by (auto simp: c(1))
  qed simp
qed

text \<open>One chunk: find or allocate the block, store into it and log it.\<close>

lemma bmap_get:
  assumes "room (k + 5 * missing s ip [(off, m)]) {} s" and ok: "file_ok ip s"
    and "2 * missing s ip [(off, m)] \<le> card (free_blocks s)" and n: "off div BSIZE < MAXFILE"
  shows "\<exists>a t. bmap ip (off div BSIZE) s = Ok a t \<and> room k {} t \<and> grown (2 * missing s ip [(off, m)]) ip s t \<and> a \<noteq> 0 \<and>
    baddr t (ino t ip) (off div BSIZE) = a"
proof (cases "baddr s (ino s ip) (off div BSIZE) = 0")
  case True
  then show ?thesis using assms bmap_run [of k s ip "off div BSIZE"] by (simp add: missing_def)
next
  case False
  then obtain t where t: "bmap ip (off div BSIZE) s = Ok (baddr s (ino s ip) (off div BSIZE)) t" "room k {} t"
      "view t = view s" "lframe s t"
    using bmap_present [OF _ ok n, of k] assms(1) by (auto simp: missing_def)
  have "ino t = ino s" by (simp add: ino_def fun_eq_iff more_kino [OF t(4)])
  then have "baddr t (ino t ip) (off div BSIZE) = baddr s (ino s ip) (off div BSIZE)" by (simp add: baddr_def t(3))
  then show ?thesis using t False grown_mono [OF grown_view [OF ok t(4,3)]] by (auto simp: missing_def)
qed

lemma write_chunk:
  assumes r: "room (k + 1 + 5 * missing s ip [(off, m)]) {} s" and ok: "file_ok ip s"
    and free: "2 * missing s ip [(off, m)] \<le> card (free_blocks s)"
    and c: "off div BSIZE < MAXFILE" "off mod BSIZE + m \<le> BSIZE" "length src = m"
  shows "\<exists>a t1 b u v t. bmap ip (off div BSIZE) s = Ok a t1 \<and> bread 1 a t1 = Ok b u \<and>
    bdata b u = Ok (fblk s (ino s ip) (off div BSIZE)) u \<and>
    sq (set_bdata b (put_arr (off mod BSIZE) src (fblk s (ino s ip) (off div BSIZE)))) (log_write b) u = Ok () v \<and>
    brelse b v = Ok () t \<and> room k {} t \<and> touched (2 * missing s ip [(off, m)]) ip s t \<and> baddr t (ino t ip) (off div BSIZE) \<noteq> 0 \<and>
    (\<forall>p<MAXFILE * BSIZE. fbyte t (ino t ip) p =
      (if off \<le> p \<and> p < off + m then src ! (p - off) else fbyte s (ino s ip) p))"
proof -
  let ?n = "off div BSIZE" and ?I = "ino s ip"
  let ?d = "fblk s ?I ?n" let ?d' = "put_arr (off mod BSIZE) src ?d"
  have "room (Suc k + 5 * missing s ip [(off, m)]) {} s" using r by (rule room_mono) simp
  then obtain a t1 where t1: "bmap ip ?n s = Ok a t1" "room (Suc k) {} t1"
      "grown (2 * missing s ip [(off, m)]) ip s t1" "a \<noteq> 0" "baddr t1 (ino t1 ip) ?n = a"
    using bmap_get [OF _ ok free c(1)] by blast
  have ok1: "file_ok ip t1" and fb: "\<And>m. m < MAXFILE \<Longrightarrow> fblk t1 (ino t1 ip) m = fblk s ?I m"
    using grown_sameD [OF t1(3)] by auto
  have va: "view t1 a = ?d" using fb [OF c(1)] t1(4,5) by (simp add: fblk_def)
  have ld: "length ?d = BSIZE" using room_view_length [OF t1(2)] by (simp add: va [symmetric])
  have ld': "length ?d' = BSIZE" using c ld by (simp add: length_put_arr)
  have "a < disksize t1" using baddr_disk [OF ok1 c(1)] t1(4,5) by simp
  moreover have "a \<notin> log_region t1"
    using bptr_region [OF ok1 less_imp_le [OF c(1)]] t1(4,5) by (simp add: baddr_bptr [OF c(1)])
  ultimately obtain b u v t where m: "bread 1 a t1 = Ok b u" "bdata b u = Ok (view t1 a) u"
      "sq (set_bdata b ?d') (log_write b) u = Ok () v" "brelse b v = Ok () t"
    and t: "room k {} t" "view t = (view t1)(a := ?d')" "lframe t1 t"
    using modify_block [OF t1(2) _ unheld_empty _ _ ld', of a] by (metis card.empty zero_le)
  note st = store_block [OF ok1 c(1) t1(5) [symmetric] t1(4) t(3,2)]
  have to: "touched (2 * missing s ip [(off, m)]) ip s t" using touched_trans [OF grown_touched [OF t1(3)] st(1)] by simp
  have nz: "baddr t (ino t ip) ?n \<noteq> 0" using touchedD(6) [OF st(1) c(1)] t1(4,5) by simp
  have "fbyte t (ino t ip) p = (if off \<le> p \<and> p < off + m then src ! (p - off) else fbyte s ?I p)"
    if "p < MAXFILE * BSIZE" for p
  proof -
    have "p div BSIZE < MAXFILE" using that by (simp add: less_mult_imp_div_less)
    then have "fbyte t (ino t ip) p = (if p div BSIZE = ?n then ?d' else fblk s ?I (p div BSIZE)) ! (p mod BSIZE)"
      using st(2) fb by (simp add: fbyte_def)
    also have "\<dots> = (if off \<le> p \<and> p < off + m then src ! (p - off)
        else (if p div BSIZE = ?n then ?d else fblk s ?I (p div BSIZE)) ! (p mod BSIZE))"
      by (rule chunk_put [OF c(2,3) ld]) (simp add: BSIZE_def)
    also have "(if p div BSIZE = ?n then ?d else fblk s ?I (p div BSIZE)) ! (p mod BSIZE) = fbyte s ?I p"
      by (simp add: fbyte_def)
    finally show ?thesis .
  qed
  with t1(1) m va t(1) to nz show ?thesis by auto
qed

lemma write_chunks_run:
  assumes "room (k + length (chunks off n) + 5 * missing s ip (chunks off n)) {} s" "file_ok ip s"
    and "2 * missing s ip (chunks off n) \<le> card (free_blocks s)"
    and "off + n \<le> MAXFILE * BSIZE" "length src = n"
  shows "\<exists>t. write_chunks ip (chunks off n) src s = Ok () t \<and> room k {} t \<and>
    touched (2 * missing s ip (chunks off n)) ip s t \<and>
    (\<forall>p. off \<le> p \<and> p < off + n \<longrightarrow> baddr t (ino t ip) (p div BSIZE) \<noteq> 0) \<and>
    (\<forall>p<MAXFILE * BSIZE. fbyte t (ino t ip) p =
      (if off \<le> p \<and> p < off + n then src ! (p - off) else fbyte s (ino s ip) p))"
  using assms
proof (induction off n arbitrary: s src rule: chunks.induct)
  case (1 off n)
  show ?case
  proof (cases "n = 0")
    case True
    then show ?thesis using 1(2,3) grown_touched [OF grown_refl] by (auto simp: missing_def)
  next
    case False
    define m where "m = min n (BSIZE - off mod BSIZE)"
    have c: "chunks off n = (off, m) # chunks (off + m) (n - m)" "0 < m" "m \<le> n" "off mod BSIZE + m \<le> BSIZE"
      using chunks_step [OF _ m_def] False by auto
    let ?cs = "chunks (off + m) (n - m)" and ?I = "ino s ip"
    have n: "off div BSIZE < MAXFILE" using 1(5) False by (simp add: less_mult_imp_div_less BSIZE_def)
    let ?d = "missing s ip [(off, m)]"
    have ms: "missing s ip (chunks off n) = ?d + missing s ip ?cs" by (simp add: c(1) missing_def)
    have r: "room ((k + length ?cs + 5 * missing s ip ?cs) + 1 + 5 * ?d) {} s"
      using 1(2) by (rule room_mono) (simp add: c(1) ms [unfolded c(1)])
    have "2 * ?d \<le> card (free_blocks s)" "length (take m src) = m" using 1(4,6) c(3) ms by simp_all
    then obtain a t1 b u v t where w: "bmap ip (off div BSIZE) s = Ok a t1" "bread 1 a t1 = Ok b u"
        "bdata b u = Ok (fblk s ?I (off div BSIZE)) u"
        "sq (set_bdata b (put_arr (off mod BSIZE) (take m src) (fblk s ?I (off div BSIZE)))) (log_write b) u = Ok () v"
        "brelse b v = Ok () t"
      and t: "room (k + length ?cs + 5 * missing s ip ?cs) {} t" "touched (2 * ?d) ip s t" "baddr t (ino t ip) (off div BSIZE) \<noteq> 0"
        "\<forall>p<MAXFILE * BSIZE. fbyte t (ino t ip) p =
          (if off \<le> p \<and> p < off + m then take m src ! (p - off) else fbyte s ?I p)"
      using write_chunk [OF r 1(3) _ n c(4)] by blast
    note tD = touchedD [OF t(2)]
    have mono: "missing t ip ?cs \<le> missing s ip ?cs"
      using 1(5) c(3) by (intro missing_mono [OF t(2)] chunks_blocks) simp
    then have rt: "room (k + length ?cs + 5 * missing t ip ?cs) {} t" by (intro room_mono [OF t(1)]) simp
    have "2 * missing t ip ?cs \<le> card (free_blocks t)" using 1(4) tD(3) mono ms by simp
    moreover have "off + m + (n - m) \<le> MAXFILE * BSIZE" using 1(5) c(3) by simp
    moreover have "length (drop m src) = n - m" using 1(6) by simp
    ultimately obtain z where z: "write_chunks ip ?cs (drop m src) t = Ok () z" "room k {} z"
        "touched (2 * missing t ip ?cs) ip t z"
        "\<forall>p. off + m \<le> p \<and> p < off + m + (n - m) \<longrightarrow> baddr z (ino z ip) (p div BSIZE) \<noteq> 0"
        "\<forall>p<MAXFILE * BSIZE. fbyte z (ino z ip) p =
          (if off + m \<le> p \<and> p < off + m + (n - m) then drop m src ! (p - (off + m)) else fbyte t (ino t ip) p)"
      using "1.IH" [OF False m_def rt tD(1)] by blast
    have e: "off + m + (n - m) = off + n" using c(3) by simp
    have run: "write_chunks ip (chunks off n) src s = Ok () z"
      using w z(1) file_okD(5) [OF 1(3)] by (simp add: c(1))
    have "touched (2 * missing s ip (chunks off n)) ip s z"
      using mono by (intro touched_mono [OF touched_trans [OF t(2) z(3)]]) (simp add: ms)
    moreover have "baddr z (ino z ip) (p div BSIZE) \<noteq> 0" if p: "off \<le> p" "p < off + n" for p
    proof (cases "p < off + m")
      case True
      then have "p div BSIZE = off div BSIZE" using chunk_in_block(1) [OF c(4), of "p - off"] p(1) by simp
      then show ?thesis using touchedD(6) [OF z(3) n t(3)] t(3) by simp
    qed (use z(4) p in \<open>simp add: e\<close>)
    moreover have "fbyte z (ino z ip) p = (if off \<le> p \<and> p < off + n then src ! (p - off) else fbyte s ?I p)"
      if p: "p < MAXFILE * BSIZE" for p
    proof -
      have "drop m src ! (p - (off + m)) = src ! (p - off)" if "off + m \<le> p" "p < off + n"
        using that 1(6) c(3) by simp
      moreover have "take m src ! (p - off) = src ! (p - off)" if "off \<le> p" "p < off + m"
        using that by simp
      ultimately show ?thesis using z(5) t(4) p c(3) e by auto
    qed
    ultimately show ?thesis using run z(2) by blast
  qed
qed

text \<open>The size of an inode, and its copy on the disk, can change without touching the file.\<close>

lemma set_size:
  assumes "file_ok ip s" "view (upd_ino ip (i_size_update (\<lambda>_. z)) s) = view s"
  shows "file_ok ip (upd_ino ip (i_size_update (\<lambda>_. z)) s)"
    "ino (upd_ino ip (i_size_update (\<lambda>_. z)) s) ip = (ino s ip)\<lparr>i_size := z\<rparr>"
    "baddr (upd_ino ip (i_size_update (\<lambda>_. z)) s) ((ino s ip)\<lparr>i_size := z\<rparr>) m = baddr s (ino s ip) m"
    "free_blocks (upd_ino ip (i_size_update (\<lambda>_. z)) s) = free_blocks s"
proof -
  let ?u = "upd_ino ip (i_size_update (\<lambda>_. z)) s"
  have iu: "ino ?u ip = (ino s ip)\<lparr>i_size := z\<rparr>" using ino_upd_ino [OF file_okD(4) [OF assms(1)]] by simp
  have ba: "baddr ?u ((ino s ip)\<lparr>i_size := z\<rparr>) = baddr s (ino s ip)"
    by (simp add: baddr_def fun_eq_iff assms(2))
  then have bp: "bptr ?u ((ino s ip)\<lparr>i_size := z\<rparr>) = bptr s (ino s ip)" by (simp add: bptr_def fun_eq_iff)
  have us: "used ?u = used s" by (simp add: used_def fun_eq_iff assms(2))
  have sz: "fs_size ?u = fs_size s" "data_blocks ?u = data_blocks s" by (simp_all add: fs_size_def data_blocks_def)
  show "free_blocks ?u = free_blocks s" by (simp add: free_blocks_def us sz)
  show "file_ok ip ?u" using assms(1) by (simp add: file_ok_def inode_ok_def bitmap_ok_def iu bp us sz)
  show "baddr ?u ((ino s ip)\<lparr>i_size := z\<rparr>) m = baddr s (ino s ip) m" by (simp add: ba)
qed (use ino_upd_ino [OF file_okD(4) [OF assms(1)]] in simp)

text \<open>\<open>wrote_file ip off src s t\<close>: the file has \<open>src\<close> at \<open>off\<close>, and everything else is as before.\<close>

definition new_size :: "nat \<Rightarrow> bytes \<Rightarrow> inode \<Rightarrow> nat" where
  "new_size off src I = max (unat (i_size I)) (off + length src)"

definition wrote_file :: "nat \<Rightarrow> nat \<Rightarrow> bytes \<Rightarrow> 'm kino_scheme \<Rightarrow> 'm kino_scheme \<Rightarrow> bool" where
  "wrote_file ip off src s t \<longleftrightarrow> file_ok ip t \<and> mapped ip t \<and> fsframe s t \<and> (\<forall>j. j \<noteq> ip \<longrightarrow> ino t j = ino s j) \<and>
     (\<forall>j. slocks t (SL_inode j) = slocks s (SL_inode j)) \<and>
     ino t ip = (ino s ip)\<lparr>i_addrs := i_addrs (ino t ip), i_size := of_nat (new_size off src (ino s ip))\<rparr> \<and>
     (\<forall>p<MAXFILE * BSIZE. fbyte t (ino t ip) p =
        (if off \<le> p \<and> p < off + length src then src ! (p - off) else fbyte s (ino s ip) p)) \<and>
     card (free_blocks s) \<le> card (free_blocks t) + 2 * missing s ip (chunks off (length src)) \<and>
     (\<forall>c\<in>data_blocks s - free_blocks s - {unat (IBLOCK (i_inum (ino s ip)) (fs_sb s))}.
        (\<forall>m\<le>MAXFILE. unat (bptr s (ino s ip) m) \<noteq> c) \<longrightarrow> view t (of_nat c) = view s (of_nat c)) \<and>
     (unat (i_size (ino s ip)) < off + length src \<longrightarrow> dinode_at t (i_inum (ino s ip)) = dinode_of (ino t ip)) \<and>
     (off + length src \<le> unat (i_size (ino s ip)) \<longrightarrow> dinode_at t (i_inum (ino s ip)) = dinode_at s (i_inum (ino s ip)) \<and>
        (missing s ip (chunks off (length src)) = 0 \<longrightarrow> ino t ip = ino s ip))"

text \<open>The last step of \<open>writei\<close>: the new size goes into the inode and to the disk.\<close>

lemma store_size:
  assumes r: "room (Suc k) {} s" and ok: "file_ok ip s"
  shows "\<exists>t. iupdate ip (upd_ino ip (i_size_update (\<lambda>_. z)) s) = Ok () t \<and> room k {} t \<and> file_ok ip t \<and> fsframe s t \<and>
    (\<forall>j. j \<noteq> ip \<longrightarrow> ino t j = ino s j) \<and> ino t ip = (ino s ip)\<lparr>i_size := z\<rparr> \<and> free_blocks t = free_blocks s \<and>
    (\<forall>m. baddr t (ino t ip) m = baddr s (ino s ip) m) \<and>
    (\<forall>m<MAXFILE. fblk t (ino t ip) m = fblk s (ino s ip) m) \<and>
    (\<forall>a. a \<noteq> IBLOCK (i_inum (ino s ip)) (fs_sb s) \<longrightarrow> view t a = view s a) \<and>
    dinode_at t (i_inum (ino s ip)) = dinode_of (ino t ip) \<and> (\<forall>j. slocks t (SL_inode j) = slocks s (SL_inode j))"
proof -
  let ?u = "upd_ino ip (i_size_update (\<lambda>_. z)) s" and ?I = "ino s ip" let ?J = "?I\<lparr>i_size := z\<rparr>"
  let ?B = "IBLOCK (i_inum ?I) (fs_sb s)"
  note ru = room_upd_ino [OF r, of ip "i_size_update (\<lambda>_. z)"]
  note u = set_size [OF ok ru(2)]
  note uD = file_okD [OF u(1)]
  have "IBLOCK (i_inum (ino ?u ip)) (fs_sb ?u) < disksize ?u"
    "IBLOCK (i_inum (ino ?u ip)) (fs_sb ?u) \<notin> log_region ?u" using uD(1) by (simp_all add: inode_ok_def)
  then obtain t where t: "iupdate ip ?u = Ok () t" "room k {} t" "lframe ?u t"
      "view t = write_inode (i_inum ?J) (dinode_of ?J) ?u"
    using iupdate_run [OF ru(1) _ uD(5,2)] by (auto simp: u(2))
  have B: "unat ?B \<in> data_blocks ?u" using ok by (simp add: file_ok_def data_blocks_def fs_size_def)
  have nB: "bptr s ?I m \<noteq> ?B" if "m \<le> MAXFILE" "bptr s ?I m \<noteq> 0" for m using ok that by (simp add: file_ok_def)
  have vt: "view t = (view s)(?B := put_dinode (i_inum ?I) (dinode_of ?J) (view s ?B))"
    using t(4) by (simp add: write_inode_def ru(2))
  have ind: "i_addrs (ino ?u ip) ! NDIRECT = 0 \<or> i_addrs (ino ?u ip) ! NDIRECT \<noteq> ?B"
    using nB [of MAXFILE] by (auto simp: u(2) bptr_def)
  note ot = store_outside [OF u(1) B ind t(3), unfolded ru(2), OF vt]
  note tk = more_kino [OF t(3)]
  have it: "ino t j = ino ?u j" for j by (simp add: ino_def tk)
  have ba: "baddr t (ino t ip) m = baddr s ?I m" for m using ot(2) [of m] u(3) [of m] by (simp add: it u(2))
  have fb: "fblk t (ino t ip) m = fblk s ?I m" if "m < MAXFILE" for m
    using nB [of m] that by (simp add: fblk_def ba vt baddr_bptr)
  have wf: "wf_dinode (dinode_of ?J)" using file_okD(2) [OF ok] by (simp add: wf_dinode_def dinode_of_def)
  have di: "dinode_at t (i_inum ?I) = dinode_of ?J"
    using room_view_length [OF ru(1)] dinode_at_write [OF wf _ tk(1) t(4), of "i_inum ?I"] by simp
  have fs: "fsframe s t" using fsframe_trans [OF fsframe_upd_ino lframe_fsframe [OF t(3)]] .
  have oth: "\<forall>j. j \<noteq> ip \<longrightarrow> ino t j = ino s j" "ino t ip = ?J" "free_blocks t = free_blocks s"
    "\<forall>a. a \<noteq> ?B \<longrightarrow> view t a = view s a"
    by (simp_all add: it u(2,4) ot(3) vt)
  have "\<forall>j. slocks t (SL_inode j) = slocks s (SL_inode j)" using lframe_slocks [OF t(3)] by simp
  then show ?thesis using t(1,2) ot(1) fs oth ba fb di by auto
qed

lemma fbyte_blocks: "(\<And>m. m < MAXFILE \<Longrightarrow> fblk t J m = fblk s I m) \<Longrightarrow> p < MAXFILE * BSIZE \<Longrightarrow> fbyte t J p = fbyte s I p"
  by (simp add: fbyte_def less_mult_imp_div_less)

lemma wrote_chunks:
  assumes "touched d ip s t" "mapped ip s" "off \<le> unat (i_size (ino s ip))"
    and "\<forall>p. off \<le> p \<and> p < off + length src \<longrightarrow> baddr t (ino t ip) (p div BSIZE) \<noteq> 0"
    and "p < max (unat (i_size (ino s ip))) (off + length src)" "off + length src \<le> MAXFILE * BSIZE"
  shows "baddr t (ino t ip) (p div BSIZE) \<noteq> 0"
proof (cases "p < unat (i_size (ino s ip))")
  case True
  then have "baddr s (ino s ip) (p div BSIZE) \<noteq> 0" "p < MAXFILE * BSIZE" using assms(2) by (auto simp: mapped_def)
  then show ?thesis using touchedD(6) [OF assms(1), of "p div BSIZE"] by (simp add: less_mult_imp_div_less)
next
  case False
  then show ?thesis using assms(3-5) by auto
qed

lemma sq_getk: "sq (bnd (getk f) g) h t = sq (g (f t)) h t"
  by (simp add: sq_def bnd_def getk_def)

lemma inode_block_kept:
  assumes "file_ok ip s"
    and "\<forall>c\<in>data_blocks s - free_blocks s. (\<forall>m\<le>MAXFILE. unat (bptr s (ino s ip) m) \<noteq> c) \<longrightarrow> v (of_nat c) = view s (of_nat c)"
  shows "v (IBLOCK (i_inum (ino s ip)) (fs_sb s)) = view s (IBLOCK (i_inum (ino s ip)) (fs_sb s))"
proof -
  let ?B = "IBLOCK (i_inum (ino s ip)) (fs_sb s)"
  have B: "unat ?B \<in> data_blocks s - free_blocks s" using assms(1) by (simp add: file_ok_def used_not_free)
  have "bptr s (ino s ip) m \<noteq> ?B" if "m \<le> MAXFILE" for m
    using assms(1) that by (cases "bptr s (ino s ip) m = 0") (auto simp: file_ok_def)
  then have "unat (bptr s (ino s ip) m) \<noteq> unat ?B" if "m \<le> MAXFILE" for m
    using that by (simp add: word_unat_eq_iff)
  with B assms(2) show ?thesis by fastforce
qed

lemma writei_run:
  assumes r: "room (Suc k + length (chunks (unat off) (length src)) + 5 * missing s ip (chunks (unat off) (length src))) {} s"
    and ok: "file_ok ip s" "mapped ip s" "i_type (ino s ip) \<noteq> T_DEV"
    and free: "2 * missing s ip (chunks (unat off) (length src)) \<le> card (free_blocks s)"
    and rng: "off \<le> i_size (ino s ip)" "unat off + length src \<le> MAXFILE * BSIZE"
  shows "\<exists>t. writei ip src off s = Ok (int (length src)) t \<and> room k {} t \<and> wrote_file ip (unat off) src s t"
proof -
  let ?I = "ino s ip" and ?n = "of_nat (length src) :: u32" and ?cs = "chunks (unat off) (length src)"
  have big: "MAXFILE * BSIZE < 2 ^ 31" by (simp add: MAXFILE_def NDIRECT_def NINDIRECT_def BSIZE_def)
  have un: "unat ?n = length src" using rng(2) big by (simp add: unat_of_nat)
  have on: "unat (off + ?n) = unat off + length src"
    using rng(2) big un by (simp add: unat_plus_if_size word_size)
  have le: "unat off \<le> unat (i_size ?I)" using rng(1) by (simp add: word_le_nat_alt)
  obtain t where t: "write_chunks ip ?cs src s = Ok () t" "room (Suc k) {} t" "touched (2 * missing s ip ?cs) ip s t"
      "\<forall>p. unat off \<le> p \<and> p < unat off + length src \<longrightarrow> baddr t (ino t ip) (p div BSIZE) \<noteq> 0"
      "\<forall>p<MAXFILE * BSIZE. fbyte t (ino t ip) p =
        (if unat off \<le> p \<and> p < unat off + length src then src ! (p - unat off) else fbyte s ?I p)"
    using write_chunks_run [OF r ok(1) free rng(2) refl] by blast
  note tD = touchedD [OF t(3)] and present = wrote_chunks [OF t(3) ok(2) le t(4) _ rng(2)]
  have st: "i_size (ino t ip) = i_size ?I" "i_inum (ino t ip) = i_inum ?I"
    by (subst tD(4), simp)+
  have other: "\<forall>c\<in>data_blocks s - free_blocks s. (\<forall>m\<le>MAXFILE. unat (bptr s ?I m) \<noteq> c) \<longrightarrow> view t (of_nat c) = view s (of_nat c)"
    using t(3) by (simp add: touched_def)
  have lk: "\<forall>j. slocks t (SL_inode j) = slocks s (SL_inode j)" using t(3) by (simp add: touched_def)
  have sn: "sint ?n = int (length src)" using small_sint [of ?n] rng(2) un by simp
  have run: "writei ip src off s = (let c = 0 < ?n \<and> i_size ?I < off + ?n in
      sq (whenk c (sq (modk (upd_ino ip (i_size_update (\<lambda>_. off + ?n)))) (iupdate ip))) (ret (int (length src))) t)"
    using t(1) ok(3) le on rng un by (simp add: writei_def Let_def st sn sq_getk word_less_nat_alt)
  show ?thesis
  proof (cases "unat (i_size ?I) < unat off + length src")
    case False
    then have n: "new_size (unat off) src ?I = unat (i_size ?I)" by (simp add: new_size_def)
    have "writei ip src off s = Ok (int (length src)) t"
      using False by (simp add: run word_less_nat_alt on)
    moreover have "mapped ip t" using ok(2) present n by (simp add: mapped_def st new_size_def)
    moreover have "ino t ip = ?I\<lparr>i_addrs := i_addrs (ino t ip), i_size := i_size ?I\<rparr>"
      by (subst tD(4)) (cases ?I, simp)
    moreover have "dinode_at t (i_inum ?I) = dinode_at s (i_inum ?I)"
      using inode_block_kept [OF ok(1)] other fsframe_blocks(3) [OF tD(2)] by (simp add: dinode_at_def)
    moreover have "missing s ip ?cs = 0 \<longrightarrow> ino t ip = ?I" using t(3) by (simp add: touched_def)
    ultimately show ?thesis
      using False tD(1,2,3,5) t(5) other lk room_mono [OF t(2), of k] by (simp add: wrote_file_def n)
  next
    case True
    have n: "new_size (unat off) src ?I = unat off + length src" using True by (simp add: new_size_def)
    have nz: "of_nat (unat off + length src) = off + ?n" by simp
    have pos: "0 < ?n" using True le un by (auto simp: word_less_nat_alt)
    obtain z where z: "iupdate ip (upd_ino ip (i_size_update (\<lambda>_. off + ?n)) t) = Ok () z" "room k {} z" "file_ok ip z"
        "fsframe t z" "\<forall>j. j \<noteq> ip \<longrightarrow> ino z j = ino t j" "ino z ip = (ino t ip)\<lparr>i_size := off + ?n\<rparr>"
        "free_blocks z = free_blocks t" "\<forall>m. baddr z (ino z ip) m = baddr t (ino t ip) m"
        "\<forall>m<MAXFILE. fblk z (ino z ip) m = fblk t (ino t ip) m"
        "\<forall>a. a \<noteq> IBLOCK (i_inum ?I) (fs_sb t) \<longrightarrow> view z a = view t a"
        "dinode_at z (i_inum ?I) = dinode_of (ino z ip)" "\<forall>j. slocks z (SL_inode j) = slocks t (SL_inode j)"
      using store_size [OF t(2) tD(1), of "off + ?n"] unfolding st(2) by blast
    have "writei ip src off s = Ok (int (length src)) z"
      using True pos z(1) by (simp add: run word_less_nat_alt on)
    moreover have "mapped ip z"
      using present rng(2) n by (simp add: mapped_def z(8) new_size_def) (simp add: z(6) on)
    moreover have iz: "ino z ip = ?I\<lparr>i_addrs := i_addrs (ino z ip), i_size := off + ?n\<rparr>"
    proof -
      have "(ino t ip)\<lparr>i_size := off + ?n\<rparr> = ?I\<lparr>i_addrs := i_addrs (ino t ip), i_size := off + ?n\<rparr>"
        by (subst tD(4)) simp
      moreover have "i_addrs (ino z ip) = i_addrs (ino t ip)" by (simp add: z(6))
      ultimately show ?thesis by (simp only: z(6))
    qed
    moreover have "fbyte z (ino z ip) p = fbyte t (ino t ip) p" if "p < MAXFILE * BSIZE" for p
      using z(9) that by (intro fbyte_blocks) auto
    moreover have "view z (of_nat c) = view s (of_nat c)"
      if "c \<in> data_blocks s - free_blocks s - {unat (IBLOCK (i_inum ?I) (fs_sb s))}"
        "\<forall>m\<le>MAXFILE. unat (bptr s ?I m) \<noteq> c" for c
    proof -
      have "unat (of_nat c :: u32) = c" using that(1) unat_data by blast
      then have "of_nat c \<noteq> IBLOCK (i_inum ?I) (fs_sb t)" using that(1) fsframe_blocks(3) [OF tD(2)] by auto
      then show ?thesis using z(10) other that by auto
    qed
    moreover have "fsframe s z" using tD(2) z(4) fsframe_trans by blast
    ultimately show ?thesis
      using z(2,3,5,7,11,12) tD(3,5) t(5) True lk by (auto simp: wrote_file_def n nz)
  qed
qed

section \<open>What is written is what is read\<close>

text \<open>
  C27. A write inside the limits of a file succeeds and stores its bytes and nothing else:
  \<open>writei\<close> (fs.c) returns the number of bytes, the size of the file becomes the larger of the old
  size and the end of the write, and every later \<open>readi\<close> returns, up to that size, the new bytes
  inside the written range and the old ones outside it. No block of another file has changed.
\<close>

theorem writei_readi_roundtrip:
  assumes "room (1 + length (chunks (unat off) (length src)) + 5 * missing s ip (chunks (unat off) (length src))) {} s"
    and "file_ok ip s" and "mapped ip s" and "i_type (ino s ip) \<noteq> T_DEV"
    and "2 * missing s ip (chunks (unat off) (length src)) \<le> card (free_blocks s)"
    and "off \<le> i_size (ino s ip)" and "unat off + length src \<le> MAXFILE * BSIZE"
  shows "\<exists>t. writei ip src off s = Ok (int (length src)) t \<and>
    unat (i_size (ino t ip)) = max (unat (i_size (ino s ip))) (unat off + length src) \<and>
    (\<forall>c\<in>data_blocks s - free_blocks s - {unat (IBLOCK (i_inum (ino s ip)) (fs_sb s))}.
       (\<forall>m\<le>MAXFILE. unat (bptr s (ino s ip) m) \<noteq> c) \<longrightarrow> view t (of_nat c) = view s (of_nat c)) \<and>
    (\<forall>from n e. from \<le> i_size (ino t ip) \<and> unat from + unat n < 2 ^ 32 \<and>
       e = min (unat from + unat n) (unat (i_size (ino t ip))) \<longrightarrow>
       (\<exists>u. readi ip from n t = Ok (int (e - unat from),
          map (\<lambda>p. if unat off \<le> p \<and> p < unat off + length src then src ! (p - unat off)
                    else fbyte s (ino s ip) p) [unat from..<e]) u))"
proof -
  have "room (Suc 0 + length (chunks (unat off) (length src)) + 5 * missing s ip (chunks (unat off) (length src))) {} s"
    using assms(1) by simp
  then obtain t where t: "writei ip src off s = Ok (int (length src)) t" "room 0 {} t" "wrote_file ip (unat off) src s t"
    using writei_run [OF _ assms(2-7)] by blast
  note W = t(3) [unfolded wrote_file_def]
  have I: "ino t ip = (ino s ip)\<lparr>i_addrs := i_addrs (ino t ip), i_size := of_nat (new_size (unat off) src (ino s ip))\<rparr>"
    using W by blast
  have bytes: "\<forall>p<MAXFILE * BSIZE. fbyte t (ino t ip) p =
      (if unat off \<le> p \<and> p < unat off + length src then src ! (p - unat off) else fbyte s (ino s ip) p)"
    using W by blast
  have ty: "i_type (ino t ip) \<noteq> T_DEV" by (subst I) (simp add: assms(4))
  have big: "MAXFILE * BSIZE < 2 ^ 32" by (simp add: MAXFILE_def NDIRECT_def NINDIRECT_def BSIZE_def)
  have "i_size (ino t ip) = of_nat (new_size (unat off) src (ino s ip))" by (subst I) simp
  moreover have "new_size (unat off) src (ino s ip) \<le> MAXFILE * BSIZE" using assms(3,7) by (simp add: new_size_def mapped_def)
  ultimately have sz: "unat (i_size (ino t ip)) = max (unat (i_size (ino s ip))) (unat off + length src)"
    using big by (simp add: new_size_def unat_of_nat)
  have rd: "\<exists>u. readi ip from n t = Ok (int (e - unat from),
      map (\<lambda>p. if unat off \<le> p \<and> p < unat off + length src then src ! (p - unat off)
        else fbyte s (ino s ip) p) [unat from..<e]) u"
    if h: "from \<le> i_size (ino t ip)" "unat from + unat n < 2 ^ 32"
      "e = min (unat from + unat n) (unat (i_size (ino t ip)))" for "from" n e
  proof -
    have mp: "mapped ip t" and "file_ok ip t" using W by blast+
    then obtain u where "readi ip from n t = Ok (int (e - unat from), map (fbyte t (ino t ip)) [unat from..<e]) u"
      using readi_run [OF t(2) _ _ ty h] by blast
    moreover have "e \<le> MAXFILE * BSIZE" using h(3) mp by (auto simp: mapped_def)
    then have "map (fbyte t (ino t ip)) [unat from..<e] = map (\<lambda>p. if unat off \<le> p \<and> p < unat off + length src
        then src ! (p - unat off) else fbyte s (ino s ip) p) [unat from..<e]"
      using bytes by (intro map_cong) auto
    ultimately show ?thesis by auto
  qed
  have "\<forall>c\<in>data_blocks s - free_blocks s - {unat (IBLOCK (i_inum (ino s ip)) (fs_sb s))}.
       (\<forall>m\<le>MAXFILE. unat (bptr s (ino s ip) m) \<noteq> c) \<longrightarrow> view t (of_nat c) = view s (of_nat c)"
    using W by blast
  then show ?thesis using t(1) sz rd by blast
qed

text \<open>An empty file on the example disk.\<close>

definition demo_cons :: "'m \<Rightarrow> 'm kcons_ext" where
  "demo_cons x = \<lparr>cons_locking = True, in_buf = replicate 128 0, in_r = 0, in_w = 0, in_e = 0,
     crt = replicate 2000 0, crt_pos = 0, uart = [], devsw_console = True, \<dots> = x\<rparr>"

definition demo_inode :: inode where
  "demo_inode = zero_inode\<lparr>i_dev := 1, i_inum := 7, i_ref := 1, i_valid := True, i_type := T_FILE\<rparr>"

lemma demo_data: "b < 1000 \<Longrightarrow> 32 \<le> b \<Longrightarrow> b \<noteq> 58 \<Longrightarrow> b \<in> data_blocks (fs_state demo_disk ic x)"
  by (simp add: like_ready)

lemma demo_file_ok: "file_ok 0 (fs_state demo_disk [demo_inode] x)"
proof -
  let ?s = "fs_state demo_disk [demo_inode] x"
  have at: "ino ?s 0 = demo_inode" by (simp add: ino_def)
  have I: "IBLOCK 7 demo_sb = 32" by (simp add: IBLOCK_def demo_sb_def IPB_def BSIZE_def DINODE_SIZE_def)
  have "bitmap_ok ?s" using fs_demo_ready(1) [of 0 "[demo_inode]" x] by (simp add: fs_ready_def)
  moreover have "bptr ?s demo_inode n = 0" for n
    by (simp add: bptr_def baddr_def demo_inode_def zero_inode_def NDIRECT_def)
  moreover have "used ?s 0" "used ?s 32" by (simp_all add: demo_used)
  moreover have "32 \<in> data_blocks ?s" by (simp add: demo_data)
  ultimately show ?thesis
    unfolding file_ok_def inode_ok_def at by (simp add: I fs_state_region demo_inode_def zero_inode_def)
qed

theorem writei_readi_roundtrip_witness:
  "\<exists>t u. writei 0 [104, 101, 108, 108, 111] 0 (fs_state demo_disk [demo_inode] (demo_cons ()) :: kcons) = Ok 5 t \<and>
     readi 0 1 3 t = Ok (3, [101, 108, 108]) u"
proof -
  let ?s = "fs_state demo_disk [demo_inode] (demo_cons ()) :: kcons" and ?src = "[104, 101, 108, 108, 111] :: bytes"
  have at: "ino ?s 0 = demo_inode" by (simp add: ino_def)
  have c: "length (chunks (unat (0 :: u32)) (length ?src)) = 1" by (simp add: chunks.simps BSIZE_def)
  note le = missing_le [of ?s 0 "chunks (unat (0 :: u32)) (length ?src)", unfolded c]
  have h: "room (1 + length (chunks (unat (0 :: u32)) (length ?src)) +
      5 * missing ?s 0 (chunks (unat (0 :: u32)) (length ?src))) {} ?s"
    unfolding c using le by (intro fs_state_room [OF demo_disk_length]) simp
  have m: "mapped 0 ?s" "i_type (ino ?s 0) \<noteq> T_DEV" "(0 :: u32) \<le> i_size (ino ?s 0)" "i_size (ino ?s 0) = 0"
    unfolding mapped_def at by (simp_all add: demo_inode_def zero_inode_def T_FILE_def T_DEV_def)
  have f: "2 * missing ?s 0 (chunks (unat (0 :: u32)) (length ?src)) \<le> card (free_blocks ?s)"
    using le fs_demo_ready(2) [of 0 "[demo_inode]" "demo_cons ()"] by simp
  have z: "unat (0 :: u32) + length ?src \<le> MAXFILE * BSIZE"
    by (simp add: MAXFILE_def NDIRECT_def NINDIRECT_def BSIZE_def)
  obtain t where t: "writei 0 ?src 0 ?s = Ok (int (length ?src)) t"
      "unat (i_size (ino t 0)) = max (unat (i_size (ino ?s 0))) (unat (0 :: u32) + length ?src)"
      "\<forall>from n e. from \<le> i_size (ino t 0) \<and> unat from + unat n < 2 ^ 32 \<and>
         e = min (unat from + unat n) (unat (i_size (ino t 0))) \<longrightarrow>
         (\<exists>u. readi 0 from n t = Ok (int (e - unat from),
            map (\<lambda>p. if unat (0 :: u32) \<le> p \<and> p < unat (0 :: u32) + length ?src then ?src ! (p - unat (0 :: u32))
              else fbyte ?s (ino ?s 0) p) [unat from..<e]) u)"
    using writei_readi_roundtrip [OF h demo_file_ok m(1,2) f m(3) z] by blast
  have five: "unat (i_size (ino t 0)) = 5" using t(2) by (simp add: m(4))
  then have "(1 :: u32) \<le> i_size (ino t 0) \<and> unat (1 :: u32) + unat (3 :: u32) < 2 ^ 32 \<and>
      4 = min (unat (1 :: u32) + unat (3 :: u32)) (unat (i_size (ino t 0)))"
    by (simp add: word_le_nat_alt)
  from t(3) [rule_format, OF this] obtain u where "readi 0 1 3 t = Ok (int (4 - unat (1 :: u32)),
      map (\<lambda>p. if unat (0 :: u32) \<le> p \<and> p < unat (0 :: u32) + length ?src then ?src ! (p - unat (0 :: u32))
        else fbyte ?s (ino ?s 0) p) [unat (1 :: u32)..<4]) u"
    by blast
  then have "readi 0 1 3 t = Ok (3, [101, 108, 108]) u" by (simp add: upt_rec)
  with t(1) show ?thesis by auto
qed

end
