(* ===== verification/Pipes.thy ===== *)
theory Pipes
  imports Files Frw
begin

text \<open>
  Pipes as queues. The ring buffer of \<open>pipe.c\<close> with its two free-running counters implements a
  bounded queue of bytes (locale \<open>bounded_queue\<close>), also when the 32-bit counters wrap around;
  \<open>piperead\<close> and \<open>pipewrite\<close> take from its front and append to its end.
\<close>

section \<open>Bounded queues\<close>

datatype 'b qop = Enq 'b | Deq

locale bounded_queue =
  fixes ok :: "'q \<Rightarrow> bool" and contents :: "'q \<Rightarrow> 'b list" and full :: "'q \<Rightarrow> bool" and isempty :: "'q \<Rightarrow> bool"
    and enq :: "'b \<Rightarrow> 'q \<Rightarrow> 'q" and front :: "'q \<Rightarrow> 'b" and deq :: "'q \<Rightarrow> 'q" and cap :: nat
  assumes full_iff: "ok q \<Longrightarrow> full q \<longleftrightarrow> length (contents q) = cap"
    and empty_iff: "ok q \<Longrightarrow> isempty q \<longleftrightarrow> contents q = []"
    and cap_le: "ok q \<Longrightarrow> length (contents q) \<le> cap"
    and enq_law: "ok q \<Longrightarrow> \<not> full q \<Longrightarrow> ok (enq b q) \<and> contents (enq b q) = contents q @ [b]"
    and deq_law: "ok q \<Longrightarrow> \<not> isempty q \<Longrightarrow> ok (deq q) \<and> contents q = front q # contents (deq q)"
begin

text \<open>A sequence of operations as producers and consumers interleave them: what went in, what came out.\<close>

primrec run_queue :: "'b qop list \<Rightarrow> 'q \<Rightarrow> ('q \<times> 'b list \<times> 'b list) option" where
  "run_queue [] q = Some (q, [], [])"
| "run_queue (x # xs) q =
     (case x of
        Enq b \<Rightarrow> if full q then None
          else map_option (\<lambda>(r, ins, outs). (r, b # ins, outs)) (run_queue xs (enq b q))
      | Deq \<Rightarrow> if isempty q then None
          else map_option (\<lambda>(r, ins, outs). (r, ins, front q # outs)) (run_queue xs (deq q)))"

lemma run_fifo:
  "run_queue xs q = Some (r, ins, outs) \<Longrightarrow> ok q \<Longrightarrow>
     ok r \<and> contents q @ ins = outs @ contents r \<and> length (contents r) \<le> cap"
proof (induction xs arbitrary: q ins outs)
  case Nil
  then show ?case using cap_le by simp
next
  case (Cons x xs)
  show ?case
  proof (cases x)
    case (Enq b)
    then obtain i' where "\<not> full q" "run_queue xs (enq b q) = Some (r, i', outs)" "ins = b # i'"
      using Cons.prems(1) by (auto split: if_splits)
    then show ?thesis using Cons.IH [of "enq b q" i' outs] enq_law [OF Cons.prems(2)] by simp
  next
    case Deq
    then obtain o' where o: "\<not> isempty q" "run_queue xs (deq q) = Some (r, ins, o')" "outs = front q # o'"
      using Cons.prems(1) by (auto split: if_splits)
    then have "ok (deq q)" "contents q = front q # contents (deq q)" using deq_law [OF Cons.prems(2)] by auto
    then show ?thesis using Cons.IH [OF o(2)] o(3) by simp
  qed
qed

text \<open>Taking the first \<open>k\<close> elements, or fewer if there are fewer.\<close>

lemma deq_many:
  "ok q \<Longrightarrow> k \<le> length (contents q) \<Longrightarrow> ok ((deq ^^ k) q) \<and> contents ((deq ^^ k) q) = drop k (contents q)"
proof (induction k)
  case (Suc k)
  then have q: "ok ((deq ^^ k) q)" "contents ((deq ^^ k) q) = drop k (contents q)" by auto
  then have "\<not> isempty ((deq ^^ k) q)" using Suc.prems(2) empty_iff by auto
  from deq_law [OF q(1) this] show ?case by (simp add: q(2) drop_Suc tl_drop) (metis list.sel(3) tl_drop)
qed simp

lemma enq_many:
  "ok q \<Longrightarrow> length (contents q) + length bs \<le> cap \<Longrightarrow>
     ok (fold enq bs q) \<and> contents (fold enq bs q) = contents q @ bs"
proof (induction bs arbitrary: q)
  case (Cons b bs)
  then have "\<not> full q" using full_iff [of q] by simp
  with Cons.prems(1) have "ok (enq b q)" "contents (enq b q) = contents q @ [b]" using enq_law by blast+
  then show ?case using Cons.IH [of "enq b q"] Cons.prems(2) by simp
qed simp

end

section \<open>The ring buffer\<close>

definition pcount :: "pipe \<Rightarrow> nat" where
  "pcount x = unat (pi_nwrite x - pi_nread x)"

definition pcontents :: "pipe \<Rightarrow> bytes" where
  "pcontents x = map (\<lambda>i. pi_data x ! (unat (pi_nread x + of_nat i) mod PIPESIZE)) [0..<pcount x]"

definition pipe_ok :: "pipe \<Rightarrow> bool" where
  "pipe_ok x \<longleftrightarrow> length (pi_data x) = PIPESIZE \<and> pcount x \<le> PIPESIZE"

lemma length_pcontents [simp]: "length (pcontents x) = pcount x"
  by (simp add: pcontents_def)

text \<open>\<open>PIPESIZE\<close> divides \<open>2 ^ 32\<close>: a counter that wraps around goes on in the right slot.\<close>

lemma slot_add: "unat (a + of_nat i :: u32) mod PIPESIZE = (unat a + i) mod PIPESIZE"
proof -
  have d: "PIPESIZE dvd 2 ^ LENGTH(32)" by (simp add: PIPESIZE_def)
  have "unat (a + of_nat i) = (unat a + i mod 2 ^ LENGTH(32)) mod 2 ^ LENGTH(32)"
    by (simp only: unat_word_ariths unat_of_nat)
  also have "\<dots> mod PIPESIZE = (unat a + i mod 2 ^ LENGTH(32)) mod PIPESIZE" using d by (rule mod_mod_cancel)
  also have "\<dots> = (unat a + i mod 2 ^ LENGTH(32) mod PIPESIZE) mod PIPESIZE" by (simp add: mod_add_right_eq)
  also have "i mod 2 ^ LENGTH(32) mod PIPESIZE = i mod PIPESIZE" using d by (rule mod_mod_cancel)
  finally show ?thesis by (simp add: mod_add_right_eq)
qed

lemma slot_inj:
  assumes "(a + i) mod PIPESIZE = (a + j) mod PIPESIZE" "i < PIPESIZE" "j < PIPESIZE"
  shows "i = j"
proof -
  have "int (a + i) mod int PIPESIZE = int (a + j) mod int PIPESIZE" using assms(1) by (metis of_nat_mod)
  then have "int i mod int PIPESIZE = int j mod int PIPESIZE"
    by (metis add_diff_cancel_left' mod_diff_left_eq of_nat_add)
  then show ?thesis using assms(2,3) by simp
qed

lemma nwrite_eq: "pi_nwrite x = pi_nread x + of_nat (pcount x)"
  by (simp add: pcount_def)

lemma pcount_push: "pcount x < 2 ^ 32 - 1 \<Longrightarrow> pcount (pipe_push b x) = pcount x + 1"
proof -
  assume p: "pcount x < 2 ^ 32 - 1"
  have "pcount (pipe_push b x) = unat (pi_nwrite x + 1 - pi_nread x)" by (simp add: pcount_def pipe_push_def)
  also have "pi_nwrite x + 1 - pi_nread x = (pi_nwrite x - pi_nread x) + 1" by simp
  also have "unat \<dots> = pcount x + 1" using p unfolding pcount_def by (simp add: unat_plus_if_size word_size)
  finally show ?thesis .
qed

lemma pcount_pop: "0 < pcount x \<Longrightarrow> pcount (pipe_pop x) = pcount x - 1"
proof -
  assume p: "0 < pcount x"
  then have le: "(1 :: u32) \<le> pi_nwrite x - pi_nread x" unfolding pcount_def by (simp add: word_le_nat_alt)
  have "pcount (pipe_pop x) = unat (pi_nwrite x - (pi_nread x + 1))" by (simp add: pcount_def pipe_pop_def)
  also have "pi_nwrite x - (pi_nread x + 1) = (pi_nwrite x - pi_nread x) - 1" by simp
  also have "unat \<dots> = pcount x - 1" unfolding pcount_def using unat_sub [OF le] by simp
  finally show ?thesis .
qed

lemma pipe_push_law:
  assumes "pipe_ok x" "\<not> pipe_full x"
  shows "pipe_ok (pipe_push b x) \<and> pcontents (pipe_push b x) = pcontents x @ [b]"
proof -
  have len: "length (pi_data x) = PIPESIZE" "pcount x \<le> PIPESIZE" using assms(1) by (simp_all add: pipe_ok_def)
  have "pcount x \<noteq> PIPESIZE" using assms(2) nwrite_eq [of x] by (auto simp: pipe_full_def)
  with len have lt: "pcount x < PIPESIZE" by simp
  then have c: "pcount (pipe_push b x) = pcount x + 1" by (intro pcount_push) (simp add: PIPESIZE_def)
  let ?w = "unat (pi_nwrite x) mod PIPESIZE"
  have w: "?w = (unat (pi_nread x) + pcount x) mod PIPESIZE" by (simp add: nwrite_eq slot_add)
  have new: "pi_data (pipe_push b x) ! (unat (pi_nread x + of_nat i) mod PIPESIZE) =
      (if i = pcount x then b else pi_data x ! (unat (pi_nread x + of_nat i) mod PIPESIZE))" if "i \<le> pcount x" for i
  proof -
    have "?w < length (pi_data x)" by (simp add: len PIPESIZE_def)
    moreover have "unat (pi_nread x + of_nat i) mod PIPESIZE = ?w \<longleftrightarrow> i = pcount x"
      using slot_inj [of "unat (pi_nread x)" i "pcount x"] that lt by (auto simp: slot_add w)
    ultimately show ?thesis by (auto simp: pipe_push_def nth_list_update)
  qed
  have "pcontents (pipe_push b x) = map (\<lambda>i. if i = pcount x then b
      else pi_data x ! (unat (pi_nread x + of_nat i) mod PIPESIZE)) [0..<pcount x + 1]"
    using new unfolding pcontents_def c by (intro map_cong) (auto simp: pipe_push_def)
  also have "\<dots> = pcontents x @ [b]" by (simp add: pcontents_def)
  finally show ?thesis using len lt by (simp add: pipe_ok_def c) (simp add: pipe_push_def)
qed

lemma pipe_pop_law:
  assumes "pipe_ok x" "\<not> pipe_empty x"
  shows "pipe_ok (pipe_pop x) \<and> pcontents x = pipe_head x # pcontents (pipe_pop x)"
proof -
  have p: "0 < pcount x"
  proof (rule ccontr)
    assume "\<not> 0 < pcount x"
    then show False using assms(2) nwrite_eq [of x] by (simp add: pipe_empty_def)
  qed
  note c = pcount_pop [OF p]
  have "[0..<pcount x] = 0 # map Suc [0..<pcount x - 1]"
    using p by (simp add: upt_conv_Cons map_Suc_upt)
  then have "pcontents x = pipe_head x # map (\<lambda>i. pi_data x ! (unat (pi_nread x + of_nat (Suc i)) mod PIPESIZE)) [0..<pcount x - 1]"
    by (simp add: pcontents_def pipe_head_def o_def)
  moreover have "pi_nread x + of_nat (Suc i) = pi_nread (pipe_pop x) + of_nat i" for i
    by (simp add: pipe_pop_def)
  ultimately have "pcontents x = pipe_head x # pcontents (pipe_pop x)"
    by (simp add: pcontents_def c) (simp add: pipe_pop_def add.assoc)
  moreover have "pi_data (pipe_pop x) = pi_data x" by (simp add: pipe_pop_def)
  ultimately show ?thesis using assms(1) by (auto simp: pipe_ok_def c)
qed

lemma pcount_iff: "pcount x \<le> PIPESIZE \<Longrightarrow> n \<le> PIPESIZE \<Longrightarrow> pi_nwrite x = pi_nread x + of_nat n \<longleftrightarrow> pcount x = n"
  unfolding nwrite_eq [of x] using of_nat_inj32 [of "pcount x" n] by (simp add: PIPESIZE_def)

interpretation pq: bounded_queue pipe_ok pcontents pipe_full pipe_empty pipe_push pipe_head pipe_pop PIPESIZE
proof unfold_locales
  fix q assume ok: "pipe_ok q"
  show "pipe_full q = (length (pcontents q) = PIPESIZE)"
    using ok pcount_iff [of q PIPESIZE] by (simp add: pipe_full_def pipe_ok_def)
  show "pipe_empty q = (pcontents q = [])"
    using ok pcount_iff [of q 0] by (auto simp: pipe_empty_def pipe_ok_def simp flip: length_0_conv)
  show "length (pcontents q) \<le> PIPESIZE" using ok by (simp add: pipe_ok_def)
qed (use pipe_push_law pipe_pop_law in blast)+

section \<open>Copying to and from user memory\<close>

text \<open>The copies depend on the memory and the page table register only, and change the memory only.\<close>

lemma ustore_mem:
  fixes s u :: "'m kvm_scheme" and t :: "'n kvm_scheme"
  shows "ustore va bs s = Ok () u \<Longrightarrow> mem t = mem s \<Longrightarrow> cr3 t = cr3 s \<Longrightarrow>
    ustore va bs t = Ok () (t\<lparr>mem := mem u\<rparr>)"
proof (induction bs arbitrary: va s t)
  case (Cons b bs)
  obtain a where a: "translate (mem s) (P2V (cr3 s)) va = Some a"
    "ustore (va + 1) bs (s\<lparr>mem := (mem s)(unat a := b)\<rparr>) = Ok () u"
    using Cons.prems(1) by (auto simp: ustore8_def sq_eq_Ok split: option.splits)
  have "ustore (va + 1) bs (t\<lparr>mem := (mem t)(unat a := b)\<rparr>) =
      Ok () (t\<lparr>mem := (mem t)(unat a := b)\<rparr>\<lparr>mem := mem u\<rparr>)"
    using Cons.prems by (intro Cons.IH [OF a(2)]) simp_all
  then show ?case using a(1) Cons.prems by (simp add: ustore8_def sq_def)
qed simp

lemma ustore_self: "ustore va bs s = Ok () u \<Longrightarrow> u = s\<lparr>mem := mem u\<rparr>"
  using ustore_mem [of va bs s u s] by simp

lemma uload_mem:
  fixes s u :: "'m kvm_scheme" and t :: "'n kvm_scheme"
  shows "uload n va s = Ok bs u \<Longrightarrow> mem t = mem s \<Longrightarrow> cr3 t = cr3 s \<Longrightarrow> uload n va t = Ok bs t \<and> length bs = n"
proof (induction n arbitrary: va s t bs)
  case (Suc n)
  obtain a bs' v where a: "translate (mem s) (P2V (cr3 s)) va = Some a" "bs = mem s (unat a) # bs'"
    "uload n (va + 1) s = Ok bs' v"
    using Suc.prems(1) by (auto simp: uload8_def bnd_eq_Ok split: option.splits)
  then have "uload n (va + 1) t = Ok bs' t" "length bs' = n"
    using Suc.IH [of "va + 1" s bs'] Suc.prems(1-3) by (auto simp: uload8_def bnd_eq_Ok)
  then show ?case using a Suc.prems by (simp add: uload8_def bnd_def)
qed simp

section \<open>Reading\<close>

lemma upd_pipe_fields [simp]:
  "mem (upd_pipe p h s) = mem s" "cr3 (upd_pipe p h s) = cr3 s" "held (upd_pipe p h s) = held s"
  "cur (upd_pipe p h s) = cur s" "ptab (upd_pipe p h s) = ptab s" "pipes (upd_pipe p h s) p = h (pipes s p)"
  "kfile.more (upd_pipe p h s) = kfile.more s" "ftable (upd_pipe p h s) = ftable s"
  by (simp_all add: upd_pipe_def)

lemma upd_pipe_pipes: "pipes (upd_pipe p h s) r = (if r = p then h (pipes s p) else pipes s r)"
  by (simp add: upd_pipe_def)

lemma upd_pipe_twice:
  "upd_pipe p g (upd_pipe p h s) = upd_pipe p (g \<circ> h) s" "(upd_pipe p h s)\<lparr>mem := m\<rparr> = upd_pipe p h (s\<lparr>mem := m\<rparr>)"
  "(upd_pipe p h s)\<lparr>held := l\<rparr> = upd_pipe p h (s\<lparr>held := l\<rparr>)"
  by (simp_all add: upd_pipe_def)

lemma piperead_loop_run:
  fixes s :: "'m kfile_scheme"
  assumes "pipe_ok (pipes s p)" "ustore addr (take k (pcontents (pipes s p))) s = Ok () u"
  shows "piperead_loop k p addr i s =
    Ok (i + int (min k (pcount (pipes s p))))
       (upd_pipe p (pipe_pop ^^ min k (pcount (pipes s p))) (s\<lparr>mem := mem u\<rparr>))"
  using assms
proof (induction k arbitrary: s addr i u)
  case 0
  then show ?case by (simp add: upd_pipe_def)
next
  case (Suc k)
  let ?x = "pipes s p"
  show ?case
  proof (cases "pipe_empty ?x")
    case True
    then have "pcount ?x = 0" using pq.empty_iff [OF Suc.prems(1)] by (simp flip: length_0_conv)
    with True Suc.prems(2) show ?thesis by (simp add: pcontents_def upd_pipe_def)
  next
    case False
    define y where "y = pipe_pop ?x"
    have y: "pipe_ok y" "pcontents ?x = pipe_head ?x # pcontents y" using pipe_pop_law [OF Suc.prems(1) False] by (simp_all add: y_def)
    have c: "pcount ?x = Suc (pcount y)" using y(2) by (metis length_Cons length_pcontents)
    obtain a where a: "translate (mem s) (P2V (cr3 s)) addr = Some a"
      "ustore (addr + 1) (take k (pcontents y)) (s\<lparr>mem := (mem s)(unat a := pipe_head ?x)\<rparr>) = Ok () u"
      using Suc.prems(2) by (auto simp: y(2) ustore8_def sq_eq_Ok split: option.splits)
    define z where "z = (upd_pipe p pipe_pop s)\<lparr>mem := (mem s)(unat a := pipe_head ?x)\<rparr>"
    have zp: "pipes z p = y" by (simp add: z_def y_def)
    have u: "ustore (addr + 1) (take k (pcontents y)) z = Ok () (z\<lparr>mem := mem u\<rparr>)"
      by (rule ustore_mem [OF a(2)]) (simp_all add: z_def)
    have "piperead_loop k p (addr + 1) (i + 1) z = Ok (i + 1 + int (min k (pcount y)))
        (upd_pipe p (pipe_pop ^^ min k (pcount y)) (z\<lparr>mem := mem u\<rparr>))"
      using Suc.IH [of z "addr + 1" "z\<lparr>mem := mem u\<rparr>" "i + 1"] y(1) u by (simp add: zp)
    moreover have "ustore8 addr (pipe_head ?x) (upd_pipe p pipe_pop s) = Ok () z"
      using a(1) by (simp add: ustore8_def z_def)
    moreover have "upd_pipe p (pipe_pop ^^ min k (pcount y)) (z\<lparr>mem := mem u\<rparr>) =
        upd_pipe p (pipe_pop ^^ Suc (min k (pcount y))) (s\<lparr>mem := mem u\<rparr>)"
      by (simp add: z_def upd_pipe_twice funpow_Suc_right del: funpow.simps)
    ultimately show ?thesis using False by (simp add: c del: funpow.simps)
  qed
qed

lemma wakeup1_pipes [simp]: "pipes (wakeup1 ch s) = pipes s" "mem (wakeup1 ch s) = mem s" "ftable (wakeup1 ch s) = ftable s"
  by (simp_all add: wakeup1_def)

text \<open>No process sleeps on a channel.\<close>

definition nobody_waits :: "chan \<Rightarrow> 'm kbase_scheme \<Rightarrow> bool" where
  "nobody_waits ch s \<longleftrightarrow> (\<forall>q\<in>set (ptab s). \<not> (p_state q = SLEEPING \<and> p_chan q = Some ch))"

lemma nobody_waits_wakeup1: "nobody_waits ch (wakeup1 ch s)"
  using wake_proc_not_waiting by (auto simp: nobody_waits_def)

text \<open>
  C32. \<open>piperead\<close> (pipe.c) on a pipe that has bytes, or no writer any more, stores the first
  \<open>n\<close> bytes of the pipe in user memory (all of them, if there are fewer), returns their number,
  leaves the rest in the pipe in its order, and wakes every writer that waits for space.
\<close>

theorem piperead_takes:
  assumes "running s" and "pipe_ok (pipes s p)"
    and "pcontents (pipes s p) \<noteq> [] \<or> \<not> pi_writeopen (pipes s p)"
    and "ustore addr (take (nat n) (pcontents (pipes s p))) s = Ok () u"
  shows "\<exists>t. piperead p addr n s = Ok (int (length (take (nat n) (pcontents (pipes s p))))) t \<and>
    pcontents (pipes t p) = drop (nat n) (pcontents (pipes s p)) \<and> pipe_ok (pipes t p) \<and>
    mem t = mem u \<and> (\<forall>r. r \<noteq> p \<longrightarrow> pipes t r = pipes s r) \<and> nobody_waits (CH_pipe_nwrite p) t"
proof -
  let ?x = "pipes s p" and ?l = "s\<lparr>held := [LK_pipe p]\<rparr>"
  let ?m = "min (nat n) (pcount ?x)"
  have run: "held s = []" using assms(1) by simp
  have "ustore addr (take (nat n) (pcontents (pipes ?l p))) ?l = Ok () (?l\<lparr>mem := mem u\<rparr>)"
    using ustore_mem [OF assms(4), of ?l] by simp
  then have rl: "piperead_loop (nat n) p addr 0 ?l =
      Ok (int ?m) (upd_pipe p (pipe_pop ^^ ?m) (?l\<lparr>mem := mem u\<rparr>))"
    using piperead_loop_run [of ?l p addr "nat n"] assms(2) by simp
  have ne: "\<not> (pipe_empty ?x \<and> pi_writeopen ?x)" using assms(3) pq.empty_iff [OF assms(2)] by blast
  define t where "t = (wakeup1 (CH_pipe_nwrite p) (upd_pipe p (pipe_pop ^^ ?m) (?l\<lparr>mem := mem u\<rparr>)))\<lparr>held := []\<rparr>"
  have "piperead p addr n s = Ok (int ?m) t"
    using ne rl run by (auto simp: piperead_def t_def)
  moreover have pt: "pipes t r = (if r = p then (pipe_pop ^^ ?m) ?x else pipes s r)" for r
    by (simp add: t_def upd_pipe_pipes)
  have q: "pipe_ok ((pipe_pop ^^ ?m) ?x)" "pcontents ((pipe_pop ^^ ?m) ?x) = drop ?m (pcontents ?x)"
    using pq.deq_many [OF assms(2), of ?m] by simp_all
  have "drop ?m (pcontents ?x) = drop (nat n) (pcontents ?x)" by (cases "nat n \<le> pcount ?x") simp_all
  moreover have "nobody_waits (CH_pipe_nwrite p) t"
    using nobody_waits_wakeup1 by (simp add: t_def nobody_waits_def)
  moreover have "mem t = mem u" by (simp add: t_def)
  ultimately show ?thesis using q by (auto simp: pt min.commute)
qed

section \<open>Writing\<close>

lemma fold_push_flags: "pi_readopen (fold pipe_push bs x) = pi_readopen x" "pi_writeopen (fold pipe_push bs x) = pi_writeopen x"
  by (induction bs arbitrary: x) (simp_all add: pipe_push_def)

lemma upd_pipe_id [simp]: "upd_pipe p (\<lambda>x. x) s = s"
  by (simp add: upd_pipe_def)

lemma pipewrite_loop_run:
  fixes s :: "'m kfile_scheme"
  assumes "pipe_ok (pipes s p)" "pcount (pipes s p) + j \<le> PIPESIZE" "uload j addr s = Ok bs v"
  shows "pipewrite_loop (j + k) p addr n s =
    pipewrite_loop k p (addr + of_nat j) n (upd_pipe p (fold pipe_push bs) s)"
  using assms
proof (induction j arbitrary: s addr bs v)
  case 0
  then show ?case by (simp add: id_def)
next
  case (Suc j)
  let ?x = "pipes s p"
  obtain a bs' w where a: "translate (mem s) (P2V (cr3 s)) addr = Some a" "bs = mem s (unat a) # bs'"
    "uload j (addr + 1) s = Ok bs' w"
    using Suc.prems(3) by (auto simp: uload8_def bnd_eq_Ok split: option.splits)
  define z where "z = upd_pipe p (pipe_push (mem s (unat a))) s"
  have nf: "\<not> pipe_full ?x" using pq.full_iff [OF Suc.prems(1)] Suc.prems(2) by simp
  then have ok: "pipe_ok (pipes z p)" "pcount (pipes z p) = Suc (pcount ?x)"
    using pipe_push_law [OF Suc.prems(1)] by (auto simp: z_def) (metis length_append_singleton length_pcontents)
  have "uload j (addr + 1) z = Ok bs' z" using uload_mem [OF a(3), of z] by (simp add: z_def)
  then have "pipewrite_loop (j + k) p (addr + 1) n z =
      pipewrite_loop k p (addr + 1 + of_nat j) n (upd_pipe p (fold pipe_push bs') z)"
    using ok Suc.prems(2) by (intro Suc.IH) simp_all
  moreover have "uload8 addr s = Ok (mem s (unat a)) s" using a(1) by (simp add: uload8_def)
  ultimately show ?case using nf a(2) by (simp add: z_def upd_pipe_twice add.assoc o_def)
qed

text \<open>
  C33. \<open>pipewrite\<close> (pipe.c) of bytes for which the pipe has space appends them, returns their
  number and leaves no reader asleep.
\<close>

theorem pipewrite_appends:
  assumes "running s" and "pipe_ok (pipes s p)" and "0 \<le> n" and "pcount (pipes s p) + nat n \<le> PIPESIZE"
    and "uload (nat n) addr s = Ok bs v"
  shows "\<exists>t. pipewrite p addr n s = Ok n t \<and> pcontents (pipes t p) = pcontents (pipes s p) @ bs \<and>
    pipe_ok (pipes t p) \<and> mem t = mem s \<and> (\<forall>r. r \<noteq> p \<longrightarrow> pipes t r = pipes s r) \<and>
    nobody_waits (CH_pipe_nread p) t"
proof -
  let ?x = "pipes s p" and ?l = "s\<lparr>held := [LK_pipe p]\<rparr>"
  have ld: "uload (nat n) addr ?l = Ok bs ?l" "length bs = nat n" using uload_mem [OF assms(5), of ?l] by simp_all
  define t where "t = (wakeup1 (CH_pipe_nread p) (upd_pipe p (fold pipe_push bs) ?l))\<lparr>held := []\<rparr>"
  have "pipewrite_loop (nat n + 0) p addr n ?l =
      pipewrite_loop 0 p (addr + of_nat (nat n)) n (upd_pipe p (fold pipe_push bs) ?l)"
    using assms(2,4) by (intro pipewrite_loop_run [OF _ _ ld(1)]) simp_all
  also have "\<dots> = Ok n t" by (simp add: t_def)
  finally have "pipewrite p addr n s = Ok n t" using assms(1) by (simp add: pipewrite_def)
  moreover have "pipe_ok (fold pipe_push bs ?x)" "pcontents (fold pipe_push bs ?x) = pcontents ?x @ bs"
    using pq.enq_many [OF assms(2), of bs] assms(4) ld(2) by simp_all
  moreover have "pipes t r = (if r = p then fold pipe_push bs ?x else pipes s r)" "mem t = mem s" for r
    by (simp_all add: t_def upd_pipe_pipes)
  moreover have "nobody_waits (CH_pipe_nread p) t"
    using nobody_waits_wakeup1 by (simp add: t_def nobody_waits_def)
  ultimately show ?thesis by auto
qed

text \<open>
  C34. A \<open>pipewrite\<close> that fills the pipe before it is done goes to sleep on the pipe's write channel
  with every reader awake and the pipe's lock released: writer and readers do not wait for each other.
\<close>

theorem pipewrite_full_wakes_readers:
  assumes "running s" and "pipe_ok (pipes s p)" and "pi_readopen (pipes s p)" and "\<not> p_killed (proc_at s)"
    and "pcount (pipes s p) + j = PIPESIZE" and "j < nat n" and "uload j addr s = Ok bs v"
  shows "\<exists>t. pipewrite p addr n s = Switch t \<and> pcontents (pipes t p) = pcontents (pipes s p) @ bs \<and>
    held t = [LK_ptable] \<and> p_state (proc_at t) = SLEEPING \<and> p_chan (proc_at t) = Some (CH_pipe_nwrite p) \<and>
    nobody_waits (CH_pipe_nread p) t"
proof -
  let ?x = "pipes s p" and ?l = "s\<lparr>held := [LK_pipe p]\<rparr>"
  obtain i where cur: "cur s = Some i" "i < length (ptab s)" "p_state (ptab s ! i) = RUNNING"
    using assms(1) by (auto simp: running_def simp del: runningD split: option.splits)
  have ld: "uload j addr ?l = Ok bs ?l" "length bs = j" using uload_mem [OF assms(7), of ?l] by simp_all
  let ?y = "fold pipe_push bs ?x"
  have y: "pipe_ok ?y" "pcontents ?y = pcontents ?x @ bs"
    using pq.enq_many [OF assms(2), of bs] assms(5) ld(2) by simp_all
  have "pcount ?y = PIPESIZE" using y(2) assms(5) ld(2) by (metis length_append length_pcontents)
  then have full: "pipe_full ?y" using pq.full_iff [OF y(1)] by simp
  define w where "w = wakeup1 (CH_pipe_nread p) (upd_pipe p (fold pipe_push bs) ?l)"
  define t where "t = upd_proc i (\<lambda>q. q\<lparr>p_chan := Some (CH_pipe_nwrite p), p_state := SLEEPING\<rparr>) (w\<lparr>held := [LK_ptable]\<rparr>)"
  have "nat n = j + Suc (nat n - j - 1)" using assms(6) by simp
  then have "pipewrite_loop (nat n) p addr n ?l =
      pipewrite_loop (Suc (nat n - j - 1)) p (addr + of_nat j) n (upd_pipe p (fold pipe_push bs) ?l)"
    using pipewrite_loop_run [OF _ _ ld(1), of p "Suc (nat n - j - 1)" n] assms(2,5) by simp
  also have "\<dots> = sleep (CH_pipe_nwrite p) (LK_pipe p) w"
    using full assms(3,4) cur by (simp add: w_def fold_push_flags proc_at_def)
  also have "\<dots> = Switch t"
    using cur by (simp add: sleep_def myproc_def w_def t_def sched_def holding_def upd_proc_def nth_list_update)
  finally have "pipewrite p addr n s = Switch t" using assms(1) by (simp add: pipewrite_def)
  moreover have "p_state (proc_at t) = SLEEPING" "p_chan (proc_at t) = Some (CH_pipe_nwrite p)"
    using cur by (simp_all add: t_def w_def proc_at_def upd_proc_def)
  moreover have "nobody_waits (CH_pipe_nread p) w" unfolding w_def by (rule nobody_waits_wakeup1)
  then have "nobody_waits (CH_pipe_nread p) t"
    by (auto simp: t_def nobody_waits_def upd_proc_def dest!: set_update_subset_insert [THEN subsetD])
  moreover have "pipes t p = ?y" "held t = [LK_ptable]" by (simp_all add: t_def w_def upd_proc_def)
  ultimately show ?thesis using y(2) by auto
qed

text \<open>
  C31. Whatever the interleaving of bytes written to and read from a pipe, including sequences so long that
  the 32-bit counters \<open>nread\<close> and \<open>nwrite\<close> wrap around: the bytes read followed by those still in
  the pipe are the bytes that were in it followed by those written, and at most \<open>PIPESIZE\<close> are pending.
\<close>

theorem pipe_refines_fifo:
  assumes "pipe_ok x" and "pq.run_queue ops x = Some (y, written, got)"
  shows "pcontents x @ written = got @ pcontents y \<and> pipe_ok y \<and> length (pcontents y) \<le> PIPESIZE"
  using pq.run_fifo [OF assms(2,1)] by blast

section \<open>Examples\<close>

text \<open>
  An address space whose first page is mapped: the page directory in frame 1, the page table in
  frame 2 and the page, which starts with the bytes 104 and 105, in frame 3.
\<close>

definition demo_pages :: memory where
  "demo_pages a =
     (if a = 0x80001000 \<or> a = 0x80002000 then 7 else if a = 0x80001001 then 0x20
      else if a = 0x80002001 then 0x30 else if a = 0x80003000 then 104 else if a = 0x80003001 then 105 else 0)"

definition demo_kernel :: "pipe \<Rightarrow> kfile" where
  "demo_kernel x =
     (fs_state demo_disk [demo_inode] (demo_cons \<lparr>utable = [], next_uid = 2, utable_initialized = True,
        utable_ip = Some 0, kdata = 0, kpgdir = 0, cr3 = 0, ts_esp0 = 0, ftable = [], pipes = \<lambda>_. x\<rparr>))
     \<lparr>mem := demo_pages, cr3 := 0x1000, pipes := \<lambda>_. x\<rparr>"

lemma demo_kernel_fields [simp]:
  "mem (demo_kernel x) = demo_pages" "cr3 (demo_kernel x) = 0x1000" "pipes (demo_kernel x) p = x"
  "cur (demo_kernel x) = Some 0" "ptab (demo_kernel x) = [zero_proc\<lparr>p_state := RUNNING, p_pid := 1\<rparr>]"
  "held (demo_kernel x) = []"
  by (simp_all add: demo_kernel_def)

lemma demo_kernel_running [simp]: "running (demo_kernel x)" "\<not> p_killed (proc_at (demo_kernel x))"
  by (simp_all add: running_iff proc_at_def) (simp add: zero_proc_def)

lemma demo_entries: "load32 demo_pages 0x80001000 = 0x2007" "load32 demo_pages 0x80002000 = 0x3007"
  by (simp_all add: load32_def demo_pages_def dec32_def)

lemma demo_translate:
  "translate demo_pages (P2V 0x1000) 0 = Some 0x80003000" "translate demo_pages (P2V 0x1000) 1 = Some 0x80003001"
  by (simp_all add: translate_def Let_def pde_at_def pte_at_def PDX_def PTX_def P2V_def KERNBASE_def demo_entries PTE_P_def PTE_ADDR_def)

lemma demo_uload: "uload 2 0 (demo_kernel x) = Ok [104, 105] (demo_kernel x)"
proof -
  have "uload (Suc (Suc 0)) 0 (demo_kernel x) = Ok [104, 105] (demo_kernel x)"
    by (simp add: uload8_def demo_translate bnd_def) (simp add: demo_pages_def)
  then show ?thesis by (simp only: numeral_2_eq_2)
qed

definition demo_pipe :: pipe where
  "demo_pipe = \<lparr>pi_data = replicate PIPESIZE 9, pi_nread = 0xFFFFFFFF, pi_nwrite = 1,
     pi_readopen = True, pi_writeopen = True\<rparr>"

lemma demo_pipe_ok: "pipe_ok demo_pipe" "pcontents demo_pipe = [9, 9]" "pcount demo_pipe = 2"
  by (simp_all add: pipe_ok_def pcount_def pcontents_def demo_pipe_def PIPESIZE_def upt_rec)

theorem pipewrite_appends_witness:
  "\<exists>t. pipewrite 7 0 2 (demo_kernel demo_pipe) = Ok 2 t \<and> pcontents (pipes t 7) = [9, 9, 104, 105]"
  using pipewrite_appends [of "demo_kernel demo_pipe" 7 2 0 "[104, 105]"] demo_uload [of demo_pipe]
  by (auto simp: demo_pipe_ok PIPESIZE_def)

theorem piperead_takes_witness:
  "\<exists>t. piperead 7 0 1 (demo_kernel demo_pipe) = Ok 1 t \<and> pcontents (pipes t 7) = [9] \<and> mem t 0x80003000 = 9"
proof -
  have "ustore 0 [9] (demo_kernel demo_pipe) =
      Ok () (demo_kernel demo_pipe\<lparr>mem := demo_pages(0x80003000 := 9)\<rparr>)"
    by (simp add: ustore8_def demo_translate)
  then show ?thesis
    using piperead_takes [of "demo_kernel demo_pipe" 7 0 1] by (auto simp: demo_pipe_ok)
qed

definition demo_full_pipe :: pipe where
  "demo_full_pipe = demo_pipe\<lparr>pi_nwrite := 509\<rparr>"

theorem pipewrite_full_wakes_readers_witness:
  "\<exists>t. pipewrite 7 0 5 (demo_kernel demo_full_pipe) = Switch t \<and> pcount (pipes t 7) = PIPESIZE \<and>
     p_state (proc_at t) = SLEEPING"
proof -
  have c: "pcount demo_full_pipe = 510" by (simp add: pcount_def demo_full_pipe_def demo_pipe_def)
  then have "pipe_ok demo_full_pipe" "pi_readopen demo_full_pipe"
    by (simp_all add: pipe_ok_def PIPESIZE_def) (simp_all add: demo_full_pipe_def demo_pipe_def PIPESIZE_def)
  then obtain t where t: "pipewrite 7 0 5 (demo_kernel demo_full_pipe) = Switch t"
      "pcontents (pipes t 7) = pcontents demo_full_pipe @ [104, 105]" "p_state (proc_at t) = SLEEPING"
    using pipewrite_full_wakes_readers [of "demo_kernel demo_full_pipe" 7 2 5 0 "[104, 105]"] demo_uload [of demo_full_pipe]
    by (auto simp: c PIPESIZE_def)
  have "pcount (pipes t 7) = PIPESIZE" using arg_cong [OF t(2), of length] by (simp add: c PIPESIZE_def)
  with t show ?thesis by blast
qed

theorem pipe_refines_fifo_witness:
  "\<exists>y. pq.run_queue [Enq 5, Deq, Deq, Enq 6, Deq] demo_pipe = Some (y, [5, 6], [9, 9, 5]) \<and> pcontents y = [6]"
proof -
  obtain y where y: "pq.run_queue [Enq 5, Deq, Deq, Enq 6, Deq] demo_pipe = Some (y, [5, 6], [9, 9, 5])"
    by (simp add: demo_pipe_def pipe_full_def pipe_empty_def pipe_push_def pipe_pop_def pipe_head_def PIPESIZE_def)
  then show ?thesis using pipe_refines_fifo [OF demo_pipe_ok(1) y] by (simp add: demo_pipe_ok)
qed

end
