(* ===== verification/Args.thy ===== *)
theory Args
  imports Sysfile Pipes
begin

text \<open>
  The checks of system call arguments (\<open>syscall.c\<close>): when the pages of the running process are
  mapped, fetching an argument neither faults nor changes the state, a pointer that \<open>argptr\<close> accepts
  can be read over its whole length, and a string argument is the one that lies in the memory of
  the process.
\<close>

section \<open>The address space of the running process\<close>

text \<open>
  What \<open>exec\<close>, \<open>fork\<close> and \<open>growproc\<close> establish: the size of the process stays below the kernel's part
  of the address space, and every address below it is mapped by the page table that is loaded.
\<close>

definition user_mapped :: "'m kproc_scheme \<Rightarrow> bool" where
  "user_mapped s \<longleftrightarrow> cur s \<noteq> None \<and> p_sz (proc_at s) \<le> KERNBASE \<and>
     (\<forall>va < p_sz (proc_at s). translate (mem s) (P2V (cr3 s)) va \<noteq> None)"

definition ubyte :: "'m kvm_scheme \<Rightarrow> u32 \<Rightarrow> u8" where
  "ubyte s va = mem s (unat (the (translate (mem s) (P2V (cr3 s)) va)))"

definition ubytes :: "'m kvm_scheme \<Rightarrow> u32 \<Rightarrow> nat \<Rightarrow> bytes" where
  "ubytes s va n = map (\<lambda>i. ubyte s (va + of_nat i)) [0..<n]"

lemma ubytes_Suc: "ubytes s va (Suc n) = ubyte s va # ubytes s (va + 1) n"
  by (simp add: ubytes_def upt_conv_Cons map_Suc_upt [symmetric] del: upt_Suc) (simp add: add.assoc)

lemma length_ubytes [simp]: "length (ubytes s va n) = n"
  by (simp add: ubytes_def)

lemma user_mapped_cur [simp]: "user_mapped s \<Longrightarrow> cur s \<noteq> None"
  by (simp add: user_mapped_def)

lemma uload8_ubyte: "translate (mem s) (P2V (cr3 s)) va \<noteq> None \<Longrightarrow> uload8 va s = Ok (ubyte s va) s"
  by (auto simp: uload8_def ubyte_def)

lemma below_next:
  assumes "unat va + Suc n \<le> unat (sz :: u32)"
  shows "va < sz" and "unat (va + 1) = Suc (unat va)"
proof -
  show "va < sz" using assms by (simp add: word_less_nat_alt)
  have "unat va + 1 < 2 ^ 32" using assms unat32_less [of sz] by simp
  then show "unat (va + 1) = Suc (unat va)" by (simp add: unat_word_ariths)
qed

lemma uload_ubytes:
  assumes "user_mapped s" and "unat va + n \<le> unat (p_sz (proc_at s))"
  shows "uload n va s = Ok (ubytes s va n) s"
  using assms(2)
proof (induction n arbitrary: va)
  case 0
  then show ?case by (simp add: ubytes_def)
next
  case (Suc n)
  note b = below_next [OF Suc.prems]
  have "uload8 va s = Ok (ubyte s va) s"
    using assms(1) b(1) by (intro uload8_ubyte) (auto simp: user_mapped_def)
  moreover have "uload n (va + 1) s = Ok (ubytes s (va + 1) n) s"
    using Suc.prems b(2) by (intro Suc.IH) simp
  ultimately show ?case by (simp add: ubytes_Suc)
qed

section \<open>Integers and pointers\<close>

text \<open>The range \<open>[a, a + n)\<close> lies in the memory of the process, without wrapping around.\<close>

definition in_user :: "'m kproc_scheme \<Rightarrow> u32 \<Rightarrow> int \<Rightarrow> bool" where
  "in_user s a n \<longleftrightarrow> 0 \<le> n \<and> a < p_sz (proc_at s) \<and> uint a + n \<le> uint (p_sz (proc_at s))"

lemma in_user_unat:
  assumes "in_user s a n"
  shows "unat a + nat n \<le> unat (p_sz (proc_at s))"
proof -
  from assms have n: "0 \<le> n" "uint a + n \<le> uint (p_sz (proc_at s))" by (simp_all add: in_user_def)
  then have "int (unat a + nat n) \<le> int (unat (p_sz (proc_at s)))" by simp
  then show ?thesis by (simp only: of_nat_le_iff)
qed

lemma user_add:
  assumes "user_mapped s" and "a < p_sz (proc_at s)" and "0 \<le> n" and "n < 2 ^ 31"
  shows "uint (a + word_of_int n) = uint a + n"
proof -
  have "uint (p_sz (proc_at s)) \<le> 2 ^ 31" using assms(1) by (simp add: user_mapped_def KERNBASE_def word_le_def)
  with assms(2) have "uint a < 2 ^ 31" by (simp add: word_less_def)
  with assms(3,4) show ?thesis by (simp add: uint_word_ariths take_bit_eq_mod uint_word_of_int)
qed

lemma fetchint_run:
  assumes "user_mapped s"
  shows "fetchint a s = Ok (if in_user s a 4 then Some (dec32 (ubytes s a 4)) else None) s"
proof -
  have "in_user s a 4 \<longleftrightarrow> \<not> (a \<ge> p_sz (proc_at s) \<or> a + 4 > p_sz (proc_at s))"
    using user_add [OF assms, of a 4] by (auto simp: in_user_def word_less_def word_le_def)
  moreover have "uload 4 a s = Ok (ubytes s a 4) s" if "in_user s a 4"
    using uload_ubytes [OF assms, of a 4] in_user_unat [OF that] by simp
  ultimately show ?thesis using assms by (cases "in_user s a 4") (simp_all add: fetchint_def)
qed

definition arg_slot :: "'m kproc_scheme \<Rightarrow> nat \<Rightarrow> u32" where
  "arg_slot s n = tf_esp (p_tf (proc_at s)) + 4 + 4 * of_nat n"

lemma argint_run:
  assumes "user_mapped s"
  shows "argint n s =
    Ok (if in_user s (arg_slot s n) 4 then Some (dec32 (ubytes s (arg_slot s n) 4)) else None) s"
  using assms fetchint_run [OF assms] by (simp add: argint_def arg_slot_def)

lemma argptr_run:
  assumes "user_mapped s" and "k < 2 ^ 31"
  shows "argptr n k s =
    Ok (case argint n s of Ok (Some a) _ \<Rightarrow> if in_user s a k then Some a else None | _ \<Rightarrow> None) s"
proof -
  have "in_user s a k \<longleftrightarrow> \<not> (k < 0 \<or> a \<ge> p_sz (proc_at s) \<or> a + word_of_int k > p_sz (proc_at s))" for a
    using user_add [OF assms(1), of a k] assms(2) by (auto simp: in_user_def word_less_def word_le_def)
  then show ?thesis
    using assms(1) argint_run [OF assms(1), of n] by (auto simp: argptr_def)
qed

text \<open>
  C22. \<open>argptr\<close> (syscall.c) on a system call of a process whose memory is mapped always returns, without a
  fault and without changing the state; a pointer it accepts for \<open>k\<close> bytes names a range that lies
  wholly inside the memory of the process, so that the kernel can read all \<open>k\<close> bytes. It refuses exactly the
  argument slots and the ranges that reach outside the process; the sum in its test cannot wrap around.
\<close>

theorem argptr_in_bounds:
  assumes "user_mapped s" and "k < 2 ^ 31"
  shows "\<exists>r. argptr n k s = Ok r s \<and>
    (\<forall>a. r = Some a \<longrightarrow> 0 \<le> k \<and> unat a + nat k \<le> unat (p_sz (proc_at s)) \<and>
          uload (nat k) a s = Ok (ubytes s a (nat k)) s) \<and>
    (r = None \<longleftrightarrow> \<not> in_user s (arg_slot s n) 4 \<or> \<not> in_user s (dec32 (ubytes s (arg_slot s n) 4)) k)"
proof -
  define v where "v = dec32 (ubytes s (arg_slot s n) 4)"
  define r where "r = (if in_user s (arg_slot s n) 4 \<and> in_user s v k then Some v else None)"
  have run: "argptr n k s = Ok r s"
    unfolding argptr_run [OF assms] argint_run [OF assms(1)] r_def v_def by simp
  have ok: "0 \<le> k \<and> unat a + nat k \<le> unat (p_sz (proc_at s)) \<and>
      uload (nat k) a s = Ok (ubytes s a (nat k)) s" if "in_user s a k" for a
  proof -
    have "0 \<le> k" using that by (simp add: in_user_def)
    with uload_ubytes [OF assms(1) in_user_unat [OF that]] in_user_unat [OF that] show ?thesis by simp
  qed
  show ?thesis
  proof (intro exI conjI)
    show "argptr n k s = Ok r s" by (rule run)
    show "\<forall>a. r = Some a \<longrightarrow> 0 \<le> k \<and> unat a + nat k \<le> unat (p_sz (proc_at s)) \<and>
        uload (nat k) a s = Ok (ubytes s a (nat k)) s"
      using ok [of v] by (simp add: r_def)
    show "r = None \<longleftrightarrow> \<not> in_user s (arg_slot s n) 4 \<or>
        \<not> in_user s (dec32 (ubytes s (arg_slot s n) 4)) k"
      by (simp add: r_def v_def)
  qed
qed

section \<open>Strings\<close>

lemma fetchstr_loop_run:
  assumes "user_mapped s" and "unat va + n \<le> unat (p_sz (proc_at s))"
  shows "fetchstr_loop n va s =
    Ok (if 0 \<in> set (ubytes s va n) then Some (takeWhile (\<lambda>b. b \<noteq> 0) (ubytes s va n)) else None) s"
  using assms(2)
proof (induction n arbitrary: va)
  case 0
  then show ?case by (simp add: ubytes_def)
next
  case (Suc n)
  note b = below_next [OF Suc.prems]
  have "uload8 va s = Ok (ubyte s va) s"
    using assms(1) b(1) by (intro uload8_ubyte) (auto simp: user_mapped_def)
  moreover note Suc.IH [of "va + 1"]
  ultimately show ?case using Suc.prems b(2) by (auto simp: ubytes_Suc)
qed

lemma fetchstr_run:
  assumes "user_mapped s"
  shows "fetchstr a s =
    Ok (let bs = ubytes s a (unat (p_sz (proc_at s)) - unat a)
        in if a < p_sz (proc_at s) \<and> 0 \<in> set bs then Some (takeWhile (\<lambda>b. b \<noteq> 0) bs) else None) s"
proof (cases "a < p_sz (proc_at s)")
  case True
  then have "unat a + (unat (p_sz (proc_at s)) - unat a) \<le> unat (p_sz (proc_at s))"
    by (simp add: word_less_nat_alt)
  from fetchstr_loop_run [OF assms this] show ?thesis
    using assms True by (simp add: fetchstr_def Let_def del: linorder_not_less) (metis linorder_not_le)
next
  case False
  with assms show ?thesis by (simp add: fetchstr_def Let_def)
qed

text \<open>
  C23. \<open>fetchstr\<close> (syscall.c) never faults: for an address inside the process it returns the bytes before the
  first NUL when there is one before the end of the process, and fails when there is none or when the
  address lies outside.
\<close>

theorem fetchstr_reads_string:
  assumes "user_mapped s"
  shows "fetchstr a s =
    Ok (let bs = ubytes s a (unat (p_sz (proc_at s)) - unat a)
        in if a < p_sz (proc_at s) \<and> 0 \<in> set bs then Some (takeWhile (\<lambda>b. b \<noteq> 0) bs) else None) s"
  using assms by (rule fetchstr_run)

section \<open>Examples\<close>

text \<open>A process with 16 bytes of memory, its stack pointer at 4 and a pointer to address 12 as argument 0.\<close>

definition arg_pages :: memory where
  "arg_pages a =
     (if a = 0x80001000 \<or> a = 0x80002000 then 7 else if a = 0x80001001 then 0x20
      else if a = 0x80002001 then 0x30 else if a = 0x80003008 then 12
      else if a = 0x8000300c then 104 else if a = 0x8000300d then 105 else 0)"

definition arg_kernel :: kproc where
  "arg_kernel =
     (kfile.extend (demo_kernel demo_pipe) \<lparr>sym_forkret = 0, sym_trapret = 0, sym_initcode = [],
        forkret_first = False, ticks = 0, this_cpu = 0, cr2 = 0\<rparr>)
     \<lparr>mem := arg_pages,
      ptab := [zero_proc\<lparr>p_state := RUNNING, p_pid := 1, p_sz := 16, p_tf := zero_trapframe\<lparr>tf_esp := 4\<rparr>\<rparr>]\<rparr>"

lemma extend_fields:
  fixes k :: kfile and x :: 'x
  shows "mem (kfile.extend k x) = mem k" "cr3 (kfile.extend k x) = cr3 k" "cur (kfile.extend k x) = cur k"
    "held (kfile.extend k x) = held k" "ptab (kfile.extend k x) = ptab k"
  by (cases k; simp add: kfile.defs)+

lemma arg_kernel_fields [simp]:
  "mem arg_kernel = arg_pages" "cr3 arg_kernel = 0x1000" "cur arg_kernel = Some 0" "held arg_kernel = []"
  "proc_at arg_kernel = zero_proc\<lparr>p_state := RUNNING, p_pid := 1, p_sz := 16, p_tf := zero_trapframe\<lparr>tf_esp := 4\<rparr>\<rparr>"
  by (simp_all add: arg_kernel_def proc_at_def extend_fields)

lemma small_address:
  assumes "va < (0x1000 :: u32)"
  shows "PDX va = 0" and "PTX va = 0" and "va AND 0xFFF = va"
proof -
  have u: "unat va < 4096" using assms by (simp add: word_less_nat_alt)
  then have "drop_bit 12 va = 0" "drop_bit 22 va = 0"
    by (simp_all add: word_unat_eq_iff drop_bit_eq_div unat_div)
  then show "PDX va = 0" "PTX va = 0" by (simp_all add: PDX_def PTX_def)
  have "va AND 0xFFF = take_bit 12 va" by (simp add: take_bit_eq_mask mask_eq_exp_minus_1)
  also have "\<dots> = va" using u by (simp add: word_unat_eq_iff take_bit_eq_mod unat_mod)
  finally show "va AND 0xFFF = va" .
qed

lemma arg_translate:
  assumes "va < 0x1000"
  shows "translate arg_pages (P2V 0x1000) va = Some (0x80003000 + va)"
proof -
  have "load32 arg_pages 0x80001000 = 0x2007" "load32 arg_pages 0x80002000 = 0x3007"
    by (simp_all add: load32_def arg_pages_def dec32_def)
  then show ?thesis
    by (simp add: translate_def Let_def pde_at_def pte_at_def small_address [OF assms] P2V_def KERNBASE_def
        PTE_P_def PTE_ADDR_def)
qed

lemma arg_kernel_mapped: "user_mapped arg_kernel"
proof -
  have "translate arg_pages (P2V 0x1000) va \<noteq> None" if "va < 16" for va
    using arg_translate [OF less_trans [OF that]] by simp
  then show ?thesis by (simp add: user_mapped_def KERNBASE_def del: not_None_eq)
qed

lemma arg_kernel_byte: "va < 0x1000 \<Longrightarrow> ubyte arg_kernel va = arg_pages (unat (0x80003000 + va))"
  by (simp add: ubyte_def arg_translate)

lemma arg_kernel_slot: "arg_slot arg_kernel 0 = 8" "ubytes arg_kernel 8 4 = [12, 0, 0, 0]"
  by (simp add: arg_slot_def) (simp add: ubytes_def upt_rec arg_kernel_byte arg_pages_def)

theorem argptr_in_bounds_witness:
  "argptr 0 4 arg_kernel = Ok (Some 12) arg_kernel \<and> argptr 0 5 arg_kernel = Ok None arg_kernel"
proof -
  have v: "dec32 (ubytes arg_kernel (arg_slot arg_kernel 0) 4) = 12"
    by (simp add: arg_kernel_slot dec32_def)
  have i: "in_user arg_kernel (arg_slot arg_kernel 0) 4" "in_user arg_kernel 12 4" "\<not> in_user arg_kernel 12 5"
    by (simp_all add: in_user_def arg_kernel_slot)
  have "argptr 0 5 arg_kernel = Ok None arg_kernel"
    using argptr_in_bounds [OF arg_kernel_mapped, of 5 0] i unfolding v by auto
  moreover obtain a where a: "argptr 0 4 arg_kernel = Ok (Some a) arg_kernel"
    using argptr_in_bounds [OF arg_kernel_mapped, of 4 0] i unfolding v by auto
  moreover have "a = 12"
    using a i by (simp add: argptr_run [OF arg_kernel_mapped] argint_run [OF arg_kernel_mapped] v)
  ultimately show ?thesis by simp
qed

theorem fetchstr_reads_string_witness:
  "fetchstr 12 arg_kernel = Ok (Some [104, 105]) arg_kernel"
proof -
  have "ubytes arg_kernel 12 4 = [104, 105, 0, 0]"
    by (simp add: ubytes_def upt_rec arg_kernel_byte arg_pages_def)
  then show ?thesis using fetchstr_reads_string [OF arg_kernel_mapped, of 12] by simp
qed

end
