(* ===== verification/Vmem.thy ===== *)
theory Vmem
  imports Args
begin

text \<open>
  Page tables as the code of \<open>vm.c\<close> maintains them. The two levels of tables in memory are read as
  one map from page numbers to entries (\<open>pte\<close>): \<open>walkpgdir\<close> does not change this map even when it adds a
  table, and storing through the pointer it returns changes the entry of one page only. From this follow what
  \<open>mappages\<close> and \<open>allocuvm\<close> do to an address space; theory \<open>Vspace\<close> goes on with the other functions.
\<close>

unbundle bit_operations_syntax

section \<open>Page numbers and words of a page\<close>

definition vpn :: "u32 \<Rightarrow> nat" where
  "vpn va = unat va div PGSIZE"

definition slot :: "u32 \<Rightarrow> nat \<Rightarrow> u32" where
  "slot p i = p + 4 * of_nat i"

definition present :: "u32 \<Rightarrow> bool" where
  "present w \<longleftrightarrow> w AND PTE_P \<noteq> 0"

lemma vpn_less: "vpn va < 1024 * 1024"
  using unat32_less [of va] by (simp add: vpn_def PGSIZE_def less_mult_imp_div_less)

lemma unat_PDX: "unat (PDX va) = vpn va div 1024"
proof -
  have "PDX va = take_bit 10 (drop_bit 22 va)"
    by (simp add: PDX_def take_bit_eq_mask mask_eq_exp_minus_1)
  then have "unat (PDX va) = (unat va div 2 ^ 22) mod 2 ^ 10"
    by (simp add: unat_mod unat_div take_bit_eq_mod drop_bit_eq_div)
  also have "\<dots> = unat va div 2 ^ 22"
    using unat32_less [of va] by (intro mod_less) (simp add: less_mult_imp_div_less)
  finally show ?thesis by (simp add: vpn_def PGSIZE_def div_mult2_eq [symmetric])
qed

lemma unat_PTX: "unat (PTX va) = vpn va mod 1024"
proof -
  have "PTX va = take_bit 10 (drop_bit 12 va)"
    by (simp add: PTX_def take_bit_eq_mask mask_eq_exp_minus_1)
  then show ?thesis
    by (simp add: unat_mod unat_div take_bit_eq_mod drop_bit_eq_div vpn_def PGSIZE_def)
qed

lemma table_slots:
  "pde_at pgdir va = slot pgdir (vpn va div 1024)" "pte_at tab va = slot tab (vpn va mod 1024)"
  by (simp_all add: pde_at_def pte_at_def slot_def flip: unat_PDX unat_PTX)

lemma page_ok_range:
  assumes "page_ok e p"
  shows "0x80000000 \<le> unat p" and "unat p < 0x8E000000" and "unat p mod PGSIZE = 0"
    and "unat (V2P p) = unat p - 0x80000000"
proof -
  have v: "unat (V2P p) < 0xE000000"
    using assms by (simp add: page_ok_def PHYSTOP_def word_less_nat_alt)
  have d: "unat (V2P p) = (if 0x80000000 \<le> unat p then unat p - 0x80000000 else unat p + 0x80000000)"
    by (simp add: V2P_def KERNBASE_def unat_sub_if_size word_size)
  show ge: "0x80000000 \<le> unat p" using v d by (rule_tac ccontr) simp
  then show "unat (V2P p) = unat p - 0x80000000" using d by simp
  then show "unat p < 0x8E000000" using v ge by simp
  show "unat p mod PGSIZE = 0" using assms by (simp add: page_ok_def)
qed


lemma unat_slot:
  assumes "page_ok e p" and "i < 1024"
  shows "unat (slot p i) = unat p + 4 * i"
proof -
  have i: "unat (of_nat i :: u32) = i" using assms(2) by (simp add: unat_of_nat)
  show ?thesis using page_ok_range(2) [OF assms(1)] assms(2)
    by (simp add: slot_def unat_word_ariths i del: unat_of_nat)
qed

lemma slot_in_page:
  assumes "page_ok e p" and "i < 1024" and "k < 4"
  shows "in_page p (unat (slot p i) + k)"
  using assms by (simp add: unat_slot in_page_def PGSIZE_def)

lemma store32_slot:
  assumes "page_ok e p" and "i < 1024" and "\<not> in_page p a"
  shows "store32 m (slot p i) w a = m a"
proof -
  have "a \<noteq> unat (slot p i) + k" if "k < 4" for k using slot_in_page [OF assms(1,2) that] assms(3) by auto
  from this [of 0] this [of 1] this [of 2] this [of 3] show ?thesis by (intro store32_other) simp_all
qed

lemma load32_store32_slot:
  assumes "page_ok e p" "page_ok e' q" "i < 1024" "j < 1024"
  shows "load32 (store32 m (slot p i) w) (slot q j) =
    (if p = q \<and> i = j then w else load32 m (slot q j))"
proof (cases "p = q")
  case False
  have "\<not> in_page p (unat (slot q j) + k)" if "k < 4" for k
    using pages_disjoint [of q p] slot_in_page [OF assms(2,4) that] assms(1,2) False
    by (auto simp: page_ok_range)
  with False assms show ?thesis by (auto intro!: load32_cong store32_slot)
next
  case True
  show ?thesis
  proof (cases "i = j")
    case False
    have "store32 m (slot p i) w (unat (slot q j) + k) = m (unat (slot q j) + k)" if "k < 4" for k
    proof -
      have "unat (slot q j) = unat p + 4 * j" "unat (slot p i) = unat p + 4 * i"
        using True unat_slot assms by blast+
      with that False show ?thesis by (intro store32_other) presburger+
    qed
    with True False show ?thesis by (auto intro!: load32_cong)
  qed (simp add: True)
qed

lemma load32_zeroed:
  assumes "page_ok e p" "i < 1024"
  shows "load32 (memset m (unat p) 0 PGSIZE) (slot p i) = 0"
proof -
  have "memset m (unat p) 0 PGSIZE (unat (slot p i) + k) = 0" if "k < 4" for k
    using slot_in_page [OF assms that] by (simp add: memset_at in_page_def)
  from this [of 0] this [of 1] this [of 2] this [of 3] show ?thesis by (simp add: load32_def dec32_def)
qed

lemma load32_off:
  assumes "page_ok e p" "i < 1024" "\<And>a. in_page p a \<Longrightarrow> m' a = m a"
  shows "load32 m' (slot p i) = load32 m (slot p i)"
  using assms slot_in_page by (intro load32_cong) blast

section \<open>Entries\<close>

lemma PTE_ADDR_PGROUNDDOWN: "PTE_ADDR w = PGROUNDDOWN w"
  by (simp add: PTE_ADDR_def PGROUNDDOWN_def PGSIZE_def)

lemma aligned_iff: "unat (p :: u32) mod PGSIZE = 0 \<longleftrightarrow> take_bit 12 p = 0"
  by (simp add: take_bit_eq_mod PGSIZE_def word_unat_eq_iff unat_mod)

lemma entry_parts:
  assumes "take_bit 12 p = 0" and "f AND NOT 0xFFF = (0 :: u32)"
  shows "PTE_ADDR (p OR f) = p" and "PTE_FLAGS (p OR f) = f"
proof -
  have m: "(0xFFF :: u32) = mask 12" by (simp add: mask_eq_exp_minus_1)
  have sp: "(w AND mask 12) OR (w AND NOT (mask 12)) = w" for w :: u32
    by (simp flip: bit.conj_disj_distrib)
  have p: "p AND mask 12 = 0" using assms(1) by (simp add: take_bit_eq_mask)
  then have p': "p AND NOT (mask 12) = p" using sp [of p] by simp
  show "PTE_ADDR (p OR f) = p" using assms(2) p' by (simp add: PTE_ADDR_def m bit.conj_disj_distrib2)
  have "f AND mask 12 = f" using assms(2) sp [of f] unfolding m by simp
  then show "PTE_FLAGS (p OR f) = f" using p by (simp add: PTE_FLAGS_def m bit.conj_disj_distrib2)
qed

lemma page_ok_phys:
  assumes "page_ok e p"
  shows "take_bit 12 (V2P p) = 0"
proof -
  have "unat (V2P p) mod PGSIZE = 0"
    using page_ok_range [OF assms] mod_mult_self2 [of "unat p - 0x80000000" PGSIZE "0x80000"]
    by (simp add: PGSIZE_def)
  then show ?thesis by (simp add: aligned_iff)
qed

lemma P2V_V2P [simp]: "P2V (V2P p) = p" "V2P (P2V p) = p"
  by (simp_all add: P2V_def V2P_def)

section \<open>The tables as one map\<close>

definition pde :: "memory \<Rightarrow> u32 \<Rightarrow> nat \<Rightarrow> u32" where
  "pde m pgdir i = load32 m (slot pgdir i)"

definition tab :: "memory \<Rightarrow> u32 \<Rightarrow> nat \<Rightarrow> u32" where
  "tab m pgdir i = P2V (PTE_ADDR (pde m pgdir i))"

definition pte :: "memory \<Rightarrow> u32 \<Rightarrow> nat \<Rightarrow> u32" where
  "pte m pgdir n =
     (if present (pde m pgdir (n div 1024)) then load32 m (slot (tab m pgdir (n div 1024)) (n mod 1024)) else 0)"

definition tables :: "memory \<Rightarrow> u32 \<Rightarrow> u32 set" where
  "tables m pgdir = insert pgdir {tab m pgdir i | i. i < 1024 \<and> present (pde m pgdir i)}"

text \<open>
  The tables of an address space are pages of the allocator, different from each other and from the
  directory, and none of them is free.
\<close>

definition pt_ok :: "u32 \<Rightarrow> memory \<Rightarrow> u32 \<Rightarrow> bool" where
  "pt_ok e m pgdir \<longleftrightarrow> (\<forall>p \<in> tables m pgdir. page_ok e p) \<and>
     (\<forall>i < 1024. present (pde m pgdir i) \<longrightarrow> tab m pgdir i \<noteq> pgdir) \<and>
     (\<forall>i < 1024. \<forall>j < 1024. present (pde m pgdir i) \<longrightarrow> present (pde m pgdir j) \<longrightarrow>
        tab m pgdir i = tab m pgdir j \<longrightarrow> i = j)"

definition vm_ok :: "'m kmem_scheme \<Rightarrow> u32 \<Rightarrow> u32 list \<Rightarrow> bool" where
  "vm_ok s pgdir vs \<longleftrightarrow> kavail s vs \<and> pt_ok (kend s) (mem s) pgdir \<and> tables (mem s) pgdir \<inter> set vs = {}"

definition frame :: "u32 \<Rightarrow> u32" where
  "frame w = P2V (PTE_ADDR w)"

lemma not_present_0 [simp]: "\<not> present 0"
  by (simp add: present_def)

lemma translate_pte:
  "translate m pgdir va =
     (if present (pte m pgdir (vpn va)) then Some (frame (pte m pgdir (vpn va)) + (va AND 0xFFF)) else None)"
  by (simp add: translate_def pte_def tab_def pde_def table_slots Let_def present_def frame_def)

lemma pt_okD:
  assumes "pt_ok e m pgdir"
  shows "page_ok e pgdir"
    and "i < 1024 \<Longrightarrow> present (pde m pgdir i) \<Longrightarrow> page_ok e (tab m pgdir i)"
    and "i < 1024 \<Longrightarrow> present (pde m pgdir i) \<Longrightarrow> tab m pgdir i \<noteq> pgdir"
    and "i < 1024 \<Longrightarrow> j < 1024 \<Longrightarrow> present (pde m pgdir i) \<Longrightarrow> present (pde m pgdir j) \<Longrightarrow>
          tab m pgdir i = tab m pgdir j \<Longrightarrow> i = j"
  using assms by (auto simp: pt_ok_def tables_def)

lemma tables_cong:
  assumes "pt_ok e m pgdir" and "\<forall>p \<in> tables m pgdir. \<forall>a. in_page p a \<longrightarrow> m' a = m a"
  shows "i < 1024 \<Longrightarrow> pde m' pgdir i = pde m pgdir i" and "i < 1024 \<Longrightarrow> tab m' pgdir i = tab m pgdir i"
    and "n < 1024 * 1024 \<Longrightarrow> pte m' pgdir n = pte m pgdir n" and "tables m' pgdir = tables m pgdir"
    and "pt_ok e m' pgdir"
proof -
  have p: "pde m' pgdir i = pde m pgdir i" if "i < 1024" for i
    unfolding pde_def using that assms by (intro load32_off [OF pt_okD(1) [OF assms(1)]]) (auto simp: tables_def)
  then show "i < 1024 \<Longrightarrow> pde m' pgdir i = pde m pgdir i" .
  have t: "tab m' pgdir i = tab m pgdir i" if "i < 1024" for i using p [OF that] by (simp add: tab_def)
  then show "i < 1024 \<Longrightarrow> tab m' pgdir i = tab m pgdir i" .
  show tt: "tables m' pgdir = tables m pgdir" using p t by (auto simp: tables_def) metis+
  show "pt_ok e m' pgdir" using assms(1) p t unfolding pt_ok_def tt by auto
  show "pte m' pgdir n = pte m pgdir n" if n: "n < 1024 * 1024"
  proof -
    have i: "n div 1024 < 1024" using n by (simp add: less_mult_imp_div_less)
    show ?thesis
    proof (cases "present (pde m pgdir (n div 1024))")
      case True
      with i have "tab m pgdir (n div 1024) \<in> tables m pgdir" by (auto simp: tables_def)
      then have "load32 m' (slot (tab m pgdir (n div 1024)) (n mod 1024)) =
          load32 m (slot (tab m pgdir (n div 1024)) (n mod 1024))"
        using assms(2) by (intro load32_off [OF pt_okD(2) [OF assms(1) i True]]) auto
      with True show ?thesis by (simp add: pte_def p [OF i] t [OF i])
    qed (simp add: pte_def p [OF i])
  qed
qed

text \<open>Storing an entry of a table that exists changes the entry of that page and no other.\<close>

lemma store_pte:
  fixes w :: u32
  assumes "pt_ok e m pgdir" and "n < 1024 * 1024" and "present (pde m pgdir (n div 1024))"
  defines "m' \<equiv> store32 m (slot (tab m pgdir (n div 1024)) (n mod 1024)) w"
  shows "k < 1024 * 1024 \<Longrightarrow> pte m' pgdir k = (if k = n then w else pte m pgdir k)"
    and "i < 1024 \<Longrightarrow> pde m' pgdir i = pde m pgdir i"
    and "tables m' pgdir = tables m pgdir" and "pt_ok e m' pgdir"
    and "\<not> in_page (tab m pgdir (n div 1024)) a \<Longrightarrow> m' a = m a"
proof -
  have n: "n div 1024 < 1024" using assms(2) by (simp add: less_mult_imp_div_less)
  note ok = pt_okD [OF assms(1)]
  let ?t = "tab m pgdir (n div 1024)"
  have pt: "page_ok e ?t" "?t \<noteq> pgdir" using ok(2,3) [OF n assms(3)] by simp_all
  have p: "pde m' pgdir i = pde m pgdir i" if "i < 1024" for i
    using that load32_store32_slot [OF pt(1) ok(1)] pt(2) by (simp add: m'_def pde_def)
  then show "i < 1024 \<Longrightarrow> pde m' pgdir i = pde m pgdir i" .
  have t: "tab m' pgdir i = tab m pgdir i" if "i < 1024" for i using p [OF that] by (simp add: tab_def)
  show tt: "tables m' pgdir = tables m pgdir" using p t by (auto simp: tables_def) metis+
  show "pt_ok e m' pgdir" using assms(1) p t unfolding pt_ok_def tt by auto
  show "m' a = m a" if "\<not> in_page ?t a" using that pt(1) by (simp add: m'_def store32_slot)
  show "pte m' pgdir k = (if k = n then w else pte m pgdir k)" if k: "k < 1024 * 1024"
  proof -
    have i: "k div 1024 < 1024" using k by (simp add: less_mult_imp_div_less)
    show ?thesis
    proof (cases "present (pde m pgdir (k div 1024))")
      case True
      have "tab m pgdir (k div 1024) = ?t \<longleftrightarrow> k div 1024 = n div 1024" using ok(4) [OF i n True assms(3)] by auto
      moreover have "k = n \<longleftrightarrow> k div 1024 = n div 1024 \<and> k mod 1024 = n mod 1024"
        by (metis div_mult_mod_eq)
      moreover have "load32 m' (slot (tab m pgdir (k div 1024)) (k mod 1024)) =
          (if ?t = tab m pgdir (k div 1024) \<and> n mod 1024 = k mod 1024 then w
           else load32 m (slot (tab m pgdir (k div 1024)) (k mod 1024)))"
        using load32_store32_slot [OF pt(1) ok(2) [OF i True], of "n mod 1024" "k mod 1024" m w]
        by (simp add: m'_def)
      ultimately show ?thesis using True by (auto simp: pte_def p [OF i] t [OF i])
    next
      case False
      with assms(3) have "k \<noteq> n" by auto
      with False show ?thesis by (simp add: pte_def p [OF i])
    qed
  qed
qed

text \<open>A directory entry for a fresh zeroed table leaves the entries of all pages as they are.\<close>

lemma add_table:
  assumes "pt_ok e m pgdir" and "i < 1024" and "\<not> present (pde m pgdir i)" and "page_ok e v"
    and "v \<notin> tables m pgdir"
  defines "m' \<equiv> store32 (memset m (unat v) 0 PGSIZE) (slot pgdir i) (V2P v OR PTE_P OR PTE_W OR PTE_U)"
  shows "k < 1024 * 1024 \<Longrightarrow> pte m' pgdir k = pte m pgdir k"
    and "j < 1024 \<Longrightarrow> pde m' pgdir j = (if j = i then V2P v OR PTE_P OR PTE_W OR PTE_U else pde m pgdir j)"
    and "present (pde m' pgdir i)" and "tab m' pgdir i = v"
    and "tables m' pgdir = insert v (tables m pgdir)" and "pt_ok e m' pgdir"
    and "\<not> in_page v a \<Longrightarrow> \<not> in_page pgdir a \<Longrightarrow> m' a = m a"
proof -
  let ?z = "memset m (unat v) 0 PGSIZE" and ?w = "V2P v OR PTE_P OR PTE_W OR PTE_U"
  note ok = pt_okD [OF assms(1)]
  have off: "?z a = m a" if "\<not> in_page v a" for a using that by (auto simp: memset_at in_page_def)
  have same: "?z a = m a" if "p \<in> tables m pgdir" "in_page p a" for p a
  proof -
    have "p \<noteq> v" "page_ok e p" using that assms(1,5) by (auto simp: pt_ok_def)
    then have "\<not> in_page v a" using pages_disjoint [of p v a] that assms(4) by (auto simp: page_ok_range)
    then show ?thesis by (rule off)
  qed
  then have "\<forall>p \<in> tables m pgdir. \<forall>a. in_page p a \<longrightarrow> ?z a = m a" by blast
  note z = tables_cong [OF assms(1) this]
  have pd: "pde m' pgdir j = (if j = i then ?w else pde m pgdir j)" if "j < 1024" for j
    using load32_store32_slot [OF ok(1) ok(1) assms(2) that, of ?z ?w] z(1) [OF that]
    by (auto simp: m'_def pde_def)
  then show "j < 1024 \<Longrightarrow> pde m' pgdir j = (if j = i then ?w else pde m pgdir j)" .
  have w: "PTE_ADDR ?w = V2P v" "present ?w"
    using entry_parts(1) [OF page_ok_phys [OF assms(4)], of "PTE_P OR PTE_W OR PTE_U"]
    by (simp_all add: PTE_P_def PTE_W_def PTE_U_def present_def bit.conj_disj_distrib2 or.assoc)
  show pi: "present (pde m' pgdir i)" using pd [OF assms(2)] w by simp
  show ti: "tab m' pgdir i = v" using pd [OF assms(2)] w by (simp add: tab_def)
  have t: "tab m' pgdir j = tab m pgdir j" if "j < 1024" "j \<noteq> i" for j using pd that by (simp add: tab_def)
  show tt: "tables m' pgdir = insert v (tables m pgdir)"
    using pd t ti pi assms(2,3) by (auto simp: tables_def) metis+
  have "v \<noteq> pgdir" using assms(5) by (auto simp: tables_def)
  have nv: "tab m pgdir j \<noteq> v" if "j < 1024" "present (pde m pgdir j)" for j
    using assms(5) that by (auto simp: tables_def)
  show "pt_ok e m' pgdir"
    unfolding pt_ok_def tt
  proof (intro conjI allI impI)
    show "\<forall>p\<in>insert v (tables m pgdir). page_ok e p" using assms(1,4) by (simp add: pt_ok_def)
    show "tab m' pgdir j \<noteq> pgdir" if "j < 1024" "present (pde m' pgdir j)" for j
      using that ok(3) pd t ti \<open>v \<noteq> pgdir\<close> by (cases "j = i") auto
    show "j = k" if "j < 1024" "k < 1024" "present (pde m' pgdir j)" "present (pde m' pgdir k)"
      "tab m' pgdir j = tab m' pgdir k" for j k
      using that ok(4) [of j k] pd t ti nv by (cases "j = i"; cases "k = i") auto
  qed
  show "m' a = m a" if "\<not> in_page v a" "\<not> in_page pgdir a"
    using that off store32_slot [OF ok(1) assms(2)] by (simp add: m'_def)
  show "pte m' pgdir k = pte m pgdir k" if k: "k < 1024 * 1024"
  proof -
    have kd: "k div 1024 < 1024" using k by (simp add: less_mult_imp_div_less)
    show ?thesis
    proof (cases "k div 1024 = i")
      case True
      then have "pte m' pgdir k = load32 m' (slot v (k mod 1024))" using pi ti by (simp add: pte_def)
      also have "\<dots> = 0"
        using load32_store32_slot [OF ok(1) assms(4,2), of "k mod 1024" ?z ?w] load32_zeroed [OF assms(4), of "k mod 1024" m]
          \<open>v \<noteq> pgdir\<close> by (auto simp: m'_def)
      finally show ?thesis using True assms(3) by (simp add: pte_def)
    next
      case False
      show ?thesis
      proof (cases "present (pde m pgdir (k div 1024))")
        case pr: True
        have "load32 m' (slot (tab m pgdir (k div 1024)) (k mod 1024)) = load32 ?z (slot (tab m pgdir (k div 1024)) (k mod 1024))"
          using load32_store32_slot [OF ok(1) ok(2) [OF kd pr] assms(2), of "k mod 1024" ?z ?w] ok(3) [OF kd pr]
          by (auto simp: m'_def)
        then have "pte m' pgdir k = pte ?z pgdir k"
          using False pr pd [OF kd] t [OF kd] z(1,2) [OF kd] by (simp add: pte_def)
        with z(3) [OF k] show ?thesis by simp
      qed (use False pd [OF kd] in \<open>simp add: pte_def\<close>)
    qed
  qed
qed

section \<open>Walking and mapping\<close>

text \<open>
  What changes of a page directory: present entries stay as they are, and a new entry gives every permission on one of the
  pages \<open>vs\<close>, so that the permissions of a mapping are those of its page table entry alone.
\<close>

definition dir_grows :: "memory \<Rightarrow> u32 \<Rightarrow> u32 list \<Rightarrow> memory \<Rightarrow> bool" where
  "dir_grows m pgdir vs m' \<longleftrightarrow> (\<forall>i < 1024. pde m' pgdir i = pde m pgdir i \<or>
     \<not> present (pde m pgdir i) \<and> (\<exists>v \<in> set vs. pde m' pgdir i = V2P v OR PTE_P OR PTE_W OR PTE_U))"

lemma dir_grows_same: "(\<And>i. i < 1024 \<Longrightarrow> pde m' pgdir i = pde m pgdir i) \<Longrightarrow> dir_grows m pgdir vs m'"
  by (simp add: dir_grows_def)

lemma present_or_P: "present (w OR PTE_P OR v)"
  by (simp add: present_def PTE_P_def bit.conj_disj_distrib2)

lemma dir_grows_trans:
  assumes "dir_grows m pgdir vs m'" and "dir_grows m' pgdir vs' m''" and "set vs' \<subseteq> set vs"
  shows "dir_grows m pgdir vs m''"
  unfolding dir_grows_def
proof (intro allI impI)
  fix i :: nat assume i: "i < 1024"
  note st = assms(1,2) [unfolded dir_grows_def, rule_format, OF i]
  show "pde m'' pgdir i = pde m pgdir i \<or>
     \<not> present (pde m pgdir i) \<and> (\<exists>v \<in> set vs. pde m'' pgdir i = V2P v OR PTE_P OR PTE_W OR PTE_U)"
    using st(1)
  proof
    assume "pde m' pgdir i = pde m pgdir i"
    then show ?thesis using st(2) assms(3) by auto
  next
    assume n: "\<not> present (pde m pgdir i) \<and> (\<exists>v \<in> set vs. pde m' pgdir i = V2P v OR PTE_P OR PTE_W OR PTE_U)"
    then have "present (pde m' pgdir i)" using present_or_P by auto
    then show ?thesis using st(2) n by simp
  qed
qed

text \<open>
  A step of the code on one address space: it takes pages off the free list and writes nothing but the tables
  of that address space and those pages.
\<close>

definition vmstep :: "u32 \<Rightarrow> 'm kmem_scheme \<Rightarrow> u32 list \<Rightarrow> 'm kmem_scheme \<Rightarrow> u32 list \<Rightarrow> bool" where
  "vmstep pgdir s vs t vs' \<longleftrightarrow> vm_ok t pgdir vs' \<and> t = s\<lparr>mem := mem t, freelist := freelist t\<rparr> \<and>
     dir_grows (mem s) pgdir vs (mem t) \<and>
     (\<exists>pre. vs = pre @ vs' \<and> tables (mem s) pgdir \<subseteq> tables (mem t) pgdir \<and>
        tables (mem t) pgdir \<subseteq> tables (mem s) pgdir \<union> set pre \<and>
        (\<forall>a. (\<forall>p \<in> tables (mem s) pgdir \<union> set pre. \<not> in_page p a) \<longrightarrow> mem t a = mem s a))"

lemma vmstep_refl: "vm_ok s pgdir vs \<Longrightarrow> vmstep pgdir s vs s vs"
  by (auto simp: vmstep_def dir_grows_same)

lemma vmstep_dir: "vmstep pgdir s vs t vs' \<Longrightarrow> dir_grows (mem s) pgdir vs (mem t)"
  by (simp add: vmstep_def)

lemma vmstep_ok: "vmstep pgdir s vs t vs' \<Longrightarrow> vm_ok t pgdir vs'"
  by (simp add: vmstep_def)

lemma vmstep_trans:
  assumes "vmstep pgdir s vs t vs'" and "vmstep pgdir t vs' u vs''"
  shows "vmstep pgdir s vs u vs''"
proof -
  obtain p where p: "vs = p @ vs'" "tables (mem s) pgdir \<subseteq> tables (mem t) pgdir"
      "tables (mem t) pgdir \<subseteq> tables (mem s) pgdir \<union> set p"
      "\<forall>a. (\<forall>x \<in> tables (mem s) pgdir \<union> set p. \<not> in_page x a) \<longrightarrow> mem t a = mem s a"
      "t = s\<lparr>mem := mem t, freelist := freelist t\<rparr>"
    using assms(1) unfolding vmstep_def by blast
  obtain q where q: "vs' = q @ vs''" "tables (mem t) pgdir \<subseteq> tables (mem u) pgdir"
      "tables (mem u) pgdir \<subseteq> tables (mem t) pgdir \<union> set q"
      "\<forall>a. (\<forall>x \<in> tables (mem t) pgdir \<union> set q. \<not> in_page x a) \<longrightarrow> mem u a = mem t a"
      "u = t\<lparr>mem := mem u, freelist := freelist u\<rparr>"
    using assms(2) unfolding vmstep_def by blast
  have "u = s\<lparr>mem := mem u, freelist := freelist u\<rparr>" by (subst q(5), subst p(5)) simp
  moreover have "vs = (p @ q) @ vs''" using p(1) q(1) by simp
  moreover have "mem u a = mem s a" if "\<forall>x \<in> tables (mem s) pgdir \<union> set (p @ q). \<not> in_page x a" for a
  proof -
    have "mem t a = mem s a" using that by (intro p(4) [rule_format]) auto
    moreover have "mem u a = mem t a" using that p(3) by (intro q(4) [rule_format]) auto
    ultimately show ?thesis by simp
  qed
  moreover have "dir_grows (mem s) pgdir vs (mem u)"
    using p(1) by (intro dir_grows_trans [OF vmstep_dir [OF assms(1)] vmstep_dir [OF assms(2)]]) simp
  ultimately show ?thesis
    using p(2,3) q(2,3) vmstep_ok [OF assms(2)] unfolding vmstep_def by (intro conjI exI [of _ "p @ q"]) auto
qed

lemma kavail_frame:
  assumes "kavail s vs" and "\<forall>v \<in> set vs. \<forall>a. in_page v a \<longrightarrow> m a = mem s a"
  shows "kavail (s\<lparr>mem := m\<rparr>) vs"
proof -
  have "chain m (freelist s) vs = chain (mem s) (freelist s) vs"
    using assms(2) page_head by (intro chain_frame) blast
  with assms(1) show ?thesis by (simp add: kavail_def free_chain_def)
qed

lemma vm_okD:
  assumes "vm_ok s pgdir vs"
  shows "kavail s vs" and "pt_ok (kend s) (mem s) pgdir" and "p \<in> tables (mem s) pgdir \<Longrightarrow> p \<notin> set vs"
    and "p \<in> tables (mem s) pgdir \<Longrightarrow> page_ok (kend s) p" and "v \<in> set vs \<Longrightarrow> page_ok (kend s) v"
    and "distinct vs"
  using assms by (auto simp: vm_ok_def pt_ok_def kavail_def free_chain_def)

lemma page_ok_disjoint: "page_ok e p \<Longrightarrow> page_ok e' q \<Longrightarrow> p \<noteq> q \<Longrightarrow> in_page p a \<Longrightarrow> \<not> in_page q a"
  using pages_disjoint [of p q a] page_ok_range(3) [of e p] page_ok_range(3) [of e' q] by simp

lemma put_entry:
  fixes w :: u32
  assumes "vm_ok s pgdir vs" and "n < 1024 * 1024" and "present (pde (mem s) pgdir (n div 1024))"
  defines "t \<equiv> s\<lparr>mem := store32 (mem s) (slot (tab (mem s) pgdir (n div 1024)) (n mod 1024)) w\<rparr>"
  shows "vmstep pgdir s vs t vs"
    and "k < 1024 * 1024 \<Longrightarrow> pte (mem t) pgdir k = (if k = n then w else pte (mem s) pgdir k)"
proof -
  note ok = vm_okD [OF assms(1)]
  note st = store_pte [OF ok(2) assms(2,3), where w = w]
  have tin: "tab (mem s) pgdir (n div 1024) \<in> tables (mem s) pgdir"
    using assms(2,3) by (auto simp: tables_def less_mult_imp_div_less intro!: exI [of _ "n div 1024"])
  have "kavail t vs" unfolding t_def
  proof (intro kavail_frame [OF ok(1)] ballI allI impI)
    fix v a assume v: "v \<in> set vs" "in_page v a"
    then have "v \<noteq> tab (mem s) pgdir (n div 1024)" using ok(3) tin by blast
    then have "\<not> in_page (tab (mem s) pgdir (n div 1024)) a"
      using page_ok_disjoint [OF ok(5) [OF v(1)] ok(4) [OF tin]] v(2) by simp
    then show "store32 (mem s) (slot (tab (mem s) pgdir (n div 1024)) (n mod 1024)) w a = mem s a" by (rule st(5))
  qed
  moreover have "kend t = kend s" by (simp add: t_def)
  ultimately have "vm_ok t pgdir vs"
    using st(3,4) assms(1) by (simp add: vm_ok_def t_def)
  moreover have "dir_grows (mem s) pgdir vs (mem t)" using st(2) by (intro dir_grows_same) (simp add: t_def)
  ultimately show "vmstep pgdir s vs t vs"
    using st(3,5) tin unfolding vmstep_def by (auto simp: t_def)
  show "k < 1024 * 1024 \<Longrightarrow> pte (mem t) pgdir k = (if k = n then w else pte (mem s) pgdir k)"
    using st(1) by (simp add: t_def)
qed

lemma slot_nonzero: "page_ok e p \<Longrightarrow> i < 1024 \<Longrightarrow> slot p i \<noteq> 0"
  using page_ok_range(1) [of e p] unat_slot [of e p i] by auto

lemma walkpgdir_run:
  "walkpgdir pgdir va False s =
    Ok (if present (pde (mem s) pgdir (vpn va div 1024))
        then slot (tab (mem s) pgdir (vpn va div 1024)) (vpn va mod 1024) else 0) s"
  by (simp add: walkpgdir_def get32_def table_slots present_def pde_def tab_def)

lemma walkpgdir_alloc:
  assumes "vm_ok s pgdir vs"
  shows "\<exists>r t vs'. walkpgdir pgdir va True s = Ok r t \<and> vmstep pgdir s vs t vs' \<and> length vs \<le> Suc (length vs') \<and>
    (\<forall>k < 1024 * 1024. pte (mem t) pgdir k = pte (mem s) pgdir k) \<and>
    (if r = 0 then t = s \<and> vs = []
     else present (pde (mem t) pgdir (vpn va div 1024)) \<and>
          r = slot (tab (mem t) pgdir (vpn va div 1024)) (vpn va mod 1024))"
proof -
  let ?i = "vpn va div 1024"
  have i: "?i < 1024" using vpn_less by (simp add: less_mult_imp_div_less)
  note ok = vm_okD [OF assms]
  show ?thesis
  proof (cases "present (pde (mem s) pgdir ?i)")
    case True
    then have "slot (tab (mem s) pgdir ?i) (vpn va mod 1024) \<noteq> 0"
      using slot_nonzero pt_okD(2) [OF ok(2) i] by simp
    with True vmstep_refl [OF assms] show ?thesis
      by (auto simp: walkpgdir_def get32_def table_slots present_def pde_def tab_def)
  next
    case False
    show ?thesis
    proof (cases vs)
      case Nil
      then have "kalloc s = Ok 0 s" using ok(1) ka.alloc_empty by blast
      then have "walkpgdir pgdir va True s = Ok 0 s"
        using False by (simp add: walkpgdir_def get32_def table_slots present_def pde_def)
      with vmstep_refl [OF assms] Nil show ?thesis by auto
    next
      case (Cons v vs')
      define s1 where "s1 = s\<lparr>freelist := load32 (mem s) v\<rparr>"
      have k: "kalloc s = Ok v s1" "kavail s1 vs'"
        using ok(1) pop_page_chain [of s v vs'] by (auto simp: Cons kavail_def kalloc_run s1_def)
      define t where "t = s1\<lparr>mem := store32 (memset (mem s) (unat v) 0 PGSIZE) (slot pgdir ?i)
          (V2P v OR PTE_P OR PTE_W OR PTE_U)\<rparr>"
      have v: "page_ok (kend s) v" "v \<notin> tables (mem s) pgdir" "v \<noteq> 0"
        using ok(3,5) Cons by (auto simp: page_ok_def)
      note at = add_table [OF ok(2) i False v(1,2)]
      have mt: "mem t a = mem s a" if "\<not> in_page v a" "\<not> in_page pgdir a" for a
        using at(7) [OF that] by (simp add: t_def)
      have run: "walkpgdir pgdir va True s = Ok (slot v (vpn va mod 1024)) t"
        using False v(3) by (simp add: walkpgdir_def get32_def zero_page_def put32_def table_slots present_def
            pde_def k(1) t_def s1_def)
      have pd: "page_ok (kend s) pgdir" "pgdir \<notin> set vs" using ok(3,4) by (auto simp: tables_def)
      have "kavail (s1\<lparr>mem := mem t\<rparr>) vs'"
      proof (intro kavail_frame [OF k(2)] ballI allI impI)
        fix w a assume w: "w \<in> set vs'" "in_page w a"
        then have "w \<noteq> v" "w \<noteq> pgdir" "page_ok (kend s) w" using ok(5,6) pd(2) Cons by auto
        then have "\<not> in_page v a" "\<not> in_page pgdir a"
          using page_ok_disjoint [OF _ v(1) _ w(2)] page_ok_disjoint [OF _ pd(1) _ w(2)] by blast+
        then show "mem t a = mem s1 a" using mt by (simp add: s1_def)
      qed
      then have "kavail t vs'" by (simp add: t_def)
      then have "vm_ok t pgdir vs'"
        using at(5,6) ok(3,6) Cons by (auto simp: vm_ok_def t_def s1_def)
      moreover have "t = s\<lparr>mem := mem t, freelist := freelist t\<rparr>" by (simp add: t_def s1_def)
      moreover have "dir_grows (mem s) pgdir vs (mem t)"
        using at(2) False Cons by (auto simp: dir_grows_def t_def)
      ultimately have "vmstep pgdir s vs t vs'"
        using at(5) mt Cons unfolding vmstep_def
        by (intro conjI exI [of _ "[v]"]) (auto simp: t_def tables_def)
      moreover have "present (pde (mem t) pgdir ?i)" "tab (mem t) pgdir ?i = v" using at(3,4) by (simp_all add: t_def)
      moreover have "\<forall>k < 1024 * 1024. pte (mem t) pgdir k = pte (mem s) pgdir k" using at(1) by (simp add: t_def)
      moreover have "slot v (vpn va mod 1024) \<noteq> 0" using slot_nonzero v(1) by simp
      ultimately show ?thesis using run Cons by auto
    qed
  qed
qed

definition pages :: "nat \<Rightarrow> u32" where
  "pages i = of_nat i * of_nat PGSIZE"

lemma pages_0 [simp]: "pages 0 = 0"
  by (simp add: pages_def)

lemma pages_Suc: "pages (Suc i) = of_nat PGSIZE + pages i"
  by (simp add: pages_def algebra_simps)

lemma pages_diff: "j \<le> i \<Longrightarrow> pages (i - j) = pages i - pages j"
  by (simp add: pages_def of_nat_diff algebra_simps)

lemma unat_pages: "i < 1024 * 1024 \<Longrightarrow> unat (pages i) = i * PGSIZE"
  by (simp add: pages_def PGSIZE_def unat_word_ariths unat_of_nat)

lemma take_bit_pages: "take_bit 12 (pages i) = 0"
proof -
  have "pages i = push_bit 12 (of_nat i)" by (simp add: pages_def PGSIZE_def push_bit_eq_mult)
  then show ?thesis by (simp add: take_bit_push_bit)
qed

lemma vpn_add_page:
  assumes "Suc (vpn a) < 1024 * 1024"
  shows "vpn (a + of_nat PGSIZE) = Suc (vpn a)"
proof -
  have "unat a + 4096 < 2 ^ 32"
    using assms mod_less_divisor [of 4096 "unat a"] div_mult_mod_eq [of "unat a" 4096] by (simp add: vpn_def PGSIZE_def)
  then have "unat (a + of_nat PGSIZE) = unat a + 4096" by (simp add: PGSIZE_def unat_word_ariths)
  then show ?thesis by (simp add: vpn_def PGSIZE_def)
qed

lemma mappages_step:
  fixes s :: "'m kmem_scheme"
  assumes "vm_ok s pgdir vs" and "\<not> present (pte (mem s) pgdir (vpn a))"
  shows "(mappages_loop (Suc n) pgdir a pa perm s = Ok (-1) s \<and> vs = []) \<or>
    (\<exists>t vs'. mappages_loop (Suc n) pgdir a pa perm s =
        mappages_loop n pgdir (a + of_nat PGSIZE) (pa + of_nat PGSIZE) perm t \<and>
      vmstep pgdir s vs t vs' \<and> length vs \<le> Suc (length vs') \<and>
      (\<forall>k < 1024 * 1024. pte (mem t) pgdir k = (if k = vpn a then pa OR perm OR PTE_P else pte (mem s) pgdir k)))"
proof -
  obtain r u vs' where w: "walkpgdir pgdir a True s = Ok r u" "vmstep pgdir s vs u vs'" "length vs \<le> Suc (length vs')"
      "\<forall>k < 1024 * 1024. pte (mem u) pgdir k = pte (mem s) pgdir k"
      "if r = 0 then u = s \<and> vs = [] else present (pde (mem u) pgdir (vpn a div 1024)) \<and>
          r = slot (tab (mem u) pgdir (vpn a div 1024)) (vpn a mod 1024)"
    using walkpgdir_alloc [OF assms(1)] by blast
  show ?thesis
  proof (cases "r = 0")
    case True
    with w(1,5) show ?thesis by simp
  next
    case False
    with w(5) have r: "present (pde (mem u) pgdir (vpn a div 1024))"
        "r = slot (tab (mem u) pgdir (vpn a div 1024)) (vpn a mod 1024)" by simp_all
    have "load32 (mem u) r = pte (mem u) pgdir (vpn a)" using r by (simp add: pte_def)
    then have "\<not> present (load32 (mem u) r)" using w(4) vpn_less assms(2) by simp
    then have run: "mappages_loop (Suc n) pgdir a pa perm s =
        mappages_loop n pgdir (a + of_nat PGSIZE) (pa + of_nat PGSIZE) perm (u\<lparr>mem := store32 (mem u) r (pa OR perm OR PTE_P)\<rparr>)"
      using w(1) False by (simp add: get32_def put32_def present_def)
    note pe = put_entry [OF vmstep_ok [OF w(2)] vpn_less r(1), where w = "pa OR perm OR PTE_P", folded r(2)]
    show ?thesis
      using run vmstep_trans [OF w(2) pe(1)] w(3) pe(2) w(4)
      by (intro disjI2 exI [of _ "u\<lparr>mem := store32 (mem u) r (pa OR perm OR PTE_P)\<rparr>"] exI [of _ vs'] conjI) simp_all
  qed
qed

lemma mappages_loop_run:
  fixes s :: "'m kmem_scheme"
  assumes "vm_ok s pgdir vs" and "n = 0 \<or> vpn a = b" and "b + n \<le> 1024 * 1024"
    and "\<forall>k. b \<le> k \<longrightarrow> k < b + n \<longrightarrow> \<not> present (pte (mem s) pgdir k)"
  shows "\<exists>r t vs' j. mappages_loop n pgdir a pa perm s = Ok r t \<and> vmstep pgdir s vs t vs' \<and>
    length vs \<le> j + length vs' \<and> (r = 0 \<and> j = n \<or> r = -1 \<and> j < n \<and> vs' = []) \<and>
    (\<forall>k < 1024 * 1024. pte (mem t) pgdir k =
       (if b \<le> k \<and> k < b + j then (pa + pages (k - b)) OR perm OR PTE_P else pte (mem s) pgdir k))"
  using assms
proof (induction n arbitrary: s vs a b pa)
  case 0
  then show ?case using vmstep_refl by (intro exI [of _ 0] exI [of _ s] exI [of _ vs]) auto
next
  case (Suc n)
  have b: "vpn a = b" "\<not> present (pte (mem s) pgdir b)" using Suc.prems by auto
  from mappages_step [OF Suc.prems(1), of a n pa perm] b
  consider "mappages_loop (Suc n) pgdir a pa perm s = Ok (-1) s" "vs = []"
    | t vs' where "mappages_loop (Suc n) pgdir a pa perm s =
        mappages_loop n pgdir (a + of_nat PGSIZE) (pa + of_nat PGSIZE) perm t"
      "vmstep pgdir s vs t vs'" "length vs \<le> Suc (length vs')"
      "\<forall>k < 1024 * 1024. pte (mem t) pgdir k = (if k = b then pa OR perm OR PTE_P else pte (mem s) pgdir k)"
    by auto
  then show ?case
  proof cases
    case 1
    with vmstep_refl [OF Suc.prems(1)] show ?thesis by (intro exI [of _ "-1"] exI [of _ s] exI [of _ "[]"] exI [of _ 0]) auto
  next
    case 2
    have "n = 0 \<or> vpn (a + of_nat PGSIZE) = Suc b" using vpn_add_page [of a] b(1) Suc.prems(3) by (cases n) auto
    moreover have "\<forall>k. Suc b \<le> k \<longrightarrow> k < Suc b + n \<longrightarrow> \<not> present (pte (mem t) pgdir k)"
      using 2(4) Suc.prems(3,4) by auto
    ultimately obtain r u vs'' j where u: "mappages_loop n pgdir (a + of_nat PGSIZE) (pa + of_nat PGSIZE) perm t = Ok r u"
        "vmstep pgdir t vs' u vs''" "length vs' \<le> j + length vs''" "r = 0 \<and> j = n \<or> r = -1 \<and> j < n \<and> vs'' = []"
        "\<forall>k < 1024 * 1024. pte (mem u) pgdir k =
          (if Suc b \<le> k \<and> k < Suc b + j then (pa + of_nat PGSIZE + pages (k - Suc b)) OR perm OR PTE_P
           else pte (mem t) pgdir k)"
      using Suc.IH [OF vmstep_ok [OF 2(2)], of "a + of_nat PGSIZE" "Suc b" "pa + of_nat PGSIZE"] Suc.prems(3) by auto
    have "pte (mem u) pgdir k =
        (if b \<le> k \<and> k < b + Suc j then (pa + pages (k - b)) OR perm OR PTE_P else pte (mem s) pgdir k)"
      if k: "k < 1024 * 1024" for k
    proof -
      have "pa + of_nat PGSIZE + pages (k - Suc b) = pa + pages (k - b)" if "Suc b \<le> k"
      proof -
        have "k - b = Suc (k - Suc b)" using that by simp
        then show ?thesis by (simp add: pages_Suc)
      qed
      then show ?thesis using u(5) 2(4) k by (auto simp: not_less_eq_eq Suc_le_eq add.assoc)
    qed
    with u(1-4) 2(1,3) vmstep_trans [OF 2(2) u(2)] show ?thesis
      by (intro exI [of _ r] exI [of _ u] exI [of _ vs''] exI [of _ "Suc j"]) auto
  qed
qed

section \<open>Address arithmetic\<close>

lemma PGROUNDDOWN_vpn: "PGROUNDDOWN va = pages (vpn va)"
proof -
  have "unat (va - take_bit 12 va) = unat va - unat va mod 4096"
    by (subst unat_sub) (simp_all add: take_bit_eq_mod unat_mod word_le_nat_alt)
  then have "va - take_bit 12 va = pages (vpn va)"
    by (simp add: word_unat_eq_iff unat_pages [OF vpn_less]) (simp add: vpn_def PGSIZE_def minus_mod_eq_div_mult)
  then show ?thesis using page_split [of va] by (metis add_diff_cancel_right')
qed

lemma vpn_pages: "i < 1024 * 1024 \<Longrightarrow> vpn (pages i) = i"
  by (simp add: vpn_def unat_pages) (simp add: PGSIZE_def)

lemma vpn_PGROUNDDOWN [simp]: "vpn (PGROUNDDOWN va) = vpn va"
  by (simp add: PGROUNDDOWN_vpn vpn_pages [OF vpn_less])

lemma page_offset_and: "va AND 0xFFF = va - PGROUNDDOWN va"
  by (simp add: page_offset take_bit_eq_mask mask_eq_exp_minus_1)

lemma vpn_mono: "unat a \<le> unat b \<Longrightarrow> vpn a \<le> vpn b"
  by (simp add: vpn_def div_le_mono)

lemma page_distance:
  assumes "unat a \<le> unat b"
  shows "unat (PGROUNDDOWN b - PGROUNDDOWN a) div PGSIZE = vpn b - vpn a"
proof -
  have "PGROUNDDOWN b - PGROUNDDOWN a = pages (vpn b - vpn a)"
    using vpn_mono [OF assms] by (simp add: PGROUNDDOWN_vpn pages_diff)
  then show ?thesis using vpn_less [of b] by (simp add: unat_pages) (simp add: PGSIZE_def)
qed

lemma range_last:
  fixes va n :: u32
  assumes "n \<noteq> 0" and "unat va + unat n \<le> 2 ^ 32"
  shows "unat (va + n - 1) = unat va + unat n - 1"
proof -
  have "0 < unat n" using assms(1) by (simp add: unat_gt_0)
  then have "unat (n - 1) = unat n - 1" using assms(1) by (simp add: unat_minus_one)
  then have "unat (va + (n - 1)) = unat va + (unat n - 1)"
    using assms(2) \<open>0 < unat n\<close> by (simp only: unat_word_ariths) simp
  then show ?thesis using \<open>0 < unat n\<close> by (simp add: add_diff_eq)
qed

lemma range_vpn:
  fixes va n :: u32
  assumes "n \<noteq> 0" and "unat va + unat n \<le> 2 ^ 32"
  shows "vpn va \<le> vpn (va + n - 1)"
  using range_last [OF assms] assms(1) unat_gt_0 [of n] by (intro vpn_mono) simp

lemma vmstep_mem:
  assumes "vmstep pgdir s vs t vs'"
  shows "\<forall>a. (\<forall>p \<in> tables (mem s) pgdir \<union> set vs. \<not> in_page p a) \<longrightarrow> mem t a = mem s a"
proof -
  obtain pre where "vs = pre @ vs'"
      "\<forall>a. (\<forall>p \<in> tables (mem s) pgdir \<union> set pre. \<not> in_page p a) \<longrightarrow> mem t a = mem s a"
    using assms unfolding vmstep_def by blast
  then show ?thesis by (simp add: ball_Un)
qed

section \<open>Mapping a range\<close>

lemma mappages_run:
  fixes s :: "'m kmem_scheme"
  assumes "vm_ok s pgdir vs" and "n \<noteq> 0" and "unat va + unat n \<le> 2 ^ 32"
    and "\<forall>k. vpn va \<le> k \<longrightarrow> k \<le> vpn (va + n - 1) \<longrightarrow> \<not> present (pte (mem s) pgdir k)"
  shows "\<exists>r t vs' j. mappages pgdir va n pa perm s = Ok r t \<and> vmstep pgdir s vs t vs' \<and>
    length vs \<le> j + length vs' \<and>
    (r = 0 \<and> j = Suc (vpn (va + n - 1) - vpn va) \<or> r = -1 \<and> j < Suc (vpn (va + n - 1) - vpn va) \<and> vs' = []) \<and>
    (\<forall>k < 1024 * 1024. pte (mem t) pgdir k =
       (if vpn va \<le> k \<and> k < vpn va + j then (pa + pages (k - vpn va)) OR perm OR PTE_P
        else pte (mem s) pgdir k))"
proof -
  let ?l = "va + n - 1"
  have le: "unat va \<le> unat ?l" using range_last [OF assms(2,3)] assms(2) unat_gt_0 [of n] by simp
  define N where "N = Suc (vpn ?l - vpn va)"
  have run: "mappages pgdir va n pa perm = mappages_loop N pgdir (PGROUNDDOWN va) pa perm"
    by (simp only: mappages_def Let_def page_distance [OF le] Suc_eq_plus1 N_def)
  have "vpn va + N \<le> 1024 * 1024" using vpn_mono [OF le] vpn_less [of ?l] by (simp add: N_def)
  moreover have "\<forall>k. vpn va \<le> k \<longrightarrow> k < vpn va + N \<longrightarrow> \<not> present (pte (mem s) pgdir k)"
    using assms(4) vpn_mono [OF le] by (simp add: N_def)
  ultimately show ?thesis
    using mappages_loop_run [OF assms(1), of N "PGROUNDDOWN va" "vpn va" pa perm] by (simp add: run N_def [symmetric])
qed

lemma aligned_add:
  fixes a b :: u32
  assumes "take_bit 12 a = 0" and "take_bit 12 b = 0"
  shows "take_bit 12 (a + b) = 0"
proof -
  have "unat (a + b) mod 4096 = (unat a + unat b) mod 4096"
    by (simp add: unat_word_ariths mod_mod_cancel)
  also have "\<dots> = (unat a mod 4096 + unat b mod 4096) mod 4096" by (simp only: mod_add_eq)
  finally show ?thesis using assms by (simp flip: aligned_iff add: PGSIZE_def)
qed

lemma mapped_frame:
  assumes "take_bit 12 pa = 0" and "perm AND NOT 0xFFF = 0"
  shows "frame ((pa + pages i) OR perm OR PTE_P) = P2V pa + pages i"
    and "present ((pa + pages i) OR perm OR PTE_P)"
proof -
  have "take_bit 12 (pa + pages i) = 0" using assms(1) by (rule aligned_add [OF _ take_bit_pages])
  moreover have "(perm OR PTE_P) AND NOT 0xFFF = 0"
    using assms(2) by (simp add: bit.conj_disj_distrib2 PTE_P_def)
  ultimately have "PTE_ADDR ((pa + pages i) OR (perm OR PTE_P)) = pa + pages i" by (rule entry_parts)
  then show "frame ((pa + pages i) OR perm OR PTE_P) = P2V pa + pages i"
    by (simp add: frame_def P2V_def or.assoc)
  show "present ((pa + pages i) OR perm OR PTE_P)"
    by (simp add: present_def PTE_P_def bit.conj_disj_distrib2)
qed

text \<open>
  C19. \<open>mappages\<close> (vm.c) for a range without mapped pages returns. When it returns 0 the page table entry of every page of
  the range holds the physical address at the same distance from \<open>pa\<close>, the given permissions and the present bit, and nothing else;
  when it returns -1 this holds for the first \<open>j\<close> pages of the range, no free page is left, and there were
  fewer of them than pages in the range. In both cases every other page table entry is as before, the present entries of the page directory
  are as before, and its new entries give all permissions on a page taken from the free list; nothing is written but the page tables and
  the pages taken from the free list. So after 0 the paging hardware translates every address of the pages of the range to the
  address at the same distance from \<open>pa\<close>, and in both cases every address outside them as before.
\<close>

theorem mappages_maps:
  fixes s :: "'m kmem_scheme"
  assumes "vm_ok s pgdir vs" and "n \<noteq> 0" and "unat va + unat n \<le> 2 ^ 32"
    and "\<forall>k. vpn va \<le> k \<longrightarrow> k \<le> vpn (va + n - 1) \<longrightarrow> \<not> present (pte (mem s) pgdir k)"
    and "take_bit 12 pa = 0" and "perm AND NOT 0xFFF = 0"
  shows "\<exists>r t vs' j. mappages pgdir va n pa perm s = Ok r t \<and> vm_ok t pgdir vs' \<and>
    (r = 0 \<and> vpn va + j = Suc (vpn (va + n - 1)) \<or>
     r = -1 \<and> vpn va + j \<le> vpn (va + n - 1) \<and> vs' = [] \<and> length vs \<le> vpn (va + n - 1) - vpn va) \<and>
    (\<forall>k < 1024 * 1024. pte (mem t) pgdir k =
       (if vpn va \<le> k \<and> k < vpn va + j then (pa + of_nat (k - vpn va) * of_nat PGSIZE) OR perm OR PTE_P
        else pte (mem s) pgdir k)) \<and>
    (\<forall>i < 1024. pde (mem t) pgdir i = pde (mem s) pgdir i \<or>
       \<not> present (pde (mem s) pgdir i) \<and> (\<exists>v \<in> set vs. pde (mem t) pgdir i = V2P v OR PTE_P OR PTE_W OR PTE_U)) \<and>
    (\<forall>x. if vpn va \<le> vpn x \<and> vpn x \<le> vpn (va + n - 1)
         then r = 0 \<longrightarrow> translate (mem t) pgdir x = Some (P2V pa + (x - PGROUNDDOWN va))
         else translate (mem t) pgdir x = translate (mem s) pgdir x) \<and>
    (\<forall>a. (\<forall>p \<in> tables (mem s) pgdir \<union> set vs. \<not> in_page p a) \<longrightarrow> mem t a = mem s a)"
proof -
  obtain r t vs' j where t: "mappages pgdir va n pa perm s = Ok r t" "vmstep pgdir s vs t vs'"
      "r = 0 \<and> j = Suc (vpn (va + n - 1) - vpn va) \<or> r = -1 \<and> j < Suc (vpn (va + n - 1) - vpn va) \<and> vs' = []"
      "\<forall>k < 1024 * 1024. pte (mem t) pgdir k =
         (if vpn va \<le> k \<and> k < vpn va + j then (pa + pages (k - vpn va)) OR perm OR PTE_P
          else pte (mem s) pgdir k)"
      "length vs \<le> j + length vs'"
    using mappages_run [OF assms(1-4)] by blast
  note le = range_vpn [OF assms(2,3)]
  have new: "translate (mem t) pgdir x = Some (P2V pa + (x - PGROUNDDOWN va))"
    if "vpn va \<le> vpn x" "vpn x \<le> vpn (va + n - 1)" "r = 0" for x
  proof -
    have "P2V pa + pages (vpn x - vpn va) + (x - PGROUNDDOWN x) = P2V pa + (x - PGROUNDDOWN va)"
      using that(1) by (simp add: PGROUNDDOWN_vpn pages_diff)
    then show ?thesis
      using that t(3,4) vpn_less [of x] mapped_frame [OF assms(5,6)] by (simp add: translate_pte page_offset_and)
  qed
  have old: "translate (mem t) pgdir x = translate (mem s) pgdir x"
    if "\<not> (vpn va \<le> vpn x \<and> vpn x \<le> vpn (va + n - 1))" for x
  proof -
    have "\<not> (vpn va \<le> vpn x \<and> vpn x < vpn va + j)" using that t(3) le by auto
    then have "pte (mem t) pgdir (vpn x) = pte (mem s) pgdir (vpn x)" using t(4) vpn_less [of x] by auto
    then show ?thesis by (simp add: translate_pte)
  qed
  show ?thesis
  proof (intro exI conjI)
    show "mappages pgdir va n pa perm s = Ok r t" by (rule t(1))
    show "vm_ok t pgdir vs'" by (rule vmstep_ok [OF t(2)])
    show "r = 0 \<and> vpn va + j = Suc (vpn (va + n - 1)) \<or>
        r = -1 \<and> vpn va + j \<le> vpn (va + n - 1) \<and> vs' = [] \<and> length vs \<le> vpn (va + n - 1) - vpn va"
      using t(3,5) le by auto
    show "\<forall>k < 1024 * 1024. pte (mem t) pgdir k =
       (if vpn va \<le> k \<and> k < vpn va + j then (pa + of_nat (k - vpn va) * of_nat PGSIZE) OR perm OR PTE_P
        else pte (mem s) pgdir k)"
      using t(4) unfolding pages_def .
    show "\<forall>i < 1024. pde (mem t) pgdir i = pde (mem s) pgdir i \<or>
       \<not> present (pde (mem s) pgdir i) \<and> (\<exists>v \<in> set vs. pde (mem t) pgdir i = V2P v OR PTE_P OR PTE_W OR PTE_U)"
      using vmstep_dir [OF t(2)] unfolding dir_grows_def .
    show "\<forall>x. if vpn va \<le> vpn x \<and> vpn x \<le> vpn (va + n - 1)
        then r = 0 \<longrightarrow> translate (mem t) pgdir x = Some (P2V pa + (x - PGROUNDDOWN va))
        else translate (mem t) pgdir x = translate (mem s) pgdir x"
      using new old by (simp del: de_Morgan_conj)
    show "\<forall>a. (\<forall>p \<in> tables (mem s) pgdir \<union> set vs. \<not> in_page p a) \<longrightarrow> mem t a = mem s a"
      by (rule vmstep_mem [OF t(2)])
  qed
qed

section \<open>Pages taken from the free list\<close>

lemma fresh_page:
  fixes s :: "'m kmem_scheme"
  assumes "vm_ok s pgdir (v # vs)" and "\<forall>a. \<not> in_page v a \<longrightarrow> m a = mem s a"
  defines "t \<equiv> s\<lparr>freelist := load32 (mem s) v, mem := m\<rparr>"
  shows "kalloc s = Ok v (s\<lparr>freelist := load32 (mem s) v\<rparr>)" and "vmstep pgdir s (v # vs) t vs"
    and "k < 1024 * 1024 \<Longrightarrow> pte (mem t) pgdir k = pte (mem s) pgdir k" and "tables (mem t) pgdir = tables (mem s) pgdir"
    and "v \<notin> tables (mem t) pgdir" and "v \<notin> set vs" and "page_ok (kend s) v" and "v \<noteq> 0"
proof -
  note ok = vm_okD [OF assms(1)]
  have v: "page_ok (kend s) v" "v \<notin> set vs" "v \<notin> tables (mem s) pgdir" "v \<noteq> 0"
    using ok(3,5,6) by (auto simp: page_ok_def)
  show "v \<notin> set vs" "page_ok (kend s) v" "v \<noteq> 0" using v by simp_all
  show "kalloc s = Ok v (s\<lparr>freelist := load32 (mem s) v\<rparr>)"
    using ok(1) pop_page_chain [of s v vs] by (auto simp: kavail_def kalloc_run)
  have off: "\<forall>p \<in> tables (mem s) pgdir. \<forall>a. in_page p a \<longrightarrow> m a = mem s a"
  proof (intro ballI allI impI)
    fix p a assume p: "p \<in> tables (mem s) pgdir" "in_page p a"
    then have "p \<noteq> v" using v(3) by blast
    then show "m a = mem s a" using assms(2) page_ok_disjoint [OF ok(4) [OF p(1)] v(1) _ p(2)] by simp
  qed
  note tc = tables_cong [OF ok(2) off]
  show "k < 1024 * 1024 \<Longrightarrow> pte (mem t) pgdir k = pte (mem s) pgdir k" using tc(3) by (simp add: t_def)
  show tt: "tables (mem t) pgdir = tables (mem s) pgdir" using tc(4) by (simp add: t_def)
  then show "v \<notin> tables (mem t) pgdir" using v(3) by simp
  have "kavail (s\<lparr>freelist := load32 (mem s) v\<rparr>) vs"
    using ok(1) pop_page_chain(5) [of s v vs] by (simp add: kavail_def)
  moreover have "\<forall>w \<in> set vs. \<forall>a. in_page w a \<longrightarrow> m a = mem s a"
  proof (intro ballI allI impI)
    fix w a assume w: "w \<in> set vs" "in_page w a"
    then have "w \<noteq> v" "w \<in> set (v # vs)" using v(2) by auto
    then show "m a = mem s a" using assms(2) page_ok_disjoint [OF ok(5) v(1) _ w(2)] by simp
  qed
  ultimately have "kavail t vs" unfolding t_def
    using kavail_frame [of "s\<lparr>freelist := load32 (mem s) v\<rparr>" vs m] by simp
  then have "vm_ok t pgdir vs" using tt tc(5) ok(3) by (auto simp: vm_ok_def t_def)
  moreover have "dir_grows (mem s) pgdir (v # vs) (mem t)" using tc(1) by (intro dir_grows_same) (simp add: t_def)
  ultimately show "vmstep pgdir s (v # vs) t vs"
    unfolding vmstep_def using tt assms(2) by (intro conjI exI [of _ "[v]"]) (auto simp: t_def)
qed

text \<open>A page that is neither a table nor free keeps its contents and stays neither.\<close>

definition apart :: "'m kmem_scheme \<Rightarrow> u32 \<Rightarrow> u32 list \<Rightarrow> u32 \<Rightarrow> bool" where
  "apart s pgdir vs v \<longleftrightarrow> page_ok (kend s) v \<and> v \<notin> tables (mem s) pgdir \<and> v \<notin> set vs"

lemma vmstep_apart:
  assumes "vmstep pgdir s vs t vs'" and "vm_ok s pgdir vs" and "apart s pgdir vs v"
  shows "apart t pgdir vs' v" and "in_page v a \<Longrightarrow> mem t a = mem s a"
proof -
  obtain pre where p: "vs = pre @ vs'" "tables (mem t) pgdir \<subseteq> tables (mem s) pgdir \<union> set pre"
      "\<forall>a. (\<forall>p \<in> tables (mem s) pgdir \<union> set pre. \<not> in_page p a) \<longrightarrow> mem t a = mem s a"
      "t = s\<lparr>mem := mem t, freelist := freelist t\<rparr>"
    using assms(1) unfolding vmstep_def by blast
  have k: "kend t = kend s" by (subst p(4)) simp
  show "apart t pgdir vs' v" using assms(3) p(1,2) unfolding apart_def k by auto
  show "mem t a = mem s a" if "in_page v a"
  proof (intro p(3) [rule_format])
    fix q assume q: "q \<in> tables (mem s) pgdir \<union> set pre"
    then have "page_ok (kend s) q" "v \<noteq> q"
      using vm_okD(4,5) [OF assms(2)] assms(3) p(1) by (auto simp: apart_def)
    moreover have "page_ok (kend s) v" using assms(3) by (simp add: apart_def)
    ultimately show "\<not> in_page q a" using page_ok_disjoint that by blast
  qed
qed

lemma map_page:
  fixes s :: "'m kmem_scheme"
  assumes "vm_ok s pgdir vs" and "b < 1024 * 1024" and "\<not> present (pte (mem s) pgdir b)" and "vs \<noteq> []"
  shows "\<exists>t vs'. mappages pgdir (pages b) (of_nat PGSIZE) pa perm s = Ok 0 t \<and> vmstep pgdir s vs t vs' \<and>
    length vs \<le> Suc (length vs') \<and>
    (\<forall>k < 1024 * 1024. pte (mem t) pgdir k = (if k = b then pa OR perm OR PTE_P else pte (mem s) pgdir k))"
proof -
  have u: "unat (pages b) = b * 4096" using unat_pages [OF assms(2)] by (simp add: PGSIZE_def)
  have le: "unat (pages b) + unat (of_nat PGSIZE :: u32) \<le> 2 ^ 32" using assms(2) u by (simp add: PGSIZE_def)
  have "unat (pages b + of_nat PGSIZE - 1) = b * 4096 + 4095"
    using range_last [OF _ le] u by (simp add: PGSIZE_def)
  then have l: "vpn (pages b + of_nat PGSIZE - 1) = b" "vpn (pages b) = b"
    using vpn_pages [OF assms(2)] by (simp_all add: vpn_def PGSIZE_def)
  have "\<forall>k. vpn (pages b) \<le> k \<longrightarrow> k \<le> vpn (pages b + of_nat PGSIZE - 1) \<longrightarrow> \<not> present (pte (mem s) pgdir k)"
    using assms(3) unfolding l by auto
  from mappages_run [OF assms(1) _ le this, of pa perm, unfolded l]
  obtain r t vs' j where t: "mappages pgdir (pages b) (of_nat PGSIZE) pa perm s = Ok r t" "vmstep pgdir s vs t vs'"
      "length vs \<le> j + length vs'" "r = 0 \<and> j = Suc 0 \<or> r = -1 \<and> j < Suc 0 \<and> vs' = []"
      "\<forall>k < 1024 * 1024. pte (mem t) pgdir k =
         (if b \<le> k \<and> k < b + j then (pa + pages (k - b)) OR perm OR PTE_P else pte (mem s) pgdir k)"
    by (auto simp: PGSIZE_def)
  have j: "j = Suc 0" "r = 0" using t(3,4) assms(4) by auto
  have "pte (mem t) pgdir k = (if k = b then pa OR perm OR PTE_P else pte (mem s) pgdir k)" if "k < 1024 * 1024" for k
    using t(5) that j(1) by (auto simp: le_less_Suc_eq)
  with t(1-3) j show ?thesis by auto
qed

text \<open>
  The pages \<open>b\<close>, \<open>\<dots>\<close>, \<open>b + n - 1\<close> of an address space have been mapped to the frames \<open>f\<close> from the free list, with
  the flags \<open>perm\<close> and the contents \<open>c\<close>; nothing else has changed.
\<close>

definition grown_by :: "u32 \<Rightarrow> nat \<Rightarrow> nat \<Rightarrow> (nat \<Rightarrow> u32) \<Rightarrow> (nat \<Rightarrow> nat \<Rightarrow> u8) \<Rightarrow> (nat \<Rightarrow> u32) \<Rightarrow>
    'm kmem_scheme \<Rightarrow> u32 list \<Rightarrow> 'm kmem_scheme \<Rightarrow> u32 list \<Rightarrow> bool" where
  "grown_by pgdir b n perm c f s vs t vs' \<longleftrightarrow> vmstep pgdir s vs t vs' \<and> length vs \<le> 2 * n + length vs' \<and>
     (\<forall>k < 1024 * 1024. pte (mem t) pgdir k =
        (if b \<le> k \<and> k < b + n then V2P (f k) OR perm k OR PTE_P else pte (mem s) pgdir k)) \<and>
     inj_on f {b..<b + n} \<and>
     (\<forall>k \<in> {b..<b + n}. f k \<in> set vs \<and> apart t pgdir vs' (f k) \<and>
        (\<forall>i < PGSIZE. mem t (unat (f k) + i) = c k i))"

lemma grown_by_0: "vm_ok s pgdir vs \<Longrightarrow> grown_by pgdir b 0 perm c f s vs s vs"
  by (auto simp: grown_by_def vmstep_refl)

lemma vmstep_suffix: "vmstep pgdir s vs t vs' \<Longrightarrow> set vs' \<subseteq> set vs"
  by (auto simp: vmstep_def)

lemma vmstep_kend: "vmstep pgdir s vs t vs' \<Longrightarrow> kend t = kend s"
  unfolding vmstep_def by (metis kmem.select_convs(2) kmem.surjective kmem.update_convs(1,4))

lemma grown_by_Suc:
  assumes "grown_by pgdir b 1 perm c (\<lambda>_. v) s vs u vs1" and "grown_by pgdir (Suc b) n perm c f u vs1 t vs'"
    and "b + Suc n \<le> 1024 * 1024"
  shows "grown_by pgdir b (Suc n) perm c (f(b := v)) s vs t vs'"
proof -
  have s1: "vmstep pgdir s vs u vs1" "length vs \<le> 2 + length vs1" "v \<in> set vs" "apart u pgdir vs1 v"
      "\<forall>k < 1024 * 1024. pte (mem u) pgdir k =
         (if b \<le> k \<and> k < b + 1 then V2P v OR perm k OR PTE_P else pte (mem s) pgdir k)"
      "\<forall>i < PGSIZE. mem u (unat v + i) = c b i"
    using assms(1) by (simp_all add: grown_by_def)
  have s2: "vmstep pgdir u vs1 t vs'" "length vs1 \<le> 2 * n + length vs'" "inj_on f {Suc b..<Suc b + n}"
      "\<forall>k < 1024 * 1024. pte (mem t) pgdir k =
         (if Suc b \<le> k \<and> k < Suc b + n then V2P (f k) OR perm k OR PTE_P else pte (mem u) pgdir k)"
      "\<forall>k \<in> {Suc b..<Suc b + n}. f k \<in> set vs1 \<and> apart t pgdir vs' (f k) \<and>
         (\<forall>i < PGSIZE. mem t (unat (f k) + i) = c k i)"
    using assms(2) by (simp_all add: grown_by_def)
  note ap = vmstep_apart [OF s2(1) vmstep_ok [OF s1(1)] s1(4)]
  have split: "{b..<b + Suc n} = insert b {Suc b..<Suc b + n}" by auto
  have "v \<notin> set vs1" using s1(4) by (simp add: apart_def)
  then have nv: "v \<notin> f ` {Suc b..<Suc b + n}" using s2(5) by auto
  show ?thesis
    unfolding grown_by_def split
  proof (intro conjI allI impI)
    show "vmstep pgdir s vs t vs'" by (rule vmstep_trans [OF s1(1) s2(1)])
    show "length vs \<le> 2 * Suc n + length vs'" using s1(2) s2(2) by simp
    show "inj_on (f(b := v)) (insert b {Suc b..<Suc b + n})"
      using s2(3) nv by (subst inj_on_insert) (auto simp: inj_on_def)
    show "pte (mem t) pgdir k = (if b \<le> k \<and> k < b + Suc n then V2P ((f(b := v)) k) OR perm k OR PTE_P
        else pte (mem s) pgdir k)" if "k < 1024 * 1024" for k
      using that s1(5) s2(4) by auto
    show "\<forall>k \<in> insert b {Suc b..<Suc b + n}. (f(b := v)) k \<in> set vs \<and> apart t pgdir vs' ((f(b := v)) k) \<and>
        (\<forall>i < PGSIZE. mem t (unat ((f(b := v)) k) + i) = c k i)"
    proof (rule ballI)
      fix k assume k: "k \<in> insert b {Suc b..<Suc b + n}"
      show "(f(b := v)) k \<in> set vs \<and> apart t pgdir vs' ((f(b := v)) k) \<and>
        (\<forall>i < PGSIZE. mem t (unat ((f(b := v)) k) + i) = c k i)"
      proof (cases "k = b")
        case True
        then show ?thesis using s1(3,6) ap by (simp add: in_page_def)
      next
        case False
        with k have "k \<in> {Suc b..<Suc b + n}" by simp
        with False s2(5) vmstep_suffix [OF s1(1)] show ?thesis by auto
      qed
    qed
  qed
qed

text \<open>Allocating a page, filling it and mapping it.\<close>

lemma grow_page:
  fixes s :: "'m kmem_scheme"
  assumes "vm_ok s pgdir (v # vs)" and "vs \<noteq> []" and "b < 1024 * 1024" and "\<not> present (pte (mem s) pgdir b)"
    and "\<forall>a. \<not> in_page v a \<longrightarrow> m a = mem s a" and "\<forall>i < PGSIZE. m (unat v + i) = c b i"
  shows "\<exists>t vs'. mappages pgdir (pages b) (of_nat PGSIZE) (V2P v) (perm b)
       (s\<lparr>freelist := load32 (mem s) v, mem := m\<rparr>) = Ok 0 t \<and>
     grown_by pgdir b 1 perm c (\<lambda>_. v) s (v # vs) t vs'"
proof -
  define u where "u = s\<lparr>freelist := load32 (mem s) v, mem := m\<rparr>"
  note fp = fresh_page [OF assms(1,5), folded u_def]
  obtain t vs' where t: "mappages pgdir (pages b) (of_nat PGSIZE) (V2P v) (perm b) u = Ok 0 t" "vmstep pgdir u vs t vs'"
      "length vs \<le> Suc (length vs')"
      "\<forall>k < 1024 * 1024. pte (mem t) pgdir k = (if k = b then V2P v OR perm b OR PTE_P else pte (mem u) pgdir k)"
    using map_page [OF vmstep_ok [OF fp(2)] assms(3) _ assms(2), of "V2P v" "perm b"] fp(3) assms(3,4) by auto
  have "apart u pgdir vs v" using fp(5-7) by (simp add: apart_def u_def)
  note ap = vmstep_apart [OF t(2) vmstep_ok [OF fp(2)] this]
  have "grown_by pgdir b 1 perm c (\<lambda>_. v) s (v # vs) t vs'"
    unfolding grown_by_def
  proof (intro conjI)
    show "vmstep pgdir s (v # vs) t vs'" by (rule vmstep_trans [OF fp(2) t(2)])
    show "\<forall>k < 1024 * 1024. pte (mem t) pgdir k =
        (if b \<le> k \<and> k < b + 1 then V2P v OR perm k OR PTE_P else pte (mem s) pgdir k)"
      using t(4) fp(3) by (auto simp: le_less_Suc_eq)
    have "mem t (unat v + i) = c b i" if "i < PGSIZE" for i
      using ap(2) [of "unat v + i"] assms(6) that by (simp add: in_page_def u_def)
    then show "\<forall>k \<in> {b..<b + 1}. v \<in> set (v # vs) \<and> apart t pgdir vs' v \<and> (\<forall>i < PGSIZE. mem t (unat v + i) = c k i)"
      using ap(1) by simp
  qed (use t(3) in simp_all)
  with t(1) show ?thesis unfolding u_def by blast
qed

lemma page_byte:
  assumes "page_ok e p"
  shows "unat (p + (x AND 0xFFF)) = unat p + unat x mod PGSIZE"
proof -
  have "unat (x AND 0xFFF) = unat x mod PGSIZE" by (simp add: page_offset_and unat_page_offset)
  moreover have "unat x mod PGSIZE < PGSIZE" by (simp add: PGSIZE_def)
  ultimately show ?thesis using page_ok_range(2) [OF assms] by (simp add: unat_word_ariths PGSIZE_def)
qed

lemma entry_frame:
  assumes "page_ok e p" and "f AND NOT 0xFFF = 0"
  shows "frame (V2P p OR f OR PTE_P) = p" and "present (V2P p OR f OR PTE_P)"
  using mapped_frame [OF page_ok_phys [OF assms(1)] assms(2), of 0] by simp_all

lemma grown_by_translate:
  assumes "grown_by pgdir b n perm c f s vs t vs'" and "b \<le> vpn x" and "vpn x < b + n"
    and "perm (vpn x) AND NOT 0xFFF = 0"
  shows "translate (mem t) pgdir x = Some (f (vpn x) + (x AND 0xFFF))"
    and "page_ok (kend t) (f (vpn x))" and "f (vpn x) \<in> set vs"
    and "mem t (unat (f (vpn x) + (x AND 0xFFF))) = c (vpn x) (unat x mod PGSIZE)"
proof -
  have k: "vpn x \<in> {b..<b + n}" using assms(2,3) by simp
  then have f: "f (vpn x) \<in> set vs" "apart t pgdir vs' (f (vpn x))"
      "\<forall>i < PGSIZE. mem t (unat (f (vpn x)) + i) = c (vpn x) i"
    using assms(1) unfolding grown_by_def by blast+
  show p: "page_ok (kend t) (f (vpn x))" using f(2) by (simp add: apart_def)
  show "f (vpn x) \<in> set vs" by (rule f(1))
  have "pte (mem t) pgdir (vpn x) = V2P (f (vpn x)) OR perm (vpn x) OR PTE_P"
    using assms(1-3) vpn_less [of x] by (simp add: grown_by_def)
  then show "translate (mem t) pgdir x = Some (f (vpn x) + (x AND 0xFFF))"
    using entry_frame [OF p assms(4)] by (simp add: translate_pte)
  show "mem t (unat (f (vpn x) + (x AND 0xFFF))) = c (vpn x) (unat x mod PGSIZE)"
    using f(3) by (simp add: page_byte [OF p] PGSIZE_def)
qed

lemma grown_by_other:
  assumes "grown_by pgdir b n perm c f s vs t vs'" and "\<not> (b \<le> vpn x \<and> vpn x < b + n)"
  shows "translate (mem t) pgdir x = translate (mem s) pgdir x"
proof -
  have "pte (mem t) pgdir (vpn x) = pte (mem s) pgdir (vpn x)"
    using assms vpn_less [of x] unfolding grown_by_def by auto
  then show ?thesis by (simp add: translate_pte)
qed

section \<open>Growing a process\<close>

text \<open>The number of pages that hold the addresses below \<open>sz\<close>.\<close>

definition pgup :: "u32 \<Rightarrow> nat" where
  "pgup sz = (unat sz + PGSIZE - 1) div PGSIZE"

lemma PGROUNDUP_pages:
  assumes "sz \<le> KERNBASE"
  shows "PGROUNDUP sz = pages (pgup sz)" and "pgup sz \<le> 512 * 1024"
proof -
  have u: "unat sz \<le> 0x80000000" using assms by (simp add: KERNBASE_def word_le_nat_alt)
  have "PGROUNDUP sz = PGROUNDDOWN (sz + 4095)" by (simp add: PGROUNDUP_def PGROUNDDOWN_def PGSIZE_def add.commute)
  moreover have "unat (sz + 4095) = unat sz + 4095" using u by (simp add: unat_word_ariths)
  ultimately show "PGROUNDUP sz = pages (pgup sz)" by (simp add: PGROUNDDOWN_vpn vpn_def pgup_def PGSIZE_def add.commute)
  show "pgup sz \<le> 512 * 1024" using u by (simp add: pgup_def PGSIZE_def)
qed

lemma pages_between_up:
  assumes "a \<le> KERNBASE"
  shows "pages_between (pages (pgup a)) b = pgup b - pgup a"
proof -
  have "unat (pages (pgup a)) = pgup a * 4096"
    using PGROUNDUP_pages(2) [OF assms] by (simp add: unat_pages PGSIZE_def)
  then show ?thesis
    by (simp add: pages_between_def pgup_def PGSIZE_def)
qed

lemma vpn_below:
  assumes "x < sz"
  shows "vpn x < pgup sz"
proof -
  have "unat x < unat sz" using assms by (simp add: word_less_nat_alt)
  then show ?thesis by (simp add: vpn_def pgup_def PGSIZE_def)
qed

lemma pages_next: "pages b + of_nat PGSIZE = pages (Suc b)"
  by (simp add: pages_Suc)

lemma memset_page:
  "\<forall>a. \<not> in_page v a \<longrightarrow> memset m (unat v) 0 PGSIZE a = m a"
  "\<forall>i < PGSIZE. memset m (unat v) 0 PGSIZE (unat v + i) = 0"
  by (auto simp: memset_at in_page_def)

lemma allocuvm_loop_run:
  fixes s :: "'m kcons_scheme"
  assumes "vm_ok s pgdir vs" and "b + n \<le> 1024 * 1024" and "2 * n \<le> length vs"
    and "\<forall>k. b \<le> k \<longrightarrow> k < b + n \<longrightarrow> \<not> present (pte (mem s) pgdir k)"
  shows "\<exists>t vs' f. allocuvm_loop n pgdir oldsz newsz (pages b) s = Ok newsz t \<and>
    grown_by pgdir b n (\<lambda>_. PTE_W OR PTE_U) (\<lambda>_ _. 0) f s vs t vs'"
  using assms
proof (induction n arbitrary: s vs b)
  case 0
  then show ?case using grown_by_0 by fastforce
next
  case (Suc n)
  obtain v vs0 where vs: "vs = v # vs0" "vs0 \<noteq> []" using Suc.prems(3) by (cases vs; cases "tl vs") auto
  let ?m = "memset (mem s) (unat v) 0 PGSIZE"
  have ok: "vm_ok s pgdir (v # vs0)" using Suc.prems(1) vs(1) by simp
  note fp = fresh_page [OF ok memset_page(1)]
  obtain u vs1 where u: "mappages pgdir (pages b) (of_nat PGSIZE) (V2P v) (PTE_W OR PTE_U)
        (s\<lparr>freelist := load32 (mem s) v, mem := ?m\<rparr>) = Ok 0 u"
      "grown_by pgdir b 1 (\<lambda>_. PTE_W OR PTE_U) (\<lambda>_ _. 0) (\<lambda>_. v) s vs u vs1"
    using grow_page [OF ok vs(2) _ _ memset_page(1), where b = b and perm = "\<lambda>_. PTE_W OR PTE_U" and c = "\<lambda>_ _. 0"]
      memset_page(2) Suc.prems(2,4) vs(1) by auto
  have "vm_ok u pgdir vs1" "length vs \<le> 2 + length vs1" using u(2) by (auto simp: grown_by_def vmstep_def)
  moreover have "\<forall>k. Suc b \<le> k \<longrightarrow> k < Suc b + n \<longrightarrow> \<not> present (pte (mem u) pgdir k)"
    using u(2) Suc.prems(2,4) by (auto simp: grown_by_def)
  ultimately obtain t vs' f where t: "allocuvm_loop n pgdir oldsz newsz (pages (Suc b)) u = Ok newsz t"
      "grown_by pgdir (Suc b) n (\<lambda>_. PTE_W OR PTE_U) (\<lambda>_ _. 0) f u vs1 t vs'"
    using Suc.IH [of u vs1 "Suc b"] Suc.prems(2,3) by auto
  have "allocuvm_loop (Suc n) pgdir oldsz newsz (pages b) s = Ok newsz t"
    using fp(1,8) u(1) t(1) by (simp add: zero_page_def pages_next)
  with grown_by_Suc [OF u(2) t(2) Suc.prems(2)] show ?case by blast
qed

text \<open>
  C18. \<open>allocuvm\<close> (vm.c) with enough free pages returns the new size, and the address space then maps every
  page between the old and the new size to a page of its own that was free and is filled with zeros. The translation
  of every other address is as before, and so is all memory except the page tables and the pages that were free.
\<close>

theorem allocuvm_maps_zeroed:
  fixes s :: "'m kcons_scheme"
  assumes "vm_ok s pgdir vs" and "oldsz \<le> newsz" and "newsz < KERNBASE" and "2 * (pgup newsz - pgup oldsz) \<le> length vs"
    and "\<forall>k. pgup oldsz \<le> k \<longrightarrow> k < pgup newsz \<longrightarrow> \<not> present (pte (mem s) pgdir k)"
  shows "\<exists>t vs' f. allocuvm pgdir oldsz newsz s = Ok newsz t \<and> vm_ok t pgdir vs' \<and>
    inj_on f {pgup oldsz..<pgup newsz} \<and>
    (\<forall>x. if pgup oldsz \<le> vpn x \<and> vpn x < pgup newsz
         then translate (mem t) pgdir x = Some (f (vpn x) + (x AND 0xFFF)) \<and> f (vpn x) \<in> set vs \<and>
              mem t (unat (f (vpn x) + (x AND 0xFFF))) = 0
         else translate (mem t) pgdir x = translate (mem s) pgdir x) \<and>
    (\<forall>a. (\<forall>p \<in> tables (mem s) pgdir \<union> set vs. \<not> in_page p a) \<longrightarrow> mem t a = mem s a)"
proof -
  have le: "oldsz \<le> KERNBASE" "newsz \<le> KERNBASE" using assms(2,3) by simp_all
  have "unat oldsz \<le> unat newsz" using assms(2) by (simp add: word_le_nat_alt)
  then have up: "pgup oldsz \<le> pgup newsz" by (simp add: pgup_def div_le_mono)
  define n where "n = pgup newsz - pgup oldsz"
  have bn: "pgup oldsz + n = pgup newsz" "pgup oldsz + n \<le> 1024 * 1024"
    using up PGROUNDUP_pages(2) [OF le(2)] by (simp_all add: n_def)
  obtain t vs' f where t: "allocuvm_loop n pgdir oldsz newsz (pages (pgup oldsz)) s = Ok newsz t"
      "grown_by pgdir (pgup oldsz) n (\<lambda>_. PTE_W OR PTE_U) (\<lambda>_ _. 0) f s vs t vs'"
    using allocuvm_loop_run [OF assms(1) bn(2), of oldsz newsz] assms(4,5) bn(1) by (auto simp: n_def [symmetric])
  have "allocuvm pgdir oldsz newsz s = Ok newsz t"
    using leD [OF assms(2)] leD [of KERNBASE newsz] assms(3) t(1)
    by (auto simp: allocuvm_def Let_def PGROUNDUP_pages(1) [OF le(1)] pages_between_up [OF le(1)] n_def)
  moreover have "(if pgup oldsz \<le> vpn x \<and> vpn x < pgup newsz
      then translate (mem t) pgdir x = Some (f (vpn x) + (x AND 0xFFF)) \<and> f (vpn x) \<in> set vs \<and>
           mem t (unat (f (vpn x) + (x AND 0xFFF))) = 0
      else translate (mem t) pgdir x = translate (mem s) pgdir x)" for x
  proof (cases "pgup oldsz \<le> vpn x \<and> vpn x < pgup newsz")
    case True
    have "(PTE_W OR PTE_U) AND NOT 0xFFF = 0" by (simp add: PTE_W_def PTE_U_def)
    with grown_by_translate [OF t(2), of x] True show ?thesis by (simp add: bn(1))
  next
    case False
    then show ?thesis using grown_by_other [OF t(2), of x] by (auto simp: bn(1))
  qed
  moreover have "vmstep pgdir s vs t vs'" "inj_on f {pgup oldsz..<pgup newsz}"
    using t(2) by (simp_all add: grown_by_def bn(1))
  ultimately show ?thesis using vmstep_ok vmstep_mem by (intro exI [of _ t] exI [of _ vs'] exI [of _ f] conjI allI) blast+
qed

end
