(* ===== verification/Vspace.thy ===== *)
theory Vspace
  imports Vmem
begin

text \<open>
  Whole address spaces (\<open>vm.c\<close>): what \<open>fork\<close> relies on in \<open>copyuvm\<close> (the child sees the parent's bytes in pages
  of its own), what \<open>exec\<close> relies on in \<open>copyout\<close> (writing page by page through the kernel's map is writing byte by byte
  through the page table), and that the loop of \<open>deallocuvm\<close> ends and frees the pages between the two sizes.
\<close>

unbundle bit_operations_syntax

section \<open>Copying an address space\<close>

text \<open>
  The pages \<open>b\<close>, \<open>\<dots>\<close>, \<open>b + n - 1\<close> of the parent are mapped; its tables and these pages are neither tables of
  the child nor free.
\<close>

definition source_ok :: "'m kmem_scheme \<Rightarrow> u32 \<Rightarrow> u32 \<Rightarrow> u32 list \<Rightarrow> nat \<Rightarrow> nat \<Rightarrow> bool" where
  "source_ok s pgdir d vs b n \<longleftrightarrow> pt_ok (kend s) (mem s) pgdir \<and> (\<forall>p \<in> tables (mem s) pgdir. apart s d vs p) \<and>
     (\<forall>k. b \<le> k \<longrightarrow> k < b + n \<longrightarrow>
        present (pte (mem s) pgdir k) \<and> apart s d vs (frame (pte (mem s) pgdir k)))"

lemma source_kept:
  assumes "vmstep d s vs t vs'" and "vm_ok s d vs" and "source_ok s pgdir d vs b n" and "b + n \<le> 1024 * 1024"
  shows "k < 1024 * 1024 \<Longrightarrow> pte (mem t) pgdir k = pte (mem s) pgdir k" and "source_ok t pgdir d vs' b n"
    and "tables (mem t) pgdir = tables (mem s) pgdir"
    and "b \<le> k \<Longrightarrow> k < b + n \<Longrightarrow> in_page (frame (pte (mem s) pgdir k)) a \<Longrightarrow> mem t a = mem s a"
proof -
  note ap = vmstep_apart [OF assms(1,2)]
  have so: "pt_ok (kend s) (mem s) pgdir" "\<forall>p \<in> tables (mem s) pgdir. apart s d vs p"
      "\<forall>k. b \<le> k \<longrightarrow> k < b + n \<longrightarrow> present (pte (mem s) pgdir k) \<and> apart s d vs (frame (pte (mem s) pgdir k))"
    using assms(3) by (simp_all add: source_ok_def)
  then have "\<forall>p \<in> tables (mem s) pgdir. \<forall>a. in_page p a \<longrightarrow> mem t a = mem s a" using ap(2) by blast
  note tc = tables_cong [OF so(1) this]
  show p: "pte (mem t) pgdir k = pte (mem s) pgdir k" if "k < 1024 * 1024" for k using tc(3) that .
  show "tables (mem t) pgdir = tables (mem s) pgdir" by (rule tc(4))
  show "source_ok t pgdir d vs' b n"
    unfolding source_ok_def vmstep_kend [OF assms(1)] tc(4)
    using so ap(1) tc(5) p assms(4) by auto
  show "mem t a = mem s a" if "b \<le> k" "k < b + n" "in_page (frame (pte (mem s) pgdir k)) a" for k
    using so(3) ap(2) that by blast
qed

lemma memmove_page:
  "\<forall>a. \<not> in_page v a \<longrightarrow> memmove m (unat v) (unat p) PGSIZE a = m a"
  "\<forall>i < PGSIZE. memmove m (unat v) (unat p) PGSIZE (unat v + i) = m (unat p + i)"
  by (auto simp: memmove_at in_page_def)

lemma grown_by_cong:
  assumes "grown_by pgdir b n perm c f s vs t vs'" and "\<And>k. b \<le> k \<Longrightarrow> k < b + n \<Longrightarrow> perm k = perm' k"
    and "\<And>k i. b \<le> k \<Longrightarrow> k < b + n \<Longrightarrow> i < PGSIZE \<Longrightarrow> c k i = c' k i"
  shows "grown_by pgdir b n perm' c' f s vs t vs'"
  using assms unfolding grown_by_def by auto

lemma copyuvm_loop_run:
  fixes s :: "'m kmem_scheme"
  assumes "vm_ok s d vs" and "b + n \<le> 1024 * 1024" and "2 * n \<le> length vs" and "source_ok s pgdir d vs b n"
    and "\<forall>k. b \<le> k \<longrightarrow> k < b + n \<longrightarrow> \<not> present (pte (mem s) d k)"
  shows "\<exists>t vs' f. copyuvm_loop n pgdir d (pages b) s = Ok d t \<and>
    grown_by d b n (\<lambda>k. PTE_FLAGS (pte (mem s) pgdir k))
      (\<lambda>k i. mem s (unat (frame (pte (mem s) pgdir k)) + i)) f s vs t vs'"
  using assms
proof (induction n arbitrary: s vs b)
  case 0
  then show ?case using grown_by_0 by fastforce
next
  case (Suc n)
  obtain v vs0 where vs: "vs = v # vs0" "vs0 \<noteq> []" using Suc.prems(3) by (cases vs; cases "tl vs") auto
  let ?e = "pte (mem s) pgdir b"
  let ?m = "memmove (mem s) (unat v) (unat (frame ?e)) PGSIZE"
  let ?perm = "\<lambda>k. PTE_FLAGS (pte (mem s) pgdir k)" and ?c = "\<lambda>k i. mem s (unat (frame (pte (mem s) pgdir k)) + i)"
  have b: "b < 1024 * 1024" "vpn (pages b) = b" using Suc.prems(2) vpn_pages by simp_all
  have pr: "present ?e" "present (pde (mem s) pgdir (b div 1024))"
    using Suc.prems(4) by (auto simp: source_ok_def pte_def split: if_splits)
  have ok: "vm_ok s d (v # vs0)" using Suc.prems(1) vs(1) by simp
  note fp = fresh_page [OF ok memmove_page(1)]
  have np: "\<not> present (pte (mem s) d b)" using Suc.prems(5) by simp
  obtain u vs1 where u: "mappages d (pages b) (of_nat PGSIZE) (V2P v) (PTE_FLAGS ?e)
        (s\<lparr>freelist := load32 (mem s) v, mem := ?m\<rparr>) = Ok 0 u"
      "grown_by d b 1 ?perm ?c (\<lambda>_. v) s vs u vs1"
    using grow_page [where perm = ?perm and c = ?c and b = b, OF ok vs(2) b(1) np memmove_page(1) memmove_page(2)] vs(1)
    by blast
  have st: "vmstep d s vs u vs1" "length vs \<le> 2 + length vs1" using u(2) by (simp_all add: grown_by_def)
  note sk = source_kept [OF st(1) Suc.prems(1,4,2)]
  have un: "\<forall>k. Suc b \<le> k \<longrightarrow> k < Suc b + n \<longrightarrow> \<not> present (pte (mem u) d k)"
    using u(2) Suc.prems(2,5) by (auto simp: grown_by_def)
  have src: "source_ok u pgdir d vs1 (Suc b) n" using sk(2) by (simp add: source_ok_def)
  obtain t vs' f where t: "copyuvm_loop n pgdir d (pages (Suc b)) u = Ok d t"
      "grown_by d (Suc b) n (\<lambda>k. PTE_FLAGS (pte (mem u) pgdir k)) (\<lambda>k i. mem u (unat (frame (pte (mem u) pgdir k)) + i)) f u vs1 t vs'"
    using Suc.IH [OF vmstep_ok [OF st(1)] _ _ src un] Suc.prems(2,3) st(2) by auto
  have "grown_by d (Suc b) n ?perm ?c f u vs1 t vs'"
  proof (rule grown_by_cong [OF t(2)])
    fix k assume k: "Suc b \<le> k" "k < Suc b + n"
    then have e: "pte (mem u) pgdir k = pte (mem s) pgdir k" using sk(1) Suc.prems(2) by simp
    then show "PTE_FLAGS (pte (mem u) pgdir k) = ?perm k" by simp
    show "mem u (unat (frame (pte (mem u) pgdir k)) + i) = ?c k i" if "i < PGSIZE" for i
      using sk(4) [of k] k that by (simp add: e in_page_def)
  qed
  from grown_by_Suc [OF u(2) this Suc.prems(2)]
  have "grown_by d b (Suc n) ?perm ?c (f(b := v)) s vs t vs'" .
  moreover have "load32 (mem s) (slot (tab (mem s) pgdir (b div 1024)) (b mod 1024)) = ?e"
    using pr(2) by (simp add: pte_def)
  moreover have "slot (tab (mem s) pgdir (b div 1024)) (b mod 1024) \<noteq> 0"
    using Suc.prems(4) pr(2) b(1) by (intro slot_nonzero [OF pt_okD(2)]) (auto simp: source_ok_def less_mult_imp_div_less)
  ultimately have "copyuvm_loop (Suc n) pgdir d (pages b) s = Ok d t"
    using fp(1,8) u(1) t(1) pr b(2) by (simp add: walkpgdir_run get32_def present_def frame_def pages_next)
  with \<open>grown_by d b (Suc n) ?perm ?c (f(b := v)) s vs t vs'\<close> show ?case by blast
qed

lemma frame_translate:
  assumes "present (pte m pgdir (vpn x))" and "page_ok e (frame (pte m pgdir (vpn x)))"
  shows "\<exists>a. translate m pgdir x = Some a \<and> unat a = unat (frame (pte m pgdir (vpn x))) + unat x mod PGSIZE \<and>
    in_page (frame (pte m pgdir (vpn x))) (unat a)"
proof -
  have "unat x mod PGSIZE < PGSIZE" by (simp add: PGSIZE_def)
  with assms show ?thesis by (simp add: translate_pte page_byte in_page_def)
qed

text \<open>
  C17. The loop of \<open>copyuvm\<close> (vm.c), with enough free pages and an empty user part in the new directory \<open>d\<close>, returns
  \<open>d\<close>; then every address below \<open>sz\<close> is mapped in both address spaces, the child reads there the byte the parent
  had, the parent's mapping and bytes are as they were, and no two addresses of parent and child
  share a byte of physical memory.
\<close>

theorem copyuvm_copies:
  fixes s :: "'m kmem_scheme"
  assumes "vm_ok s d vs" and "sz \<le> KERNBASE" and "2 * pgup sz \<le> length vs" and "source_ok s pgdir d vs 0 (pgup sz)"
    and "\<forall>k < pgup sz. \<not> present (pte (mem s) d k)"
  shows "\<exists>t vs'. copyuvm_loop (pages_between 0 sz) pgdir d 0 s = Ok d t \<and> vm_ok t d vs' \<and>
    (\<forall>x < sz. \<exists>a c. translate (mem s) pgdir x = Some a \<and> translate (mem t) pgdir x = Some a \<and>
        mem t (unat a) = mem s (unat a) \<and> translate (mem t) d x = Some c \<and> mem t (unat c) = mem s (unat a)) \<and>
    (\<forall>x < sz. \<forall>y < sz. translate (mem t) d x \<noteq> translate (mem t) pgdir y)"
proof -
  let ?n = "pgup sz"
  have n: "0 + ?n \<le> 1024 * 1024" using PGROUNDUP_pages(2) [OF assms(2)] by simp
  have pb: "pages_between 0 sz = ?n" by (simp add: pages_between_def pgup_def)
  obtain t vs' f where t: "copyuvm_loop ?n pgdir d 0 s = Ok d t"
      "grown_by d 0 ?n (\<lambda>k. PTE_FLAGS (pte (mem s) pgdir k))
        (\<lambda>k i. mem s (unat (frame (pte (mem s) pgdir k)) + i)) f s vs t vs'"
    using copyuvm_loop_run [OF assms(1) n assms(3,4)] assms(5) by auto
  have st: "vmstep d s vs t vs'" using t(2) by (simp add: grown_by_def)
  note sk = source_kept [OF st assms(1,4) n]
  have fl: "PTE_FLAGS w AND NOT 0xFFF = 0" for w by (simp add: PTE_FLAGS_def and.assoc)
  have src: "present (pte (mem s) pgdir k)" "page_ok (kend s) (frame (pte (mem s) pgdir k))"
      "frame (pte (mem s) pgdir k) \<notin> set vs" if "k < ?n" for k
    using assms(4) that by (auto simp: source_ok_def apart_def)
  have par: "translate (mem t) pgdir x = translate (mem s) pgdir x" for x
    using sk(1) [OF vpn_less] by (simp add: translate_pte)
  have child: "translate (mem t) d x = Some (f (vpn x) + (x AND 0xFFF))" "page_ok (kend t) (f (vpn x))" "f (vpn x) \<in> set vs"
      "mem t (unat (f (vpn x) + (x AND 0xFFF))) = mem s (unat (frame (pte (mem s) pgdir (vpn x))) + unat x mod PGSIZE)"
    if "x < sz" for x
    using grown_by_translate [OF t(2), of x] vpn_below [OF that] fl by simp_all
  show ?thesis
  proof (rule exI [of _ t], rule exI [of _ vs'], intro conjI allI impI)
    show "copyuvm_loop (pages_between 0 sz) pgdir d 0 s = Ok d t" using t(1) pb by simp
    show "vm_ok t d vs'" by (rule vmstep_ok [OF st])
  next
    fix x assume x: "x < sz"
    note vx = vpn_below [OF x]
    obtain a where a: "translate (mem s) pgdir x = Some a"
        "unat a = unat (frame (pte (mem s) pgdir (vpn x))) + unat x mod PGSIZE"
        "in_page (frame (pte (mem s) pgdir (vpn x))) (unat a)"
      using frame_translate [OF src(1,2) [OF vx]] by blast
    have "mem t (unat a) = mem s (unat a)" using sk(4) [of "vpn x"] vx a(3) by simp
    with a child [OF x] show "\<exists>a c. translate (mem s) pgdir x = Some a \<and> translate (mem t) pgdir x = Some a \<and>
        mem t (unat a) = mem s (unat a) \<and> translate (mem t) d x = Some c \<and> mem t (unat c) = mem s (unat a)"
      by (simp add: par)
  next
    fix x y assume x: "x < sz" and y: "y < sz"
    note vy = vpn_below [OF y]
    obtain a where a: "translate (mem s) pgdir y = Some a" "in_page (frame (pte (mem s) pgdir (vpn y))) (unat a)"
      using frame_translate [OF src(1,2) [OF vy]] by blast
    have "in_page (f (vpn x)) (unat (f (vpn x) + (x AND 0xFFF)))"
      using page_byte [OF child(2) [OF x]] by (simp add: in_page_def PGSIZE_def)
    then have "\<not> in_page (frame (pte (mem s) pgdir (vpn y))) (unat (f (vpn x) + (x AND 0xFFF)))"
      using page_ok_disjoint [OF child(2) [OF x] src(2) [OF vy]] child(3) [OF x] src(3) [OF vy] by metis
    with a show "translate (mem t) d x \<noteq> translate (mem t) pgdir y" unfolding par child(1) [OF x] by auto
  qed
qed

section \<open>Copying into user memory\<close>

text \<open>The physical address of a byte of the address space.\<close>

definition phys :: "memory \<Rightarrow> u32 \<Rightarrow> u32 \<Rightarrow> nat" where
  "phys m pgdir x = unat (frame (pte m pgdir (vpn x))) + unat x mod PGSIZE"

text \<open>
  The range of \<open>n\<close> bytes at \<open>va\<close> is user memory: mapped with \<open>PTE_U\<close> to pages that are no tables, different pages
  to different frames.
\<close>

definition uframe_ok :: "u32 \<Rightarrow> memory \<Rightarrow> u32 \<Rightarrow> nat \<Rightarrow> bool" where
  "uframe_ok e m pgdir k \<longleftrightarrow> present (pte m pgdir k) \<and> pte m pgdir k AND PTE_U \<noteq> 0 \<and>
     page_ok e (frame (pte m pgdir k)) \<and> frame (pte m pgdir k) \<notin> tables m pgdir"

definition target_ok :: "u32 \<Rightarrow> memory \<Rightarrow> u32 \<Rightarrow> nat \<Rightarrow> nat \<Rightarrow> bool" where
  "target_ok e m pgdir va n \<longleftrightarrow> pt_ok e m pgdir \<and> va + n \<le> 0x80000000 \<and>
     (\<forall>x. va \<le> x \<longrightarrow> x < va + n \<longrightarrow> uframe_ok e m pgdir (x div PGSIZE)) \<and>
     (\<forall>x y. va \<le> x \<longrightarrow> x < va + n \<longrightarrow> va \<le> y \<longrightarrow> y < va + n \<longrightarrow>
        frame (pte m pgdir (x div PGSIZE)) = frame (pte m pgdir (y div PGSIZE)) \<longrightarrow> x div PGSIZE = y div PGSIZE)"

lemma target_sub:
  assumes "target_ok e m pgdir va n" and "va \<le> va'" and "va' + n' \<le> va + n"
  shows "target_ok e m pgdir va' n'"
  unfolding target_ok_def
proof (intro conjI allI impI)
  show "pt_ok e m pgdir" "va' + n' \<le> 0x80000000" using assms by (simp_all add: target_ok_def)
  show "uframe_ok e m pgdir (x div PGSIZE)" if "va' \<le> x" "x < va' + n'" for x
    using assms that by (simp add: target_ok_def)
  show "x div PGSIZE = y div PGSIZE" if "va' \<le> x" "x < va' + n'" "va' \<le> y" "y < va' + n'"
    "frame (pte m pgdir (x div PGSIZE)) = frame (pte m pgdir (y div PGSIZE))" for x y
    using assms that by (simp add: target_ok_def)
qed

lemma target_addr:
  fixes va :: u32
  assumes "target_ok e m pgdir (unat va) n" and "i \<le> n"
  shows "unat (va + of_nat i) = unat va + i"
proof -
  have "unat va + i \<le> 0x80000000" using assms by (simp add: target_ok_def)
  then show ?thesis by (simp add: unat_word_ariths unat_of_nat)
qed

lemma target_frame:
  assumes "target_ok e m pgdir (unat va) n" and "i < n"
  shows "uframe_ok e m pgdir (vpn (va + of_nat i))"
    and "in_page (frame (pte m pgdir (vpn (va + of_nat i)))) (phys m pgdir (va + of_nat i))"
proof -
  show "uframe_ok e m pgdir (vpn (va + of_nat i))"
    using assms target_addr [OF assms(1), of i] by (simp add: target_ok_def vpn_def)
  show "in_page (frame (pte m pgdir (vpn (va + of_nat i)))) (phys m pgdir (va + of_nat i))"
    by (simp add: phys_def in_page_def PGSIZE_def)
qed

lemma phys_inj:
  assumes "target_ok e m pgdir (unat va) n" and "i < n" and "j < n"
    and "phys m pgdir (va + of_nat i) = phys m pgdir (va + of_nat j)"
  shows "i = j"
proof -
  let ?x = "va + of_nat i" and ?y = "va + of_nat j"
  note fi = target_frame [OF assms(1,2)] and fj = target_frame [OF assms(1,3)]
  have u: "unat ?x = unat va + i" "unat ?y = unat va + j"
    using target_addr [OF assms(1)] assms(2,3) by (simp_all del: unat_of_nat)
  have fr: "frame (pte m pgdir (vpn ?x)) = frame (pte m pgdir (vpn ?y))"
    using fi fj assms(4) page_ok_disjoint unfolding uframe_ok_def by metis
  then have "vpn ?x = vpn ?y" using assms(1-3) unfolding target_ok_def vpn_def u by simp
  moreover have "unat ?x mod PGSIZE = unat ?y mod PGSIZE" using assms(4) fr by (simp add: phys_def)
  ultimately have "unat ?x = unat ?y" unfolding vpn_def by (metis div_mult_mod_eq)
  then show ?thesis using u by simp
qed

text \<open>The bytes \<open>bs\<close> have been stored at \<open>va\<close> and nothing else.\<close>

definition written :: "memory \<Rightarrow> u32 \<Rightarrow> u32 \<Rightarrow> bytes \<Rightarrow> memory \<Rightarrow> bool" where
  "written m pgdir va bs m' \<longleftrightarrow>
     (\<forall>i < length bs. m' (phys m pgdir (va + of_nat i)) = bs ! i) \<and>
     (\<forall>a. (\<forall>i < length bs. a \<noteq> phys m pgdir (va + of_nat i)) \<longrightarrow> m' a = m a)"

lemma written_unique:
  assumes "written m pgdir va bs m1" and "written m pgdir va bs m2"
  shows "m1 = m2"
proof
  fix a
  show "m1 a = m2 a"
    using assms by (cases "\<exists>i < length bs. a = phys m pgdir (va + of_nat i)") (auto simp: written_def)
qed

lemma written_tables:
  assumes "written m pgdir va bs m'" and "target_ok e m pgdir (unat va) (length bs)"
  shows "\<forall>p \<in> tables m pgdir. \<forall>a. in_page p a \<longrightarrow> m' a = m a"
proof (intro ballI allI impI)
  fix p a assume p: "p \<in> tables m pgdir" "in_page p a"
  have "a \<noteq> phys m pgdir (va + of_nat i)" if "i < length bs" for i
  proof -
    note f = target_frame [OF assms(2) that]
    have "page_ok e p" using p(1) assms(2) by (auto simp: target_ok_def pt_ok_def)
    then show ?thesis
      using f p page_ok_disjoint [of e "frame (pte m pgdir (vpn (va + of_nat i)))" e p] unfolding uframe_ok_def by metis
  qed
  then show "m' a = m a" using assms(1) by (simp add: written_def)
qed

lemma tables_kept:
  assumes "\<forall>p \<in> tables m pgdir. \<forall>a. in_page p a \<longrightarrow> m' a = m a" and "pt_ok e m pgdir"
  shows "k < 1024 * 1024 \<Longrightarrow> pte m' pgdir k = pte m pgdir k" and "phys m' pgdir x = phys m pgdir x"
    and "translate m' pgdir x = translate m pgdir x"
    and "target_ok e m pgdir va n \<Longrightarrow> target_ok e m' pgdir va n"
proof -
  note tc = tables_cong [OF assms(2,1)]
  show p: "k < 1024 * 1024 \<Longrightarrow> pte m' pgdir k = pte m pgdir k" for k by (rule tc(3))
  show "phys m' pgdir x = phys m pgdir x" "translate m' pgdir x = translate m pgdir x"
    using p [OF vpn_less] by (simp_all add: phys_def translate_pte)
  assume t: "target_ok e m pgdir va n"
  then have "va + n \<le> 0x80000000" by (simp add: target_ok_def)
  then have "pte m' pgdir (x div PGSIZE) = pte m pgdir (x div PGSIZE)" if "x < va + n" for x
    using that by (intro p) (simp add: PGSIZE_def)
  then show "target_ok e m' pgdir va n"
    using t tc(4,5) unfolding target_ok_def uframe_ok_def by auto
qed

lemma written_append:
  assumes "target_ok e m pgdir (unat va) (length bs + length cs)" and "written m pgdir va bs m1"
    and "written m1 pgdir (va + of_nat (length bs)) cs m'"
  shows "written m pgdir va (bs @ cs) m'"
proof -
  let ?P = "\<lambda>i. phys m pgdir (va + of_nat i)"
  have ok: "target_ok e m pgdir (unat va) (length bs)" "pt_ok e m pgdir"
    using target_sub [OF assms(1)] assms(1) by (simp_all add: target_ok_def)
  note k = tables_kept [OF written_tables [OF assms(2) ok(1)] ok(2)]
  have w2: "m' (?P (length bs + j)) = cs ! j" if "j < length cs" for j
    using assms(3) that by (simp add: written_def k(2) add.assoc)
  have o2: "m' a = m1 a" if "\<forall>j < length cs. a \<noteq> ?P (length bs + j)" for a
    using assms(3) that by (simp add: written_def k(2) add.assoc)
  have w1: "m' (?P i) = bs ! i" if "i < length bs" for i
  proof -
    have "?P i \<noteq> ?P (length bs + j)" if "j < length cs" for j
      using phys_inj [OF assms(1), of i "length bs + j"] that \<open>i < length bs\<close> by auto
    then have "m' (?P i) = m1 (?P i)" by (intro o2) blast
    with assms(2) that show ?thesis by (simp add: written_def)
  qed
  show ?thesis
    unfolding written_def
  proof (intro conjI allI impI)
    show "m' (?P i) = (bs @ cs) ! i" if "i < length (bs @ cs)" for i
      using w1 w2 [of "i - length bs"] that by (cases "i < length bs") (simp_all add: nth_append)
    show "m' a = m a" if "\<forall>i < length (bs @ cs). a \<noteq> ?P i" for a
    proof -
      have "m' a = m1 a" by (intro o2 allI impI) (use that in \<open>simp del: of_nat_add\<close>)
      also have "m1 a = m a" using assms(2) that by (simp add: written_def)
      finally show ?thesis .
    qed
  qed
qed

lemma written_page:
  assumes "target_ok e m pgdir (unat va) (length bs)" and "unat va mod PGSIZE + length bs \<le> PGSIZE"
  shows "written m pgdir va bs (store_bytes m (phys m pgdir va) bs)"
proof -
  have P: "phys m pgdir (va + of_nat i) = phys m pgdir va + i" if i: "i < length bs" for i
  proof -
    have u: "unat (va + of_nat i) = unat va + i" using target_addr [OF assms(1)] i by (simp del: unat_of_nat)
    have "unat va mod PGSIZE + i < PGSIZE" using assms(2) i by simp
    then have "(unat va + i) mod PGSIZE = unat va mod PGSIZE + i" "(unat va + i) div PGSIZE = unat va div PGSIZE"
      using div_mult_mod_eq [of "unat va" PGSIZE] div_mult_self3 [of PGSIZE "unat va div PGSIZE" "unat va mod PGSIZE + i"]
        mod_mult_self3 [of "unat va div PGSIZE" PGSIZE "unat va mod PGSIZE + i"]
      by (simp_all add: add.assoc [symmetric] PGSIZE_def)
    then show ?thesis by (simp add: phys_def vpn_def u del: unat_of_nat)
  qed
  show ?thesis
    unfolding written_def
  proof (intro conjI allI impI)
    show "store_bytes m (phys m pgdir va) bs (phys m pgdir (va + of_nat i)) = bs ! i" if "i < length bs" for i
      using that by (simp add: P store_bytes_def)
    show "store_bytes m (phys m pgdir va) bs a = m a" if "\<forall>i < length bs. a \<noteq> phys m pgdir (va + of_nat i)" for a
    proof -
      have "\<not> (phys m pgdir va \<le> a \<and> a < phys m pgdir va + length bs)"
      proof
        assume a: "phys m pgdir va \<le> a \<and> a < phys m pgdir va + length bs"
        then have i: "a - phys m pgdir va < length bs" by arith
        then have "a \<noteq> phys m pgdir va + (a - phys m pgdir va)" using that P by metis
        with a show False by simp
      qed
      then show ?thesis by (auto simp: store_bytes_def)
    qed
  qed
qed

lemma target_translate:
  assumes "target_ok e m pgdir (unat va) n" and "i < n"
  shows "\<exists>a. translate m pgdir (va + of_nat i) = Some a \<and> unat a = phys m pgdir (va + of_nat i)"
  using target_frame(1) [OF assms] frame_translate [of m pgdir "va + of_nat i" e]
  by (auto simp: uframe_ok_def phys_def)

lemma written_target:
  assumes "written m pgdir va bs m'" and "target_ok e m pgdir (unat va) (length bs + n)"
  shows "target_ok e m' pgdir (unat (va + of_nat (length bs))) n"
proof -
  have ok: "target_ok e m pgdir (unat va) (length bs)" "pt_ok e m pgdir"
    using target_sub [OF assms(2)] assms(2) by (simp_all add: target_ok_def)
  have "unat (va + of_nat (length bs)) = unat va + length bs" using target_addr [OF assms(2)] by (simp del: unat_of_nat)
  moreover have "target_ok e m pgdir (unat va + length bs) n" using target_sub [OF assms(2)] by simp
  ultimately show ?thesis using tables_kept(4) [OF written_tables [OF assms(1) ok(1)] ok(2)] by (simp del: unat_of_nat)
qed

lemma ustore_written:
  fixes s :: "'m kvm_scheme"
  assumes "target_ok e (mem s) pgdir (unat va) (length bs)" and "P2V (cr3 s) = pgdir"
  shows "\<exists>m'. ustore va bs s = Ok () (s\<lparr>mem := m'\<rparr>) \<and> written (mem s) pgdir va bs m'"
  using assms
proof (induction bs arbitrary: va s)
  case Nil
  then show ?case by (auto simp: written_def intro: exI [of _ "mem s"])
next
  case (Cons b bs)
  define m where "m = (mem s)(phys (mem s) pgdir va := b)"
  obtain a where a: "translate (mem s) pgdir va = Some a" "unat a = phys (mem s) pgdir va"
    using target_translate [OF Cons.prems(1), of 0] by auto
  have w: "written (mem s) pgdir va [b] m" by (simp add: written_def m_def)
  have "target_ok e m pgdir (unat (va + 1)) (length bs)"
    using written_target [OF w, of e "length bs"] Cons.prems(1) by simp
  then obtain m' where m': "ustore (va + 1) bs (s\<lparr>mem := m\<rparr>) = Ok () (s\<lparr>mem := m'\<rparr>)" "written m pgdir (va + 1) bs m'"
    using Cons.IH [of "s\<lparr>mem := m\<rparr>" "va + 1"] Cons.prems(2) by auto
  have "ustore va (b # bs) s = Ok () (s\<lparr>mem := m'\<rparr>)" using a m'(1) Cons.prems(2) by (simp add: ustore8_def m_def)
  moreover have "written (mem s) pgdir va ([b] @ bs) m'"
    using written_append [OF _ w, of e bs m'] Cons.prems(1) m'(2) by simp
  ultimately show ?case by auto
qed

lemma uva2ka_run:
  assumes "uframe_ok (kend s) (mem s) pgdir (vpn va)" and "pt_ok (kend s) (mem s) pgdir"
  shows "uva2ka pgdir va s = Ok (frame (pte (mem s) pgdir (vpn va))) s"
    and "frame (pte (mem s) pgdir (vpn va)) \<noteq> 0"
proof -
  have i: "vpn va div 1024 < 1024" using vpn_less by (simp add: less_mult_imp_div_less)
  have pr: "present (pde (mem s) pgdir (vpn va div 1024))"
    using assms(1) by (auto simp: uframe_ok_def pte_def split: if_splits)
  then have e: "load32 (mem s) (slot (tab (mem s) pgdir (vpn va div 1024)) (vpn va mod 1024)) = pte (mem s) pgdir (vpn va)"
    by (simp add: pte_def)
  have "slot (tab (mem s) pgdir (vpn va div 1024)) (vpn va mod 1024) \<noteq> 0"
    using pt_okD(2) [OF assms(2) i pr] by (intro slot_nonzero) auto
  then show "uva2ka pgdir va s = Ok (frame (pte (mem s) pgdir (vpn va))) s"
    using assms(1) pr e by (simp add: uva2ka_def walkpgdir_run get32_def uframe_ok_def present_def frame_def)
  show "frame (pte (mem s) pgdir (vpn va)) \<noteq> 0" using assms(1) by (auto simp: uframe_ok_def page_ok_def)
qed

lemma copyout_written:
  fixes s :: "'m kmem_scheme"
  assumes "target_ok (kend s) (mem s) pgdir (unat va) (length bs)"
  shows "\<exists>m'. copyout_loop pgdir va bs s = Ok 0 (s\<lparr>mem := m'\<rparr>) \<and> written (mem s) pgdir va bs m'"
  using assms
proof (induction "length bs" arbitrary: va bs s rule: less_induct)
  case less
  show ?case
  proof (cases "bs = []")
    case True
    then show ?thesis by (auto simp: copyout_loop.simps written_def intro: exI [of _ "mem s"])
  next
    case False
    let ?va0 = "PGROUNDDOWN va" and ?off = "unat va mod PGSIZE"
    define n where "n = min (PGSIZE - unat (va - ?va0)) (length bs)"
    have off: "unat (va - ?va0) = ?off" "?off < PGSIZE" using unat_page_offset page_offset_less by simp_all
    have n: "0 < n" "n \<le> length bs" "?off + n \<le> PGSIZE" using False off by (simp_all add: n_def)
    have ok: "pt_ok (kend s) (mem s) pgdir" "uframe_ok (kend s) (mem s) pgdir (vpn va)"
      using less.prems target_frame(1) [OF less.prems, of 0] False by (simp_all add: target_ok_def)
    let ?f = "frame (pte (mem s) pgdir (vpn va))"
    have ua: "uva2ka pgdir ?va0 s = Ok ?f s" "?f \<noteq> 0" using uva2ka_run [of s pgdir ?va0] ok by simp_all
    have ph: "unat (?f + (va - ?va0)) = phys (mem s) pgdir va"
      using page_byte [of "kend s" ?f va] ok(2) by (simp add: uframe_ok_def phys_def page_offset_and)
    define m where "m = store_bytes (mem s) (phys (mem s) pgdir va) (take n bs)"
    have sub: "target_ok (kend s) (mem s) pgdir (unat va) (length (take n bs))" using target_sub [OF less.prems] n(2) by simp
    have w: "written (mem s) pgdir va (take n bs) m" unfolding m_def using n(2,3) by (intro written_page [OF sub]) simp
    have step: "copyout_loop pgdir va bs s = copyout_loop pgdir (?va0 + of_nat PGSIZE) (drop n bs) (s\<lparr>mem := m\<rparr>)"
      using False ua ph by (subst copyout_loop.simps) (simp add: Let_def n_def [symmetric] put_bytes_def m_def)
    show ?thesis
    proof (cases "drop n bs = []")
      case True
      then have "take n bs = bs" by simp
      with step True w show ?thesis by (auto simp: copyout_loop.simps)
    next
      case ne: False
      then have "n = PGSIZE - ?off" using off by (auto simp: n_def)
      then have "unat (va - ?va0) + n = PGSIZE" using off by simp
      then have "of_nat (unat (va - ?va0) + n) = (of_nat PGSIZE :: u32)" by simp
      then have "va - ?va0 + of_nat n = of_nat PGSIZE" by (simp only: of_nat_add) simp
      then have nx: "?va0 + of_nat PGSIZE = va + of_nat (length (take n bs))" using n(2) by (simp add: algebra_simps)
      have "target_ok (kend s) m pgdir (unat (va + of_nat (length (take n bs)))) (length (drop n bs))"
        using written_target [OF w] less.prems n(2) by simp
      then obtain m' where m': "copyout_loop pgdir (?va0 + of_nat PGSIZE) (drop n bs) (s\<lparr>mem := m\<rparr>) = Ok 0 (s\<lparr>mem := m'\<rparr>)"
          "written m pgdir (va + of_nat (length (take n bs))) (drop n bs) m'"
        using less.hyps [of "drop n bs" "s\<lparr>mem := m\<rparr>" "?va0 + of_nat PGSIZE"] n(1) False unfolding nx by auto
      have "written (mem s) pgdir va (take n bs @ drop n bs) m'"
        using written_append [OF _ w m'(2)] less.prems n(2) by simp
      with step m'(1) show ?thesis by auto
    qed
  qed
qed

lemma uload_mapped:
  fixes s :: "'m kvm_scheme"
  assumes "\<forall>i < n. translate (mem s) (P2V (cr3 s)) (va + of_nat i) \<noteq> None"
  shows "uload n va s = Ok (ubytes s va n) s"
  using assms
proof (induction n arbitrary: va)
  case 0
  then show ?case by (simp add: ubytes_def)
next
  case (Suc n)
  have "translate (mem s) (P2V (cr3 s)) (va + 1 + of_nat i) \<noteq> None" if "i < n" for i
    using Suc.prems [rule_format, of "Suc i"] that by (simp add: add.assoc)
  then have "uload n (va + 1) s = Ok (ubytes s (va + 1) n) s" using Suc.IH by blast
  moreover have "uload8 va s = Ok (ubyte s va) s" using Suc.prems [rule_format, of 0] by (intro uload8_ubyte) simp
  ultimately show ?case by (simp add: ubytes_Suc)
qed

text \<open>
  C20. \<open>copyout\<close> (vm.c) to user memory of the address space that is loaded does, page by page through the kernel's
  direct map, exactly what storing byte after byte through the page table does: it returns 0, the process then
  reads the bytes back at \<open>va\<close>, every other byte of memory and every translation is as before.
\<close>

theorem copyout_is_ustore:
  fixes s :: "'m kvm_scheme"
  assumes "target_ok (kend s) (mem s) pgdir (unat va) (length bs)" and "cr3 s = V2P pgdir"
  shows "\<exists>t. copyout pgdir va bs s = Ok 0 t \<and> ustore va bs s = Ok () t \<and> uload (length bs) va t = Ok bs t \<and>
    (\<forall>x. translate (mem t) pgdir x = translate (mem s) pgdir x) \<and>
    (\<forall>a. (\<forall>i < length bs. translate (mem s) pgdir (va + of_nat i) \<noteq> Some a) \<longrightarrow> mem t (unat a) = mem s (unat a))"
proof -
  have c: "P2V (cr3 s) = pgdir" using assms(2) by simp
  obtain m' where co: "copyout_loop pgdir va bs s = Ok 0 (s\<lparr>mem := m'\<rparr>)" "written (mem s) pgdir va bs m'"
    using copyout_written [OF assms(1)] by blast
  moreover obtain m'' where us: "ustore va bs s = Ok () (s\<lparr>mem := m''\<rparr>)" "written (mem s) pgdir va bs m''"
    using ustore_written [OF assms(1) c] by blast
  ultimately have mm: "m'' = m'" using written_unique by blast
  define t where "t = s\<lparr>mem := m'\<rparr>"
  have ok: "pt_ok (kend s) (mem s) pgdir" using assms(1) by (simp add: target_ok_def)
  have tr: "translate (mem t) pgdir x = translate (mem s) pgdir x" for x
    unfolding t_def using tables_kept(3) [OF written_tables [OF co(2) assms(1)] ok] by simp
  have tt: "\<exists>a. translate (mem t) pgdir (va + of_nat i) = Some a \<and> unat a = phys (mem s) pgdir (va + of_nat i)" if "i < length bs" for i
    using target_translate [OF assms(1) that] by (simp add: tr)
  then have "\<forall>i < length bs. translate (mem t) (P2V (cr3 t)) (va + of_nat i) \<noteq> None" using c by (fastforce simp: t_def)
  from uload_mapped [OF this] have "uload (length bs) va t = Ok (ubytes t va (length bs)) t" .
  moreover have "ubytes t va (length bs) = bs"
  proof (rule nth_equalityI)
    fix i assume "i < length (ubytes t va (length bs))"
    then have i: "i < length bs" by simp
    have ct: "P2V (cr3 t) = pgdir" using c by (simp add: t_def)
    have "mem t (phys (mem s) pgdir (va + of_nat i)) = bs ! i" using co(2) i by (simp add: written_def t_def)
    then show "ubytes t va (length bs) ! i = bs ! i" using i tt [OF i] by (auto simp: ubytes_def ubyte_def ct)
  qed simp
  moreover have "mem t (unat a) = mem s (unat a)"
    if "\<forall>i < length bs. translate (mem s) pgdir (va + of_nat i) \<noteq> Some a" for a
  proof -
    have "unat a \<noteq> phys (mem s) pgdir (va + of_nat i)" if i: "i < length bs" for i
    proof -
      obtain a' where a': "translate (mem s) pgdir (va + of_nat i) = Some a'" "unat a' = phys (mem s) pgdir (va + of_nat i)"
        using tt [OF i] by (auto simp: tr)
      with that i have "a \<noteq> a'" using \<open>\<forall>i < length bs. translate (mem s) pgdir (va + of_nat i) \<noteq> Some a\<close> by auto
      then show ?thesis using a'(2) by (auto simp: word_unat_eq_iff)
    qed
    then show ?thesis using co(2) by (simp add: written_def t_def)
  qed
  ultimately show ?thesis using co(1) us(1) mm tr by (intro exI [of _ t]) (auto simp: copyout_def t_def)
qed

section \<open>The loop of deallocuvm\<close>

lemma next_table:
  assumes "b < 512 * 1024"
  shows "PGADDR (PDX (pages b) + 1) 0 0 = pages ((b div 1024 + 1) * 1024)"
proof -
  have b: "b div 1024 < 512" using assms by (simp add: less_mult_imp_div_less)
  have d: "PDX (pages b) = of_nat (b div 1024)"
    using unat_PDX [of "pages b"] vpn_pages [of b] assms by (simp add: word_unat_eq_iff unat_of_nat del: of_nat_div)
  have "PGADDR (PDX (pages b) + 1) 0 0 = push_bit 22 (of_nat (b div 1024 + 1))"
    by (simp add: PGADDR_def d add.commute del: of_nat_div)
  also have "\<dots> = pages ((b div 1024 + 1) * 1024)"
    by (simp add: pages_def PGSIZE_def push_bit_eq_mult del: of_nat_div)
  finally show ?thesis .
qed

lemma next_page:
  assumes "oldsz \<le> KERNBASE" and "b \<le> 512 * 1024" and "pgup oldsz - b \<le> Suc n" and "pages b < oldsz"
  shows "b < 512 * 1024" and "Suc b \<le> 512 * 1024" and "pgup oldsz - Suc b \<le> n"
    and "(b div 1024 + 1) * 1024 \<le> 512 * 1024" and "pgup oldsz - (b div 1024 + 1) * 1024 \<le> n"
proof -
  have b: "b < pgup oldsz" using vpn_below [OF assms(4)] vpn_pages [of b] assms(2) by simp
  then show lt: "b < 512 * 1024" using PGROUNDUP_pages(2) [OF assms(1)] by simp
  then show "Suc b \<le> 512 * 1024" "(b div 1024 + 1) * 1024 \<le> 512 * 1024" by simp_all
  have "b < (b div 1024 + 1) * 1024" by simp
  then show "pgup oldsz - Suc b \<le> n" "pgup oldsz - (b div 1024 + 1) * 1024 \<le> n" using assms(3) b by simp_all
qed

lemma deallocuvm_loop_fuel:
  assumes "oldsz \<le> KERNBASE" and "b \<le> 512 * 1024" and "pgup oldsz - b \<le> n"
  shows "deallocuvm_loop (n + k) pgdir oldsz (pages b) = deallocuvm_loop n pgdir oldsz (pages b)"
  using assms(2,3)
proof (induction n arbitrary: b)
  case 0
  have "unat oldsz \<le> unat (pages b)" using 0 unat_pages [of b] by (simp add: pgup_def PGSIZE_def)
  then have "\<not> pages b < oldsz" by (simp add: word_less_nat_alt)
  then show ?case by (cases k) simp_all
next
  case (Suc n)
  show ?case
  proof (cases "pages b < oldsz")
    case True
    note nx = next_page [OF assms(1) Suc.prems True]
    show ?thesis using Suc.IH [OF nx(2,3)] Suc.IH [OF nx(4,5)]
      by (simp only: deallocuvm_loop.simps next_table [OF nx(1)] pages_next add_Suc diff_add_cancel)
  qed simp
qed

text \<open>How a run of the loop may end: it returns, or panics with the message of \<open>kfree\<close> or of the \<open>acquire\<close> in it.\<close>

definition returns_or_panics :: "('s, 'a) outcome \<Rightarrow> bool" where
  "returns_or_panics r \<longleftrightarrow> (case r of Ok x t \<Rightarrow> True | Panic e \<Rightarrow> e = ''kfree'' \<or> e = ''acquire'' | Switch t \<Rightarrow> False)"

lemma ends_simps [simp]: "returns_or_panics (Ok x t)" "returns_or_panics (Panic ''kfree'')"
  by (simp_all add: returns_or_panics_def)

lemma kfree_ends: "returns_or_panics (kfree v s)"
  by (cases "use_lock s"; cases "LK_kmem \<in> set (held s)")
    (auto simp: returns_or_panics_def kfree_def acquire_def holding_def)

lemma then_ends:
  assumes "returns_or_panics (m s)" and "\<And>t. returns_or_panics (n t)"
  shows "returns_or_panics (sq m n s)"
  using assms by (cases "m s") (simp_all add: returns_or_panics_def sq_def)

lemma deallocuvm_loop_ends:
  assumes "oldsz \<le> KERNBASE" and "b \<le> 512 * 1024" and "pgup oldsz - b \<le> n"
  shows "returns_or_panics (deallocuvm_loop n pgdir oldsz (pages b) s)"
  using assms(2,3)
proof (induction n arbitrary: b s)
  case 0
  have "unat oldsz \<le> unat (pages b)" using 0 unat_pages [of b] by (simp add: pgup_def PGSIZE_def)
  then show ?case by (simp add: word_less_nat_alt returns_or_panics_def)
next
  case (Suc n)
  show ?case
  proof (cases "pages b < oldsz")
    case True
    note nx = next_page [OF assms(1) Suc.prems True]
    show ?thesis
      using True Suc.IH [OF nx(2,3)] Suc.IH [OF nx(4,5)]
      by (simp add: walkpgdir_run get32_def put32_def next_table [OF nx(1)] pages_next)
        (intro impI then_ends kfree_ends; simp)
  qed (simp add: returns_or_panics_def)
qed

section \<open>What deallocuvm frees\<close>

text \<open>The pages mapped between two page numbers, and that each of them has a frame of its own, which is neither a table nor free.\<close>

definition mapped_in :: "memory \<Rightarrow> u32 \<Rightarrow> nat \<Rightarrow> nat \<Rightarrow> nat set" where
  "mapped_in m pgdir a b = {k. a \<le> k \<and> k < b \<and> present (pte m pgdir k)}"

definition freeable :: "'m kmem_scheme \<Rightarrow> u32 \<Rightarrow> u32 list \<Rightarrow> nat \<Rightarrow> nat \<Rightarrow> bool" where
  "freeable s pgdir vs a b \<longleftrightarrow> inj_on (\<lambda>k. frame (pte (mem s) pgdir k)) (mapped_in (mem s) pgdir a b) \<and>
     (\<forall>k \<in> mapped_in (mem s) pgdir a b.
        PTE_ADDR (pte (mem s) pgdir k) \<noteq> 0 \<and> apart s pgdir vs (frame (pte (mem s) pgdir k)))"

lemma free_entry:
  fixes s :: "'m kmem_scheme"
  assumes "vm_ok s pgdir vs" and "n < 1024 * 1024" and "present (pde (mem s) pgdir (n div 1024))" and "apart s pgdir vs v"
  shows "\<exists>u t. kfree v s = Ok () u \<and> put32 (slot (tab (mem s) pgdir (n div 1024)) (n mod 1024)) 0 u = Ok () t \<and>
    vm_ok t pgdir (v # vs) \<and> tables (mem t) pgdir = tables (mem s) pgdir \<and> kend t = kend s \<and>
    (\<forall>k < 1024 * 1024. pte (mem t) pgdir k = (if k = n then 0 else pte (mem s) pgdir k))"
proof -
  note ok = vm_okD [OF assms(1)]
  have v: "page_ok (kend s) v" "v \<notin> tables (mem s) pgdir" "v \<notin> set vs" using assms(4) by (simp_all add: apart_def)
  let ?u = "push_page v s" and ?i = "n div 1024"
  have i: "?i < 1024" using assms(2) by (simp add: less_mult_imp_div_less)
  have "\<forall>p \<in> tables (mem s) pgdir. \<forall>a. in_page p a \<longrightarrow> mem ?u a = mem s a"
    using page_ok_disjoint [OF ok(4) v(1)] v(2) by (metis push_page_mem)
  note tc = tables_cong [OF ok(2) this]
  have "kavail ?u (v # vs)" using ok(1) push_page_chain [OF _ v(1,3)] by (simp add: kavail_def)
  then have u: "vm_ok ?u pgdir (v # vs)" using tc(4,5) ok(3) v(2) by (auto simp: vm_ok_def)
  have p: "present (pde (mem ?u) pgdir ?i)" using assms(3) tc(1) [OF i] by simp
  define t where "t = ?u\<lparr>mem := store32 (mem ?u) (slot (tab (mem ?u) pgdir ?i) (n mod 1024)) 0\<rparr>"
  note pe = put_entry [OF u assms(2) p, where w = 0, folded t_def]
  have "put32 (slot (tab (mem s) pgdir ?i) (n mod 1024)) 0 ?u = Ok () t"
    by (simp add: put32_def t_def tc(2) [OF i])
  moreover have "tables (mem t) pgdir = tables (mem s) pgdir"
    using pe(1) tc(4) unfolding vmstep_def by auto
  moreover have "kend t = kend s" using vmstep_kend [OF pe(1)] by simp
  moreover have "\<forall>k < 1024 * 1024. pte (mem t) pgdir k = (if k = n then 0 else pte (mem s) pgdir k)"
    using pe(2) tc(3) by simp
  moreover have "kfree v s = Ok () ?u" using ok(1) v(1) by (simp add: kfree_run kavail_def)
  ultimately show ?thesis using vmstep_ok [OF pe(1)] by blast
qed

lemma mapped_in_steps:
  "mapped_in m pgdir b e = (if b < e \<and> present (pte m pgdir b) then insert b (mapped_in m pgdir (Suc b) e) else mapped_in m pgdir (Suc b) e)"
  "\<not> present (pde m pgdir (b div 1024)) \<Longrightarrow> mapped_in m pgdir b e = mapped_in m pgdir ((b div 1024 + 1) * 1024) e"
proof -
  show "mapped_in m pgdir b e = (if b < e \<and> present (pte m pgdir b) then insert b (mapped_in m pgdir (Suc b) e) else mapped_in m pgdir (Suc b) e)"
    by (auto simp: mapped_in_def Suc_le_eq order_le_less)
  assume n: "\<not> present (pde m pgdir (b div 1024))"
  have "(b div 1024 + 1) * 1024 \<le> k" if "b \<le> k" "present (pte m pgdir k)" for k
  proof (rule ccontr)
    assume "\<not> ?thesis"
    then have "k div 1024 = b div 1024" using that(1) by (simp add: div_le_mono order.antisym less_mult_imp_div_less)
    then show False using that(2) n by (simp add: pte_def)
  qed
  moreover have "b \<le> (b div 1024 + 1) * 1024" by simp
  ultimately show "mapped_in m pgdir b e = mapped_in m pgdir ((b div 1024 + 1) * 1024) e"
    unfolding mapped_in_def by (meson order.trans)
qed

lemma freeable_shrink: "freeable s pgdir vs a b \<Longrightarrow> mapped_in (mem s) pgdir c b \<subseteq> mapped_in (mem s) pgdir a b \<Longrightarrow> freeable s pgdir vs c b"
  unfolding freeable_def by (meson inj_on_subset subsetD)

lemma freeable_next:
  assumes "freeable s pgdir vs b e" and "b < e" and "e \<le> 1024 * 1024" and "present (pte (mem s) pgdir b)"
    and "\<forall>k < 1024 * 1024. pte (mem t) pgdir k = (if k = b then 0 else pte (mem s) pgdir k)"
    and "tables (mem t) pgdir = tables (mem s) pgdir" and "kend t = kend s"
  shows "freeable t pgdir (frame (pte (mem s) pgdir b) # vs) (Suc b) e"
    and "mapped_in (mem t) pgdir (Suc b) e = mapped_in (mem s) pgdir (Suc b) e"
    and "(\<lambda>k. frame (pte (mem t) pgdir k)) ` mapped_in (mem s) pgdir (Suc b) e = (\<lambda>k. frame (pte (mem s) pgdir k)) ` mapped_in (mem s) pgdir (Suc b) e"
proof -
  let ?F = "\<lambda>m k. frame (pte m pgdir k)" and ?M = "mapped_in (mem s) pgdir (Suc b) e"
  have old: "pte (mem t) pgdir k = pte (mem s) pgdir k" if "Suc b \<le> k" "k < e" for k using that assms(3,5) by simp
  then show M: "mapped_in (mem t) pgdir (Suc b) e = ?M" unfolding mapped_in_def by auto
  have eq: "pte (mem t) pgdir k = pte (mem s) pgdir k" if "k \<in> ?M" for k using that old by (simp add: mapped_in_def)
  then show im: "?F (mem t) ` ?M = ?F (mem s) ` ?M" by (intro image_cong) simp_all
  have all: "mapped_in (mem s) pgdir b e = insert b ?M" using mapped_in_steps(1) [of "mem s" pgdir b e] assms(2,4) by simp
  have b: "b \<notin> ?M" by (simp add: mapped_in_def)
  have "inj_on (?F (mem s)) (insert b ?M)" using assms(1) by (simp add: freeable_def all)
  then have inj: "inj_on (?F (mem s)) ?M" "\<forall>k \<in> ?M. ?F (mem s) k \<noteq> ?F (mem s) b" using b by (auto simp: inj_on_def)
  have "inj_on (?F (mem t)) ?M" using inj(1) inj_on_cong [of ?M "?F (mem t)" "?F (mem s)"] eq by simp
  moreover have "PTE_ADDR (pte (mem t) pgdir k) \<noteq> 0 \<and> apart t pgdir (?F (mem s) b # vs) (?F (mem t) k)" if "k \<in> ?M" for k
    using assms(1) that inj(2) eq [OF that] assms(6,7) by (simp add: freeable_def all apart_def)
  ultimately show "freeable t pgdir (?F (mem s) b # vs) (Suc b) e" by (simp add: freeable_def M)
qed

lemma deallocuvm_step:
  fixes s :: "'m kmem_scheme"
  assumes "vm_ok s pgdir vs" and "pages b < oldsz" and "b < 512 * 1024"
  defines "d \<equiv> pde (mem s) pgdir (b div 1024)" and "e \<equiv> pte (mem s) pgdir b"
  shows "\<not> present d \<Longrightarrow>
      deallocuvm_loop (Suc n) pgdir oldsz (pages b) s = deallocuvm_loop n pgdir oldsz (pages ((b div 1024 + 1) * 1024)) s"
    and "present d \<Longrightarrow> \<not> present e \<Longrightarrow>
      deallocuvm_loop (Suc n) pgdir oldsz (pages b) s = deallocuvm_loop n pgdir oldsz (pages (Suc b)) s"
    and "present d \<Longrightarrow> present e \<Longrightarrow> PTE_ADDR e \<noteq> 0 \<Longrightarrow> kfree (frame e) s = Ok () u \<Longrightarrow>
      put32 (slot (tab (mem s) pgdir (b div 1024)) (b mod 1024)) 0 u = Ok () t \<Longrightarrow>
      deallocuvm_loop (Suc n) pgdir oldsz (pages b) s = deallocuvm_loop n pgdir oldsz (pages (Suc b)) t"
proof -
  let ?p = "slot (tab (mem s) pgdir (b div 1024)) (b mod 1024)"
  have v: "vpn (pages b) = b" using vpn_pages [of b] assms(3) by simp
  show "\<not> present d \<Longrightarrow>
      deallocuvm_loop (Suc n) pgdir oldsz (pages b) s = deallocuvm_loop n pgdir oldsz (pages ((b div 1024 + 1) * 1024)) s"
    using assms(2) by (simp add: walkpgdir_run v next_table [OF assms(3)] d_def)
  have i: "b div 1024 < 1024" using assms(3) by (simp add: less_mult_imp_div_less)
  have p: "?p \<noteq> 0" "load32 (mem s) ?p = e" if "present d"
    using slot_nonzero pt_okD(2) [OF vm_okD(2) [OF assms(1)] i] that by (simp_all add: pte_def d_def e_def)
  show "present d \<Longrightarrow> \<not> present e \<Longrightarrow>
      deallocuvm_loop (Suc n) pgdir oldsz (pages b) s = deallocuvm_loop n pgdir oldsz (pages (Suc b)) s"
    using assms(2) p by (simp add: walkpgdir_run v get32_def pages_next present_def [of e] d_def)
  show "present d \<Longrightarrow> present e \<Longrightarrow> PTE_ADDR e \<noteq> 0 \<Longrightarrow> kfree (frame e) s = Ok () u \<Longrightarrow> put32 ?p 0 u = Ok () t \<Longrightarrow>
      deallocuvm_loop (Suc n) pgdir oldsz (pages b) s = deallocuvm_loop n pgdir oldsz (pages (Suc b)) t"
    using assms(2) p by (simp add: walkpgdir_run v get32_def pages_next present_def [of e] d_def frame_def)
qed

lemma mapped_in_empty [simp]: "e \<le> b \<Longrightarrow> mapped_in m pgdir b e = {}"
  by (auto simp: mapped_in_def)

lemma deallocuvm_loop_frees:
  fixes s :: "'m kmem_scheme"
  assumes "oldsz \<le> KERNBASE" and "b \<le> 512 * 1024" and "pgup oldsz - b \<le> n" and "vm_ok s pgdir vs"
    and "freeable s pgdir vs b (pgup oldsz)"
  shows "\<exists>t fs. deallocuvm_loop n pgdir oldsz (pages b) s = Ok () t \<and> vm_ok t pgdir (fs @ vs) \<and>
    set fs = (\<lambda>k. frame (pte (mem s) pgdir k)) ` mapped_in (mem s) pgdir b (pgup oldsz) \<and>
    (\<forall>k < 1024 * 1024. pte (mem t) pgdir k = (if k \<in> mapped_in (mem s) pgdir b (pgup oldsz) then 0 else pte (mem s) pgdir k))"
  using assms(2-)
proof (induction n arbitrary: b s vs)
  case 0
  then have "unat oldsz \<le> unat (pages b)" using unat_pages [of b] by (simp add: pgup_def PGSIZE_def)
  then show ?case using 0 by (intro exI [of _ s] exI [of _ "[]"]) (simp add: word_less_nat_alt)
next
  case (Suc n)
  let ?e = "pgup oldsz" and ?d = "pde (mem s) pgdir (b div 1024)" and ?w = "pte (mem s) pgdir b"
  show ?case
  proof (cases "pages b < oldsz")
    case False
    then have "?e \<le> b" using unat_pages [of b] Suc.prems(1) by (simp add: pgup_def PGSIZE_def word_less_nat_alt)
    then show ?thesis using False Suc.prems(3) by (intro exI [of _ s] exI [of _ "[]"]) simp
  next
    case True
    note nx = next_page [OF assms(1) Suc.prems(1,2) True]
    note st = deallocuvm_step [OF Suc.prems(3) True nx(1), where n = n]
    have b: "b < ?e" "?e \<le> 1024 * 1024"
      using vpn_below [OF True] vpn_pages [of b] nx(1) PGROUNDUP_pages(2) [OF assms(1)] by simp_all
    note all = mapped_in_steps(1) [of "mem s" pgdir b ?e]
    consider "\<not> present ?d" | "present ?d" "\<not> present ?w" | "present ?d" "present ?w" by blast
    then show ?thesis
    proof cases
      case 1
      then show ?thesis
        using Suc.IH [OF nx(4,5) Suc.prems(3) freeable_shrink [OF Suc.prems(4)]] mapped_in_steps(2) [OF 1] st(1) by simp
    next
      case 2
      then show ?thesis
        using Suc.IH [OF nx(2,3) Suc.prems(3) freeable_shrink [OF Suc.prems(4)]] all st(2) by simp
    next
      case 3
      have v: "apart s pgdir vs (frame ?w)" "PTE_ADDR ?w \<noteq> 0"
        using Suc.prems(4) 3(2) b(1) by (simp_all add: freeable_def mapped_in_def)
      have "b < 1024 * 1024" using nx(1) by simp
      from free_entry [OF Suc.prems(3) this 3(1) v(1)] obtain u t where t: "kfree (frame ?w) s = Ok () u"
          "put32 (slot (tab (mem s) pgdir (b div 1024)) (b mod 1024)) 0 u = Ok () t"
          "vm_ok t pgdir (frame ?w # vs)" "tables (mem t) pgdir = tables (mem s) pgdir" "kend t = kend s"
          "\<forall>k < 1024 * 1024. pte (mem t) pgdir k = (if k = b then 0 else pte (mem s) pgdir k)" by blast
      note fn = freeable_next [OF Suc.prems(4) b 3(2) t(6,4,5)]
      obtain w fs where w: "deallocuvm_loop n pgdir oldsz (pages (Suc b)) t = Ok () w" "vm_ok w pgdir (fs @ frame ?w # vs)"
          "set fs = (\<lambda>k. frame (pte (mem s) pgdir k)) ` mapped_in (mem s) pgdir (Suc b) ?e"
          "\<forall>k < 1024 * 1024. pte (mem w) pgdir k = (if k \<in> mapped_in (mem s) pgdir (Suc b) ?e then 0 else pte (mem t) pgdir k)"
        using Suc.IH [OF nx(2,3) t(3) fn(1)] unfolding fn(2,3) by blast
      then show ?thesis
        using st(3) [OF 3 v(2) t(1,2)] t(6) 3(2) b(1) by (intro exI [of _ w] exI [of _ "fs @ [frame ?w]"]) (simp add: all)
    qed
  qed
qed

lemma deallocuvm_frees:
  fixes s :: "'m kmem_scheme"
  assumes "newsz \<le> oldsz" and "oldsz \<le> KERNBASE" and "vm_ok s pgdir vs" and "freeable s pgdir vs (pgup newsz) (pgup oldsz)"
  shows "\<exists>t fs. deallocuvm pgdir oldsz newsz s = Ok newsz t \<and> vm_ok t pgdir (fs @ vs) \<and>
    set fs = (\<lambda>k. frame (pte (mem s) pgdir k)) ` mapped_in (mem s) pgdir (pgup newsz) (pgup oldsz) \<and>
    (\<forall>k < 1024 * 1024. pte (mem t) pgdir k =
       (if k \<in> mapped_in (mem s) pgdir (pgup newsz) (pgup oldsz) then 0 else pte (mem s) pgdir k))"
proof (cases "newsz = oldsz")
  case True
  then show ?thesis using assms(3) by (intro exI [of _ s] exI [of _ "[]"]) (simp add: deallocuvm_def)
next
  case False
  have le: "newsz \<le> KERNBASE" using assms(1,2) by simp
  note up = PGROUNDUP_pages [OF le]
  have "pages_between (PGROUNDUP newsz) oldsz = pgup oldsz - pgup newsz" by (simp add: up(1) pages_between_up [OF le])
  then have run: "deallocuvm pgdir oldsz newsz s =
      sq (deallocuvm_loop (pgup oldsz - pgup newsz) pgdir oldsz (pages (pgup newsz))) (ret newsz) s"
    using False assms(1) by (simp add: deallocuvm_def up(1))
  obtain t fs where t: "deallocuvm_loop (pgup oldsz - pgup newsz) pgdir oldsz (pages (pgup newsz)) s = Ok () t"
      and f: "vm_ok t pgdir (fs @ vs)" "set fs = (\<lambda>k. frame (pte (mem s) pgdir k)) ` mapped_in (mem s) pgdir (pgup newsz) (pgup oldsz)"
      "\<forall>k < 1024 * 1024. pte (mem t) pgdir k =
        (if k \<in> mapped_in (mem s) pgdir (pgup newsz) (pgup oldsz) then 0 else pte (mem s) pgdir k)"
    using deallocuvm_loop_frees [OF assms(2) up(2) le_refl assms(3,4)] by blast
  have "deallocuvm pgdir oldsz newsz s = Ok newsz t" by (simp add: run sq_Ok t)
  with f show ?thesis by blast
qed

text \<open>
  C21. The loop of \<open>deallocuvm\<close> (vm.c) ends for every page table and every \<open>oldsz\<close> up to \<open>KERNBASE\<close>: within as many
  iterations as there are pages between the two sizes it has left the loop, so that \<open>deallocuvm\<close> returns \<open>newsz\<close>, unless
  it panics with the message of \<open>kfree\<close>, which it also uses itself for a frame at address 0, or of the \<open>acquire\<close> in \<open>kfree\<close>; it is never still in the loop then, and allowing it any larger number of iterations
  gives the same outcome. In particular the jump to the next page directory entry always advances and never wraps around. If every
  page mapped between the two sizes has a frame of its own, neither a table nor free, nothing panics: those frames, each once, are put in
  front of the free list, their page table entries are cleared, and every other page table entry is as before.
\<close>

theorem deallocuvm_ends:
  fixes s :: "'m kmem_scheme"
  assumes "newsz \<le> oldsz" and "oldsz \<le> KERNBASE"
  shows "((\<exists>t. deallocuvm pgdir oldsz newsz s = Ok newsz t) \<or>
      deallocuvm pgdir oldsz newsz s = Panic ''kfree'' \<or> deallocuvm pgdir oldsz newsz s = Panic ''acquire'') \<and>
    (\<forall>n \<ge> pages_between (PGROUNDUP newsz) oldsz.
      deallocuvm_loop n pgdir oldsz (PGROUNDUP newsz) s \<noteq> out_of_fuel s \<and>
      deallocuvm_loop n pgdir oldsz (PGROUNDUP newsz) s =
        deallocuvm_loop (pages_between (PGROUNDUP newsz) oldsz) pgdir oldsz (PGROUNDUP newsz) s) \<and>
    (vm_ok s pgdir vs \<and> freeable s pgdir vs (pgup newsz) (pgup oldsz) \<longrightarrow>
      (\<exists>t fs. deallocuvm pgdir oldsz newsz s = Ok newsz t \<and> vm_ok t pgdir (fs @ vs) \<and>
        set fs = (\<lambda>k. frame (pte (mem s) pgdir k)) ` mapped_in (mem s) pgdir (pgup newsz) (pgup oldsz) \<and>
        (\<forall>k < 1024 * 1024. pte (mem t) pgdir k =
           (if k \<in> mapped_in (mem s) pgdir (pgup newsz) (pgup oldsz) then 0 else pte (mem s) pgdir k))))"
proof -
  have le: "newsz \<le> KERNBASE" using assms by simp
  note up = PGROUNDUP_pages [OF le]
  let ?m = "pgup oldsz - pgup newsz"
  have pb: "pages_between (PGROUNDUP newsz) oldsz = ?m" by (simp add: up(1) pages_between_up [OF le])
  have ends: "returns_or_panics (deallocuvm_loop ?m pgdir oldsz (PGROUNDUP newsz) s)"
    unfolding up(1) by (rule deallocuvm_loop_ends [OF assms(2) up(2) le_refl])
  have eq: "deallocuvm_loop n pgdir oldsz (PGROUNDUP newsz) s = deallocuvm_loop ?m pgdir oldsz (PGROUNDUP newsz) s" if "?m \<le> n" for n
    using fun_cong [OF deallocuvm_loop_fuel [OF assms(2) up(2) le_refl, of "n - ?m" pgdir], of s]
    by (simp only: up(1) le_add_diff_inverse [OF that])
  have fuel: "deallocuvm_loop ?m pgdir oldsz (PGROUNDUP newsz) s \<noteq> out_of_fuel s"
    using ends by (auto simp: returns_or_panics_def out_of_fuel_def)
  have "(\<exists>t. deallocuvm pgdir oldsz newsz s = Ok newsz t) \<or>
      deallocuvm pgdir oldsz newsz s = Panic ''kfree'' \<or> deallocuvm pgdir oldsz newsz s = Panic ''acquire''"
    using ends assms(1) by (auto simp: deallocuvm_def pb sq_def returns_or_panics_def split: outcome.splits)
  moreover have "\<forall>n \<ge> ?m. deallocuvm_loop n pgdir oldsz (PGROUNDUP newsz) s \<noteq> out_of_fuel s \<and>
      deallocuvm_loop n pgdir oldsz (PGROUNDUP newsz) s = deallocuvm_loop ?m pgdir oldsz (PGROUNDUP newsz) s"
    using eq fuel by metis
  ultimately show ?thesis
    unfolding pb by (intro conjI impI) (assumption | (elim conjE, rule deallocuvm_frees [OF assms]; assumption))+
qed

section \<open>Examples\<close>

text \<open>
  The process of \<open>arg_kernel\<close> with its directory at 0x80001000, an empty directory at 0x80004000 and two free pages.
\<close>

definition vm_kernel :: kproc where
  "vm_kernel = push_page 0x80005000 (push_page 0x80006000 (arg_kernel\<lparr>kend := 0x80000000, freelist := 0\<rparr>))"

lemma demo_pages_ok:
  "page_ok 0x80000000 0x80001000" "page_ok 0x80000000 0x80002000" "page_ok 0x80000000 0x80003000"
  "page_ok 0x80000000 0x80004000" "page_ok 0x80000000 0x80005000" "page_ok 0x80000000 0x80006000"
  by (simp_all add: page_ok_def V2P_def KERNBASE_def PHYSTOP_def PGSIZE_def)

lemma vm_kernel_fields [simp]:
  "kend vm_kernel = 0x80000000" "held vm_kernel = []" "cr3 vm_kernel = 0x1000"
  by (simp_all add: vm_kernel_def) (simp add: push_page_def)

lemma vm_kernel_avail: "kavail vm_kernel [0x80005000, 0x80006000]"
proof -
  let ?s = "arg_kernel\<lparr>kend := 0x80000000, freelist := 0\<rparr>"
  have "free_chain ?s []" by (simp add: free_chain_def)
  then have "free_chain (push_page 0x80006000 ?s) [0x80006000]"
    by (rule push_page_chain) (simp_all add: demo_pages_ok)
  then have "free_chain vm_kernel [0x80005000, 0x80006000]"
    unfolding vm_kernel_def by (rule push_page_chain) (simp_all add: demo_pages_ok)
  then show ?thesis by (simp add: kavail_def)
qed

lemma vm_kernel_mem:
  assumes "a < 0x80005000"
  shows "mem vm_kernel a = arg_pages a"
  using assms by (simp add: vm_kernel_def push_page_mem in_page_def)

lemma vm_kernel_pde:
  assumes "i < 1024"
  shows "pde (mem vm_kernel) 0x80001000 i = (if i = 0 then 0x2007 else 0)" and "pde (mem vm_kernel) 0x80004000 i = 0"
    and "load32 (mem vm_kernel) (slot 0x80002000 i) = (if i = 0 then 0x3007 else 0)"
proof -
  have u: "unat (slot 0x80001000 i) = 0x80001000 + 4 * i" "unat (slot 0x80002000 i) = 0x80002000 + 4 * i"
      "unat (slot 0x80004000 i) = 0x80004000 + 4 * i"
    using unat_slot [OF demo_pages_ok(1) assms] unat_slot [OF demo_pages_ok(2) assms] unat_slot [OF demo_pages_ok(4) assms] by simp_all
  show "pde (mem vm_kernel) 0x80001000 i = (if i = 0 then 0x2007 else 0)" "pde (mem vm_kernel) 0x80004000 i = 0"
    "load32 (mem vm_kernel) (slot 0x80002000 i) = (if i = 0 then 0x3007 else 0)"
    using assms by (simp_all add: pde_def load32_def u vm_kernel_mem dec32_def) (simp_all add: arg_pages_def)
qed

lemma demo_present [simp]: "present 0x2007" "present 0x3007" "frame 0x3007 = 0x80003000"
  by (simp_all add: present_def PTE_P_def frame_def PTE_ADDR_def P2V_def KERNBASE_def)

lemma vm_kernel_tables:
  "tables (mem vm_kernel) 0x80001000 = {0x80001000, 0x80002000}" "tables (mem vm_kernel) 0x80004000 = {0x80004000}"
  using vm_kernel_pde(1,2)
  by (auto simp: tables_def tab_def PTE_ADDR_def P2V_def KERNBASE_def intro: exI [of _ 0] split: if_splits)

lemma vm_kernel_pt: "pt_ok 0x80000000 (mem vm_kernel) 0x80001000" "pt_ok 0x80000000 (mem vm_kernel) 0x80004000"
  using vm_kernel_pde(1,2)
  by (auto simp: pt_ok_def vm_kernel_tables demo_pages_ok tab_def PTE_ADDR_def P2V_def KERNBASE_def split: if_splits)

lemma vm_kernel_pte:
  assumes "n < 1024 * 1024"
  shows "pte (mem vm_kernel) 0x80001000 n = (if n = 0 then 0x3007 else 0)" and "pte (mem vm_kernel) 0x80004000 n = 0"
proof -
  have "n div 1024 < 1024" "n mod 1024 < 1024" using assms by (simp_all add: less_mult_imp_div_less)
  note v = vm_kernel_pde [OF this(1)] vm_kernel_pde [OF this(2)]
  show "pte (mem vm_kernel) 0x80004000 n = 0" by (simp add: pte_def v)
  have "tab (mem vm_kernel) 0x80001000 0 = 0x80002000"
    using vm_kernel_pde(1) [of 0] by (simp add: tab_def PTE_ADDR_def P2V_def KERNBASE_def)
  then show "pte (mem vm_kernel) 0x80001000 n = (if n = 0 then 0x3007 else 0)"
    using v by (auto simp: pte_def split: if_splits)
qed

lemma vm_kernel_ok:
  "vm_ok vm_kernel 0x80001000 [0x80005000, 0x80006000]" "vm_ok vm_kernel 0x80004000 [0x80005000, 0x80006000]"
  by (simp_all add: vm_ok_def vm_kernel_avail vm_kernel_pt vm_kernel_tables)

theorem mappages_maps_witness:
  "\<exists>t. mappages 0x80001000 0x1000 4096 0x7000 6 vm_kernel = Ok 0 t \<and> pte (mem t) 0x80001000 1 = 0x7007 \<and>
     pte (mem t) 0x80001000 2 = pte (mem vm_kernel) 0x80001000 2 \<and>
     translate (mem t) 0x80001000 0x1123 = Some 0x80007123 \<and> translate (mem t) 0x80001000 12 = Some 0x8000300C"
proof -
  have v: "vpn 0x1000 = 1" "vpn 0x1FFF = 1" "vpn (0x1000 + 4096 - 1) = 1" "vpn 0x1123 = 1" "vpn 12 = 0"
    by (simp_all add: vpn_def PGSIZE_def)
  have un: "\<forall>k. vpn 0x1000 \<le> k \<longrightarrow> k \<le> vpn (0x1000 + 4096 - 1) \<longrightarrow> \<not> present (pte (mem vm_kernel) 0x80001000 k)"
    using vm_kernel_pte(1) by (simp add: v)
  have h: "(4096 :: u32) \<noteq> 0" "unat (0x1000 :: u32) + unat (4096 :: u32) \<le> 2 ^ 32" "take_bit 12 (0x7000 :: u32) = 0"
      "(6 :: u32) AND NOT 0xFFF = 0" by simp_all
  obtain r t vs' j where t: "mappages 0x80001000 0x1000 4096 0x7000 6 vm_kernel = Ok r t"
      "r = 0 \<and> 1 + j = Suc 1 \<or> r = -1 \<and> 1 + j \<le> (1 :: nat) \<and> vs' = [] \<and> length [0x80005000, 0x80006000 :: u32] \<le> 1 - 1"
      "\<forall>k < 1024 * 1024. pte (mem t) 0x80001000 k =
         (if 1 \<le> k \<and> k < 1 + j then (0x7000 + of_nat (k - 1) * of_nat PGSIZE) OR 6 OR PTE_P else pte (mem vm_kernel) 0x80001000 k)"
      "\<forall>x. if 1 \<le> vpn x \<and> vpn x \<le> 1
         then r = 0 \<longrightarrow> translate (mem t) 0x80001000 x = Some (P2V 0x7000 + (x - PGROUNDDOWN 0x1000))
         else translate (mem t) 0x80001000 x = translate (mem vm_kernel) 0x80001000 x"
    using mappages_maps [OF vm_kernel_ok(1) h(1,2) un h(3,4), unfolded v] by blast
  have r: "r = 0" "j = 1" using t(2) by auto
  have e: "pte (mem t) 0x80001000 1 = 0x7007" "pte (mem t) 0x80001000 2 = pte (mem vm_kernel) 0x80001000 2"
    using spec [OF t(3), of 1] spec [OF t(3), of 2] r(2) by (simp_all add: PTE_P_def)
  have "PGROUNDDOWN 0x1000 = 0x1000" by (simp add: PGROUNDDOWN_def PGSIZE_def)
  then have "translate (mem t) 0x80001000 0x1123 = Some 0x80007123"
    using spec [OF t(4), of "0x1123"] r by (simp add: v P2V_def KERNBASE_def)
  moreover have "translate (mem t) 0x80001000 12 = Some 0x8000300C"
    using spec [OF t(4), of 12] vm_kernel_pte(1) [of 0] by (simp add: v translate_pte)
  ultimately show ?thesis using t(1) r(1) e by blast
qed

theorem allocuvm_maps_zeroed_witness:
  "\<exists>t a. allocuvm 0x80001000 16 0x1800 vm_kernel = Ok 0x1800 t \<and>
     translate (mem t) 0x80001000 0x1123 = Some a \<and> mem t (unat a) = 0 \<and>
     translate (mem t) 0x80001000 12 = Some 0x8000300C"
proof -
  have v: "pgup 16 = 1" "pgup 0x1800 = 2" "vpn 0x1123 = 1" "vpn 12 = 0" by (simp_all add: pgup_def vpn_def PGSIZE_def)
  have un: "\<forall>k. pgup 16 \<le> k \<longrightarrow> k < pgup 0x1800 \<longrightarrow> \<not> present (pte (mem vm_kernel) 0x80001000 k)"
    using vm_kernel_pte(1) by (simp add: v)
  obtain t f where t: "allocuvm 0x80001000 16 0x1800 vm_kernel = Ok 0x1800 t"
      "\<forall>x. if pgup 16 \<le> vpn x \<and> vpn x < pgup 0x1800
         then translate (mem t) 0x80001000 x = Some (f (vpn x) + (x AND 0xFFF)) \<and> f (vpn x) \<in> set [0x80005000, 0x80006000] \<and>
              mem t (unat (f (vpn x) + (x AND 0xFFF))) = 0
         else translate (mem t) 0x80001000 x = translate (mem vm_kernel) 0x80001000 x"
    using allocuvm_maps_zeroed [OF vm_kernel_ok(1) _ _ _ un] by (auto simp: v KERNBASE_def)
  have "translate (mem t) 0x80001000 12 = Some 0x8000300C"
    using spec [OF t(2), of 12] vm_kernel_pte(1) [of 0] by (simp add: v translate_pte)
  then show ?thesis using t(1) spec [OF t(2), of "0x1123"] by (auto simp: v)
qed

theorem copyuvm_copies_witness:
  "\<exists>t c. copyuvm_loop (pages_between 0 16) 0x80001000 0x80004000 0 vm_kernel = Ok 0x80004000 t \<and>
     translate (mem t) 0x80004000 12 = Some c \<and> mem t (unat c) = 104 \<and>
     translate (mem t) 0x80001000 12 = Some 0x8000300C \<and> c \<noteq> 0x8000300C"
proof -
  have v: "pgup 16 = 1" "vpn 12 = 0" by (simp_all add: pgup_def vpn_def PGSIZE_def)
  have src: "source_ok vm_kernel 0x80001000 0x80004000 [0x80005000, 0x80006000] 0 (pgup 16)"
    using vm_kernel_pte(1) [of 0] by (simp add: source_ok_def v vm_kernel_pt vm_kernel_tables apart_def demo_pages_ok)
  have un: "\<forall>k < pgup 16. \<not> present (pte (mem vm_kernel) 0x80004000 k)" using vm_kernel_pte(2) by (simp add: v)
  obtain t where t: "copyuvm_loop (pages_between 0 16) 0x80001000 0x80004000 0 vm_kernel = Ok 0x80004000 t"
      "\<forall>x < 16. \<exists>a c. translate (mem vm_kernel) 0x80001000 x = Some a \<and> translate (mem t) 0x80001000 x = Some a \<and>
        mem t (unat a) = mem vm_kernel (unat a) \<and> translate (mem t) 0x80004000 x = Some c \<and>
        mem t (unat c) = mem vm_kernel (unat a)"
      "\<forall>x < 16. \<forall>y < 16. translate (mem t) 0x80004000 x \<noteq> translate (mem t) 0x80001000 y"
    using copyuvm_copies [OF vm_kernel_ok(2) _ _ src un] by (auto simp: v KERNBASE_def)
  have p: "translate (mem vm_kernel) 0x80001000 12 = Some 0x8000300C"
    using vm_kernel_pte(1) [of 0] by (simp add: v translate_pte)
  have m: "mem vm_kernel 0x8000300C = 104" by (simp add: vm_kernel_mem arg_pages_def)
  obtain c where "translate (mem t) 0x80001000 12 = Some 0x8000300C" "translate (mem t) 0x80004000 12 = Some c"
      "mem t (unat c) = 104"
    using t(2) [rule_format, of 12] p m by auto
  moreover from this have "c \<noteq> 0x8000300C" using t(3) [rule_format, of 12 12] by auto
  ultimately show ?thesis using t(1) by blast
qed

theorem copyout_is_ustore_witness:
  "\<exists>t. copyout 0x80001000 14 [1, 2, 3] vm_kernel = Ok 0 t \<and> ustore 14 [1, 2, 3] vm_kernel = Ok () t \<and>
     uload (length [1, 2, 3 :: u8]) 14 t = Ok [1, 2, 3] t"
proof -
  have d: "x div PGSIZE = 0" if "x < 17" for x using that by (simp add: PGSIZE_def)
  have "uframe_ok 0x80000000 (mem vm_kernel) 0x80001000 0"
    using vm_kernel_pte(1) [of 0] by (simp add: uframe_ok_def PTE_U_def demo_pages_ok vm_kernel_tables)
  then have "target_ok (kend vm_kernel) (mem vm_kernel) 0x80001000 (unat (14 :: u32)) (length [1, 2, 3 :: u8])"
    by (simp add: target_ok_def vm_kernel_pt d)
  moreover have "cr3 vm_kernel = V2P 0x80001000" by (simp add: V2P_def KERNBASE_def)
  ultimately show ?thesis using copyout_is_ustore by blast
qed

theorem deallocuvm_ends_witness:
  "deallocuvm_loop 1000 0x80001000 0x2800 (PGROUNDUP 0) vm_kernel \<noteq> out_of_fuel vm_kernel \<and>
   (\<exists>t. deallocuvm 0x80001000 0x2800 0 vm_kernel = Ok 0 t \<and> vm_ok t 0x80001000 [0x80003000, 0x80005000, 0x80006000] \<and>
     translate (mem t) 0x80001000 12 = None)"
proof -
  have v: "pgup 0 = 0" "pgup 0x2800 = 3" "vpn 12 = 0" by (simp_all add: pgup_def vpn_def PGSIZE_def)
  have "PGROUNDUP 0 = 0" by (simp add: PGROUNDUP_def PGSIZE_def)
  then have pb: "pages_between (PGROUNDUP 0) 0x2800 \<le> 1000" by (simp add: pages_between_def PGSIZE_def)
  have m: "mapped_in (mem vm_kernel) 0x80001000 0 3 = {0}" using vm_kernel_pte(1) by (auto simp: mapped_in_def split: if_splits)
  have p: "frame (pte (mem vm_kernel) 0x80001000 0) = 0x80003000" "PTE_ADDR (pte (mem vm_kernel) 0x80001000 0) \<noteq> 0"
    using vm_kernel_pte(1) [of 0] by (simp_all add: frame_def PTE_ADDR_def P2V_def KERNBASE_def)
  have fr: "freeable vm_kernel 0x80001000 [0x80005000, 0x80006000] (pgup 0) (pgup 0x2800)"
    by (simp add: freeable_def v m p apart_def demo_pages_ok vm_kernel_tables)
  have "(0 :: u32) \<le> 0x2800" "0x2800 \<le> KERNBASE" by (simp_all add: KERNBASE_def)
  note ends = deallocuvm_ends [OF this, of "0x80001000" vm_kernel "[0x80005000, 0x80006000]"]
  obtain t fs where t: "deallocuvm 0x80001000 0x2800 0 vm_kernel = Ok 0 t" "vm_ok t 0x80001000 (fs @ [0x80005000, 0x80006000])"
      and f: "set fs = (\<lambda>k. frame (pte (mem vm_kernel) 0x80001000 k)) ` mapped_in (mem vm_kernel) 0x80001000 (pgup 0) (pgup 0x2800)"
      "\<forall>k < 1024 * 1024. pte (mem t) 0x80001000 k =
        (if k \<in> mapped_in (mem vm_kernel) 0x80001000 (pgup 0) (pgup 0x2800) then 0 else pte (mem vm_kernel) 0x80001000 k)"
    using mp [OF conjunct2 [OF conjunct2 [OF ends]] conjI [OF vm_kernel_ok(1) fr]] by blast
  have e: "set fs = {0x80003000}" "pte (mem t) 0x80001000 0 = 0" using f(1) spec [OF f(2), of 0] by (simp_all add: v m p)
  have nf: "deallocuvm_loop 1000 0x80001000 0x2800 (PGROUNDUP 0) vm_kernel \<noteq> out_of_fuel vm_kernel"
    using conjunct1 [OF conjunct2 [OF ends]] pb by blast
  have "distinct fs" using vm_okD(6) [OF t(2)] by simp
  then have "fs = [0x80003000]" using e(1) by (cases fs) (auto simp: subset_singleton_iff)
  then have "vm_ok t 0x80001000 [0x80003000, 0x80005000, 0x80006000]" using t(2) by simp
  moreover have "translate (mem t) 0x80001000 12 = None" using e(2) by (simp add: translate_pte v)
  ultimately show ?thesis using t(1) nf by blast
qed

end
