(* ===== verification/Txn.thy ===== *)
theory Txn
  imports Frw
begin

text \<open>
  Transactions as the system calls use them: \<open>begin_op\<close>, some file system steps, \<open>end_op\<close>
  (\<open>log.c\<close>). From a log that is idle the bracket returns, and what the steps wrote to the cache is
  on the disk afterwards.
\<close>

section \<open>The idle log\<close>

definition idle_log :: "'m klog_scheme \<Rightarrow> bool" where
  "idle_log s \<longleftrightarrow> log_ready s \<and> bquiet {} s \<and> (\<forall>bn\<in>log_region s. bn < disksize s) \<and> l_n s = 0 \<and>
     l_outstanding s = 0 \<and> \<not> l_committing s \<and> int LOGSIZE \<le> l_size s"

text \<open>What a whole transaction leaves alone, besides the contents of the blocks.\<close>

definition tframe :: "'m klog_scheme \<Rightarrow> 'm klog_scheme \<Rightarrow> bool" where
  "tframe s t \<longleftrightarrow> cur t = cur s \<and> proc_at t = proc_at s \<and> mem t = mem s \<and> disksize t = disksize s \<and>
     klog.more t = klog.more s \<and> l_start t = l_start s \<and> l_size t = l_size s \<and>
     (\<forall>l. (\<forall>i. l \<noteq> SL_buf i) \<longrightarrow> slocks t l = slocks s l)"

lemma bbase_tframe:
  "bbase s t \<Longrightarrow> klog.more t = klog.more s \<Longrightarrow> l_start t = l_start s \<Longrightarrow> l_size t = l_size s \<Longrightarrow> tframe s t"
  by (simp add: bbase_def tframe_def)

lemma tframe_trans: "tframe s t \<Longrightarrow> tframe t u \<Longrightarrow> tframe s u"
  by (simp add: tframe_def)

lemma tframe_region: "tframe s t \<Longrightarrow> log_region t = log_region s"
  by (simp add: tframe_def log_region_def)

text \<open>A step that changes none of the fields the log and the cache depend on.\<close>

lemma log_ready_keep:
  fixes s t :: "'m klog_scheme"
  assumes "bufs t = bufs s" "lru t = lru s" "disk t = disk s"
    and "\<And>i. slocks t (SL_buf i) = slocks s (SL_buf i)" "p_pid (proc_at t) = p_pid (proc_at s)"
    and "running t" "l_n t = l_n s" "l_block t = l_block s" "l_start t = l_start s" "l_dev t = l_dev s"
  shows "log_ready s \<Longrightarrow> log_ready t" "view t = view s" "bquiet H t = bquiet H s"
proof -
  note c = cache_keep [OF assms(1-5)]
  have "log_blocks t = log_blocks s" "log_region t = log_region s"
    using assms(7-9) by (simp_all add: log_blocks_def log_region_def)
  then show "log_ready s \<Longrightarrow> log_ready t"
    using assms by (simp add: log_ready_def log_wf_def c)
  show "view t = view s" "bquiet H t = bquiet H s" by (simp_all add: c)
qed

lemma room_ready:
  assumes "room k {} s" "head_n (disk s (l_start s)) = 0"
  shows "log_ready s"
  using assms by (auto simp: room_def tx_def log_ready_def log_wf_def)

lemma begin_op_run:
  assumes "idle_log s"
  shows "\<exists>t. begin_op s = Ok () t \<and> room 27 {} t \<and> view t = view s \<and> disk t = disk s \<and> tframe s t \<and>
    l_outstanding t = 1 \<and> \<not> l_committing t"
proof -
  let ?t = "s\<lparr>held := [], l_outstanding := 1\<rparr>"
  have s: "log_ready s" "bquiet {} s" "l_n s = 0" "l_outstanding s = 0" "\<not> l_committing s" "int LOGSIZE \<le> l_size s"
    using assms by (simp_all add: idle_log_def)
  have run: "running s" using s(1) by (simp add: log_ready_def)
  have "begin_op s = Ok () ?t"
    using run s by (simp add: begin_op_def LOGSIZE_def MAXOPBLOCKS_def)
  moreover have rt: "running ?t" using run by (subst running_cong [of _ s]) simp_all
  note k = log_ready_keep [of ?t s, OF _ _ _ _ _ rt]
  have pa: "proc_at ?t = proc_at s" by (simp add: proc_at_def)
  have "log_ready ?t" "view ?t = view s" "bquiet {} ?t" using k s(1,2) pa by simp_all
  then have "room 27 {} ?t"
    using s by (simp add: room_def tx_def log_ready_def log_wf_def LOGSIZE_def MAXOPBLOCKS_def log_blocks_def)
  moreover have "tframe s ?t" using pa by (simp add: tframe_def)
  ultimately show ?thesis using \<open>view ?t = view s\<close> s by auto
qed

lemma end_op_run:
  fixes s :: "'m klog_scheme"
  assumes r: "room k {} s" and o: "l_outstanding s = 1" "\<not> l_committing s"
    and h: "head_n (disk s (l_start s)) = 0" and rng: "\<forall>bn\<in>log_region s. bn < disksize s"
    and sz: "int LOGSIZE \<le> l_size s"
  shows "\<exists>t. end_op s = Ok () t \<and> idle_log t \<and> tframe s t \<and>
    (\<forall>bn. bn \<notin> log_region s \<longrightarrow> disk t bn = view s bn \<and> view t bn = view s bn)"
proof -
  let ?s = "s\<lparr>l_outstanding := 0, l_committing := True, held := []\<rparr>"
  have R: "running s" "bcache_ok {} s" "dirty_blocks s = set (log_blocks s)" "bquiet {} s" "l_dev s = 1"
    "length (l_block s) = LOGSIZE" "l_n s < LOGSIZE" "distinct (log_blocks s)"
    "\<forall>bn\<in>set (log_blocks s). bn < disksize s \<and> bn \<notin> log_region s"
    using r by (auto simp: room_def tx_def)
  have rdy: "log_ready s" by (rule room_ready [OF r h])
  have rs: "running ?s" using R(1) by (subst running_cong [of _ s]) simp_all
  have pa: "proc_at ?s = proc_at s" by (simp add: proc_at_def)
  note k = log_ready_keep [of ?s s, OF _ _ _ _ _ rs]
  have s: "log_ready ?s" "bquiet {} ?s" "view ?s = view s" using k rdy R(4) pa by simp_all
  have reg: "log_region ?s = log_region s" "log_blocks ?s = log_blocks s"
    by (simp_all add: log_region_def log_blocks_def)
  have "log_in_range ?s" using rng R(9) by (auto simp: log_in_range_def reg)
  then obtain u where u: "commit ?s = Ok () u" "bquiet {} u" using commit_total [OF s(1,2)] by blast
  note c = commit_done [OF s(1) u(1), unfolded reg s(3)]
  let ?v = "u\<lparr>l_committing := False, held := []\<rparr>"
  let ?t = "wakeup1 CH_log ?v"
  have ru: "running u" using c(1) by (simp add: log_ready_def)
  have rv: "running ?v" using ru by (subst running_cong [of _ u]) simp_all
  have pt: "proc_at ?t = proc_at u" using proc_at_wakeup1 [OF rv] by (simp add: proc_at_def)
  have "end_op s = Ok () ?t"
    using R(1) o u(1) ru by (simp add: end_op_def sq_Ok) (simp add: wakeup1_def)
  note kt = log_ready_keep [of ?t u]
  have f: "bufs ?t = bufs u" "lru ?t = lru u" "disk ?t = disk u" "slocks ?t = slocks u" "l_n ?t = l_n u"
    "l_block ?t = l_block u" "l_start ?t = l_start u" "l_dev ?t = l_dev u" "l_size ?t = l_size u"
    "l_outstanding ?t = l_outstanding u" "\<not> l_committing ?t" "disksize ?t = disksize u" "mem ?t = mem u"
    "klog.more ?t = klog.more u" "cur ?t = cur u"
    by (simp_all add: wakeup1_def)
  have t: "log_ready ?t" "view ?t = view u" "bquiet {} ?t"
    using kt f rv pt c(1) u(2) by simp_all
  have tf: "tframe s u" using bbase_tframe [OF c(4-6,9)] pa by (simp add: tframe_def)
  then have "tframe s ?t" using f pt by (simp add: tframe_def)
  moreover from this have "idle_log ?t"
    using t f c(2,7) rng sz tframe_region [of s ?t] by (simp add: idle_log_def tframe_def)
  ultimately show ?thesis using c(3) t(2) f(3) \<open>end_op s = Ok () ?t\<close> by auto
qed

section \<open>Files outside the log\<close>

text \<open>A file is the same in two states that agree on the blocks outside the log.\<close>

lemma file_outside:
  fixes s t :: "'m kino_scheme"
  assumes ok: "file_ok ip s" and v: "\<And>bn. bn \<notin> log_region s \<Longrightarrow> view t bn = view s bn"
    and fs: "fs_sb t = fs_sb s" "disksize t = disksize s" "log_region t = log_region s"
    and ip: "ino t jp = (ino s ip)\<lparr>i_ref := r, i_valid := x\<rparr>" "jp < length (icache t)" "1 \<le> r"
  shows "file_ok jp t" "m < MAXFILE \<Longrightarrow> fblk t (ino t jp) m = fblk s (ino s ip) m"
    "free_blocks t = free_blocks s" "dinode_at t (i_inum (ino s ip)) = dinode_at s (i_inum (ino s ip))"
    "mapped ip s \<Longrightarrow> mapped jp t"
proof -
  let ?I = "ino s ip" and ?J = "ino t jp" let ?B = "IBLOCK (i_inum ?I) (fs_sb s)"
  have I: "i_addrs ?J = i_addrs ?I" "i_inum ?J = i_inum ?I" "i_dev ?J = i_dev ?I" "i_ref ?J = r"
    "i_size ?J = i_size ?I" by (simp_all add: ip(1))
  have ind: "i_addrs ?I ! NDIRECT \<noteq> 0 \<Longrightarrow> i_addrs ?I ! NDIRECT \<notin> log_region s"
    using bptr_region [OF ok, of MAXFILE] by (simp add: bptr_def)
  have ba: "baddr t ?J n = baddr s ?I n" for n using ind v by (simp add: baddr_def I)
  have bp: "bptr t ?J n = bptr s ?I n" for n by (simp add: bptr_def ba I)
  have sz: "fs_size t = fs_size s" "data_blocks t = data_blocks s" by (simp_all add: fs_size_def data_blocks_def fs)
  have us: "used t b = used s b" if "b < fs_size s" for b
    using BBLOCK_disk(2) [OF file_okD(3) [OF ok] that] v by (simp add: used_def fs)
  show "free_blocks t = free_blocks s" using us by (auto simp: free_blocks_def sz)
  have lt: "b < fs_size s" if "b \<in> data_blocks s" for b using that by (simp add: data_blocks_def)
  have pos: "0 < fs_size s" using ok by (auto simp: file_ok_def data_blocks_def)
  have "bitmap_ok t" using file_okD(3) [OF ok] us by (simp add: bitmap_ok_def sz fs)
  then show "file_ok jp t"
    using ok us lt pos ip(2,3) by (simp add: file_ok_def inode_ok_def bp sz fs I)
  have B: "?B \<notin> log_region s" using file_okD(1) [OF ok] by (simp add: inode_ok_def)
  show "dinode_at t (i_inum ?I) = dinode_at s (i_inum ?I)" using v [OF B] by (simp add: dinode_at_def fs)
  show "fblk t ?J m = fblk s ?I m" if "m < MAXFILE"
    using bptr_region [OF ok less_imp_le [OF that]] v by (auto simp: fblk_def bp baddr_bptr [OF that])
  show "mapped ip s \<Longrightarrow> mapped jp t" by (simp add: mapped_def ba I)
qed

lemma fbyte_outside:
  assumes "\<And>m. m < MAXFILE \<Longrightarrow> fblk t J m = fblk s I m" "n \<le> MAXFILE * BSIZE"
  shows "map (fbyte t J) [a..<n] = map (fbyte s I) [a..<n]"
  using assms by (intro map_cong refl fbyte_blocks) auto

end
