(* ===== verification/Dir.thy ===== *)
theory Dir
  imports Frw
begin

text \<open>
  Directories (\<open>dirlookup\<close> and \<open>dirlink\<close> of \<open>fs.c\<close>) as maps from names to inode numbers. A
  directory is a file of 16-byte entries; an entry is free when its inode number is 0, and names
  count up to their first NUL and at most \<open>DIRSIZ\<close> bytes.
\<close>

section \<open>Entries\<close>

definition dirent_at :: "'m kino_scheme \<Rightarrow> inode \<Rightarrow> nat \<Rightarrow> dirent" where
  "dirent_at s I k = dec_dirent (map (fbyte s I) [k * DIRENT_SIZE..<k * DIRENT_SIZE + DIRENT_SIZE])"

definition hit :: "bytes \<Rightarrow> dirent \<Rightarrow> bool" where
  "hit name d \<longleftrightarrow> de_inum d \<noteq> 0 \<and> namecmp name (de_name d) = 0"

definition dir_entries :: "inode \<Rightarrow> nat" where
  "dir_entries I = unat (i_size I) div DIRENT_SIZE"

definition dir_find :: "'m kino_scheme \<Rightarrow> inode \<Rightarrow> bytes \<Rightarrow> nat option" where
  "dir_find s I name = find (\<lambda>k. hit name (dirent_at s I k)) [0..<dir_entries I]"

definition dir_map :: "'m kino_scheme \<Rightarrow> inode \<Rightarrow> bytes \<Rightarrow> u16 option" where
  "dir_map s I name = map_option (\<lambda>k. de_inum (dirent_at s I k)) (dir_find s I name)"

definition dir_ok :: "nat \<Rightarrow> 'm kino_scheme \<Rightarrow> bool" where
  "dir_ok dp s \<longleftrightarrow> file_ok dp s \<and> mapped dp s \<and> i_type (ino s dp) = T_DIR \<and>
     unat (i_size (ino s dp)) mod DIRENT_SIZE = 0"

lemma dir_okD:
  assumes "dir_ok dp s"
  shows "file_ok dp s" "mapped dp s" "i_type (ino s dp) = T_DIR" "i_type (ino s dp) \<noteq> T_DEV"
    "unat (i_size (ino s dp)) = dir_entries (ino s dp) * DIRENT_SIZE"
    "dir_offsets (unat (i_size (ino s dp))) = map (\<lambda>k. k * DIRENT_SIZE) [0..<dir_entries (ino s dp)]"
proof -
  show "file_ok dp s" "mapped dp s" "i_type (ino s dp) = T_DIR" "i_type (ino s dp) \<noteq> T_DEV"
    using assms by (simp_all add: dir_ok_def T_DIR_def T_DEV_def)
  have m: "unat (i_size (ino s dp)) mod DIRENT_SIZE = 0" using assms by (simp add: dir_ok_def)
  then show sz: "unat (i_size (ino s dp)) = dir_entries (ino s dp) * DIRENT_SIZE"
    by (metis add.right_neutral div_mult_mod_eq dir_entries_def)
  have "(unat (i_size (ino s dp)) + DIRENT_SIZE - 1) div DIRENT_SIZE = dir_entries (ino s dp)"
    unfolding sz by (simp add: DIRENT_SIZE_def)
  then show "dir_offsets (unat (i_size (ino s dp))) = map (\<lambda>k. k * DIRENT_SIZE) [0..<dir_entries (ino s dp)]"
    by (simp add: dir_offsets_def)
qed

lemma dir_same:
  assumes "lframe s t" "view t = view s"
  shows "dirent_at t = dirent_at s" "dir_find t = dir_find s" "dir_map t = dir_map s" "dir_ok dp s \<Longrightarrow> dir_ok dp t"
proof -
  note f = lframe_file [OF assms]
  show d: "dirent_at t = dirent_at s" by (simp add: dirent_at_def fun_eq_iff f)
  show df: "dir_find t = dir_find s" by (simp add: dir_find_def fun_eq_iff d)
  show "dir_map t = dir_map s" by (simp add: dir_map_def fun_eq_iff d df)
  show "dir_ok dp s \<Longrightarrow> dir_ok dp t"
    using grown_sameD(1) [OF grown_view [OF _ assms]] by (simp add: dir_ok_def mapped_def f)
qed

section \<open>Reading an entry\<close>

lemma dirent_small: "k < dir_entries I \<Longrightarrow> unat (i_size I) \<le> MAXFILE * BSIZE \<Longrightarrow>
    k * DIRENT_SIZE + DIRENT_SIZE \<le> unat (i_size I) \<and> k * DIRENT_SIZE + DIRENT_SIZE < 2 ^ 32"
proof -
  assume k: "k < dir_entries I" and s: "unat (i_size I) \<le> MAXFILE * BSIZE"
  have "Suc k * DIRENT_SIZE \<le> dir_entries I * DIRENT_SIZE" using k by (intro mult_le_mono1) simp
  also have "\<dots> \<le> unat (i_size I)" by (simp add: dir_entries_def)
  finally show ?thesis using s by (simp add: MAXFILE_def NDIRECT_def NINDIRECT_def BSIZE_def)
qed

lemma read_dirent:
  assumes "room k {} s" "dir_ok dp s" "n < dir_entries (ino s dp)"
  shows "\<exists>t bs. readi dp (of_nat (n * DIRENT_SIZE)) (of_nat DIRENT_SIZE) s = Ok (int DIRENT_SIZE, bs) t \<and>
    dec_dirent bs = dirent_at s (ino s dp) n \<and> room k {} t \<and> view t = view s \<and> lframe s t"
proof -
  let ?I = "ino s dp"
  define off where "off = n * DIRENT_SIZE"
  note D = dir_okD [OF assms(2)]
  have b: "off + DIRENT_SIZE \<le> unat (i_size ?I)" "off + DIRENT_SIZE < 2 ^ 32"
    using dirent_small [OF assms(3)] D(2) by (simp_all add: mapped_def off_def)
  have u: "unat (of_nat off :: u32) = off" "unat (of_nat DIRENT_SIZE :: u32) = DIRENT_SIZE"
    using b(2) by (simp_all add: unat_of_nat32)
  have le: "(of_nat off :: u32) \<le> i_size ?I" using b(1) by (simp add: word_le_nat_alt u)
  have lt: "unat (of_nat off :: u32) + unat (of_nat DIRENT_SIZE :: u32) < 2 ^ 32" using b(2) unfolding u .
  have e: "off + DIRENT_SIZE = min (unat (of_nat off :: u32) + unat (of_nat DIRENT_SIZE :: u32)) (unat (i_size ?I))"
    using b(1) unfolding u by simp
  obtain t where t: "readi dp (of_nat off) (of_nat DIRENT_SIZE) s =
      Ok (int (off + DIRENT_SIZE - off), map (fbyte s ?I) [off..<off + DIRENT_SIZE]) t" "room k {} t" "view t = view s" "lframe s t"
    using readi_run [OF assms(1) D(1,2,4) le lt e] unfolding u by blast
  have "dec_dirent (map (fbyte s ?I) [off..<off + DIRENT_SIZE]) = dirent_at s ?I n"
    by (simp add: dirent_at_def off_def)
  with t show ?thesis unfolding off_def [symmetric] by (simp only: add_diff_cancel_left') blast
qed

section \<open>Lookup\<close>

lemma dirlookup_from_run:
  assumes "room k {} s" "dir_ok dp s" "\<forall>n\<in>set ns. n < dir_entries (ino s dp)"
  shows "\<exists>t. room k {} t \<and> view t = view s \<and> lframe s t \<and>
    dirlookup_from (map (\<lambda>n. n * DIRENT_SIZE) ns) dp name s =
      (case find (\<lambda>n. hit name (dirent_at s (ino s dp) n)) ns of
         None \<Rightarrow> Ok None t
       | Some n \<Rightarrow> bnd (iget 1 (ucast (de_inum (dirent_at s (ino s dp) n)))) (\<lambda>ip. ret (Some (ip, n * DIRENT_SIZE))) t)"
  using assms
proof (induction ns arbitrary: s)
  case Nil
  then show ?case by auto
next
  case (Cons n ns)
  let ?I = "ino s dp"
  obtain u bs where u: "readi dp (of_nat (n * DIRENT_SIZE)) (of_nat DIRENT_SIZE) s = Ok (int DIRENT_SIZE, bs) u"
      "dec_dirent bs = dirent_at s ?I n" "room k {} u" "view u = view s" "lframe s u"
    using read_dirent [OF Cons.prems(1,2), of n] Cons.prems(3) by auto
  note same = dir_same [OF u(5,4)] lframe_file [OF u(5,4)]
  show ?case
  proof (cases "hit name (dirent_at s ?I n)")
    case True
    have "i_dev (ino u dp) = 1" using dir_okD(1) [OF Cons.prems(2)] file_okD(5) by (simp add: same)
    then show ?thesis using True u by (intro exI [of _ u]) (simp add: hit_def)
  next
    case False
    have "dirlookup_from (map (\<lambda>n. n * DIRENT_SIZE) (n # ns)) dp name s =
        dirlookup_from (map (\<lambda>n. n * DIRENT_SIZE) ns) dp name u"
      using False u(1,2) by (auto simp: hit_def Let_def)
    moreover have "dir_ok dp u" "\<forall>n\<in>set ns. n < dir_entries (ino u dp)" using Cons.prems same by auto
    then obtain t where "room k {} t" "view t = view u" "lframe u t"
      "dirlookup_from (map (\<lambda>n. n * DIRENT_SIZE) ns) dp name u =
        (case find (\<lambda>n. hit name (dirent_at s ?I n)) ns of
           None \<Rightarrow> Ok None t
         | Some n \<Rightarrow> bnd (iget 1 (ucast (de_inum (dirent_at s ?I n)))) (\<lambda>ip. ret (Some (ip, n * DIRENT_SIZE))) t)"
      using Cons.IH [OF u(3)] unfolding same(1,5) by blast
    ultimately show ?thesis using False u(4,5) lframe_trans [OF u(5), of t] by (intro exI [of _ t]) simp
  qed
qed

lemma dirlookup_run:
  assumes "room k {} s" "dir_ok dp s"
  shows "\<exists>t. room k {} t \<and> view t = view s \<and> lframe s t \<and>
    dirlookup dp name s =
      (case dir_find s (ino s dp) name of
         None \<Rightarrow> Ok None t
       | Some n \<Rightarrow> bnd (iget 1 (ucast (de_inum (dirent_at s (ino s dp) n)))) (\<lambda>ip. ret (Some (ip, n * DIRENT_SIZE))) t)"
  using dirlookup_from_run [OF assms, of "[0..<dir_entries (ino s dp)]" name] dir_okD(3,6) [OF assms(2)]
  by (simp add: dirlookup_def dir_find_def)

section \<open>Adding an entry\<close>

definition free_slot :: "'m kino_scheme \<Rightarrow> inode \<Rightarrow> nat" where
  "free_slot s I =
     (case find (\<lambda>n. de_inum (dirent_at s I n) = 0) [0..<dir_entries I] of None \<Rightarrow> dir_entries I | Some n \<Rightarrow> n)"

lemma free_slot_le: "free_slot s I \<le> dir_entries I"
  by (auto simp: free_slot_def find_Some_iff split: option.splits)

lemma free_slot_free: "free_slot s I < dir_entries I \<Longrightarrow> de_inum (dirent_at s I (free_slot s I)) = 0"
  by (auto simp: free_slot_def split: option.splits dest: find_upt_Some)

lemma dirlink_from_run:
  assumes "room k {} s" "dir_ok dp s" "\<forall>n\<in>set ns. n < dir_entries (ino s dp)"
  shows "\<exists>t. room k {} t \<and> view t = view s \<and> lframe s t \<and>
    dirlink_from (map (\<lambda>n. n * DIRENT_SIZE) ns) dp (m * DIRENT_SIZE) s =
      Ok ((case find (\<lambda>n. de_inum (dirent_at s (ino s dp) n) = 0) ns of None \<Rightarrow> m | Some n \<Rightarrow> n) * DIRENT_SIZE) t"
  using assms
proof (induction ns arbitrary: s)
  case Nil
  then show ?case by auto
next
  case (Cons n ns)
  let ?I = "ino s dp"
  obtain u bs where u: "readi dp (of_nat (n * DIRENT_SIZE)) (of_nat DIRENT_SIZE) s = Ok (int DIRENT_SIZE, bs) u"
      "dec_dirent bs = dirent_at s ?I n" "room k {} u" "view u = view s" "lframe s u"
    using read_dirent [OF Cons.prems(1,2), of n] Cons.prems(3) by auto
  note same = dir_same [OF u(5,4)] lframe_file [OF u(5,4)]
  show ?case
  proof (cases "de_inum (dirent_at s ?I n) = 0")
    case True
    then show ?thesis using u by (intro exI [of _ u]) simp
  next
    case False
    have "dir_ok dp u" "\<forall>n\<in>set ns. n < dir_entries (ino u dp)" using Cons.prems same by auto
    then obtain t where t: "room k {} t" "view t = view u" "lframe u t"
      "dirlink_from (map (\<lambda>n. n * DIRENT_SIZE) ns) dp (m * DIRENT_SIZE) u =
        Ok ((case find (\<lambda>n. de_inum (dirent_at s ?I n) = 0) ns of None \<Rightarrow> m | Some n \<Rightarrow> n) * DIRENT_SIZE) t"
      using Cons.IH [OF u(3)] unfolding same(1,5) by blast
    then show ?thesis using False u(1,2,4,5) lframe_trans [OF u(5), of t] by (intro exI [of _ t]) simp
  qed
qed

lemma chunks_dirent: "chunks (n * DIRENT_SIZE) DIRENT_SIZE = [(n * DIRENT_SIZE, DIRENT_SIZE)]"
proof -
  have "n * 16 mod 512 = n mod 32 * 16" using mult_mod_left [of n 32 16] by simp
  moreover have "n mod 32 < 32" by simp
  ultimately have "n * DIRENT_SIZE mod BSIZE + DIRENT_SIZE \<le> BSIZE" by (simp add: DIRENT_SIZE_def BSIZE_def)
  then have "DIRENT_SIZE = min DIRENT_SIZE (BSIZE - n * DIRENT_SIZE mod BSIZE)" by simp
  from chunks_step(1) [OF _ this] show ?thesis by (simp add: DIRENT_SIZE_def)
qed

lemma namecmp_0: "namecmp a b = 0 \<longleftrightarrow> cstr_of (cptr a) DIRSIZ = cstr_of (cptr b) DIRSIZ"
  by (simp add: namecmp_def strncmp_0_iff)

lemma new_dirent_wf: "wf_dirent (new_dirent name inum)"
  by (simp add: wf_dirent_def new_dirent_def)

lemma hit_new:
  "ucast inum \<noteq> (0 :: u16) \<Longrightarrow> hit nm (new_dirent name inum) \<longleftrightarrow> namecmp nm name = 0"
  by (simp add: hit_def new_dirent_def namecmp_0 cstr_of_strncpy_out)

text \<open>What a write of one entry does to the entries.\<close>

lemma wrote_dirent:
  assumes w: "wrote_file dp (n * DIRENT_SIZE) (enc_dirent d) s t" and wf: "wf_dirent d"
    and ok: "dir_ok dp s" and n: "n \<le> dir_entries (ino s dp)" "n * DIRENT_SIZE + DIRENT_SIZE \<le> MAXFILE * BSIZE"
  shows "dir_ok dp t" "dir_entries (ino t dp) = max (dir_entries (ino s dp)) (Suc n)"
    "m < dir_entries (ino t dp) \<Longrightarrow> dirent_at t (ino t dp) m = (if m = n then d else dirent_at s (ino s dp) m)"
proof -
  let ?I = "ino s dp" and ?J = "ino t dp" and ?D = DIRENT_SIZE
  note D = dir_okD [OF ok] and W = w [unfolded wrote_file_def]
  have len: "length (enc_dirent d) = ?D" by (rule c_dirent.enc_length [OF wf])
  have sz: "unat (i_size ?I) = dir_entries ?I * ?D" by (rule D(5))
  have I: "?J = ?I\<lparr>i_addrs := i_addrs ?J, i_size := of_nat (new_size (n * ?D) (enc_dirent d) ?I)\<rparr>" using W by blast
  have mp: "mapped dp t" using W by blast
  have lim: "unat (i_size ?I) \<le> MAXFILE * BSIZE" using D(2) by (simp add: mapped_def)
  have ns: "new_size (n * ?D) (enc_dirent d) ?I = max (dir_entries ?I) (Suc n) * ?D"
    by (simp add: new_size_def len sz nat_mult_max_left add.commute)
  have "max (dir_entries ?I) (Suc n) * ?D \<le> MAXFILE * BSIZE" using lim n(2) by (simp add: sz nat_mult_max_left add.commute)
  also have "\<dots> < 2 ^ 32" by (simp add: MAXFILE_def NDIRECT_def NINDIRECT_def BSIZE_def)
  finally have "unat (of_nat (max (dir_entries ?I) (Suc n) * ?D) :: u32) = max (dir_entries ?I) (Suc n) * ?D"
    by (rule unat_of_nat32)
  moreover have "i_size ?J = of_nat (new_size (n * ?D) (enc_dirent d) ?I)" by (subst I) simp
  ultimately have szJ: "unat (i_size ?J) = max (dir_entries ?I) (Suc n) * ?D" by (simp only: ns)
  then show e: "dir_entries ?J = max (dir_entries ?I) (Suc n)" by (simp add: dir_entries_def DIRENT_SIZE_def)
  have "i_type ?J = T_DIR" by (subst I) (simp add: D(3))
  then show "dir_ok dp t" using W mp szJ by (simp add: dir_ok_def)
  show "dirent_at t ?J m = (if m = n then d else dirent_at s ?I m)" if m: "m < dir_entries ?J"
  proof -
    have "m * ?D + ?D \<le> MAXFILE * BSIZE"
      using dirent_small [OF m] mp by (auto simp: mapped_def)
    then have b: "fbyte t ?J p = (if n * ?D \<le> p \<and> p < n * ?D + ?D then enc_dirent d ! (p - n * ?D) else fbyte s ?I p)"
      if "p < m * ?D + ?D" for p using W that by (simp add: len)
    show ?thesis
    proof (cases "m = n")
      case True
      have "map (fbyte t ?J) [n * ?D..<n * ?D + ?D] = map (\<lambda>p. enc_dirent d ! (p - n * ?D)) [n * ?D..<n * ?D + ?D]"
        using b True by (intro map_cong) auto
      also have "\<dots> = enc_dirent d" by (rule nth_equalityI) (simp_all add: len)
      finally show ?thesis using True c_dirent.dec_enc [OF wf] by (simp add: dirent_at_def)
    next
      case False
      then have "\<not> (n * ?D \<le> p \<and> p < n * ?D + ?D)" if "m * ?D \<le> p" "p < m * ?D + ?D" for p
        using that by (simp add: DIRENT_SIZE_def)
      then have "map (fbyte t ?J) [m * ?D..<m * ?D + ?D] = map (fbyte s ?I) [m * ?D..<m * ?D + ?D]"
        using b by (intro map_cong) auto
      then show ?thesis unfolding dirent_at_def by (simp only: False if_False)
    qed
  qed
qed

lemma write_dirent:
  assumes r: "room 7 {} s" and ok: "dir_ok dp s" and n: "n \<le> dir_entries (ino s dp)"
    "n * DIRENT_SIZE + DIRENT_SIZE \<le> MAXFILE * BSIZE" and wf: "wf_dirent d" and fr: "2 \<le> card (free_blocks s)"
  shows "\<exists>t. writei dp (enc_dirent d) (of_nat (n * DIRENT_SIZE)) s = Ok (int DIRENT_SIZE) t \<and> room 0 {} t \<and>
    wrote_file dp (n * DIRENT_SIZE) (enc_dirent d) s t"
proof -
  define off where "off = n * DIRENT_SIZE"
  note D = dir_okD [OF ok]
  have len: "length (enc_dirent d) = DIRENT_SIZE" by (rule c_dirent.enc_length [OF wf])
  have "MAXFILE * BSIZE < 2 ^ 32" by (simp add: MAXFILE_def NDIRECT_def NINDIRECT_def BSIZE_def)
  then have u: "unat (of_nat off :: u32) = off" using n(2) by (intro unat_of_nat32) (simp add: off_def)
  have ch: "length (chunks (unat (of_nat off :: u32)) (length (enc_dirent d))) = 1"
    unfolding u len unfolding off_def chunks_dirent by simp
  have le: "(of_nat off :: u32) \<le> i_size (ino s dp)"
    unfolding word_le_nat_alt u D(5) unfolding off_def using n(1) by (rule mult_le_mono1)
  let ?cs = "chunks (unat (of_nat off :: u32)) (length (enc_dirent d))"
  note ms = missing_le [of s dp ?cs, unfolded ch]
  have r': "room (Suc 0 + length ?cs + 5 * missing s dp ?cs) {} s"
    using ms by (intro room_mono [OF r]) (simp add: ch)
  have fr': "2 * missing s dp ?cs \<le> card (free_blocks s)" using ms fr by simp
  have lim: "unat (of_nat off :: u32) + length (enc_dirent d) \<le> MAXFILE * BSIZE"
    unfolding u len using n(2) by (simp add: off_def)
  show ?thesis using writei_run [OF r' D(1,2,4) fr' le lim] unfolding u len unfolding off_def .
qed

text \<open>The entries as a map, after an entry went into a free slot.\<close>

lemma find_snoc: "find P (xs @ [x]) = (case find P xs of None \<Rightarrow> if P x then Some x else None | Some y \<Rightarrow> Some y)"
  by (induction xs) auto

lemma find_new_miss:
  assumes "n \<le> m" "\<And>j. j < max m (Suc n) \<Longrightarrow> Q j = (j \<noteq> n \<and> P j)" "n < m \<Longrightarrow> \<not> P n"
  shows "find Q [0..<max m (Suc n)] = find P [0..<m]"
proof -
  have Q: "find Q [0..<m] = find P [0..<m]" using assms by (intro find_cong) (auto simp: less_max_iff_disj)
  show ?thesis
  proof (cases "n < m")
    case True
    then have "max m (Suc n) = m" by simp
    then show ?thesis using Q by simp
  next
    case False
    then have "max m (Suc n) = Suc m" "\<not> Q m" using assms(1) assms(2) [of m] by simp_all
    then show ?thesis using Q by (simp add: find_snoc split: option.split)
  qed
qed

lemma dir_map_new:
  assumes e: "dir_entries J = max (dir_entries I) (Suc n)" "n \<le> dir_entries I"
    and at: "\<And>m. m < dir_entries J \<Longrightarrow> dirent_at t J m = (if m = n then new_dirent name inum else dirent_at s I m)"
    and fr: "n < dir_entries I \<Longrightarrow> de_inum (dirent_at s I n) = 0"
    and none: "dir_find s I name = None" and nz: "ucast inum \<noteq> (0 :: u16)"
  shows "dir_map t J nm = (if namecmp nm name = 0 then Some (ucast inum) else dir_map s I nm)"
proof -
  let ?P = "\<lambda>j. hit nm (dirent_at s I j)" and ?Q = "\<lambda>j. hit nm (dirent_at t J j)"
  have Q: "?Q j = (if j = n then namecmp nm name = 0 else ?P j)" if "j < max (dir_entries I) (Suc n)" for j
    using at [of j] that hit_new [OF nz, of nm name] by (simp add: e)
  have P: "\<not> ?P n" if "n < dir_entries I" using fr [OF that] by (simp add: hit_def)
  show ?thesis
  proof (cases "namecmp nm name = 0")
    case True
    then have "hit nm d = hit name d" for d by (simp add: hit_def namecmp_0)
    then have no: "\<not> ?P j" if "j < dir_entries I" for j using none that by (auto simp: dir_find_def find_None_iff)
    have "find ?Q [0..<max (dir_entries I) (Suc n)] = Some n"
      using True Q no e(2) unfolding find_Some_iff by (intro exI [of _ n]) auto
    moreover have "dirent_at t J n = new_dirent name inum" using at [of n] by (simp add: e)
    ultimately show ?thesis using True by (simp add: dir_map_def dir_find_def e(1) new_dirent_def)
  next
    case False
    then have df: "dir_find t J nm = dir_find s I nm"
      using find_new_miss [OF e(2), of ?Q ?P] Q P by (auto simp: dir_find_def e(1))
    have "dirent_at t J k = dirent_at s I k" if "dir_find s I nm = Some k" for k
    proof -
      have k: "k < dir_entries I" "?P k" using find_upt_Some [OF that [unfolded dir_find_def]] by auto
      then have "k \<noteq> n" using P by auto
      then show ?thesis using at [of k] k(1) by (simp add: e)
    qed
    then show ?thesis using False by (cases "dir_find s I nm") (simp_all add: dir_map_def df)
  qed
qed

text \<open>
  C35. \<open>dirlink\<close> (fs.c) of a name that is not in the directory adds it: afterwards the directory maps
  the name, and every name equal to it in its first \<open>DIRSIZ\<close> bytes, to the given inode, and every other name to
  what it mapped it to before.
\<close>

theorem dirlink_adds:
  assumes "room 7 {} s" and "dir_ok dp s" and "2 \<le> card (free_blocks s)"
    and "dir_map s (ino s dp) name = None" and "ucast inum \<noteq> (0 :: u16)"
    and "unat (i_size (ino s dp)) + DIRENT_SIZE \<le> MAXFILE * BSIZE"
  shows "\<exists>t. dirlink dp name inum s = Ok 0 t \<and> dir_ok dp t \<and>
    dir_map t (ino t dp) = (\<lambda>nm. if namecmp nm name = 0 then Some (ucast inum) else dir_map s (ino s dp) nm)"
proof -
  let ?I = "ino s dp" and ?d = "new_dirent name inum" and ?n = "free_slot s (ino s dp)"
  have none: "dir_find s ?I name = None" using assms(4) by (simp add: dir_map_def)
  obtain t1 where t1: "room 7 {} t1" "view t1 = view s" "lframe s t1" "dirlookup dp name s = Ok None t1"
    using dirlookup_run [OF assms(1,2), of name] none by auto
  note s1 = dir_same [OF t1(3,2)] lframe_file [OF t1(3,2)]
  have ok1: "dir_ok dp t1" by (rule s1(4) [OF assms(2)])
  note D = dir_okD [OF ok1, unfolded s1]
  have off: "dir_offsets (unat (i_size ?I)) = map (\<lambda>k. k * DIRENT_SIZE) [0..<dir_entries ?I]" by (rule D(6))
  obtain t2 where t2: "room 7 {} t2" "view t2 = view t1" "lframe t1 t2"
      "dirlink_from (map (\<lambda>n. n * DIRENT_SIZE) [0..<dir_entries ?I]) dp (dir_entries ?I * DIRENT_SIZE) t1 = Ok (?n * DIRENT_SIZE) t2"
    using dirlink_from_run [OF t1(1) ok1, of "[0..<dir_entries ?I]" "dir_entries ?I"] by (auto simp: s1 free_slot_def)
  note s2 = dir_same [OF t2(3,2), unfolded s1] lframe_file [OF t2(3,2), unfolded s1]
  have ok2: "dir_ok dp t2" using s2(4) ok1 by blast
  have fr: "free_blocks t2 = free_blocks s"
    using same_view [OF lframe_trans [OF t1(3) t2(3)]] t1(2) t2(2) more_kino [OF lframe_trans [OF t1(3) t2(3)]]
    by (simp add: free_blocks_def)
  have n: "?n \<le> dir_entries ?I" by (rule free_slot_le)
  have lim: "?n * DIRENT_SIZE + DIRENT_SIZE \<le> MAXFILE * BSIZE"
  proof -
    have "?n * DIRENT_SIZE \<le> dir_entries ?I * DIRENT_SIZE" using n by (rule mult_le_mono1)
    then show ?thesis using assms(6) D(5) by linarith
  qed
  have n2: "?n \<le> dir_entries (ino t2 dp)" "2 \<le> card (free_blocks t2)" using n assms(3) by (simp_all add: s2 fr)
  obtain t where t: "writei dp (enc_dirent ?d) (of_nat (?n * DIRENT_SIZE)) t2 = Ok (int DIRENT_SIZE) t"
      "wrote_file dp (?n * DIRENT_SIZE) (enc_dirent ?d) t2 t"
    using write_dirent [OF t2(1) ok2 n2(1) lim new_dirent_wf n2(2)] by blast
  note W = wrote_dirent [OF t(2) new_dirent_wf ok2, unfolded s2, OF n lim]
  have "dirlink dp name inum s = Ok 0 t"
    using t1(4) t2(4) t(1) by (simp add: dirlink_def s1 off)
  moreover have "dir_map t (ino t dp) nm = (if namecmp nm name = 0 then Some (ucast inum) else dir_map s ?I nm)" for nm
    using free_slot_free by (intro dir_map_new [OF W(2) n W(3) _ none assms(5)]) auto
  ultimately show ?thesis using W(1) by auto
qed

text \<open>
  C36. \<open>dirlookup\<close> (fs.c) in a directory returns the inode the directory maps the name to, with a reference to
  its cache entry, and the offset of the entry, and returns 0 exactly for a name that is not there. The
  contents of the disk are the same afterwards.
\<close>

theorem dirlookup_finds:
  assumes "room 0 {} s" and "dir_ok dp s" and "icache_ok s" and "\<exists>i<NINODE. i_ref (ino s i) = 0"
  shows "\<exists>t r. dirlookup dp name s = Ok r t \<and> view t = view s \<and> icache_ok t \<and>
    (case dir_find s (ino s dp) name of
       None \<Rightarrow> r = None \<and> dir_map s (ino s dp) name = None
     | Some n \<Rightarrow> \<exists>ip inum. r = Some (ip, n * DIRENT_SIZE) \<and> dir_map s (ino s dp) name = Some inum \<and>
         cached 1 (ucast inum) (ino t ip))"
proof -
  obtain u where u: "room 0 {} u" "view u = view s" "lframe s u" "dirlookup dp name s =
      (case dir_find s (ino s dp) name of
         None \<Rightarrow> Ok None u
       | Some n \<Rightarrow> bnd (iget 1 (ucast (de_inum (dirent_at s (ino s dp) n)))) (\<lambda>ip. ret (Some (ip, n * DIRENT_SIZE))) u)"
    using dirlookup_run [OF assms(1,2), of name] by blast
  have iu: "ino u = ino s" by (rule lframe_file [OF u(3,2)])
  have ic: "icache_ok u" using assms(3) more_kino [OF u(3)] by (simp add: icache_ok_def iu)
  show ?thesis
  proof (cases "dir_find s (ino s dp) name")
    case None
    then show ?thesis using u ic by (auto simp: dir_map_def)
  next
    case (Some n)
    let ?j = "ucast (de_inum (dirent_at s (ino s dp) n)) :: u32"
    have "running u" using u(1) by (simp add: room_def tx_def)
    moreover have "\<exists>i<NINODE. cached 1 ?j (ino u i) \<or> i_ref (ino u i) = 0" using assms(4) by (auto simp: iu)
    ultimately obtain ip where ip: "iget 1 ?j u = Ok ip (upd_ino ip (iget_upd 1 ?j) u)" "ip < NINODE"
        "cached 1 ?j (ino u ip) \<or> i_ref (ino u ip) = 0 \<and> (\<forall>k<NINODE. \<not> cached 1 ?j (ino u k))"
      using iget_run [OF _ ic] by blast
    note v = iget_upd_ok [OF ic ip(2,3)] room_upd_ino [OF u(1), of ip "iget_upd 1 ?j"]
    have "dirlookup dp name s = Ok (Some (ip, n * DIRENT_SIZE)) (upd_ino ip (iget_upd 1 ?j) u)"
      using u(4) Some ip(1) by simp
    then show ?thesis using v(1,2,6) u(2) Some by (auto simp: dir_map_def)
  qed
qed

section \<open>Examples\<close>

text \<open>An empty directory on the example disk.\<close>

lemma demo_kind_ok: "file_ok 0 (fs_state demo_disk [demo_inode\<lparr>i_type := ty\<rparr>] x)"
proof -
  let ?s = "fs_state demo_disk [demo_inode\<lparr>i_type := ty\<rparr>] x" and ?t = "fs_state demo_disk [demo_inode] x"
  have at: "ino ?s 0 = demo_inode\<lparr>i_type := ty\<rparr>" "ino ?t 0 = demo_inode" by (simp_all add: ino_def)
  have v: "view ?s = demo_disk" "view ?t = demo_disk" by (simp_all add: fs_state_room [OF demo_disk_length le0])
  have bp: "bptr ?s (demo_inode\<lparr>i_type := ty\<rparr>) = bptr ?t demo_inode"
    by (simp add: bptr_def baddr_def fun_eq_iff v)
  have us: "used ?s = used ?t" "fs_size ?s = fs_size ?t" "data_blocks ?s = data_blocks ?t"
    by (simp_all add: used_def fun_eq_iff v fs_size_def data_blocks_def fs_state_region)
  show ?thesis
    using demo_file_ok [of x] by (simp add: file_ok_def inode_ok_def bitmap_ok_def at bp us fs_state_region)
qed

definition demo_dir :: inode where
  "demo_dir = demo_inode\<lparr>i_type := T_DIR\<rparr>"

lemma demo_dir_ok: "dir_ok 0 (fs_state demo_disk [demo_dir] x)" "dir_entries demo_dir = 0"
proof -
  have at: "ino (fs_state demo_disk [demo_dir] x) 0 = demo_dir" by (simp add: ino_def)
  show "dir_ok 0 (fs_state demo_disk [demo_dir] x)"
    using demo_kind_ok [of T_DIR x] unfolding dir_ok_def mapped_def at
    by (simp add: demo_dir_def) (simp add: demo_inode_def zero_inode_def)
  show "dir_entries demo_dir = 0" by (simp add: dir_entries_def demo_dir_def demo_inode_def zero_inode_def)
qed

theorem dirlink_adds_witness:
  "\<exists>t. dirlink 0 [97, 98] 9 (fs_state demo_disk [demo_dir] (demo_cons ()) :: kcons) = Ok 0 t \<and>
     dir_map t (ino t 0) [97, 98] = Some 9 \<and> dir_map t (ino t 0) [97] = None"
proof -
  let ?s = "fs_state demo_disk [demo_dir] (demo_cons ()) :: kcons"
  have at: "ino ?s 0 = demo_dir" by (simp add: ino_def)
  have none: "dir_map ?s (ino ?s 0) nm = None" for nm
    unfolding at by (simp add: dir_map_def dir_find_def demo_dir_ok(2))
  have "room 7 {} ?s" by (rule fs_state_room [OF demo_disk_length]) simp
  moreover have "2 \<le> card (free_blocks ?s)" using fs_demo_ready(2) [of 0 "[demo_dir]" "demo_cons ()"] by simp
  moreover have "unat (i_size (ino ?s 0)) + DIRENT_SIZE \<le> MAXFILE * BSIZE" unfolding at
    by (simp add: demo_dir_def demo_inode_def zero_inode_def DIRENT_SIZE_def MAXFILE_def NDIRECT_def NINDIRECT_def BSIZE_def)
  ultimately obtain t where t: "dirlink 0 [97, 98] 9 ?s = Ok 0 t"
      "dir_map t (ino t 0) = (\<lambda>nm. if namecmp nm [97, 98] = 0 then Some (ucast (9 :: u32)) else dir_map ?s (ino ?s 0) nm)"
    using dirlink_adds [of ?s 0 "[97, 98]" 9] demo_dir_ok(1) [of "demo_cons ()"] none by auto
  have "namecmp [97, 98] [97, 98] = 0" "namecmp [97] [97, 98] \<noteq> 0"
    by (simp_all add: namecmp_0 cstr_of_cptr DIRSIZ_def)
  then show ?thesis using t none by auto
qed

text \<open>
  A disk with two inodes: the root directory, whose entries are \<open>.\<close> and \<open>ab\<close>, in block 57, and the
  empty file \<open>ab\<close>.
\<close>

definition root_block :: bytes where
  "root_block = enc_dirent (new_dirent dot 1) @ enc_dirent (new_dirent [97, 98] 7) @ replicate 480 0"

definition root_dinode :: dinode where
  "root_dinode = zero_dinode\<lparr>d_perm := 63, d_type := T_DIR, d_nlink := 1, d_size := 32,
     d_addrs := 57 # replicate NDIRECT 0, d_owner := 1\<rparr>"

definition file_dinode :: dinode where
  "file_dinode = zero_dinode\<lparr>d_perm := 52, d_type := T_FILE, d_nlink := 1, d_owner := 1\<rparr>"

definition tree_disk :: "u32 \<Rightarrow> bytes" where
  "tree_disk bn =
     (if bn = 58 then demo_bitmap else if bn = 57 then root_block
      else if bn = 32 then put_dinode 7 file_dinode (put_dinode 1 root_dinode (replicate BSIZE 0))
      else replicate BSIZE 0)"

lemma tree_wf [simp]: "wf_dinode root_dinode" "wf_dinode file_dinode"
  by (simp_all add: wf_dinode_def root_dinode_def file_dinode_def zero_dinode_def)

lemma tree_disk_like [simp]: "demo_like tree_disk"
proof -
  have "length root_block = BSIZE"
    using c_dirent.enc_length [OF new_dirent_wf] by (simp add: root_block_def DIRENT_SIZE_def BSIZE_def)
  moreover have "length demo_bitmap = BSIZE" by (simp add: demo_bitmap_def BSIZE_def)
  ultimately show ?thesis by (simp add: demo_like_def tree_disk_def length_put_dinode)
qed

lemma tree_view [simp]: "view (fs_state tree_disk ic x) = tree_disk"
  using tree_disk_like unfolding demo_like_def by (intro fs_state_room(2) [OF _ le0]) simp

lemma tree_dinodes:
  "dinode_at (fs_state tree_disk ic x) 1 = root_dinode" "dinode_at (fs_state tree_disk ic x) 7 = file_dinode"
proof -
  have B: "IBLOCK 1 demo_sb = 32" "IBLOCK 7 demo_sb = 32" "unat (1 :: u32) mod IPB \<noteq> unat (7 :: u32) mod IPB"
    by (simp_all add: IBLOCK_def demo_sb_def IPB_def BSIZE_def DINODE_SIZE_def)
  have "dinode_at (fs_state tree_disk ic x) j =
      dinode_in (put_dinode 7 file_dinode (put_dinode 1 root_dinode (replicate BSIZE 0))) j" if "j = 1 \<or> j = 7" for j
    using that B by (auto simp: dinode_at_def tree_disk_def)
  then show "dinode_at (fs_state tree_disk ic x) 1 = root_dinode" "dinode_at (fs_state tree_disk ic x) 7 = file_dinode"
    using B(3) by (simp_all add: dinode_put_same dinode_put_other length_put_dinode)
qed

lemma one_block_dirent:
  assumes "i_addrs I ! 0 = a" "a \<noteq> 0" "length (view s a) = BSIZE" "k * DIRENT_SIZE + DIRENT_SIZE \<le> BSIZE"
  shows "dirent_at s I k = dec_dirent (sub_arr (k * DIRENT_SIZE) DIRENT_SIZE (view s a))"
proof -
  have "fbyte s I p = view s a ! p" if "p < BSIZE" for p
    using that assms(1,2) by (simp add: fbyte_def fblk_def baddr_def NDIRECT_def)
  then have "map (fbyte s I) [k * DIRENT_SIZE..<k * DIRENT_SIZE + DIRENT_SIZE] =
      sub_arr (k * DIRENT_SIZE) DIRENT_SIZE (view s a)"
    using assms(3,4) by (intro nth_equalityI) (simp_all add: sub_arr_def)
  then show ?thesis by (simp only: dirent_at_def)
qed

text \<open>Any inode with the contents of the root directory maps its two names.\<close>

lemma tree_root_map:
  assumes "dinode_of I = root_dinode"
  shows "dir_find (fs_state tree_disk ic x) I name =
      (if namecmp name dot = 0 then Some 0 else if namecmp name [97, 98] = 0 then Some 1 else None)"
    and "dir_map (fs_state tree_disk ic x) I name =
      (if namecmp name dot = 0 then Some 1 else if namecmp name [97, 98] = 0 then Some 7 else None)"
proof -
  let ?s = "fs_state tree_disk ic x"
  have I: "i_addrs I = 57 # replicate NDIRECT 0" "i_size I = 32" using assms by (auto simp: dinode_of_def root_dinode_def zero_dinode_def)
  have len: "length root_block = BSIZE" "length (enc_dirent (new_dirent nm i)) = DIRENT_SIZE" for nm i
    using c_dirent.enc_length [OF new_dirent_wf] by (simp_all add: root_block_def DIRENT_SIZE_def BSIZE_def)
  have v: "tree_disk 57 = root_block" by (simp add: tree_disk_def)
  have d: "dirent_at ?s I k = dec_dirent (sub_arr (k * DIRENT_SIZE) DIRENT_SIZE root_block)" if "k < 2" for k
    using one_block_dirent [of I 57 ?s k] that len(1) by (simp add: I v DIRENT_SIZE_def BSIZE_def)
  have at: "dirent_at ?s I 0 = new_dirent dot 1" "dirent_at ?s I 1 = new_dirent [97, 98] 7"
    using d [of 0] d [of 1] len(2) c_dirent.dec_enc [OF new_dirent_wf]
    by (simp_all add: root_block_def sub_arr_def)
  have "[0..<dir_entries I] = [0, 1]" by (simp add: dir_entries_def I DIRENT_SIZE_def upt_rec)
  then show f: "dir_find ?s I name =
      (if namecmp name dot = 0 then Some 0 else if namecmp name [97, 98] = 0 then Some 1 else None)"
    using hit_new [of 1 name dot] hit_new [of 7 name "[97, 98]"] at by (simp add: dir_find_def)
  show "dir_map ?s I name =
      (if namecmp name dot = 0 then Some 1 else if namecmp name [97, 98] = 0 then Some 7 else None)"
    using at by (simp add: dir_map_def f new_dirent_def)
qed

lemma tree_root_ok:
  assumes "dinode_of (ino (fs_state tree_disk ic x) dp) = root_dinode" "inode_ok dp (fs_state tree_disk ic x)"
    "i_inum (ino (fs_state tree_disk ic x) dp) = 1"
  shows "dir_ok dp (fs_state tree_disk ic x)"
proof -
  let ?s = "fs_state tree_disk ic x" let ?I = "ino ?s dp"
  have I: "i_addrs ?I = 57 # replicate NDIRECT 0" "i_size ?I = 32" "i_type ?I = T_DIR"
    using assms(1) by (auto simp: dinode_of_def root_dinode_def zero_dinode_def)
  have B: "IBLOCK 1 demo_sb = 32" by (simp add: IBLOCK_def demo_sb_def IPB_def BSIZE_def DINODE_SIZE_def)
  have bp: "bptr ?s ?I n = (if n = 0 then 57 else 0)" for n
    by (simp add: bptr_def baddr_def I nth_Cons' NDIRECT_def MAXFILE_def)
  have "file_ok dp ?s"
    using assms(2) by (simp add: file_ok_def I(1) assms(3) B bp like_ready like_used)
  then show ?thesis by (simp add: dir_ok_def mapped_def I baddr_def DIRENT_SIZE_def MAXFILE_def NDIRECT_def NINDIRECT_def BSIZE_def)
qed

definition root_inode :: inode where
  "root_inode = (load_dinode root_dinode zero_inode)\<lparr>i_dev := 1, i_inum := 1, i_ref := 1, i_valid := True\<rparr>"

definition tree_cache :: "inode list" where
  "tree_cache = root_inode # replicate (NINODE - 1) zero_inode"

lemma tree_cache_at: "i < NINODE \<Longrightarrow> ino (fs_state d tree_cache x) i = (if i = 0 then root_inode else zero_inode)"
  by (simp add: ino_def tree_cache_def nth_Cons')

theorem dirlookup_finds_witness:
  "\<exists>t ip. dirlookup 0 [97, 98] (fs_state tree_disk tree_cache (demo_cons ()) :: kcons) = Ok (Some (ip, 16)) t \<and>
     cached 1 7 (ino t ip)"
proof -
  let ?s = "fs_state tree_disk tree_cache (demo_cons ()) :: kcons"
  have at: "ino ?s 0 = root_inode" "ino ?s 1 = zero_inode" using tree_cache_at [of _ tree_disk "demo_cons ()"] by (simp_all add: NINODE_def)
  have d: "dinode_of (ino ?s 0) = root_dinode" unfolding at by (simp add: root_inode_def dinode_of_def load_dinode_def)
  have "inode_ok 0 ?s" unfolding inode_ok_def at
    by (simp add: root_inode_def tree_cache_def IBLOCK_def demo_sb_def IPB_def BSIZE_def DINODE_SIZE_def fs_state_region)
  then have "dir_ok 0 ?s" using tree_root_ok [OF d] unfolding at by (simp add: root_inode_def)
  moreover have "room 0 {} ?s" using tree_disk_like by (intro fs_state_room) (simp_all add: demo_like_def)
  moreover have "icache_ok ?s"
    using tree_cache_at [of _ tree_disk "demo_cons ()"] by (auto simp: icache_ok_def tree_cache_def zero_inode_def root_inode_def NINODE_def)
  moreover have "\<exists>i<NINODE. i_ref (ino ?s i) = 0" using at(2) by (intro exI [of _ 1]) (simp add: zero_inode_def NINODE_def)
  moreover have nc: "namecmp [97, 98] dot \<noteq> 0" "namecmp [97, 98] [97, 98] = 0" by (simp_all add: namecmp_0 cstr_of_cptr DIRSIZ_def dot_def)
  moreover have "dir_find ?s (ino ?s 0) [97, 98] = Some 1" "dir_map ?s (ino ?s 0) [97, 98] = Some 7"
    using nc by (simp_all add: tree_root_map [OF d])
  ultimately obtain t ip where "dirlookup 0 [97, 98] ?s = Ok (Some (ip, 1 * DIRENT_SIZE)) t" "cached 1 (ucast (7 :: u16)) (ino t ip)"
    using dirlookup_finds [of ?s 0 "[97, 98]"] by auto
  then show ?thesis by (auto simp: DIRENT_SIZE_def)
qed

end
