(* ===== verification/Path.thy ===== *)
theory Path
  imports Dir
begin

text \<open>
  Path names (\<open>skipelem\<close>, \<open>namex\<close>, \<open>namei\<close> and \<open>nameiparent\<close> of \<open>fs.c\<close>). \<open>path_elems\<close> is the list of the
  elements of a path; \<open>resolve\<close> follows them through the directories as they are on the disk, with the
  execute permission every directory on the way must grant. \<open>namei\<close> does the same through
  the inode cache, with locks and reference counts, and gives back all but the reference it returns.
\<close>

section \<open>Elements of a path\<close>

fun split_slash :: "bytes \<Rightarrow> bytes list" where
  "split_slash [] = [[]]"
| "split_slash (c # cs) =
     (if c = SLASH then [] # split_slash cs
      else (c # hd (split_slash cs)) # tl (split_slash cs))"

definition path_elems :: "bytes \<Rightarrow> bytes list" where
  "path_elems path = map (take DIRSIZ) (filter (\<lambda>e. e \<noteq> []) (split_slash path))"

lemma split_slash_ne [simp]: "split_slash p \<noteq> []"
  by (cases p) auto

lemma split_takeWhile:
  "split_slash p = takeWhile (\<lambda>c. c \<noteq> SLASH) p #
     (case dropWhile (\<lambda>c. c \<noteq> SLASH) p of [] \<Rightarrow> [] | c # cs \<Rightarrow> split_slash cs)"
  by (induction p) (auto split: list.splits)

lemma elems_slashes: "path_elems (dropWhile (\<lambda>c. c = SLASH) p) = path_elems p"
  by (induction p) (auto simp: path_elems_def)

lemma skipelem_elems:
  "path_elems path = (case skipelem path of None \<Rightarrow> [] | Some (rest, name) \<Rightarrow> name # path_elems rest)"
proof -
  define p where "p = dropWhile (\<lambda>c. c = SLASH) path"
  define r where "r = dropWhile (\<lambda>c. c \<noteq> SLASH) p"
  have e: "path_elems path = path_elems p" by (simp add: elems_slashes p_def)
  have sk: "skipelem path = (if p = [] then None
      else Some (dropWhile (\<lambda>c. c = SLASH) r, take DIRSIZ (takeWhile (\<lambda>c. c \<noteq> SLASH) p)))"
    by (simp only: skipelem_def Let_def p_def r_def)
  show ?thesis
  proof (cases "p = []")
    case True
    then show ?thesis unfolding e sk by (simp add: path_elems_def)
  next
    case False
    then have "hd p \<noteq> SLASH" unfolding p_def by (rule hd_dropWhile)
    then have ne: "takeWhile (\<lambda>c. c \<noteq> SLASH) p \<noteq> []" using False by (cases p) auto
    have "path_elems p = take DIRSIZ (takeWhile (\<lambda>c. c \<noteq> SLASH) p) # path_elems r"
    proof (cases r)
      case Nil
      then show ?thesis using ne split_takeWhile [of p] by (simp add: path_elems_def flip: r_def)
    next
      case (Cons c cs)
      then have "c = SLASH" using hd_dropWhile [of "\<lambda>c. c \<noteq> SLASH" p] by (simp flip: r_def)
      then show ?thesis using ne Cons split_takeWhile [of p] by (simp add: path_elems_def flip: r_def)
    qed
    then show ?thesis unfolding e sk using False by (simp add: elems_slashes)
  qed
qed

text \<open>
  C37. \<open>skipelem\<close> (fs.c) takes the elements off a path one by one: it fails exactly if the path
  has no element, and otherwise returns the first element, cut to \<open>DIRSIZ\<close> bytes, and a path with
  the remaining ones.
\<close>

theorem skipelem_splits:
  "path_elems path = (case skipelem path of None \<Rightarrow> [] | Some (rest, name) \<Rightarrow> name # path_elems rest)"
  by (rule skipelem_elems)

section \<open>Following a path on the disk\<close>

text \<open>An inode as the disk has it.\<close>

definition dnode :: "'m kino_scheme \<Rightarrow> u32 \<Rightarrow> inode" where
  "dnode s inum = load_dinode (dinode_at s inum) (zero_inode\<lparr>i_dev := 1, i_inum := inum\<rparr>)"

definition searchable :: "inode \<Rightarrow> proc \<Rightarrow> bool" where
  "searchable I p \<longleftrightarrow> i_type I = T_DIR \<and> has_execute_permission I p"

primrec resolve :: "'m kino_scheme \<Rightarrow> proc \<Rightarrow> u32 \<Rightarrow> bytes list \<Rightarrow> u32 option" where
  "resolve s p inum [] = Some inum"
| "resolve s p inum (e # es) =
     (if \<not> searchable (dnode s inum) p then None
      else case dir_map s (dnode s inum) e of
             None \<Rightarrow> None
           | Some j \<Rightarrow> resolve s p (ucast j) es)"

text \<open>The inode of the directory that holds the last element of a path.\<close>

definition resolve_parent :: "'m kino_scheme \<Rightarrow> proc \<Rightarrow> u32 \<Rightarrow> bytes list \<Rightarrow> u32 option" where
  "resolve_parent s p inum es =
     (if es = [] then None
      else case resolve s p inum (butlast es) of
             None \<Rightarrow> None
           | Some j \<Rightarrow> if searchable (dnode s j) p then Some j else None)"

section \<open>File systems that can be walked\<close>

text \<open>The blocks of a file, apart from where its inode is cached.\<close>

definition blocks_ok :: "'m kino_scheme \<Rightarrow> u32 \<Rightarrow> inode \<Rightarrow> bool" where
  "blocks_ok s inum I \<longleftrightarrow> bitmap_ok s \<and> used s 0 \<and> unat (IBLOCK inum (fs_sb s)) \<in> data_blocks s \<and>
     used s (unat (IBLOCK inum (fs_sb s))) \<and> IBLOCK inum (fs_sb s) \<noteq> 0 \<and>
     (\<forall>n\<le>MAXFILE. bptr s I n \<noteq> 0 \<longrightarrow> unat (bptr s I n) \<in> data_blocks s \<and> used s (unat (bptr s I n)) \<and>
        bptr s I n \<noteq> IBLOCK inum (fs_sb s)) \<and>
     (\<forall>m\<le>MAXFILE. \<forall>n\<le>MAXFILE. bptr s I m \<noteq> 0 \<longrightarrow> bptr s I m = bptr s I n \<longrightarrow> m = n)"

lemma file_ok_blocks:
  "file_ok ip s \<longleftrightarrow> inode_ok ip s \<and> length (i_addrs (ino s ip)) = NDIRECT + 1 \<and>
     blocks_ok s (i_inum (ino s ip)) (ino s ip)"
  by (auto simp: file_ok_def blocks_ok_def)

definition dir_node_ok :: "'m kino_scheme \<Rightarrow> u32 \<Rightarrow> bool" where
  "dir_node_ok s inum \<longleftrightarrow> blocks_ok s inum (dnode s inum) \<and>
     unat (i_size (dnode s inum)) mod DIRENT_SIZE = 0 \<and>
     unat (i_size (dnode s inum)) \<le> MAXFILE * BSIZE \<and>
     (\<forall>p<unat (i_size (dnode s inum)). baddr s (dnode s inum) (p div BSIZE) \<noteq> 0)"

text \<open>
  The inodes in \<open>A\<close> are allocated and linked, and their directories are in order and lead to inodes in \<open>A\<close>.
\<close>

definition node_ok :: "u32 set \<Rightarrow> 'm kino_scheme \<Rightarrow> u32 \<Rightarrow> bool" where
  "node_ok A s inum \<longleftrightarrow> i_type (dnode s inum) \<noteq> 0 \<and> i_nlink (dnode s inum) \<noteq> 0 \<and>
     IBLOCK inum (fs_sb s) < disksize s \<and> IBLOCK inum (fs_sb s) \<notin> log_region s \<and>
     (i_type (dnode s inum) = T_DIR \<longrightarrow> dir_node_ok s inum \<and>
        (\<forall>name j. dir_map s (dnode s inum) name = Some j \<longrightarrow> ucast j \<in> A))"

text \<open>A cached inode in use is one of them, and agrees with the disk once it is loaded.\<close>

definition entry_ok :: "u32 set \<Rightarrow> 'm kino_scheme \<Rightarrow> inode \<Rightarrow> bool" where
  "entry_ok A s I \<longleftrightarrow> i_dev I = 1 \<and> i_inum I \<in> A \<and>
     (i_valid I \<longrightarrow> dinode_of I = dinode_at s (i_inum I))"

definition walk_ok :: "u32 set \<Rightarrow> 'm kino_scheme \<Rightarrow> bool" where
  "walk_ok A s \<longleftrightarrow> room 0 {} s \<and> icache_ok s \<and> (\<forall>i. \<not> sl_locked (slocks s (SL_inode i))) \<and>
     (\<forall>i<NINODE. 0 < i_ref (ino s i) \<longrightarrow> entry_ok A s (ino s i)) \<and> (\<forall>n\<in>A. node_ok A s n)"

text \<open>The disk and its contents are the same: so is all that is defined through them.\<close>

definition same_fs :: "'m kino_scheme \<Rightarrow> 'm kino_scheme \<Rightarrow> bool" where
  "same_fs s t \<longleftrightarrow> view t = view s \<and> fsframe s t"

lemma same_fs_refl [simp]: "same_fs s s"
  by (simp add: same_fs_def)

lemma same_fs_trans: "same_fs s t \<Longrightarrow> same_fs t u \<Longrightarrow> same_fs s u"
  using fsframe_trans by (auto simp: same_fs_def)

text \<open>For these the cached inodes do not matter.\<close>

definition same_view :: "'m kino_scheme \<Rightarrow> 'm kino_scheme \<Rightarrow> bool" where
  "same_view s t \<longleftrightarrow> view t = view s \<and> fs_sb t = fs_sb s \<and> disksize t = disksize s \<and>
     log_region t = log_region s"

lemma same_viewD:
  assumes "same_view s t"
  shows "dinode_at t = dinode_at s" "dnode t = dnode s" "dir_map t = dir_map s" "baddr t = baddr s"
    "blocks_ok t = blocks_ok s" "dir_node_ok t = dir_node_ok s" "node_ok A t = node_ok A s"
    "entry_ok A t = entry_ok A s" "resolve t = resolve s" "fs_sb t = fs_sb s"
    "disksize t = disksize s"
proof -
  have v: "view t = view s" and f: "fs_sb t = fs_sb s" "disksize t = disksize s"
    using assms by (simp_all add: same_view_def)
  have db: "data_blocks t = data_blocks s" "fs_size t = fs_size s" "log_region t = log_region s"
    using assms by (simp_all add: same_view_def data_blocks_def fs_size_def)
  show da: "dinode_at t = dinode_at s" by (simp add: dinode_at_def fun_eq_iff v f)
  show dn: "dnode t = dnode s" by (simp add: dnode_def fun_eq_iff da)
  show ba: "baddr t = baddr s" by (simp add: baddr_def fun_eq_iff v)
  have fbl: "fblk t = fblk s" by (simp add: fblk_def fun_eq_iff v ba)
  have fby: "fbyte t = fbyte s" by (simp add: fbyte_def fun_eq_iff fbl)
  have de: "dirent_at t = dirent_at s" by (simp add: dirent_at_def fun_eq_iff fby)
  show dm: "dir_map t = dir_map s" by (simp add: dir_map_def dir_find_def fun_eq_iff de)
  have us: "used t = used s" by (simp add: used_def fun_eq_iff v f)
  have bo: "bitmap_ok t = bitmap_ok s" by (simp add: bitmap_ok_def f us db)
  have bp: "bptr t = bptr s" by (simp add: bptr_def fun_eq_iff ba)
  show bl: "blocks_ok t = blocks_ok s" by (simp add: blocks_ok_def fun_eq_iff f us bo bp db)
  show dk: "dir_node_ok t = dir_node_ok s" by (simp add: dir_node_ok_def fun_eq_iff bl dn ba)
  show "node_ok A t = node_ok A s" by (simp add: node_ok_def fun_eq_iff dn dm dk f db)
  show "entry_ok A t = entry_ok A s" by (simp add: entry_ok_def fun_eq_iff da)
  have "resolve t p i es = resolve s p i es" for p i es
    by (induction es arbitrary: i) (simp_all add: dn dm cong: option.case_cong)
  then show "resolve t = resolve s" by (simp add: fun_eq_iff)
  show "fs_sb t = fs_sb s" "disksize t = disksize s" by (fact f)+
qed

lemma same_fs_view: "same_fs s t \<Longrightarrow> same_view s t"
  by (simp add: same_fs_def same_view_def fsframe_def log_region_def)

lemma same_fs_proc: "same_fs s t \<Longrightarrow> proc_at t = proc_at s"
  by (simp add: same_fs_def fsframe_def)

lemmas same_fsD = same_viewD [OF same_fs_view] same_fs_proc

section \<open>Locking and releasing on the way\<close>

lemma walk_okD:
  assumes "walk_ok A s"
  shows "room 0 {} s" "running s" "icache_ok s" "\<not> sl_locked (slocks s (SL_inode i))"
    "i < NINODE \<Longrightarrow> 0 < i_ref (ino s i) \<Longrightarrow> entry_ok A s (ino s i)" "n \<in> A \<Longrightarrow> node_ok A s n"
    "i < NINODE \<Longrightarrow> i < length (icache s)"
  using assms by (simp_all add: walk_ok_def room_def tx_def icache_ok_def)

lemma walk_restore:
  assumes "walk_ok A s" "same_fs s t" "room 0 {} t" "icache_ok t" "\<And>i. \<not> sl_locked (slocks t (SL_inode i))"
    and "\<And>i. i < NINODE \<Longrightarrow> 0 < i_ref (ino t i) \<Longrightarrow> entry_ok A s (ino t i)"
  shows "walk_ok A t"
  using assms walk_okD(6) [OF assms(1)] by (simp add: walk_ok_def same_fsD [OF assms(2)])

lemma icache_ok_less:
  assumes "icache_ok s" "length (icache t) = length (icache s)" "\<And>i. i < NINODE \<Longrightarrow> 0 \<le> i_ref (ino t i)"
    and "\<And>i. i < NINODE \<Longrightarrow> 0 < i_ref (ino t i) \<Longrightarrow>
      0 < i_ref (ino s i) \<and> i_dev (ino t i) = i_dev (ino s i) \<and> i_inum (ino t i) = i_inum (ino s i)"
  shows "icache_ok t"
  using assms unfolding icache_ok_def by metis

lemma dnode_fields:
  assumes "dinode_of I = dinode_at s inum"
  shows "i_addrs I = i_addrs (dnode s inum)" "i_size I = i_size (dnode s inum)" "i_type I = i_type (dnode s inum)"
    "i_perm I = i_perm (dnode s inum)" "i_owner I = i_owner (dnode s inum)" "i_nlink I = i_nlink (dnode s inum)"
  using assms by (auto simp: dnode_def load_dinode_def dinode_of_def dest: sym)

lemma lock_node:
  assumes "walk_ok A s" "ip < NINODE" "0 < i_ref (ino s ip)"
  shows "\<exists>t. ilock ip s = Ok () t \<and> room 0 {} t \<and> same_fs s t \<and> (\<forall>j. j \<noteq> ip \<longrightarrow> ino t j = ino s j) \<and>
    dinode_of (ino t ip) = dinode_at s (i_inum (ino s ip)) \<and> i_ref (ino t ip) = i_ref (ino s ip) \<and>
    i_dev (ino t ip) = 1 \<and> i_inum (ino t ip) = i_inum (ino s ip) \<and> holds (SL_inode ip) t \<and>
    (\<forall>j. j \<noteq> ip \<longrightarrow> \<not> sl_locked (slocks t (SL_inode j)))"
proof -
  let ?I = "ino s ip"
  note W = walk_okD [OF assms(1)]
  have e: "i_dev ?I = 1" "i_inum ?I \<in> A" "i_valid ?I \<longrightarrow> dinode_of ?I = dinode_at s (i_inum ?I)"
    using W(5) [OF assms(2,3)] by (simp_all add: entry_ok_def)
  have n: "i_type (dnode s (i_inum ?I)) \<noteq> 0" "IBLOCK (i_inum ?I) (fs_sb s) < disksize s"
    "IBLOCK (i_inum ?I) (fs_sb s) \<notin> log_region s"
    using W(6) [OF e(2)] by (simp_all add: node_ok_def)
  have "inode_ok ip s" using W(7) [OF assms(2)] assms(3) e(1) n(2,3) by (simp add: inode_ok_def)
  moreover have "i_type (loaded ip s) \<noteq> 0 \<or> i_valid ?I" using n(1) by (simp add: loaded_def dnode_def load_dinode_def)
  ultimately obtain t where t: "ilock ip s = Ok () t" "room 0 {} t" "view t = view s" "fsframe s t" "ino t ip = loaded ip s"
      "\<forall>j. j \<noteq> ip \<longrightarrow> ino t j = ino s j" "holds (SL_inode ip) t"
      "\<forall>j. j \<noteq> ip \<longrightarrow> slocks t (SL_inode j) = slocks s (SL_inode j)"
    using ilock_run [OF W(1), of ip] W(4) by auto
  have "dinode_of (loaded ip s) = dinode_at s (i_inum ?I)"
    using e(3) by (simp add: loaded_def) (simp add: dinode_of_def load_dinode_def)
  moreover have "i_ref (loaded ip s) = i_ref ?I" "i_dev (loaded ip s) = 1" "i_inum (loaded ip s) = i_inum ?I"
    using e(1) by (simp_all add: loaded_def load_dinode_def)
  ultimately show ?thesis using t W(4) by (auto simp: same_fs_def)
qed

text \<open>Releasing a reference of an inode that is still linked.\<close>

lemma put_node:
  assumes "room 0 {} s" "\<not> sl_locked (slocks s (SL_inode ip))" "ip < length (icache s)"
    and "i_valid (ino s ip) \<longrightarrow> i_nlink (ino s ip) \<noteq> 0"
  shows "\<exists>t. iput ip s = Ok () t \<and> room 0 {} t \<and> same_fs s t \<and>
    (\<forall>j. ino t j = (if j = ip then (ino s ip)\<lparr>i_ref := i_ref (ino s ip) - 1\<rparr> else ino s j)) \<and>
    (\<forall>j. sl_locked (slocks t (SL_inode j)) = sl_locked (slocks s (SL_inode j)))"
proof -
  let ?u = "lock_for (SL_inode ip) s" let ?v = "unlock (SL_inode ip) ?u"
  let ?t = "upd_ino ip (\<lambda>I. I\<lparr>i_ref := i_ref I - 1\<rparr>) ?v"
  have run: "running s" using assms(1) by (simp add: room_def tx_def)
  note u = room_lock [OF assms(1), of ip] and v = room_unlock [OF room_lock(1) [OF assms(1)], of ip ip]
  note t = room_upd_ino [OF v(1), of ip "\<lambda>I. I\<lparr>i_ref := i_ref I - 1\<rparr>"]
  have "fsframe s ?t"
    using fsframe_trans [OF fsframe_lock fsframe_trans [OF fsframe_unlock fsframe_upd_ino]] run by simp
  then have fs: "same_fs s ?t" using t(2) v(2) u(2) by (simp add: same_fs_def)
  have ic: "icache ?v = icache s" by (simp add: more_unlock more_lock)
  then have iv: "ino ?v = ino s" by (simp add: ino_def fun_eq_iff)
  have "ino ?t j = (if j = ip then (ino s ip)\<lparr>i_ref := i_ref (ino s ip) - 1\<rparr> else ino s j)" for j
    using ino_upd_ino [of ip ?v] assms(3) by (simp add: ic iv)
  moreover have "sl_locked (slocks ?t (SL_inode j)) = sl_locked (slocks s (SL_inode j))" for j
    using assms(2) by simp
  moreover have "iput ip s = Ok () ?t" using assms(4) by (intro iput_run [OF run assms(2)]) auto
  ultimately show ?thesis using t(1) fs by blast
qed

lemma unlockput_node:
  assumes "room 0 {} s" "holds (SL_inode ip) s" "ip < length (icache s)" "0 < i_ref (ino s ip)"
    and "i_nlink (ino s ip) \<noteq> 0" "\<And>j. j \<noteq> ip \<Longrightarrow> \<not> sl_locked (slocks s (SL_inode j))"
  shows "\<exists>t. iunlockput ip s = Ok () t \<and> room 0 {} t \<and> same_fs s t \<and>
    (\<forall>j. ino t j = (if j = ip then (ino s ip)\<lparr>i_ref := i_ref (ino s ip) - 1\<rparr> else ino s j)) \<and>
    (\<forall>j. \<not> sl_locked (slocks t (SL_inode j)))"
proof -
  let ?u = "unlock (SL_inode ip) s"
  have run: "running s" using assms(1) by (simp add: room_def tx_def)
  note u = room_unlock [OF assms(1), of ip]
  have ul: "iunlock ip s = Ok () ?u" using assms(2,4) by (intro iunlock_run [OF run]) auto
  have lk: "\<not> sl_locked (slocks ?u (SL_inode j))" for j using assms(6) by simp
  have iu: "ino ?u = ino s" "icache ?u = icache s" by (simp_all add: ino_def fun_eq_iff more_unlock)
  obtain t where t: "iput ip ?u = Ok () t" "room 0 {} t" "same_fs ?u t"
      "\<forall>j. ino t j = (if j = ip then (ino s ip)\<lparr>i_ref := i_ref (ino s ip) - 1\<rparr> else ino s j)"
      "\<forall>j. sl_locked (slocks t (SL_inode j)) = sl_locked (slocks ?u (SL_inode j))"
    using put_node [OF u(1) lk] assms(3,5) unfolding iu by blast
  have "same_fs s t" using same_fs_trans [OF _ t(3)] u(2) fsframe_unlock [OF run] by (simp add: same_fs_def)
  then show ?thesis using t lk ul by (auto simp: iunlockput_def)
qed

section \<open>One element\<close>

text \<open>The entry \<open>ip\<close> holds one reference more than \<open>R\<close> counts.\<close>

definition refs :: "'m kino_scheme \<Rightarrow> (nat \<Rightarrow> int) \<Rightarrow> nat option \<Rightarrow> bool" where
  "refs s R ip \<longleftrightarrow> (\<forall>i. i_ref (ino s i) = R i + (if Some i = ip then 1 else 0))"

lemma addrs_cong:
  assumes "i_addrs I = i_addrs J"
  shows "baddr s I = baddr s J" "bptr s I = bptr s J" "blocks_ok s n I = blocks_ok s n J"
    "dirent_at s I = dirent_at s J"
proof -
  show ba: "baddr s I = baddr s J" by (simp add: baddr_def assms fun_eq_iff)
  show bp: "bptr s I = bptr s J" by (simp add: bptr_def ba assms fun_eq_iff)
  show "blocks_ok s n I = blocks_ok s n J" by (simp only: blocks_ok_def bp)
  have "fbyte s I = fbyte s J" by (simp add: fbyte_def fblk_def ba fun_eq_iff)
  then show "dirent_at s I = dirent_at s J" by (intro ext) (simp only: dirent_at_def)
qed

lemma locked_dir:
  assumes w: "walk_ok A s" and ip: "ip < NINODE" "0 < i_ref (ino s ip)" and ty: "i_type (dnode s (i_inum (ino s ip))) = T_DIR"
    and t: "same_fs s t" "dinode_of (ino t ip) = dinode_at s (i_inum (ino s ip))" "i_inum (ino t ip) = i_inum (ino s ip)"
      "i_dev (ino t ip) = 1" "i_ref (ino t ip) = i_ref (ino s ip)"
  shows "dir_ok ip t" "dir_map t (ino t ip) = dir_map s (dnode s (i_inum (ino s ip)))"
proof -
  let ?n = "i_inum (ino s ip)" let ?J = "dnode s ?n"
  note W = walk_okD [OF w] and F = dnode_fields [OF t(2)] and S = same_fsD [OF t(1)]
  have "?n \<in> A" using W(5) [OF ip] by (simp add: entry_ok_def)
  then have nk: "node_ok A s ?n" by (rule W(6))
  then have d: "dir_node_ok s ?n" "IBLOCK ?n (fs_sb s) < disksize s" "IBLOCK ?n (fs_sb s) \<notin> log_region s" using ty by (simp_all add: node_ok_def)
  note C = addrs_cong [OF F(1)]
  have bl: "blocks_ok t ?n (ino t ip)" using d(1) by (simp add: C(3) S(5) dir_node_ok_def)
  have len: "length (i_addrs (ino t ip)) = NDIRECT + 1"
    by (simp add: F dnode_def load_dinode_def dinode_at_def dinode_in_def dec_dinode_def length_dec32s)
  have "inode_ok ip t"
    using ip W(7) [OF ip(1)] t d(2,3) by (simp add: inode_ok_def S same_fs_def fsframe_def log_region_def)
  then have "file_ok ip t" using bl len t(3) by (simp add: file_ok_blocks)
  then show "dir_ok ip t"
    using d(1) ty by (simp add: dir_ok_def mapped_def dir_node_ok_def C(1) S(4) F(2,3))
  have "dir_map t (ino t ip) = dir_map t ?J"
    by (simp add: dir_map_def dir_find_def dir_entries_def C(4) F(2) fun_eq_iff)
  then show "dir_map t (ino t ip) = dir_map s ?J" by (simp add: S)
qed

text \<open>Releasing a locked directory after a search that may have taken a reference to another inode.\<close>

lemma leave_node:
  assumes w: "walk_ok A s" and ip: "ip < NINODE" "i_inum (ino s ip) \<in> A"
    and t: "room 0 {} t" "same_fs s t" "icache_ok t" "holds (SL_inode ip) t" "0 < i_ref (ino t ip)"
      "\<And>j. j \<noteq> ip \<Longrightarrow> \<not> sl_locked (slocks t (SL_inode j))"
      "dinode_of (ino t ip) = dinode_at s (i_inum (ino s ip))"
      "\<And>j. j < NINODE \<Longrightarrow> 0 < i_ref (ino t j) \<Longrightarrow> entry_ok A s (ino t j)"
  shows "\<exists>u. iunlockput ip t = Ok () u \<and> walk_ok A u \<and> same_fs s u \<and>
    (\<forall>j. ino u j = (if j = ip then (ino t ip)\<lparr>i_ref := i_ref (ino t ip) - 1\<rparr> else ino t j))"
proof -
  note W = walk_okD [OF w] and F = dnode_fields [OF t(7)]
  have "i_nlink (ino t ip) \<noteq> 0" using W(6) [OF ip(2)] by (simp add: F node_ok_def)
  moreover have len: "ip < length (icache t)" using t(3) ip(1) by (simp add: icache_ok_def)
  ultimately obtain u where u: "iunlockput ip t = Ok () u" "room 0 {} u" "same_fs t u"
      "\<forall>j. ino u j = (if j = ip then (ino t ip)\<lparr>i_ref := i_ref (ino t ip) - 1\<rparr> else ino t j)"
      "\<forall>j. \<not> sl_locked (slocks u (SL_inode j))"
    using unlockput_node [OF t(1,4)] t(5,6) by blast
  have fs: "same_fs s u" using same_fs_trans [OF t(2) u(3)] .
  have "icache_ok u"
    using t(3,5) u(3) by (intro icache_ok_less [OF t(3)]) (auto simp: u(4) icache_ok_def same_fs_def fsframe_def)
  moreover have "entry_ok A s (ino u j)" if "j < NINODE" "0 < i_ref (ino u j)" for j
    using t(8) [OF that(1)] that(2) t(5) by (auto simp: u(4) entry_ok_def dinode_of_def split: if_splits)
  ultimately have "walk_ok A u" using walk_restore [OF w fs u(2)] u(5) by blast
  then show ?thesis using u(1,4) fs by blast
qed

text \<open>The state with the inode \<open>ip\<close> locked and loaded, and nothing else changed since \<open>s\<close>.\<close>

definition at_node :: "'m kino_scheme \<Rightarrow> nat \<Rightarrow> 'm kino_scheme \<Rightarrow> bool" where
  "at_node s ip t \<longleftrightarrow> room 0 {} t \<and> same_fs s t \<and> icache_ok t \<and> holds (SL_inode ip) t \<and>
     (\<forall>j. j \<noteq> ip \<longrightarrow> \<not> sl_locked (slocks t (SL_inode j)) \<and> ino t j = ino s j) \<and>
     dinode_of (ino t ip) = dinode_at s (i_inum (ino s ip)) \<and> i_ref (ino t ip) = i_ref (ino s ip) \<and>
     i_dev (ino t ip) = 1 \<and> i_inum (ino t ip) = i_inum (ino s ip)"

lemma at_nodeD:
  assumes "at_node s ip t"
  shows "room 0 {} t" "running t" "same_fs s t" "icache_ok t" "holds (SL_inode ip) t"
    "j \<noteq> ip \<Longrightarrow> \<not> sl_locked (slocks t (SL_inode j))" "j \<noteq> ip \<Longrightarrow> ino t j = ino s j"
    "dinode_of (ino t ip) = dinode_at s (i_inum (ino s ip))" "i_ref (ino t ip) = i_ref (ino s ip)"
    "i_dev (ino t ip) = 1" "i_inum (ino t ip) = i_inum (ino s ip)" "i_ref (ino t k) = i_ref (ino s k)"
  using assms by (cases "k = ip"; simp add: at_node_def room_def tx_def)+

lemma lock_at:
  assumes "walk_ok A s" "ip < NINODE" "0 < i_ref (ino s ip)"
  shows "\<exists>t. ilock ip s = Ok () t \<and> at_node s ip t"
proof -
  obtain t where t: "ilock ip s = Ok () t" "room 0 {} t" "same_fs s t" "\<forall>j. j \<noteq> ip \<longrightarrow> ino t j = ino s j"
      "dinode_of (ino t ip) = dinode_at s (i_inum (ino s ip))" "i_ref (ino t ip) = i_ref (ino s ip)"
      "i_dev (ino t ip) = 1" "i_inum (ino t ip) = i_inum (ino s ip)" "holds (SL_inode ip) t"
      "\<forall>j. j \<noteq> ip \<longrightarrow> \<not> sl_locked (slocks t (SL_inode j))"
    using lock_node [OF assms] by blast
  note W = walk_okD [OF assms(1)]
  have "i_dev (ino s ip) = 1" using W(5) [OF assms(2,3)] by (simp add: entry_ok_def)
  then have "i_ref (ino t i) = i_ref (ino s i) \<and> i_dev (ino t i) = i_dev (ino s i) \<and> i_inum (ino t i) = i_inum (ino s i)" for i
    using t by (cases "i = ip") auto
  moreover have "length (icache t) = length (icache s)" using t(3) by (simp add: same_fs_def fsframe_def)
  ultimately have "icache_ok t" using W(3) by (intro icache_ok_less [OF W(3)]) (auto simp: icache_ok_def)
  then show ?thesis using t by (simp add: at_node_def)
qed

lemma permits_at:
  assumes "at_node s ip t"
  shows "permits has_execute_permission ip t = Ok (has_execute_permission (dnode s (i_inum (ino s ip))) (proc_at s)) t"
    "i_type (ino t ip) = i_type (dnode s (i_inum (ino s ip)))"
proof -
  note D = at_nodeD [OF assms] and F = dnode_fields [OF at_nodeD(8) [OF assms]]
  have "cur t \<noteq> None" using D(2) by simp
  then show "permits has_execute_permission ip t = Ok (has_execute_permission (dnode s (i_inum (ino s ip))) (proc_at s)) t"
    by (simp add: permits_def has_execute_permission_def has_own_def F same_fs_proc [OF D(3)])
  show "i_type (ino t ip) = i_type (dnode s (i_inum (ino s ip)))" by (rule F)
qed

lemma at_node_lframe:
  assumes "at_node s ip t" "lframe t u" "view u = view t" "room 0 {} u"
  shows "at_node s ip u"
proof -
  note D = at_nodeD [OF assms(1)] and iu = lframe_file(1) [OF assms(2,3)]
  have fs: "same_fs t u" using lframe_fsframe [OF assms(2)] assms(3) by (simp add: same_fs_def)
  have sl: "slocks u (SL_inode j) = slocks t (SL_inode j)" for j by (rule lframe_slocks [OF assms(2)])
  have "icache_ok u" using D(4) more_kino [OF assms(2)] by (simp add: icache_ok_def iu)
  then show ?thesis
    using assms(1,4) same_fs_trans [OF D(3) fs] same_fs_proc [OF fs] by (simp add: at_node_def iu sl holds_def)
qed

lemma entries_at:
  assumes "walk_ok A s" "at_node s ip t" "ip < NINODE" "0 < i_ref (ino s ip)" "j < NINODE" "0 < i_ref (ino t j)"
  shows "entry_ok A s (ino t j)"
  using walk_okD(5) [OF assms(1,5)] walk_okD(5) [OF assms(1,3,4)] at_nodeD [OF assms(2)] assms(6)
  by (cases "j = ip") (auto simp: entry_ok_def)

lemma leave_at:
  assumes "walk_ok A s" "at_node s ip t" "ip < NINODE" "0 < i_ref (ino s ip)"
  shows "\<exists>u. iunlockput ip t = Ok () u \<and> walk_ok A u \<and> same_fs s u \<and>
    (\<forall>j. i_ref (ino u j) = i_ref (ino s j) - (if j = ip then 1 else 0))"
proof -
  note D = at_nodeD [OF assms(2)]
  have A: "i_inum (ino s ip) \<in> A" using walk_okD(5) [OF assms(1,3,4)] by (simp add: entry_ok_def)
  obtain u where "iunlockput ip t = Ok () u" "walk_ok A u" "same_fs s u"
      "\<forall>j. ino u j = (if j = ip then (ino t ip)\<lparr>i_ref := i_ref (ino t ip) - 1\<rparr> else ino t j)"
    using leave_node [OF assms(1,3) A D(1,3,4,5) _ D(6,8) entries_at [OF assms]] D(9) assms(4) by auto
  moreover have "i_ref (ino t j) = i_ref (ino s j)" for j by (rule D(12))
  ultimately show ?thesis by auto
qed

lemma stay_at:
  assumes "walk_ok A s" "at_node s ip t" "ip < NINODE" "0 < i_ref (ino s ip)"
  shows "\<exists>u. iunlock ip t = Ok () u \<and> walk_ok A u \<and> same_fs s u \<and>
    (\<forall>j. i_ref (ino u j) = i_ref (ino s j)) \<and> i_inum (ino u ip) = i_inum (ino s ip)"
proof -
  note D = at_nodeD [OF assms(2)]
  let ?u = "unlock (SL_inode ip) t"
  have ul: "iunlock ip t = Ok () ?u" using assms(4) D(5,9) by (intro iunlock_run [OF D(2)]) auto
  note r = room_unlock [OF D(1), of ip]
  have ic: "icache ?u = icache t" by (simp add: more_unlock)
  then have iu: "ino ?u = ino t" by (simp add: ino_def fun_eq_iff)
  have "same_fs t ?u" using r(2) fsframe_unlock [OF D(2)] by (simp add: same_fs_def)
  then have fs: "same_fs s ?u" using same_fs_trans D(3) by blast
  have "icache_ok ?u" using D(4) by (simp add: icache_ok_def iu ic)
  moreover have "\<not> sl_locked (slocks ?u (SL_inode j))" for j using D(6) by simp
  ultimately have "walk_ok A ?u" using walk_restore [OF assms(1) fs r(1)] entries_at [OF assms] by (simp add: iu)
  then show ?thesis using ul fs D(11,12) by (auto simp: iu)
qed

lemma next_at:
  assumes w: "walk_ok A s" "at_node s ip t" and ip: "ip < NINODE" "0 < i_ref (ino s ip)"
    and d: "i_type (dnode s (i_inum (ino s ip))) = T_DIR" "dir_map s (dnode s (i_inum (ino s ip))) name = Some j"
    and free: "\<exists>i<NINODE. i_ref (ino s i) = 0"
  shows "\<exists>t2 nxt off u. dirlookup ip name t = Ok (Some (nxt, off)) t2 \<and> iunlockput ip t2 = Ok () u \<and> walk_ok A u \<and>
    same_fs s u \<and> nxt < NINODE \<and> 0 < i_ref (ino u nxt) \<and> i_inum (ino u nxt) = ucast j \<and>
    (\<forall>k. i_ref (ino u k) = i_ref (ino s k) - (if k = ip then 1 else 0) + (if k = nxt then 1 else 0))"
proof -
  note D = at_nodeD [OF w(2)] and W = walk_okD [OF w(1)]
  note L = locked_dir [OF w(1) ip d(1) D(3,8,11,10,9)]
  have A: "i_inum (ino s ip) \<in> A" using W(5) [OF ip] by (simp add: entry_ok_def)
  then have jA: "ucast j \<in> A" using W(6) [OF A] d by (auto simp: node_ok_def)
  obtain n where n: "dir_find t (ino t ip) name = Some n" "de_inum (dirent_at t (ino t ip) n) = j"
    using d(2) unfolding L(2) [symmetric] by (auto simp: dir_map_def)
  obtain t1 where t1: "room 0 {} t1" "view t1 = view t" "lframe t t1"
      "dirlookup ip name t = bnd (iget 1 (ucast j)) (\<lambda>ip. ret (Some (ip, n * DIRENT_SIZE))) t1"
    using dirlookup_run [OF D(1) L(1), of name] n by auto
  have a1: "at_node s ip t1" by (rule at_node_lframe [OF w(2) t1(3,2,1)])
  note E = at_nodeD [OF a1]
  have "\<exists>i<NINODE. cached 1 (ucast j) (ino t1 i) \<or> i_ref (ino t1 i) = 0" using free E(12) by auto
  then obtain nxt where x: "iget 1 (ucast j) t1 = Ok nxt (upd_ino nxt (iget_upd 1 (ucast j)) t1)" "nxt < NINODE"
      "cached 1 (ucast j) (ino t1 nxt) \<or> i_ref (ino t1 nxt) = 0 \<and> (\<forall>k<NINODE. \<not> cached 1 (ucast j) (ino t1 k))"
    using iget_run [OF E(2,4)] by blast
  let ?t2 = "upd_ino nxt (iget_upd 1 (ucast j)) t1"
  note u2 = iget_upd_ok [OF E(4) x(2,3)] and r2 = room_upd_ino [OF E(1), of nxt "iget_upd 1 (ucast j)"]
  have same: "ino ?t2 k = (ino t1 k)\<lparr>i_ref := i_ref (ino t1 k) + (if k = nxt then 1 else 0)\<rparr>" if "0 < i_ref (ino t1 k)" for k
    using x(3) that by (auto simp: u2(4) iget_upd_def)
  have ref: "i_ref (ino ?t2 k) = i_ref (ino s k) + (if k = nxt then 1 else 0)" for k
    using x(3) E(12) by (auto simp: u2(4) iget_upd_def)
  have fs: "same_fs s ?t2" using same_fs_trans [OF E(3), of ?t2] r2(2) by (simp add: same_fs_def)
  have "entry_ok A s (ino ?t2 k)" if "k < NINODE" "0 < i_ref (ino ?t2 k)" for k
  proof (cases "0 < i_ref (ino t1 k)")
    case True
    then show ?thesis using entries_at [OF w(1) a1 ip that(1)] by (simp add: same entry_ok_def dinode_of_def)
  next
    case False
    then have "k = nxt" "\<not> cached 1 (ucast j) (ino t1 k)" using that(2) ref [of k] E(12) [of k]
      by (auto simp: cached_def split: if_splits)
    then show ?thesis using jA by (simp add: u2(4) iget_upd_def entry_ok_def)
  qed
  moreover have ips: "0 < i_ref (ino t1 ip)" using ip(2) E(9) by simp
  moreover have "dinode_of (ino ?t2 ip) = dinode_at s (i_inum (ino s ip))" "0 < i_ref (ino ?t2 ip)"
    using E(8) ips by (auto simp: same dinode_of_def)
  moreover have "holds (SL_inode ip) ?t2" using E(5) by (simp add: holds_def)
  ultimately obtain u where u: "iunlockput ip ?t2 = Ok () u" "walk_ok A u" "same_fs s u"
      "\<forall>k. ino u k = (if k = ip then (ino ?t2 ip)\<lparr>i_ref := i_ref (ino ?t2 ip) - 1\<rparr> else ino ?t2 k)"
    using leave_node [OF w(1) ip(1) A r2(1) fs u2(1)] E(6) by auto
  have refu: "i_ref (ino u k) = i_ref (ino s k) - (if k = ip then 1 else 0) + (if k = nxt then 1 else 0)" for k
    by (simp add: u(4) ref E(12))
  have "i_inum (ino u nxt) = ucast j" using u2(2) by (auto simp: u(4) cached_def)
  moreover have "0 < i_ref (ino u nxt)"
    using refu [of nxt] ip(2) W(3) x(2) by (auto simp: icache_ok_def)
  moreover have "dirlookup ip name t = Ok (Some (nxt, n * DIRENT_SIZE)) ?t2" using t1(4) x(1) by simp
  ultimately show ?thesis using u(1,2,3) x(2) refu by blast
qed

section \<open>Whole paths\<close>

definition target :: "'m kino_scheme \<Rightarrow> proc \<Rightarrow> u32 \<Rightarrow> bytes list \<Rightarrow> bool \<Rightarrow> u32 option" where
  "target s p inum es parent = (if parent then resolve_parent s p inum es else resolve s p inum es)"

lemma target_simps:
  "target s p n [] parent = (if parent then None else Some n)"
  "target s p n (e # es) parent =
     (if \<not> searchable (dnode s n) p then None
      else if parent \<and> es = [] then Some n
      else case dir_map s (dnode s n) e of None \<Rightarrow> None | Some j \<Rightarrow> target s p (ucast j) es parent)"
  by (auto simp: target_def resolve_parent_def split: option.splits)

lemma target_same: "same_fs s t \<Longrightarrow> target t = target s"
  by (auto simp: target_def resolve_parent_def fun_eq_iff same_fsD split: option.split)

text \<open>Two free entries in the cache are enough for a path of any length.\<close>

definition spare :: "(nat \<Rightarrow> int) \<Rightarrow> bool" where
  "spare R \<longleftrightarrow> (\<exists>a<NINODE. \<exists>b<NINODE. a \<noteq> b \<and> R a = 0 \<and> R b = 0)"

lemma spare_free: "refs s R (Some ip) \<Longrightarrow> spare R \<Longrightarrow> \<exists>i<NINODE. i_ref (ino s i) = 0"
  unfolding spare_def refs_def by (metis add.right_neutral option.inject)

definition walked :: "u32 set \<Rightarrow> (nat \<Rightarrow> int) \<Rightarrow> 'm kino_scheme \<Rightarrow> u32 option \<Rightarrow> nat option \<Rightarrow> 'm kino_scheme \<Rightarrow> bool" where
  "walked A R s want got t \<longleftrightarrow> walk_ok A t \<and> same_fs s t \<and> refs t R got \<and>
     (case want of None \<Rightarrow> got = None
      | Some j \<Rightarrow> (\<exists>q. got = Some q \<and> q < NINODE \<and> i_inum (ino t q) = j))"

lemma walked_trans: "same_fs s t \<Longrightarrow> walked A R t w g u \<Longrightarrow> walked A R s w g u"
  using same_fs_trans by (auto simp: walked_def)

lemma rest_elems:
  assumes "skipelem path = Some (rest, name)"
  shows "rest = [] \<longleftrightarrow> path_elems rest = []"
proof -
  obtain r where "rest = dropWhile (\<lambda>c. c = SLASH) r" using assms by (auto simp: skipelem_def Let_def split: if_splits)
  then have "rest \<noteq> [] \<Longrightarrow> hd rest \<noteq> SLASH" using hd_dropWhile [of "\<lambda>c. c = SLASH" r] by simp
  then show ?thesis by (cases rest) (auto simp: path_elems_def)
qed

lemma refs_pos: "refs s R (Some ip) \<Longrightarrow> \<forall>i<NINODE. 0 \<le> R i \<Longrightarrow> ip < NINODE \<Longrightarrow> 0 < i_ref (ino s ip)"
  by (simp add: refs_def add_nonneg_pos)

lemma put_at:
  assumes "walk_ok A s" "ip < NINODE" "refs s R (Some ip)" "\<forall>i<NINODE. 0 \<le> R i"
  shows "\<exists>t. iput ip s = Ok () t \<and> walked A R s None None t"
proof -
  note W = walk_okD [OF assms(1)] and pos = refs_pos [OF assms(3,4,2)]
  have e: "i_inum (ino s ip) \<in> A" "i_valid (ino s ip) \<longrightarrow> dinode_of (ino s ip) = dinode_at s (i_inum (ino s ip))"
    using W(5) [OF assms(2) pos] by (simp_all add: entry_ok_def)
  have "i_valid (ino s ip) \<longrightarrow> i_nlink (ino s ip) \<noteq> 0"
    using e(2) W(6) [OF e(1)] dnode_fields(6) [of "ino s ip" s] by (auto simp: node_ok_def)
  then obtain t where t: "iput ip s = Ok () t" "room 0 {} t" "same_fs s t"
      "\<forall>j. ino t j = (if j = ip then (ino s ip)\<lparr>i_ref := i_ref (ino s ip) - 1\<rparr> else ino s j)"
      "\<forall>j. sl_locked (slocks t (SL_inode j)) = sl_locked (slocks s (SL_inode j))"
    using put_node [OF W(1,4) W(7) [OF assms(2)]] by blast
  have "icache_ok t"
    using t(3,4) pos W(3) by (intro icache_ok_less [OF W(3)]) (auto simp: icache_ok_def same_fs_def fsframe_def)
  moreover have "entry_ok A s (ino t j)" if "j < NINODE" "0 < i_ref (ino t j)" for j
    using W(5) [OF that(1)] that(2) pos t(4) by (auto simp: entry_ok_def dinode_of_def split: if_splits)
  ultimately have "walk_ok A t" using walk_restore [OF assms(1) t(3,2)] t(5) W(4) by blast
  moreover have "refs t R None" using assms(3) t(4) by (simp add: refs_def)
  ultimately show ?thesis using t(1,3) by (auto simp: walked_def)
qed

lemma namex_loop_run:
  fixes s :: "'m kcons_scheme"
  assumes "walk_ok A s" "ip < NINODE" "refs s R (Some ip)" "\<forall>i<NINODE. 0 \<le> R i" "spare R"
  shows "\<exists>t got nm. namex_loop path parent name ip s = Ok (got, nm) t \<and>
    walked A R s (target s (proc_at s) (i_inum (ino s ip)) (path_elems path) parent) got t \<and>
    (parent \<longrightarrow> got \<noteq> None \<longrightarrow> nm = last (path_elems path))"
  using assms(1-3)
proof (induction "length path" arbitrary: path name ip s rule: less_induct)
  case less
  let ?n = "i_inum (ino s ip)" let ?J = "dnode s ?n" let ?p = "proc_at s"
  have pos: "0 < i_ref (ino s ip)" by (rule refs_pos [OF less.prems(3) assms(4) less.prems(2)])
  show ?case
  proof (cases "skipelem path")
    case None
    then have e: "path_elems path = []" by (simp add: skipelem_elems [of path])
    show ?thesis
    proof (cases parent)
      case True
      then show ?thesis
        using put_at [OF less.prems assms(4)] None by (auto simp: namex_loop.simps [of path] e target_simps)
    next
      case False
      then show ?thesis
        using None less.prems by (auto simp: namex_loop.simps [of path] e target_simps walked_def)
    qed
  next
    case (Some pr)
    obtain rest nm where sk: "skipelem path = Some (rest, nm)" using Some by (cases pr) auto
    then have e: "path_elems path = nm # path_elems rest" by (simp add: skipelem_elems [of path])
    have shorter: "length rest < length path" using skipelem_shorter [OF sk] .
    obtain t where t: "ilock ip s = Ok () t" "at_node s ip t" using lock_at [OF less.prems(1,2) pos] by blast
    note P = permits_at [OF t(2)]
    have leave: "\<exists>u. iunlockput ip v = Ok () u \<and> walked A R s None None u" if v: "at_node s ip v" for v
      using leave_at [OF less.prems(1) v less.prems(2) pos] less.prems(3) by (auto simp: walked_def refs_def)
    have stay: "\<exists>u. iunlock ip v = Ok () u \<and> walked A R s (Some ?n) (Some ip) u" if v: "at_node s ip v" for v
      using stay_at [OF less.prems(1) v less.prems(2) pos] less.prems by (auto simp: walked_def refs_def)
    show ?thesis
    proof (cases "searchable ?J ?p")
      case False
      then show ?thesis
        using t(1) P leave [OF t(2)] sk
        by (auto simp: namex_loop.simps [of path] e target_simps searchable_def)
    next
      case True
      then have dir: "i_type ?J = T_DIR" "has_execute_permission ?J ?p" by (simp_all add: searchable_def)
      note L = locked_dir [OF less.prems(1,2) pos dir(1) at_nodeD(3,8,11,10,9) [OF t(2)]]
      have run: "namex_loop path parent name ip s =
          (if parent \<and> rest = [] then sq (iunlock ip) (ret (Some ip, nm))
           else bnd (dirlookup ip nm) (\<lambda>found. case found of
              None \<Rightarrow> sq (iunlockput ip) (ret (None, nm))
            | Some (nxt, _) \<Rightarrow> sq (iunlockput ip) (namex_loop rest parent nm nxt))) t"
        using t(1) P sk dir by (simp add: namex_loop.simps [of path])
      consider (last) "parent" "rest = []" | (missing) "\<not> (parent \<and> rest = [])" "dir_map s ?J nm = None"
        | (found) j where "\<not> (parent \<and> rest = [])" "dir_map s ?J nm = Some j" by (cases "dir_map s ?J nm") auto
      then show ?thesis
      proof cases
        case last
        then have "target s ?p ?n (path_elems path) parent = Some ?n"
          using True rest_elems [OF sk] by (simp add: e target_simps)
        moreover obtain u where u: "iunlock ip t = Ok () u" "walked A R s (Some ?n) (Some ip) u" using stay [OF t(2)] by blast
        moreover have "namex_loop path parent name ip s = Ok (Some ip, nm) u" using last u(1) unfolding run by simp
        moreover have "nm = last (path_elems path)" using last rest_elems [OF sk] by (simp add: e)
        ultimately show ?thesis by metis
      next
        case missing
        then have none: "target s ?p ?n (path_elems path) parent = None"
          using True rest_elems [OF sk] by (auto simp: e target_simps)
        have "dir_find t (ino t ip) nm = None" using missing(2) unfolding L(2) [symmetric] by (simp add: dir_map_def)
        then obtain v where v: "room 0 {} v" "view v = view t" "lframe t v" "dirlookup ip nm t = Ok None v"
          using dirlookup_run [OF at_nodeD(1) [OF t(2)] L(1), of nm] by auto
        obtain u where u: "iunlockput ip v = Ok () u" "walked A R s None None u"
          using leave [OF at_node_lframe [OF t(2) v(3,2,1)]] by blast
        have "namex_loop path parent name ip s = Ok (None, nm) u" using missing(1) v(4) u(1) unfolding run by auto
        then show ?thesis using u(2) none by metis
      next
        case found
        obtain t2 nxt off u where u: "dirlookup ip nm t = Ok (Some (nxt, off)) t2" "iunlockput ip t2 = Ok () u"
            "walk_ok A u" "same_fs s u" "nxt < NINODE" "i_inum (ino u nxt) = ucast j"
            "\<forall>k. i_ref (ino u k) = i_ref (ino s k) - (if k = ip then 1 else 0) + (if k = nxt then 1 else 0)"
          using next_at [OF less.prems(1) t(2) less.prems(2) pos dir(1) found(2) spare_free [OF less.prems(3) assms(5)]] by blast
        have "refs u R (Some nxt)" using less.prems(3) u(7) by (simp add: refs_def)
        then obtain w got nm' where w: "namex_loop rest parent nm nxt u = Ok (got, nm') w"
            "walked A R u (target u (proc_at u) (ucast j) (path_elems rest) parent) got w"
            "parent \<longrightarrow> got \<noteq> None \<longrightarrow> nm' = last (path_elems rest)"
          using less.hyps [OF shorter u(3,5), of nm] unfolding u(6) by blast
        have "target s ?p ?n (path_elems path) parent = target s ?p (ucast j) (path_elems rest) parent"
          using True found rest_elems [OF sk] by (auto simp: e target_simps)
        moreover have "namex_loop path parent name ip s = Ok (got, nm') w" using w(1) u(1,2) found(1) unfolding run by auto
        moreover have "parent \<longrightarrow> got \<noteq> None \<longrightarrow> nm' = last (path_elems path)"
          using w(3) found(1) rest_elems [OF sk] by (auto simp: e)
        ultimately show ?thesis
          using walked_trans [OF u(4) w(2)] unfolding target_same [OF u(4)] same_fs_proc [OF u(4)] by metis
      qed
    qed
  qed
qed

section \<open>\<open>namei\<close> and \<open>nameiparent\<close>\<close>

text \<open>Where a path starts: an absolute one at the root, another at the current directory.\<close>

definition absolute :: "bytes \<Rightarrow> bool" where
  "absolute path \<longleftrightarrow> path \<noteq> [] \<and> hd path = SLASH"

definition start_ok :: "u32 set \<Rightarrow> 'm kino_scheme \<Rightarrow> bytes \<Rightarrow> bool" where
  "start_ok A s path \<longleftrightarrow>
     (if absolute path then ROOTINO \<in> A
      else case p_cwd (proc_at s) of None \<Rightarrow> False | Some c \<Rightarrow> c < NINODE \<and> 0 < i_ref (ino s c))"

definition start_inum :: "'m kino_scheme \<Rightarrow> bytes \<Rightarrow> u32" where
  "start_inum s path = (if absolute path then ROOTINO else i_inum (ino s (the (p_cwd (proc_at s)))))"

lemma one_more:
  assumes w: "walk_ok A s" and ip: "ip < NINODE" and ok: "icache_ok (upd_ino ip f s)"
    and f: "i_ref (f (ino s ip)) = i_ref (ino s ip) + 1" "entry_ok A s (f (ino s ip))"
  shows "walk_ok A (upd_ino ip f s)" "same_fs s (upd_ino ip f s)" "refs (upd_ino ip f s) (\<lambda>i. i_ref (ino s i)) (Some ip)"
    "i_inum (ino (upd_ino ip f s) ip) = i_inum (f (ino s ip))"
proof -
  note W = walk_okD [OF w] and r = room_upd_ino [OF walk_okD(1) [OF w], of ip f]
  have at: "ino (upd_ino ip f s) j = (if j = ip then f (ino s ip) else ino s j)" for j
    by (rule ino_upd_ino [OF W(7) [OF ip]])
  show fs: "same_fs s (upd_ino ip f s)" using r(2) by (simp add: same_fs_def)
  show "walk_ok A (upd_ino ip f s)"
    using W(4,5) f(2) by (intro walk_restore [OF w fs r(1) ok]) (auto simp: at)
  show "refs (upd_ino ip f s) (\<lambda>i. i_ref (ino s i)) (Some ip)" using f(1) by (simp add: refs_def at)
  show "i_inum (ino (upd_ino ip f s) ip) = i_inum (f (ino s ip))" by (simp add: at)
qed

lemma start_run:
  fixes s :: "'m kcons_scheme"
  assumes "walk_ok A s" "spare (\<lambda>i. i_ref (ino s i))" "start_ok A s path"
  shows "\<exists>ip t. namex path parent s = namex_loop path parent [] ip t \<and> walk_ok A t \<and> same_fs s t \<and> ip < NINODE \<and>
    i_inum (ino t ip) = start_inum s path \<and> refs t (\<lambda>i. i_ref (ino s i)) (Some ip)"
proof (cases "absolute path")
  case True
  note W = walk_okD [OF assms(1)]
  have "\<exists>i<NINODE. cached 1 ROOTINO (ino s i) \<or> i_ref (ino s i) = 0" using assms(2) by (auto simp: spare_def)
  then obtain ip where ip: "iget 1 ROOTINO s = Ok ip (upd_ino ip (iget_upd 1 ROOTINO) s)" "ip < NINODE"
      "cached 1 ROOTINO (ino s ip) \<or> i_ref (ino s ip) = 0 \<and> (\<forall>k<NINODE. \<not> cached 1 ROOTINO (ino s k))"
    using iget_run [OF W(2,3)] by blast
  let ?f = "iget_upd 1 ROOTINO"
  have A: "ROOTINO \<in> A" using assms(3) True by (simp add: start_ok_def)
  have "i_ref (?f (ino s ip)) = i_ref (ino s ip) + 1" "i_inum (?f (ino s ip)) = ROOTINO"
    using ip(3) by (auto simp: iget_upd_def cached_def)
  moreover have "entry_ok A s (?f (ino s ip))"
    using W(5) [OF ip(2)] A by (auto simp: iget_upd_def cached_def entry_ok_def dinode_of_def)
  ultimately show ?thesis
    using one_more [OF assms(1) ip(2) iget_upd_ok(1) [OF W(3) ip(2,3)]] ip True
    by (intro exI [of _ ip] exI [of _ "upd_ino ip ?f s"]) (simp add: namex_def absolute_def start_inum_def ROOTDEV_def)
next
  case False
  note W = walk_okD [OF assms(1)]
  obtain c where c: "p_cwd (proc_at s) = Some c" "c < NINODE" "0 < i_ref (ino s c)"
    using assms(3) False by (auto simp: start_ok_def split: option.splits)
  let ?f = "\<lambda>I :: inode. I\<lparr>i_ref := i_ref I + 1\<rparr>"
  have idup: "idup c s = Ok c (upd_ino c ?f s)" using W(2) by (simp add: idup_def upd_ino_def)
  have "icache_ok (upd_ino c ?f s)"
    using W(3) c(2,3) by (intro icache_ok_upd [OF W(3) c(2)]) (auto simp: cached_def icache_ok_def)
  moreover have "entry_ok A s (?f (ino s c))" using W(5) [OF c(2,3)] by (simp add: entry_ok_def dinode_of_def)
  moreover have "cur s \<noteq> None" using W(2) by simp
  ultimately show ?thesis
    using one_more [OF assms(1) c(2), of ?f] idup c False
    by (intro exI [of _ c] exI [of _ "upd_ino c ?f s"]) (auto simp: namex_def absolute_def start_inum_def)
qed

lemma namex_run:
  fixes s :: "'m kcons_scheme"
  assumes "walk_ok A s" "spare (\<lambda>i. i_ref (ino s i))" "start_ok A s path"
  shows "\<exists>t got nm. namex path parent s = Ok (got, nm) t \<and>
    walked A (\<lambda>i. i_ref (ino s i)) s (target s (proc_at s) (start_inum s path) (path_elems path) parent) got t \<and>
    (parent \<longrightarrow> got \<noteq> None \<longrightarrow> nm = last (path_elems path))"
proof -
  obtain ip t where t: "namex path parent s = namex_loop path parent [] ip t" "walk_ok A t" "same_fs s t" "ip < NINODE"
      "i_inum (ino t ip) = start_inum s path" "refs t (\<lambda>i. i_ref (ino s i)) (Some ip)"
    using start_run [OF assms(1-3)] by blast
  obtain u got nm where u: "namex_loop path parent [] ip t = Ok (got, nm) u"
      "walked A (\<lambda>i. i_ref (ino s i)) t (target t (proc_at t) (i_inum (ino t ip)) (path_elems path) parent) got u"
      "parent \<longrightarrow> got \<noteq> None \<longrightarrow> nm = last (path_elems path)"
    using namex_loop_run [OF t(2,4,6) _ assms(2)] walk_okD(3) [OF assms(1)] unfolding icache_ok_def by blast
  then show ?thesis
    using t(1) walked_trans [OF t(3) u(2)] unfolding t(5) target_same [OF t(3)] same_fs_proc [OF t(3)] by auto
qed

text \<open>
  C38. \<open>namei\<close> (fs.c) implements path resolution: in a file system whose directories are in order, with two
  free entries in the inode cache, it returns exactly the inode that following the path on the disk
  leads to, and fails exactly if some element is missing or some directory on the way does not grant
  execute permission to the process. Of the inode cache it keeps one reference to the result and
  none in the case of failure; no lock stays taken and the disk is not changed.
\<close>

theorem namei_resolves:
  fixes s :: "'m kcons_scheme"
  assumes "walk_ok A s" and "spare (\<lambda>i. i_ref (ino s i))" and "start_ok A s path"
  shows "\<exists>got t. namei path s = Ok got t \<and> walk_ok A t \<and> view t = view s \<and>
    (\<forall>i. i_ref (ino t i) = i_ref (ino s i) + (if got = Some i then 1 else 0)) \<and>
    map_option (\<lambda>ip. i_inum (ino t ip)) got = resolve s (proc_at s) (start_inum s path) (path_elems path)"
proof -
  obtain t got nm where t: "namex path False s = Ok (got, nm) t"
      "walked A (\<lambda>i. i_ref (ino s i)) s (target s (proc_at s) (start_inum s path) (path_elems path) False) got t"
    using namex_run [OF assms, of False] by blast
  then have "namei path s = Ok got t" by (simp add: namei_def)
  then show ?thesis using t(2) by (auto simp: walked_def target_def refs_def same_fs_def split: option.splits)
qed

text \<open>
  C39. \<open>nameiparent\<close> (fs.c) returns the directory that holds the last element of the path, in
  which the process may search, and the name of that element; it fails for a path without elements.
\<close>

theorem nameiparent_resolves:
  fixes s :: "'m kcons_scheme"
  assumes "walk_ok A s" and "spare (\<lambda>i. i_ref (ino s i))" and "start_ok A s path"
  shows "\<exists>got name t. nameiparent path s = Ok (got, name) t \<and> walk_ok A t \<and> view t = view s \<and>
    (\<forall>i. i_ref (ino t i) = i_ref (ino s i) + (if got = Some i then 1 else 0)) \<and>
    map_option (\<lambda>ip. i_inum (ino t ip)) got = resolve_parent s (proc_at s) (start_inum s path) (path_elems path) \<and>
    (got \<noteq> None \<longrightarrow> name = last (path_elems path))"
proof -
  obtain t got nm where t: "namex path True s = Ok (got, nm) t"
      "walked A (\<lambda>i. i_ref (ino s i)) s (target s (proc_at s) (start_inum s path) (path_elems path) True) got t"
      "got \<noteq> None \<longrightarrow> nm = last (path_elems path)"
    using namex_run [OF assms, of True] by blast
  then have "nameiparent path s = Ok (got, nm) t" by (simp add: nameiparent_def)
  then show ?thesis using t(2,3) by (auto simp: walked_def target_def refs_def same_fs_def split: option.splits)
qed

section \<open>Examples\<close>

lemma tree_dnodes:
  "dinode_of (dnode (fs_state tree_disk ic x) 1) = root_dinode" "dinode_of (dnode (fs_state tree_disk ic x) 7) = file_dinode"
  by (simp_all add: dnode_def tree_dinodes) (simp_all add: dinode_of_def load_dinode_def)

lemma tree_walk_ok: "walk_ok {1, 7} (fs_state tree_disk tree_cache x)"
proof -
  let ?s = "fs_state tree_disk tree_cache x"
  have at: "ino ?s i = (if i = 0 then root_inode else zero_inode)" if "i < NINODE" for i
    using that by (rule tree_cache_at)
  have r: "room 0 {} ?s" using tree_disk_like by (intro fs_state_room) (simp_all add: demo_like_def)
  have ic: "icache_ok ?s"
    using at by (auto simp: icache_ok_def tree_cache_def zero_inode_def root_inode_def NINODE_def)
  have "dinode_of root_inode = root_dinode" by (simp add: root_inode_def dinode_of_def load_dinode_def)
  then have en: "entry_ok {1, 7} ?s root_inode" by (simp add: entry_ok_def root_inode_def tree_dinodes)
  note R = tree_dnodes(1) [of tree_cache x] and F = tree_dnodes(2) [of tree_cache x]
  have rf: "i_addrs (dnode ?s 1) = 57 # replicate NDIRECT 0" "i_size (dnode ?s 1) = 32" "i_type (dnode ?s 1) = T_DIR"
    "i_nlink (dnode ?s 1) = 1" "i_nlink (dnode ?s 7) = 1" "i_type (dnode ?s 7) = T_FILE"
    using R F by (auto simp: dinode_of_def root_dinode_def file_dinode_def zero_dinode_def)
  have B: "IBLOCK 1 demo_sb = 32" "IBLOCK 7 demo_sb = 32" by (simp_all add: IBLOCK_def demo_sb_def IPB_def BSIZE_def DINODE_SIZE_def)
  have bp: "bptr ?s (dnode ?s 1) n = (if n = 0 then 57 else 0)" "baddr ?s (dnode ?s 1) 0 = 57" for n
    by (simp_all add: bptr_def baddr_def rf nth_Cons' NDIRECT_def MAXFILE_def)
  have "blocks_ok ?s 1 (dnode ?s 1)" by (simp add: blocks_ok_def bp B like_ready like_used)
  then have "dir_node_ok ?s 1"
    using bp(2) by (simp add: dir_node_ok_def rf DIRENT_SIZE_def MAXFILE_def NDIRECT_def NINDIRECT_def BSIZE_def)
  then have "node_ok {1, 7} ?s 1"
    by (auto simp: node_ok_def fs_state_region rf B T_DIR_def tree_root_map [OF R] split: if_splits)
  moreover have "node_ok {1, 7} ?s 7" by (simp add: node_ok_def fs_state_region rf B T_DIR_def T_FILE_def)
  ultimately show ?thesis using r ic at en by (auto simp: walk_ok_def zero_inode_def)
qed

lemma tree_start:
  "spare (\<lambda>i. i_ref (ino (fs_state tree_disk tree_cache x) i))" "start_ok {1, 7} (fs_state tree_disk tree_cache x) (SLASH # p)"
  "start_inum (fs_state tree_disk tree_cache x) (SLASH # p) = 1"
proof -
  show "spare (\<lambda>i. i_ref (ino (fs_state tree_disk tree_cache x) i))"
    using tree_cache_at [of 1 tree_disk x] tree_cache_at [of 2 tree_disk x] unfolding spare_def
    by (intro exI [of _ 1] exI [of _ 2] conjI) (simp_all add: NINODE_def zero_inode_def)
qed (simp_all add: start_ok_def start_inum_def absolute_def ROOTINO_def)

lemma tree_resolve:
  "resolve (fs_state tree_disk tree_cache x) p 1 [[97, 98]] = Some 7"
  "resolve_parent (fs_state tree_disk tree_cache x) p 1 [[97, 98]] = Some 1"
  "resolve (fs_state tree_disk tree_cache x) p 1 [[97, 98], [99]] = None"
proof -
  let ?s = "fs_state tree_disk tree_cache x"
  note R = tree_dnodes(1) [of tree_cache x] and F = tree_dnodes(2) [of tree_cache x]
  have f: "i_perm (dnode ?s 1) = 63" "i_type (dnode ?s 1) = T_DIR" "i_owner (dnode ?s 1) = 1" "i_type (dnode ?s 7) = T_FILE"
    using R F by (auto simp: dinode_of_def root_dinode_def file_dinode_def zero_dinode_def)
  have "(63 :: u8) AND 1 \<noteq> 0" "(63 :: u8) AND 8 \<noteq> 0" by simp_all
  then have se: "searchable (dnode ?s 1) p" "\<not> searchable (dnode ?s 7) p"
    by (simp_all add: searchable_def has_execute_permission_def f MODE_XUSR_def MODE_XOTH_def T_DIR_def T_FILE_def)
  have "namecmp [97, 98] dot \<noteq> 0" "namecmp [97, 98] [97, 98] = 0" by (simp_all add: namecmp_0 cstr_of_cptr DIRSIZ_def dot_def)
  then have "dir_map ?s (dnode ?s 1) [97, 98] = Some 7" by (simp add: tree_root_map [OF R])
  then show "resolve ?s p 1 [[97, 98]] = Some 7" "resolve_parent ?s p 1 [[97, 98]] = Some 1"
    "resolve ?s p 1 [[97, 98], [99]] = None"
    using se by (simp_all add: resolve_parent_def)
qed

lemma tree_elems: "path_elems (SLASH # [97, 98]) = [[97, 98]]" "path_elems (SLASH # [97, 98, 47, 99]) = [[97, 98], [99]]"
  by (simp_all add: path_elems_def SLASH_def DIRSIZ_def)

theorem namei_resolves_witness:
  "(\<exists>ip t. namei (SLASH # [97, 98]) (fs_state tree_disk tree_cache (demo_cons ()) :: kcons) = Ok (Some ip) t \<and> i_inum (ino t ip) = 7) \<and>
   (\<exists>t. namei (SLASH # [97, 98, 47, 99]) (fs_state tree_disk tree_cache (demo_cons ()) :: kcons) = Ok None t)"
  using namei_resolves [OF tree_walk_ok tree_start(1,2), of "[97, 98]" "demo_cons ()"]
    namei_resolves [OF tree_walk_ok tree_start(1,2), of "[97, 98, 47, 99]" "demo_cons ()"]
  unfolding tree_start(3) tree_elems tree_resolve by auto

theorem nameiparent_resolves_witness:
  "\<exists>ip t. nameiparent (SLASH # [97, 98]) (fs_state tree_disk tree_cache (demo_cons ()) :: kcons) = Ok (Some ip, [97, 98]) t \<and>
     i_inum (ino t ip) = 1"
  using nameiparent_resolves [OF tree_walk_ok tree_start(1,2), of "[97, 98]" "demo_cons ()"]
  unfolding tree_start(3) tree_elems tree_resolve by auto

end
