(* ===== verification/Passwd.thy ===== *)
theory Passwd
  imports Txn Path Users
begin

text \<open>
  The accounts of \<open>usermanage.c\<close>. The table of users is a map from names to passwords and user ids, and
  \<open>getuid\<close>, \<open>add_user\<close> and \<open>delete_user\<close> are lookup, insertion and deletion on it; each change is in
  \<open>/passwd\<close> on the disk when the call returns.
\<close>

section \<open>The table as a map\<close>

definition cname :: "bytes \<Rightarrow> bytes" where
  "cname b = cstr_of (cptr b) USERNAME_MAXLEN"

definition cpasswd :: "bytes \<Rightarrow> bytes" where
  "cpasswd b = cstr_of (cptr b) USER_PW_MAXLEN"

definition owns :: "bytes \<Rightarrow> user \<Rightarrow> bool" where
  "owns n u \<longleftrightarrow> u_uid u \<noteq> 0 \<and> cname (u_username u) = n"

definition accounts :: "user list \<Rightarrow> bytes \<Rightarrow> (bytes \<times> u32) option" where
  "accounts us n = map_option (\<lambda>u. (cpasswd (u_passwd u), u_uid u)) (find (owns n) us)"

text \<open>The invariant of the table: names and user ids are unique, and \<open>next_uid\<close> is beyond all ids.\<close>

definition same_user :: "user \<Rightarrow> user \<Rightarrow> bool" where
  "same_user u v \<longleftrightarrow> u_uid u \<noteq> 0 \<and> u_uid v \<noteq> 0 \<and>
     (cname (u_username u) = cname (u_username v) \<or> u_uid u = u_uid v)"

definition table_ok :: "user list \<Rightarrow> u32 \<Rightarrow> bool" where
  "table_ok us nu \<longleftrightarrow> length us = NUSER \<and> (\<forall>u\<in>set us. wf_user u \<and> u_uid u < nu) \<and>
     (\<forall>i<NUSER. \<forall>j<NUSER. same_user (us ! i) (us ! j) \<longrightarrow> i = j) \<and> accounts us str_root \<noteq> None"

lemma find_user_owns: "find_user_with_username n us = find_idx (owns (cname n)) us"
  by (simp add: find_user_with_username_def owns_def [abs_def] strncmp_0_iff cname_def)

lemma accounts_find_idx:
  "accounts us n = map_option (\<lambda>i. (cpasswd (u_passwd (us ! i)), u_uid (us ! i))) (find_idx (owns n) us)"
proof (cases "find_idx (owns n) us")
  case None
  then have "find (owns n) us = None" by (simp add: find_idx_None find_None_iff)
  with None show ?thesis by (simp add: accounts_def)
next
  case (Some i)
  then have "find (owns n) us = Some (us ! i)" by (auto simp: find_idx_Some find_Some_iff)
  with Some show ?thesis by (simp add: accounts_def)
qed

lemma accounts_None: "accounts us n = None \<longleftrightarrow> (\<forall>u\<in>set us. \<not> owns n u)"
  by (auto simp: accounts_def find_None_iff)

lemma accounts_Some:
  assumes "\<forall>i<length us. \<forall>j<length us. same_user (us ! i) (us ! j) \<longrightarrow> i = j"
  shows "accounts us n = Some a \<longleftrightarrow> (\<exists>u\<in>set us. owns n u \<and> a = (cpasswd (u_passwd u), u_uid u))"
proof
  assume "accounts us n = Some a"
  then show "\<exists>u\<in>set us. owns n u \<and> a = (cpasswd (u_passwd u), u_uid u)"
    by (auto simp: accounts_def find_Some_iff)
next
  assume "\<exists>u\<in>set us. owns n u \<and> a = (cpasswd (u_passwd u), u_uid u)"
  then obtain i where i: "i < length us" "owns n (us ! i)" "a = (cpasswd (u_passwd (us ! i)), u_uid (us ! i))"
    by (auto simp: in_set_conv_nth)
  have "\<not> owns n (us ! j)" if "j < i" for j
  proof
    assume "owns n (us ! j)"
    then have "same_user (us ! i) (us ! j)" using i(2) by (simp add: owns_def same_user_def)
    then have "i = j" using assms i(1) that by simp
    with that show False by simp
  qed
  then have "find_idx (owns n) us = Some i" using i by (auto simp: find_idx_Some)
  with i show "accounts us n = Some a" by (simp add: accounts_find_idx)
qed

lemma table_okD:
  assumes "table_ok us nu"
  shows "length us = NUSER" "\<And>u. u \<in> set us \<Longrightarrow> wf_user u \<and> u_uid u < nu"
    "\<forall>i<length us. \<forall>j<length us. same_user (us ! i) (us ! j) \<longrightarrow> i = j"
    "accounts us str_root \<noteq> None"
  using assms unfolding table_ok_def by auto

lemmas accounts_ok = accounts_Some [OF table_okD(3)]

lemma ex_update:
  assumes "i < length us" "\<not> P (us ! i)"
  shows "(\<exists>v\<in>set (us[i := u]). P v) \<longleftrightarrow> P u \<or> (\<exists>v\<in>set us. P v)"
proof
  assume "\<exists>v\<in>set (us[i := u]). P v"
  then show "P u \<or> (\<exists>v\<in>set us. P v)" using set_update_subset_insert [of us i u] by blast
next
  assume "P u \<or> (\<exists>v\<in>set us. P v)"
  then show "\<exists>v\<in>set (us[i := u]). P v"
  proof
    assume "\<exists>v\<in>set us. P v"
    then obtain j where j: "j < length us" "P (us ! j)" by (auto simp: in_set_conv_nth)
    then have "us[i := u] ! j = us ! j" using assms(2) by (cases "i = j") auto
    then have "us ! j \<in> set (us[i := u])" using j(1) nth_mem [of j "us[i := u]"] by simp
    with j(2) show ?thesis by blast
  qed (use set_update_memI [OF assms(1)] in blast)
qed

text \<open>Storing an entry, and clearing one.\<close>

lemma table_store:
  assumes ok: "table_ok us nu" and i: "i < NUSER" "u_uid (us ! i) = 0"
    and u: "wf_user u" "u_uid u = nu" "accounts us (cname (u_username u)) = None" and nu: "nu < nu + 1"
  shows "table_ok (us[i := u]) (nu + 1)"
    "accounts (us[i := u]) = (accounts us)(cname (u_username u) \<mapsto> (cpasswd (u_passwd u), nu))"
proof -
  let ?us = "us[i := u]" and ?n = "cname (u_username u)"
  note T = table_okD [OF ok]
  have at: "?us ! j = (if j = i then u else us ! j)" if "j < length us" for j
    using that by (auto simp: nth_list_update)
  have pos: "nu \<noteq> 0" using T(2) [of "us ! i"] i T(1) by auto
  have fresh: "\<not> same_user u v" "\<not> same_user v u" if "v \<in> set us" for v
    using that T(2) [OF that] u(2,3) by (auto simp: accounts_None owns_def same_user_def)
  have uniq: "\<forall>j<length ?us. \<forall>k<length ?us. same_user (?us ! j) (?us ! k) \<longrightarrow> j = k"
    using fresh T(3) by (auto simp: at split: if_splits)
  have ex: "(\<exists>v\<in>set ?us. owns n v \<and> Q v) \<longleftrightarrow> n = ?n \<and> Q u \<or> (\<exists>v\<in>set us. owns n v \<and> Q v)" for n Q
    using ex_update [of i us "\<lambda>v. owns n v \<and> Q v" u] i T(1) pos u(2) by (auto simp: owns_def)
  have "accounts ?us n = Some a \<longleftrightarrow> ((accounts us)(?n \<mapsto> (cpasswd (u_passwd u), nu))) n = Some a" for n a
    unfolding accounts_Some [OF uniq] ex using u(2,3) by (auto simp: accounts_ok [OF ok] accounts_None)
  then show acc: "accounts ?us = (accounts us)(?n \<mapsto> (cpasswd (u_passwd u), nu))"
    by (intro ext) (metis option.exhaust)
  have "wf_user v \<and> u_uid v < nu + 1" if "v \<in> set ?us" for v
    using that set_update_subset_insert [of us i u] T(2) [of v] u(1,2) nu by (auto intro: less_trans)
  then show "table_ok ?us (nu + 1)" using T(1,4) uniq acc by (auto simp: table_ok_def)
qed

lemma wf_zero_user: "wf_user zero_user"
  by (simp add: wf_user_def zero_user_def)

lemma table_clear:
  assumes ok: "table_ok us nu" and i: "i < NUSER" "owns n (us ! i)" and root: "n \<noteq> str_root"
  shows "table_ok (us[i := zero_user]) nu" "accounts (us[i := zero_user]) = (accounts us)(n := None)"
proof -
  let ?us = "us[i := zero_user]"
  note T = table_okD [OF ok]
  have z: "\<not> owns m zero_user" "\<not> same_user zero_user v" "\<not> same_user v zero_user" for m v
    by (simp_all add: owns_def same_user_def zero_user_def)
  have at: "?us ! j = (if j = i then zero_user else us ! j)" if "j < length us" for j
    using that by (auto simp: nth_list_update)
  have uniq: "\<forall>j<length ?us. \<forall>k<length ?us. same_user (?us ! j) (?us ! k) \<longrightarrow> j = k"
    using T(3) z by (auto simp: at split: if_splits)
  have "accounts ?us m = Some a \<longleftrightarrow> ((accounts us)(n := None)) m = Some a" for m a
  proof (cases "m = n")
    case True
    have "\<not> owns n (?us ! j)" if "j < length ?us" for j
    proof
      assume o: "owns n (?us ! j)"
      then have "j \<noteq> i" using z that by (auto simp: at)
      then have "same_user (us ! i) (us ! j)" using o i(2) that by (simp add: at owns_def same_user_def)
      with T(3) \<open>j \<noteq> i\<close> i(1) T(1) that show False by auto
    qed
    then have "accounts ?us n = None" unfolding accounts_None by (metis in_set_conv_nth)
    then show ?thesis using True by simp
  next
    case False
    then have "\<not> owns m (us ! i)" using i(2) by (simp add: owns_def)
    then have "(\<exists>v\<in>set ?us. owns m v \<and> Q v) \<longleftrightarrow> (\<exists>v\<in>set us. owns m v \<and> Q v)" for Q
      using ex_update [of i us "\<lambda>v. owns m v \<and> Q v" zero_user] i(1) T(1) z by simp
    then show ?thesis using False by (simp add: accounts_Some [OF uniq] accounts_ok [OF ok])
  qed
  then show acc: "accounts ?us = (accounts us)(n := None)" by (intro ext) (metis option.exhaust)
  have "u_uid zero_user < nu" using T(2) [of "us ! i"] i T(1) by (auto simp: zero_user_def word_gt_0)
  then have "wf_user v \<and> u_uid v < nu" if "v \<in> set ?us" for v
    using that set_update_subset_insert [of us i zero_user] T(2) [of v] wf_zero_user by auto
  then show "table_ok ?us nu" using T(1,4) uniq acc root by (auto simp: table_ok_def)
qed

text \<open>The loop of \<open>add_user\<close>.\<close>

lemma add_scan_cases:
  "add_scan us name k fr = None \<and> (\<exists>u\<in>set us. owns (cname name) u) \<or>
   (\<exists>r. add_scan us name k fr = Some r \<and> (\<forall>u\<in>set us. \<not> owns (cname name) u) \<and>
     (r = fr \<and> (\<forall>u\<in>set us. u_uid u \<noteq> 0) \<or> (\<exists>j<length us. r = Some (k + j) \<and> u_uid (us ! j) = 0)))"
proof (induction us arbitrary: k fr)
  case (Cons u us)
  show ?case
  proof (cases "u_uid u = 0")
    case True
    then have no: "\<not> owns (cname name) u" by (simp add: owns_def)
    have "\<exists>j<length (u # us). r = Some (k + j) \<and> u_uid ((u # us) ! j) = 0"
      if "r = Some k \<or> (\<exists>j<length us. r = Some (k + 1 + j) \<and> u_uid (us ! j) = 0)" for r
      using that True by (auto intro: exI [of _ 0] exI [of _ "Suc _"])
    then show ?thesis using Cons [of "k + 1" "Some k"] True no by auto
  next
    case False
    have e: "strncmp (cptr (u_username u)) (cptr name) USERNAME_MAXLEN = 0 \<longleftrightarrow> owns (cname name) u"
      using False by (simp add: strncmp_0_iff owns_def cname_def)
    show ?thesis
    proof (cases "owns (cname name) u")
      case True
      then show ?thesis using False e by simp
    next
      case no: False
      have "\<exists>j<length (u # us). r = Some (k + j) \<and> u_uid ((u # us) ! j) = 0"
        if "\<exists>j<length us. r = Some (k + 1 + j) \<and> u_uid (us ! j) = 0" for r
        using that by (auto intro: exI [of _ "Suc _"])
      then show ?thesis using Cons [of "k + 1" fr] False no e by auto
    qed
  qed
qed simp

section \<open>The file\<close>

lemma more_kuser:
  fixes s t :: "'m kuser_scheme"
  assumes "kino.more t = kino.more s"
  shows "utable t = utable s" "next_uid t = next_uid s" "utable_ip t = utable_ip s"
    "utable_initialized t = utable_initialized s" "kuser.more t = kuser.more s"
  using assms by (cases s, cases t, simp)+

text \<open>The inode of \<open>/passwd\<close> is cached, agrees with the disk, and the file is as large as the table.\<close>

definition table_file :: "nat \<Rightarrow> 'm kino_scheme \<Rightarrow> bool" where
  "table_file ip s \<longleftrightarrow> file_ok ip s \<and> mapped ip s \<and> i_valid (ino s ip) \<and> i_type (ino s ip) = T_FILE \<and>
     4 + UTABLE_SIZE \<le> unat (i_size (ino s ip)) \<and> dinode_of (ino s ip) = dinode_at s (i_inum (ino s ip))"

definition table_bytes :: "u32 \<Rightarrow> user list \<Rightarrow> bytes" where
  "table_bytes nu us = enc32 nu @ enc_utable us"

definition holds_table :: "'m kino_scheme \<Rightarrow> inode \<Rightarrow> u32 \<Rightarrow> user list \<Rightarrow> bool" where
  "holds_table s I nu us \<longleftrightarrow> map (fbyte s I) [0..<4 + UTABLE_SIZE] = table_bytes nu us"

lemma table_sizes: "UTABLE_SIZE = 360" "USER_SIZE = 36" "MAXFILE = 139" "BSIZE = 512"
  by (simp_all add: UTABLE_SIZE_def NUSER_def USER_SIZE_def USERNAME_MAXLEN_def USER_PW_MAXLEN_def MAXFILE_def
      NDIRECT_def NINDIRECT_def BSIZE_def)

lemma length_utable: "table_ok us nu \<Longrightarrow> length (enc_utable us) = UTABLE_SIZE"
  using table_okD(1,2) [of us nu] length_enc_utable [of us] by (simp add: UTABLE_SIZE_def mult.commute)

text \<open>Overwriting a part of the first block of the file.\<close>

lemma overwrite:
  assumes r: "room (Suc (Suc k)) {} s" and f: "table_file ip s" and n: "unat off + length src \<le> 4 + UTABLE_SIZE" "src \<noteq> []"
  shows "\<exists>t. writei ip src off s = Ok (int (length src)) t \<and> room k {} t \<and> table_file ip t \<and> fsframe s t \<and>
    (\<forall>j. ino t j = ino s j) \<and> (\<forall>j. slocks t (SL_inode j) = slocks s (SL_inode j)) \<and>
    (\<forall>p<MAXFILE * BSIZE. fbyte t (ino t ip) p =
       (if unat off \<le> p \<and> p < unat off + length src then src ! (p - unat off) else fbyte s (ino s ip) p))"
proof -
  have F: "file_ok ip s" "mapped ip s" "i_type (ino s ip) \<noteq> T_DEV" "364 \<le> unat (i_size (ino s ip))"
    "dinode_of (ino s ip) = dinode_at s (i_inum (ino s ip))"
    using f by (simp_all add: table_file_def table_sizes T_FILE_def T_DEV_def)
  have c: "chunks (unat off) (length src) = [(unat off, length src)]"
    using n by (simp add: chunks.simps [of "unat off"] chunks.simps [of _ 0] table_sizes)
  have "unat off div BSIZE = 0" using n by (simp add: table_sizes)
  then have "baddr s (ino s ip) (unat off div BSIZE) \<noteq> 0"
    using F(2,4) by (auto simp: mapped_def dest: spec [of _ 0])
  then have ms: "missing s ip (chunks (unat off) (length src)) = 0" by (simp add: missing_def c)
  have rng: "off \<le> i_size (ino s ip)" "unat off + length src \<le> MAXFILE * BSIZE"
    "unat off + length src \<le> unat (i_size (ino s ip))"
    using n F(4) by (simp_all add: word_le_nat_alt table_sizes)
  have "room (Suc k + length (chunks (unat off) (length src)) + 5 * missing s ip (chunks (unat off) (length src))) {} s"
    using r by (simp add: c ms [unfolded c])
  from writei_run [OF this F(1-3) _ rng(1,2)] ms
  obtain t where t: "writei ip src off s = Ok (int (length src)) t" "room k {} t" "wrote_file ip (unat off) src s t"
    by auto
  note W = t(3) [unfolded wrote_file_def]
  have i: "ino t ip = ino s ip" "dinode_at t (i_inum (ino s ip)) = dinode_at s (i_inum (ino s ip))"
    using W rng(3) ms by blast+
  then have "ino t j = ino s j" for j using W by metis
  moreover have "table_file ip t" using W f unfolding table_file_def i by simp
  ultimately show ?thesis using t(1,2) W by blast
qed

lemma write_usertable_run:
  fixes s :: "'m kuser_scheme"
  assumes r: "room (k + 4) {} s" and f: "table_file ip s" and ok: "table_ok (utable s) (next_uid s)"
  shows "\<exists>t. write_usertable ip s = Ok () t \<and> room k {} t \<and> table_file ip t \<and> fsframe s t \<and> (\<forall>j. ino t j = ino s j) \<and>
    (\<forall>j. slocks t (SL_inode j) = slocks s (SL_inode j)) \<and> holds_table t (ino t ip) (next_uid s) (utable s)"
proof -
  let ?a = "enc32 (next_uid s)" and ?b = "enc_utable (utable s)"
  note len = length_utable [OF ok]
  have ra: "room (Suc (Suc (k + 2))) {} s" using r by (simp add: numeral_eq_Suc)
  have na: "?a \<noteq> []" by (metis length_enc32 list.size(3) zero_neq_numeral)
  have w: "unat (0 :: u32) = 0" "unat (4 :: u32) = 4" "length ?a = 4" by simp_all
  obtain u where u: "writei ip ?a 0 s = Ok 4 u" "room (k + 2) {} u" "table_file ip u" "fsframe s u" "\<forall>j. ino u j = ino s j"
      "\<forall>j. slocks u (SL_inode j) = slocks s (SL_inode j)"
      "\<forall>p<MAXFILE * BSIZE. fbyte u (ino u ip) p = (if 0 \<le> p \<and> p < 0 + 4 then ?a ! (p - 0) else fbyte s (ino s ip) p)"
    using overwrite [OF ra f _ na, of 0] unfolding w by auto
  have rb: "room (Suc (Suc k)) {} u" using u(2) by (simp add: numeral_2_eq_2)
  have nb: "?b \<noteq> []" using len by (auto simp: table_sizes)
  obtain t where t: "writei ip ?b 4 u = Ok (int UTABLE_SIZE) t" "room k {} t" "table_file ip t" "fsframe u t"
      "\<forall>j. ino t j = ino u j" "\<forall>j. slocks t (SL_inode j) = slocks u (SL_inode j)"
      "\<forall>p<MAXFILE * BSIZE. fbyte t (ino t ip) p =
         (if 4 \<le> p \<and> p < 4 + UTABLE_SIZE then ?b ! (p - 4) else fbyte u (ino u ip) p)"
    using overwrite [OF rb u(3) _ nb, of 4] unfolding w len by auto
  have "fbyte t (ino t ip) p = table_bytes (next_uid s) (utable s) ! p" if "p < 4 + UTABLE_SIZE" for p
    using that t(7) u(7) by (auto simp: table_bytes_def nth_append table_sizes)
  then have "holds_table t (ino t ip) (next_uid s) (utable s)"
    unfolding holds_table_def by (intro nth_equalityI) (simp_all add: table_bytes_def len)
  moreover have "utable u = utable s" using more_kuser(1) [of u s] u(4) by (simp add: fsframe_def)
  ultimately show ?thesis
    using t u fsframe_trans [OF u(4) t(4)] by (auto simp: write_usertable_def)
qed


section \<open>Saving the table\<close>

text \<open>
  The log is idle, so that everything is on the disk, and the inode of \<open>/passwd\<close> is in the cache and not
  locked.
\<close>

definition store_ok :: "nat \<Rightarrow> 'm kuser_scheme \<Rightarrow> bool" where
  "store_ok ip s \<longleftrightarrow> idle_log s \<and> utable_ip s = Some ip \<and> table_file ip s \<and> \<not> sl_locked (slocks s (SL_inode ip))"

definition uframe :: "'m kino_scheme \<Rightarrow> 'm kino_scheme \<Rightarrow> bool" where
  "uframe s t \<longleftrightarrow> cur t = cur s \<and> proc_at t = proc_at s \<and> mem t = mem s \<and> disksize t = disksize s \<and>
     l_start t = l_start s \<and> fs_sb t = fs_sb s \<and> kino.more t = kino.more s \<and> (\<forall>j. ino t j = ino s j) \<and>
     length (icache t) = length (icache s) \<and> slocks t SL_utable = slocks s SL_utable \<and>
     (\<forall>j. sl_locked (slocks t (SL_inode j)) = sl_locked (slocks s (SL_inode j)))"

lemma idle_view:
  assumes "idle_log s"
  shows "view s = disk s" "running s" "head_n (disk s (l_start s)) = 0"
proof -
  have "bcache_ok {} s" "dirty_blocks s = {}" using assms by (simp_all add: idle_log_def log_ready_def log_blocks_def)
  then show "view s = disk s" by (intro ext view_clean) simp_all
  show "running s" "head_n (disk s (l_start s)) = 0" using assms by (simp_all add: idle_log_def log_ready_def)
qed

lemma tframe_kino:
  fixes s t :: "'m kino_scheme"
  assumes "tframe s t"
  shows "fs_sb t = fs_sb s" "icache t = icache s" "ino t = ino s" "kino.more t = kino.more s" "disksize t = disksize s"
    "log_region t = log_region s" "slocks t (SL_inode j) = slocks s (SL_inode j)" "slocks t SL_utable = slocks s SL_utable"
proof -
  have "fs_sb t = fs_sb s \<and> icache t = icache s \<and> kino.more t = kino.more s"
    using assms by (cases s, cases t) (simp add: tframe_def)
  then show "fs_sb t = fs_sb s" "icache t = icache s" "ino t = ino s" "kino.more t = kino.more s" "disksize t = disksize s"
    "log_region t = log_region s" "slocks t (SL_inode j) = slocks s (SL_inode j)" "slocks t SL_utable = slocks s SL_utable"
    using assms tframe_region [OF assms] by (simp_all add: tframe_def ino_def fun_eq_iff)
qed

lemma table_file_outside:
  fixes s t :: "'m kino_scheme"
  assumes f: "table_file ip s" and v: "\<And>bn. bn \<notin> log_region s \<Longrightarrow> view t bn = view s bn"
    and fs: "fs_sb t = fs_sb s" "disksize t = disksize s" "log_region t = log_region s" "ino t ip = ino s ip"
      "ip < length (icache t)"
  shows "table_file ip t" "holds_table s (ino s ip) nu us \<Longrightarrow> holds_table t (ino t ip) nu us"
proof -
  have ok: "file_ok ip s" and F: "mapped ip s" "i_valid (ino s ip)" "i_type (ino s ip) = T_FILE"
      "4 + UTABLE_SIZE \<le> unat (i_size (ino s ip))" "dinode_of (ino s ip) = dinode_at s (i_inum (ino s ip))"
    using f by (simp_all add: table_file_def)
  have "1 \<le> i_ref (ino s ip)" using file_okD(1) [OF ok] by (simp add: inode_ok_def)
  moreover have "ino t ip = (ino s ip)\<lparr>i_ref := i_ref (ino s ip), i_valid := i_valid (ino s ip)\<rparr>" by (simp add: fs(4))
  ultimately have o: "file_ok ip t" "\<And>m. m < MAXFILE \<Longrightarrow> fblk t (ino t ip) m = fblk s (ino s ip) m"
      "dinode_at t (i_inum (ino s ip)) = dinode_at s (i_inum (ino s ip))" "mapped ip t"
    using file_outside [OF ok v fs(1-3) _ fs(5)] F(1) by metis+
  show "table_file ip t" using o F by (simp add: table_file_def fs(4))
  show "holds_table s (ino s ip) nu us \<Longrightarrow> holds_table t (ino t ip) nu us"
    using fbyte_outside [of t "ino t ip" s "ino s ip" "4 + UTABLE_SIZE" 0, OF o(2)]
    by (simp add: holds_table_def table_sizes)
qed

lemma save_run:
  fixes u :: "'m kuser_scheme"
  assumes r: "room 27 {} u" and f: "table_file ip u" and lk: "\<not> sl_locked (slocks u (SL_inode ip))"
    and ok: "table_ok (utable u) (next_uid u)"
  shows "\<exists>x. sq (ilock ip) (sq (write_usertable ip) (iunlock ip)) u = Ok () x \<and> room 23 {} x \<and> table_file ip x \<and>
    fsframe u x \<and> (\<forall>j. ino x j = ino u j) \<and> (\<forall>j. sl_locked (slocks x (SL_inode j)) = sl_locked (slocks u (SL_inode j))) \<and>
    holds_table x (ino x ip) (next_uid u) (utable u)"
proof -
  have iok: "inode_ok ip u" "i_valid (ino u ip)" and ipl: "ip < length (icache u)"
    using f by (simp_all add: table_file_def file_ok_def inode_ok_def)
  with lk obtain v where v: "ilock ip u = Ok () v" "room 27 {} v" "view v = view u" "fsframe u v" "ino v ip = ino u ip"
      "\<forall>j. j \<noteq> ip \<longrightarrow> ino v j = ino u j" "holds (SL_inode ip) v"
      "\<forall>j. j \<noteq> ip \<longrightarrow> slocks v (SL_inode j) = slocks u (SL_inode j)"
    using ilock_run [OF r, of ip] by (auto simp: loaded_def)
  have kv: "fs_sb v = fs_sb u" "disksize v = disksize u" "log_region v = log_region u" "length (icache v) = length (icache u)"
    "kino.more v = kino.more u"
    using v(4) by (simp_all add: fsframe_def log_region_def)
  have fv: "table_file ip v" using table_file_outside(1) [OF f, of v] ipl by (simp add: v(3,5) kv)
  note mv = more_kuser [OF kv(5)]
  have rv: "room (23 + 4) {} v" using v(2) by simp
  obtain w where w: "write_usertable ip v = Ok () w" "room 23 {} w" "table_file ip w" "fsframe v w" "\<forall>j. ino w j = ino v j"
      "\<forall>j. slocks w (SL_inode j) = slocks v (SL_inode j)" "holds_table w (ino w ip) (next_uid u) (utable u)"
    using write_usertable_run [OF rv fv] ok unfolding mv by blast
  let ?x = "unlock (SL_inode ip) w"
  have rw: "running w" using w(2) by (simp add: room_def tx_def)
  note x = room_unlock [OF w(2), of ip] and fx = fsframe_unlock [OF rw, of ip]
  have hw: "holds (SL_inode ip) w" using v(7) w(4,6) by (simp add: holds_def fsframe_def)
  have "1 \<le> i_ref (ino w ip)" using w(3) by (simp add: table_file_def file_ok_def inode_ok_def)
  then have iu: "iunlock ip w = Ok () ?x" using hw by (intro iunlock_run [OF rw]) auto
  have ix: "ino ?x = ino w" "icache ?x = icache w" by (simp_all add: ino_def fun_eq_iff more_unlock)
  have "length (icache w) = length (icache u)" using w(4) kv(4) by (simp add: fsframe_def)
  then have "table_file ip ?x" "holds_table ?x (ino ?x ip) (next_uid u) (utable u)"
    using table_file_outside [OF w(3), of ?x] w(7) x(2) fx ipl by (simp_all add: fsframe_def ix log_region_def)
  moreover have "fsframe u ?x" using fsframe_trans [OF v(4) fsframe_trans [OF w(4) fx]] .
  moreover have "\<forall>j. ino ?x j = ino u j" using v(5,6) w(5) by (metis ix(1))
  moreover have "\<forall>j. sl_locked (slocks ?x (SL_inode j)) = sl_locked (slocks u (SL_inode j))"
    using v(8) w(6) lk by simp
  ultimately show ?thesis using v(1) w(1) iu x(1) by auto
qed

lemma export_usertable_run:
  fixes s :: "'m kuser_scheme"
  assumes st: "store_ok ip s" and ok: "table_ok (utable s) (next_uid s)"
  shows "\<exists>t. export_usertable s = Ok () t \<and> store_ok ip t \<and> uframe s t \<and>
    holds_table t (ino t ip) (next_uid s) (utable s)"
proof -
  have S: "idle_log s" "utable_ip s = Some ip" "table_file ip s" "\<not> sl_locked (slocks s (SL_inode ip))"
    using st by (simp_all add: store_ok_def)
  obtain u where u: "begin_op s = Ok () u" "room 27 {} u" "view u = view s" "disk u = disk s" "tframe s u"
      "l_outstanding u = 1" "\<not> l_committing u" using begin_op_run [OF S(1)] by blast
  note ku = tframe_kino [OF u(5)] and mu = more_kuser [OF tframe_kino(4) [OF u(5)]]
  have ipl: "ip < length (icache s)" using S(3) by (simp add: table_file_def file_ok_def inode_ok_def)
  have fu: "table_file ip u" using table_file_outside(1) [OF S(3), of u] ipl by (simp add: u(3) ku)
  obtain x where x: "sq (ilock ip) (sq (write_usertable ip) (iunlock ip)) u = Ok () x" "room 23 {} x" "table_file ip x"
      "fsframe u x" "\<forall>j. ino x j = ino u j" "\<forall>j. sl_locked (slocks x (SL_inode j)) = sl_locked (slocks u (SL_inode j))"
      "holds_table x (ino x ip) (next_uid s) (utable s)"
    using save_run [OF u(2) fu] S(4) ok unfolding mu ku(7) by blast
  have X: "l_outstanding x = 1" "\<not> l_committing x" "disk x = disk s" "l_start x = l_start s" "disksize x = disksize s"
    "l_size x = l_size s" "log_region x = log_region s" "length (icache x) = length (icache s)"
    using x(4) u(4-7) ku(2) by (simp_all add: fsframe_def tframe_def log_region_def)
  have I: "head_n (disk s (l_start s)) = 0" "\<forall>bn\<in>log_region s. bn < disksize s" "int LOGSIZE \<le> l_size s"
    using S(1) idle_view(3) [OF S(1)] by (simp_all add: idle_log_def)
  obtain t where t: "end_op x = Ok () t" "idle_log t" "tframe x t"
      "\<forall>bn. bn \<notin> log_region x \<longrightarrow> disk t bn = view x bn \<and> view t bn = view x bn"
    using end_op_run [OF x(2)] X I by auto
  note kt = tframe_kino [OF t(3)]
  have "export_usertable s = Ok () t"
    using u(1) x(1) t(1) S(2) mu(3) by (auto simp: export_usertable_def sq_eq_Ok)
  moreover have "table_file ip t" "holds_table t (ino t ip) (next_uid s) (utable s)"
    using table_file_outside [OF x(3), of t] x(7) t(4) X(8) ipl by (simp_all add: kt)
  moreover have uf: "uframe s t"
    using t(3) x(4-6) u(5) X(8) unfolding uframe_def by (simp add: kt ku fsframe_def tframe_def)
  moreover have "\<not> sl_locked (slocks t (SL_inode ip))" "utable_ip t = Some ip"
    using uf S(2,4) more_kuser(3) [of t s] by (simp_all add: uframe_def)
  ultimately show ?thesis using t(2) by (auto simp: store_ok_def)
qed

section \<open>Reading the table back\<close>

lemma room_next_uid:
  fixes s :: "'m kuser_scheme"
  assumes "room k {} s"
  shows "room k {} (s\<lparr>next_uid := n\<rparr>)" "view (s\<lparr>next_uid := n\<rparr>) = view s" "ino (s\<lparr>next_uid := n\<rparr>) = ino s"
    "log_region (s\<lparr>next_uid := n\<rparr>) = log_region s"
proof -
  have run: "running s" using assms by (simp add: room_def tx_def)
  have rt: "running (s\<lparr>next_uid := n\<rparr>)" using run by (subst running_cong [of _ s]) simp_all
  have pa: "proc_at (s\<lparr>next_uid := n\<rparr>) = proc_at s" by (simp add: proc_at_def)
  show "room k {} (s\<lparr>next_uid := n\<rparr>)" "view (s\<lparr>next_uid := n\<rparr>) = view s"
    using room_keep [OF assms rt] pa by simp_all
  show "ino (s\<lparr>next_uid := n\<rparr>) = ino s" by (simp add: ino_def fun_eq_iff)
  show "log_region (s\<lparr>next_uid := n\<rparr>) = log_region s" by (simp add: log_region_def)
qed

lemma holds_table_parts:
  assumes "holds_table s I nu us"
  shows "map (fbyte s I) [0..<4] = enc32 nu" "map (fbyte s I) [4..<364] = enc_utable us"
proof -
  have e: "[0..<364] = [0..<4] @ [4..<364]" by (simp add: upt_add_eq_append [of 0 4 360, simplified])
  have "map (fbyte s I) [0..<364] = enc32 nu @ enc_utable us"
    using assms by (simp add: holds_table_def table_bytes_def table_sizes)
  then have "map (fbyte s I) [0..<4] @ map (fbyte s I) [4..<364] = enc32 nu @ enc_utable us"
    unfolding e map_append .
  then show "map (fbyte s I) [0..<4] = enc32 nu" "map (fbyte s I) [4..<364] = enc_utable us"
    by (simp_all add: append_eq_append_conv)
qed

lemma read_usertable_run:
  fixes s :: "'m kuser_scheme"
  assumes r: "room 0 {} s" and f: "table_file ip s" and h: "holds_table s (ino s ip) nu us" and ok: "table_ok us nu"
  shows "\<exists>t. read_usertable ip s = Ok () t \<and> utable t = us \<and> next_uid t = nu"
proof -
  note a = holds_table_parts(1) [OF h]
  have F: "file_ok ip s" "mapped ip s" "i_type (ino s ip) \<noteq> T_DEV" "364 \<le> unat (i_size (ino s ip))"
    using f by (simp_all add: table_file_def table_sizes T_FILE_def T_DEV_def)
  have w: "unat (0 :: u32) = 0" "unat (4 :: u32) = 4" "unat (of_nat UTABLE_SIZE :: u32) = 360"
    by (simp_all add: table_sizes)
  have e1: "4 = min (unat (0 :: u32) + unat (4 :: u32)) (unat (i_size (ino s ip)))" using F(4) by simp
  obtain u where u: "readi ip 0 4 s = Ok (4, enc32 nu) u" "room 0 {} u" "view u = view s" "lframe s u"
    using readi_run [OF r F(1-3) _ _ e1] unfolding w a by auto
  let ?v = "u\<lparr>next_uid := nu\<rparr>"
  note v = room_next_uid [OF u(2), of nu] and mk = more_kino [OF u(4)]
  have iu: "ino u = ino s" by (simp add: ino_def fun_eq_iff mk)
  have fv: "table_file ip ?v" and hv: "holds_table ?v (ino ?v ip) nu us"
    using table_file_outside [OF f, of ?v] h file_okD(4) [OF F(1)] by (simp_all add: v u(3) iu mk)
  note bv = holds_table_parts(2) [OF hv]
  have G: "file_ok ip ?v" "mapped ip ?v" "i_type (ino ?v ip) \<noteq> T_DEV"
    using fv by (simp_all add: table_file_def T_FILE_def T_DEV_def)
  have e2: "364 = min (unat (4 :: u32) + unat (of_nat UTABLE_SIZE :: u32)) (unat (i_size (ino ?v ip)))"
    unfolding w using F(4) by (simp add: v(3) iu)
  have "4 \<le> i_size (ino ?v ip)" using F(4) by (simp add: v(3) iu word_le_nat_alt)
  then obtain w where w: "readi ip 4 (of_nat UTABLE_SIZE) ?v = Ok (int UTABLE_SIZE, enc_utable us) w" "lframe ?v w"
    using readi_run [OF v(1) G _ _ e2] unfolding w bv by (auto simp: table_sizes(1))
  have "next_uid w = nu" using more_kuser(2) [OF more_kino(3) [OF w(2)]] by simp
  moreover have "dec_utable (enc_utable us) = us" using table_okD(1,2) [OF ok] by (intro dec_enc_utable) auto
  ultimately show ?thesis using u(1) w(1) by (simp add: read_usertable_def)
qed

section \<open>The operations\<close>

lemma store_ok_keep:
  fixes s t :: "'m kuser_scheme"
  assumes "store_ok ip s" "running t" "bufs t = bufs s" "lru t = lru s" "disk t = disk s"
    and "\<And>l. l \<noteq> SL_utable \<Longrightarrow> slocks t l = slocks s l" "p_pid (proc_at t) = p_pid (proc_at s)"
    and "l_n t = l_n s" "l_block t = l_block s" "l_start t = l_start s" "l_dev t = l_dev s"
    and "l_outstanding t = l_outstanding s" "l_committing t = l_committing s" "l_size t = l_size s"
    and "disksize t = disksize s" "fs_sb t = fs_sb s" "icache t = icache s" "utable_ip t = utable_ip s"
  shows "store_ok ip t" "holds_table t (ino t ip) nu us = holds_table s (ino s ip) nu us"
proof -
  have lk: "slocks t (SL_buf i) = slocks s (SL_buf i)" "slocks t (SL_inode i) = slocks s (SL_inode i)" for i
    using assms(6) by simp_all
  note k = log_ready_keep [OF assms(3-5) lk(1) assms(7,2,8-11)]
  have reg: "log_region t = log_region s" using assms(10) by (simp add: log_region_def)
  have i: "ino t = ino s" using assms(17) by (simp add: ino_def fun_eq_iff)
  have S: "idle_log s" "table_file ip s" using assms(1) by (simp_all add: store_ok_def)
  have "idle_log t" using S(1) k assms(8,12-15) by (simp add: idle_log_def reg)
  moreover have "ip < length (icache t)" using S(2) assms(17) by (simp add: table_file_def file_ok_def inode_ok_def)
  then have "table_file ip t" using table_file_outside(1) [OF S(2), of t] k(2) assms(15,16) by (simp add: reg i)
  ultimately show "store_ok ip t" using assms(1,18) lk(2) by (simp add: store_ok_def)
  have v: "view t = view s" by (rule k)
  have ba: "baddr t = baddr s" by (simp add: baddr_def v fun_eq_iff)
  have "fbyte t = fbyte s" by (simp add: fbyte_def fblk_def v ba fun_eq_iff)
  then show "holds_table t (ino t ip) nu us = holds_table s (ino s ip) nu us" by (simp add: holds_table_def i)
qed

lemma store_lock:
  fixes s :: "'m kuser_scheme"
  assumes "store_ok ip s"
  shows "store_ok ip (lock_for SL_utable s)" "store_ok ip (unlock SL_utable s)"
    "store_ok ip (s\<lparr>utable := us, next_uid := nu\<rparr>)"
    "holds_table (unlock SL_utable s) (ino (unlock SL_utable s) ip) nu us = holds_table s (ino s ip) nu us"
    "holds_table (lock_for SL_utable s) (ino (lock_for SL_utable s) ip) nu us = holds_table s (ino s ip) nu us"
proof -
  have run: "running s" using assms idle_view(2) by (auto simp: store_ok_def)
  have f: "lock_for SL_utable s = s\<lparr>slocks := (slocks s)(SL_utable := \<lparr>sl_locked = True, sl_pid = p_pid (proc_at s)\<rparr>)\<rparr>"
    by (simp add: lock_for_def)
  have rl: "running (lock_for SL_utable s)" using run by simp
  show "store_ok ip (lock_for SL_utable s)"
    "holds_table (lock_for SL_utable s) (ino (lock_for SL_utable s) ip) nu us = holds_table s (ino s ip) nu us"
    using store_ok_keep [OF assms rl] by (simp_all add: f)
  have ru: "running (unlock SL_utable s)" using run by simp
  have g: "unlock SL_utable s = s\<lparr>ptab := map (wake_proc (CH_sleeplock SL_utable)) (ptab s),
      slocks := (slocks s)(SL_utable := \<lparr>sl_locked = False, sl_pid = 0\<rparr>)\<rparr>"
    by (simp add: unlock_def wakeup1_def)
  have pu: "p_pid (proc_at (unlock SL_utable s)) = p_pid (proc_at s)" using run by simp
  show "store_ok ip (unlock SL_utable s)"
    "holds_table (unlock SL_utable s) (ino (unlock SL_utable s) ip) nu us = holds_table s (ino s ip) nu us"
    using store_ok_keep [OF assms ru] pu by (simp_all add: g)
  have "running (s\<lparr>utable := us, next_uid := nu\<rparr>)" using run by (subst running_cong [of _ s]) simp_all
  moreover have "proc_at (s\<lparr>utable := us, next_uid := nu\<rparr>) = proc_at s" by (simp add: proc_at_def)
  ultimately show "store_ok ip (s\<lparr>utable := us, next_uid := nu\<rparr>)"
    by (intro store_ok_keep(1) [OF assms]) simp_all
qed

text \<open>The invariant between two calls: the table is well formed, and the file has the same contents.\<close>

definition saved_in :: "nat \<Rightarrow> 'm kuser_scheme \<Rightarrow> bool" where
  "saved_in ip s \<longleftrightarrow> store_ok ip s \<and> table_ok (utable s) (next_uid s) \<and> \<not> sl_locked (slocks s SL_utable) \<and>
     holds_table s (ino s ip) (next_uid s) (utable s)"

definition users_ok :: "'m kuser_scheme \<Rightarrow> bool" where
  "users_ok s \<longleftrightarrow> (\<exists>ip. saved_in ip s)"

lemma users_lock:
  fixes s :: "'m kuser_scheme"
  assumes "users_ok s"
  shows "acquiresleep SL_utable s = Ok () (lock_for SL_utable s)" "utable (lock_for SL_utable s) = utable s"
    "next_uid (lock_for SL_utable s) = next_uid s"
    "releasesleep SL_utable (lock_for SL_utable s) = Ok () (unlock SL_utable (lock_for SL_utable s))"
    "users_ok (unlock SL_utable (lock_for SL_utable s))" "utable (unlock SL_utable (lock_for SL_utable s)) = utable s"
    "next_uid (unlock SL_utable (lock_for SL_utable s)) = next_uid s"
proof -
  obtain ip where ip: "store_ok ip s" "table_ok (utable s) (next_uid s)" "\<not> sl_locked (slocks s SL_utable)"
      "holds_table s (ino s ip) (next_uid s) (utable s)"
    using assms by (auto simp: users_ok_def saved_in_def)
  have run: "running s" using ip(1) idle_view(2) by (auto simp: store_ok_def)
  then show "acquiresleep SL_utable s = Ok () (lock_for SL_utable s)" using ip(3) by (rule running_acquiresleep)
  show m: "utable (lock_for SL_utable s) = utable s" "next_uid (lock_for SL_utable s) = next_uid s"
    by (simp_all add: lock_for_def)
  show "releasesleep SL_utable (lock_for SL_utable s) = Ok () (unlock SL_utable (lock_for SL_utable s))"
    using run by (intro running_releasesleep) simp
  show n: "utable (unlock SL_utable (lock_for SL_utable s)) = utable s"
    "next_uid (unlock SL_utable (lock_for SL_utable s)) = next_uid s"
    by (simp_all add: unlock_def wakeup1_def lock_for_def)
  note l = store_lock(1) [OF ip(1)]
  show "users_ok (unlock SL_utable (lock_for SL_utable s))"
    using store_lock(2,4) [OF l] store_lock(5) [OF ip(1)] ip by (auto simp: users_ok_def saved_in_def n)
qed

lemma change_run:
  fixes s :: "'m kuser_scheme"
  assumes "users_ok s" "table_ok us nu"
  shows "\<exists>t. sq export_usertable (releasesleep SL_utable) ((lock_for SL_utable s)\<lparr>utable := us, next_uid := nu\<rparr>) = Ok () t \<and>
    users_ok t \<and> utable t = us \<and> next_uid t = nu"
proof -
  obtain ip where ip: "store_ok ip s" using assms(1) by (auto simp: users_ok_def saved_in_def)
  let ?v = "(lock_for SL_utable s)\<lparr>utable := us, next_uid := nu\<rparr>"
  have "store_ok ip ?v" by (intro store_lock(3) store_lock(1) ip)
  then obtain w where w: "export_usertable ?v = Ok () w" "store_ok ip w" "uframe ?v w" "holds_table w (ino w ip) nu us"
    using export_usertable_run [of ip ?v] assms(2) by auto
  have m: "utable w = us" "next_uid w = nu" using more_kuser [of w ?v] w(3) by (simp_all add: uframe_def)
  have run: "running w" using w(2) idle_view(2) by (auto simp: store_ok_def)
  let ?t = "unlock SL_utable w"
  have mt: "utable ?t = us" "next_uid ?t = nu" using m by (simp_all add: unlock_def wakeup1_def)
  have "users_ok ?t"
    using store_lock(2,4) [OF w(2)] w(4) assms(2) by (auto simp: users_ok_def saved_in_def mt)
  then show ?thesis using w(1) running_releasesleep [OF run] mt by auto
qed

lemma users_okD: "users_ok s \<Longrightarrow> table_ok (utable s) (next_uid s)"
  by (auto simp: users_ok_def saved_in_def)

lemma getuid_run:
  fixes s :: "'m kuser_scheme"
  assumes ok: "users_ok s" and v: "is_valid_username name" "is_valid_passwd pw"
  shows "\<exists>t. getuid name pw s =
      Ok (case accounts (utable s) (cname name) of None \<Rightarrow> 0 | Some (p, uid) \<Rightarrow> if p = cpasswd pw then uid else 0) t \<and>
    users_ok t \<and> utable t = utable s \<and> next_uid t = next_uid s"
proof -
  note L = users_lock [OF ok]
  let ?t = "unlock SL_utable (lock_for SL_utable s)"
  have p: "strncmp (cptr (u_passwd u)) (cptr pw) USER_PW_MAXLEN \<noteq> 0 \<longleftrightarrow> cpasswd (u_passwd u) \<noteq> cpasswd pw" for u
    by (simp add: strncmp_0_iff cpasswd_def)
  have "getuid name pw s =
      Ok (case accounts (utable s) (cname name) of None \<Rightarrow> 0 | Some (p, uid) \<Rightarrow> if p = cpasswd pw then uid else 0) ?t"
    using v L
    by (simp add: getuid_def find_user_owns accounts_find_idx p split: option.split)
  then show ?thesis using L by blast
qed

definition can_add :: "bytes \<Rightarrow> bytes \<Rightarrow> 'm kuser_scheme \<Rightarrow> bool" where
  "can_add name pw s \<longleftrightarrow> is_valid_username name \<and> is_valid_passwd pw \<and> accounts (utable s) (cname name) = None \<and>
     (\<exists>u\<in>set (utable s). u_uid u = 0)"

lemma new_user_fields:
  "wf_user (new_user name pw uid)" "u_uid (new_user name pw uid) = uid"
  "cname (u_username (new_user name pw uid)) = cname name" "cpasswd (u_passwd (new_user name pw uid)) = cpasswd pw"
  by (simp_all add: new_user_def wf_user_def cname_def cpasswd_def cstr_of_strncpy_out)

lemma add_user_run:
  fixes s :: "'m kuser_scheme"
  assumes ok: "users_ok s" and c: "can_add name pw s" and nu: "next_uid s < next_uid s + 1"
  shows "\<exists>t. add_user name pw s = Ok (next_uid s) t \<and> users_ok t \<and> next_uid s \<noteq> 0 \<and> next_uid t = next_uid s + 1 \<and>
    accounts (utable t) = (accounts (utable s))(cname name \<mapsto> (cpasswd pw, next_uid s))"
proof -
  note L = users_lock [OF ok] and T = users_okD [OF ok]
  let ?u = "lock_for SL_utable s" and ?new = "new_user name pw (next_uid s)"
  have C: "is_valid_username name" "is_valid_passwd pw" "accounts (utable s) (cname name) = None"
    "\<exists>u\<in>set (utable s). u_uid u = 0" using c by (simp_all add: can_add_def)
  obtain i where i: "add_scan (utable s) name 0 None = Some (Some i)" "i < length (utable s)" "u_uid (utable s ! i) = 0"
    using add_scan_cases [of "utable s" name 0 None] C(3,4) by (auto simp: accounts_None)
  have il: "i < NUSER" using i(2) table_okD(1) [OF T] by simp
  have free: "accounts (utable s) (cname (u_username ?new)) = None" using C(3) by (simp add: new_user_fields)
  note st = table_store [OF T il i(3) new_user_fields(1,2) free nu]
  obtain t where t: "sq export_usertable (releasesleep SL_utable)
        (?u\<lparr>utable := (utable s)[i := ?new], next_uid := next_uid s + 1\<rparr>) = Ok () t"
      "users_ok t" "utable t = (utable s)[i := ?new]" "next_uid t = next_uid s + 1"
    using change_run [OF ok st(1)] by blast
  then obtain w where w: "export_usertable (?u\<lparr>utable := (utable s)[i := ?new], next_uid := next_uid s + 1\<rparr>) = Ok () w"
      "releasesleep SL_utable w = Ok () t" by (auto simp: sq_eq_Ok)
  have "add_user name pw s = Ok (u_uid (utable t ! i)) t"
    using C(1,2) L i(1) w by (simp add: add_user_def)
  moreover have "utable t ! i = ?new" using i(2) by (simp add: t(3))
  moreover have "next_uid s \<noteq> 0" using table_okD(2) [OF T, of "utable s ! i"] i(2) by auto
  ultimately show ?thesis using t st(2) by (simp add: new_user_fields)
qed

lemma add_user_refused:
  fixes s :: "'m kuser_scheme"
  assumes ok: "users_ok s" and c: "\<not> can_add name pw s"
  shows "\<exists>t. add_user name pw s = Ok 0 t \<and> users_ok t \<and> utable t = utable s \<and> next_uid t = next_uid s"
proof (cases "is_valid_username name \<and> is_valid_passwd pw")
  case True
  note L = users_lock [OF ok]
  have "add_scan (utable s) name 0 None = None \<or> add_scan (utable s) name 0 None = Some None"
    using add_scan_cases [of "utable s" name 0 None] c True nth_mem [of _ "utable s"]
    by (auto simp: can_add_def accounts_None)
  then have "add_user name pw s = Ok 0 (unlock SL_utable (lock_for SL_utable s))"
    using True L by (auto simp: add_user_def)
  then show ?thesis using L by blast
qed (use ok in \<open>auto simp: add_user_def\<close>)

lemma cname_root: "cname str_root = str_root"
  by (simp add: cname_def str_root_def cstr_of_cptr USERNAME_MAXLEN_def)

lemma delete_user_run:
  fixes s :: "'m kuser_scheme"
  assumes ok: "users_ok s" and v: "is_valid_username name" "cname name \<noteq> str_root" "accounts (utable s) (cname name) \<noteq> None"
  shows "\<exists>t. delete_user name s = Ok 0 t \<and> users_ok t \<and> next_uid t = next_uid s \<and>
    accounts (utable t) = (accounts (utable s))(cname name := None)"
proof -
  note L = users_lock [OF ok] and T = users_okD [OF ok]
  let ?u = "lock_for SL_utable s"
  obtain i where i: "find_idx (owns (cname name)) (utable s) = Some i" using v(3) by (auto simp: accounts_find_idx)
  then have "i < NUSER" "owns (cname name) (utable s ! i)" using table_okD(1) [OF T] by (auto simp: find_idx_Some)
  note cl = table_clear [OF T this v(2)]
  obtain t where t: "sq export_usertable (releasesleep SL_utable)
        (?u\<lparr>utable := (utable s)[i := zero_user], next_uid := next_uid s\<rparr>) = Ok () t"
      "users_ok t" "utable t = (utable s)[i := zero_user]" "next_uid t = next_uid s"
    using change_run [OF ok cl(1)] by blast
  have same: "?u\<lparr>utable := (utable s)[i := zero_user], next_uid := next_uid s\<rparr> = ?u\<lparr>utable := (utable s)[i := zero_user]\<rparr>"
    by (cases s) (simp add: lock_for_def)
  obtain w where w: "export_usertable (?u\<lparr>utable := (utable s)[i := zero_user]\<rparr>) = Ok () w"
      "releasesleep SL_utable w = Ok () t" using t(1) unfolding same by (auto simp: sq_eq_Ok)
  have "strncmp (cptr str_root) (cptr name) USERNAME_MAXLEN \<noteq> 0"
    using v(2) cname_root by (auto simp: strncmp_0_iff cname_def)
  then have "delete_user name s = Ok 0 t"
    using v(1) L i w by (simp add: delete_user_def find_user_owns)
  then show ?thesis using t cl(2) by auto
qed

lemma delete_user_refused:
  fixes s :: "'m kuser_scheme"
  assumes ok: "users_ok s"
    and v: "\<not> is_valid_username name \<or> cname name = str_root \<or> accounts (utable s) (cname name) = None"
  shows "\<exists>t. delete_user name s = Ok (-1) t \<and> users_ok t \<and> utable t = utable s \<and> next_uid t = next_uid s"
proof (cases "is_valid_username name \<and> cname name \<noteq> str_root")
  case True
  note L = users_lock [OF ok]
  have r: "strncmp (cptr str_root) (cptr name) USERNAME_MAXLEN \<noteq> 0"
    using True cname_root by (auto simp: strncmp_0_iff cname_def)
  have "find_idx (owns (cname name)) (utable s) = None" using True v by (auto simp: accounts_find_idx)
  then have "delete_user name s = Ok (-1) (unlock SL_utable (lock_for SL_utable s))"
    using True r L by (simp add: delete_user_def find_user_owns)
  then show ?thesis using L by blast
next
  case False
  then have "\<not> is_valid_username name \<or> strncmp (cptr str_root) (cptr name) USERNAME_MAXLEN = 0"
    using cname_root by (auto simp: strncmp_0_iff cname_def)
  then show ?thesis using ok by (auto simp: delete_user_def)
qed

section \<open>What the rest of the kernel relies on\<close>

text \<open>
  A store of accounts: logging in succeeds with the password the account was made with and with no
  other, and fails when the account is gone. A name is compared up to its first NUL.
\<close>

locale account_store =
  fixes inv :: "'s \<Rightarrow> bool"
    and acc :: "'s \<Rightarrow> bytes \<Rightarrow> (bytes \<times> u32) option"
    and fresh :: "bytes \<Rightarrow> bytes \<Rightarrow> 's \<Rightarrow> bool"
    and valid :: "bytes \<Rightarrow> bytes \<Rightarrow> bool"
    and add :: "bytes \<Rightarrow> bytes \<Rightarrow> ('s, u32) km"
    and del :: "bytes \<Rightarrow> ('s, int) km"
    and login :: "bytes \<Rightarrow> bytes \<Rightarrow> ('s, u32) km"
  assumes add_law: "inv s \<Longrightarrow> fresh n p s \<Longrightarrow> \<exists>r t. add n p s = Ok r t \<and> inv t \<and> r \<noteq> 0 \<and>
          acc t = (acc s)(cname n \<mapsto> (cpasswd p, r))"
    and del_law: "inv s \<Longrightarrow> valid n p \<Longrightarrow> cname n \<noteq> str_root \<Longrightarrow> acc s (cname n) \<noteq> None \<Longrightarrow>
          \<exists>t. del n s = Ok 0 t \<and> inv t \<and> acc t = (acc s)(cname n := None)"
    and login_law: "inv s \<Longrightarrow> valid n p \<Longrightarrow> \<exists>t. login n p s =
          Ok (case acc s (cname n) of None \<Rightarrow> 0 | Some (q, uid) \<Rightarrow> if q = cpasswd p then uid else 0) t \<and>
          inv t \<and> acc t = acc s"
begin

lemma login_after_add:
  assumes "inv s" "fresh n p s" "valid m q"
  shows "\<exists>r u t. bnd (add n p) (\<lambda>r. bnd (login m q) (\<lambda>u. ret (r, u))) s = Ok (r, u) t \<and> inv t \<and> r \<noteq> 0 \<and>
    u = (if cname m = cname n then if cpasswd q = cpasswd p then r else 0
         else case acc s (cname m) of None \<Rightarrow> 0 | Some (w, uid) \<Rightarrow> if w = cpasswd q then uid else 0)"
proof -
  obtain r u where u: "add n p s = Ok r u" "inv u" "r \<noteq> 0" "acc u = (acc s)(cname n \<mapsto> (cpasswd p, r))"
    using add_law [OF assms(1,2)] by blast
  obtain t where "login m q u =
      Ok (case acc u (cname m) of None \<Rightarrow> 0 | Some (w, uid) \<Rightarrow> if w = cpasswd q then uid else 0) t" "inv t"
    using login_law [OF u(2) assms(3)] by blast
  then show ?thesis using u by (auto simp: bnd_Ok split: option.split)
qed

lemma login_after_delete:
  assumes "inv s" "valid n p" "cname n \<noteq> str_root" "acc s (cname n) \<noteq> None"
  shows "\<exists>t. sq (del n) (login n p) s = Ok 0 t \<and> inv t \<and> acc t = (acc s)(cname n := None)"
proof -
  obtain u where u: "del n s = Ok 0 u" "inv u" "acc u = (acc s)(cname n := None)"
    using del_law [OF assms] by blast
  show ?thesis using login_law [OF u(2) assms(2)] u by auto
qed

end

definition accounts_in :: "'m kuser_scheme \<Rightarrow> bytes \<Rightarrow> (bytes \<times> u32) option" where
  "accounts_in s = accounts (utable s)"

definition fresh_user :: "bytes \<Rightarrow> bytes \<Rightarrow> 'm kuser_scheme \<Rightarrow> bool" where
  "fresh_user name pw s \<longleftrightarrow> can_add name pw s \<and> next_uid s < next_uid s + 1"

definition valid_input :: "bytes \<Rightarrow> bytes \<Rightarrow> bool" where
  "valid_input name pw \<longleftrightarrow> is_valid_username name \<and> is_valid_passwd pw"

interpretation us: account_store users_ok accounts_in fresh_user valid_input add_user delete_user getuid
proof unfold_locales
  fix s :: "'m kuser_scheme" and n p
  show "users_ok s \<Longrightarrow> fresh_user n p s \<Longrightarrow> \<exists>r t. add_user n p s = Ok r t \<and> users_ok t \<and> r \<noteq> 0 \<and>
      accounts_in t = (accounts_in s)(cname n \<mapsto> (cpasswd p, r))"
    using add_user_run [of s n p] by (auto simp: fresh_user_def accounts_in_def)
  show "users_ok s \<Longrightarrow> valid_input n p \<Longrightarrow> cname n \<noteq> str_root \<Longrightarrow> accounts_in s (cname n) \<noteq> None \<Longrightarrow>
      \<exists>t. delete_user n s = Ok 0 t \<and> users_ok t \<and> accounts_in t = (accounts_in s)(cname n := None)"
    using delete_user_run [of s n] by (auto simp: valid_input_def accounts_in_def)
  show "users_ok s \<Longrightarrow> valid_input n p \<Longrightarrow> \<exists>t. getuid n p s =
      Ok (case accounts_in s (cname n) of None \<Rightarrow> 0 | Some (q, uid) \<Rightarrow> if q = cpasswd p then uid else 0) t \<and>
      users_ok t \<and> accounts_in t = accounts_in s"
    using getuid_run [of s n p] by (auto simp: valid_input_def accounts_in_def)
qed

section \<open>Properties\<close>

text \<open>
  C3. The table of users refines a map from names to passwords and user ids: \<open>add_user\<close>
  (usermanage.c) inserts a new name and returns its id when the input is valid, the name is not taken
  and an entry is free, and otherwise returns 0 and changes nothing. Either way the invariant holds
  again, which says that names and ids are unique and that \<open>/passwd\<close> has the table on disk.
\<close>

theorem add_user_refines:
  fixes s :: "'m kuser_scheme"
  assumes "users_ok s" and "next_uid s < next_uid s + 1"
  shows "\<exists>r t. add_user name pw s = Ok r t \<and> users_ok t \<and>
    (if can_add name pw s then r = next_uid s \<and> r \<noteq> 0 \<and> accounts_in t = (accounts_in s)(cname name \<mapsto> (cpasswd pw, r))
     else r = 0 \<and> accounts_in t = accounts_in s)"
  using add_user_run [OF assms(1) _ assms(2), of name pw] add_user_refused [OF assms(1), of name pw]
  by (cases "can_add name pw s") (auto simp: accounts_in_def)

text \<open>
  C4. \<open>delete_user\<close> (usermanage.c) removes exactly the named account from that map and returns 0; for
  an invalid or unknown name and for \<open>root\<close> it returns -1 and changes nothing. The invariant holds again.
\<close>

theorem delete_user_refines:
  fixes s :: "'m kuser_scheme"
  assumes "users_ok s"
  shows "\<exists>r t. delete_user name s = Ok r t \<and> users_ok t \<and>
    (if is_valid_username name \<and> cname name \<noteq> str_root \<and> accounts_in s (cname name) \<noteq> None
     then r = 0 \<and> accounts_in t = (accounts_in s)(cname name := None)
     else r = -1 \<and> accounts_in t = accounts_in s)"
  using delete_user_run [OF assms, of name] delete_user_refused [OF assms, of name]
  by (cases "is_valid_username name \<and> cname name \<noteq> str_root \<and> accounts_in s (cname name) \<noteq> None")
    (auto simp: accounts_in_def simp del: not_None_eq)

text \<open>
  C5. After \<open>add_user\<close> succeeds, \<open>getuid\<close> (usermanage.c) with that name returns the new id for the
  same password and 0 for any other, and the logins of the other users are as before.
\<close>

theorem login_after_add_user:
  fixes s :: "'m kuser_scheme"
  assumes "users_ok s" and "fresh_user name pw s" and "valid_input name' pw'"
  shows "\<exists>r u t. bnd (add_user name pw) (\<lambda>r. bnd (getuid name' pw') (\<lambda>u. ret (r, u))) s = Ok (r, u) t \<and> r \<noteq> 0 \<and>
    u = (if cname name' = cname name then if cpasswd pw' = cpasswd pw then r else 0
         else case accounts_in s (cname name') of None \<Rightarrow> 0 | Some (w, uid) \<Rightarrow> if w = cpasswd pw' then uid else 0)"
  using us.login_after_add [OF assms] by blast

text \<open>
  A kernel that has booted from the disk of \<open>s\<close> and has the inode of \<open>/passwd\<close> locked in the cache, as
  \<open>init_usertable\<close> has it when it starts to read.
\<close>

definition rebooted :: "'m kuser_scheme \<Rightarrow> nat \<Rightarrow> 'm kuser_scheme \<Rightarrow> bool" where
  "rebooted s jp r \<longleftrightarrow> room 0 {} r \<and> view r = disk s \<and> fs_sb r = fs_sb s \<and> disksize r = disksize s \<and>
     l_start r = l_start s \<and> jp < length (icache r) \<and> 1 \<le> i_ref (ino r jp) \<and> i_dev (ino r jp) = 1 \<and> i_valid (ino r jp) \<and>
     (\<exists>ip. saved_in ip s \<and> i_inum (ino r jp) = i_inum (ino s ip)) \<and>
     dinode_of (ino r jp) = dinode_at r (i_inum (ino r jp))"

lemma loaded_eq:
  assumes "dinode_of J = dinode_of I" "i_dev J = i_dev I" "i_inum J = i_inum I"
  shows "J = I\<lparr>i_ref := i_ref J, i_valid := i_valid J\<rparr>"
  using assms by (cases I, cases J) (simp add: dinode_of_def)

text \<open>
  C6. What the accounts are does not depend on the machine staying up: from every state of the
  invariant, a kernel that boots from the disk as it is and reads \<open>/passwd\<close> (\<open>init_usertable\<close> of
  usermanage.c) gets the same table and the same next user id.
\<close>

theorem passwd_survives_reboot:
  fixes s r :: "'m kuser_scheme"
  assumes "users_ok s" and "rebooted s jp r"
  shows "\<exists>t. read_usertable jp r = Ok () t \<and> utable t = utable s \<and> next_uid t = next_uid s"
proof -
  obtain ip where ip: "saved_in ip s" "i_inum (ino r jp) = i_inum (ino s ip)"
    using assms(2) by (auto simp: rebooted_def)
  have S: "idle_log s" "table_file ip s" "table_ok (utable s) (next_uid s)" "holds_table s (ino s ip) (next_uid s) (utable s)"
    using ip(1) by (simp_all add: saved_in_def store_ok_def)
  have F: "file_ok ip s" "mapped ip s" "i_type (ino s ip) = T_FILE" "4 + UTABLE_SIZE \<le> unat (i_size (ino s ip))"
    "dinode_of (ino s ip) = dinode_at s (i_inum (ino s ip))" using S(2) by (simp_all add: table_file_def)
  have R: "room 0 {} r" "view r = view s" "fs_sb r = fs_sb s" "disksize r = disksize s" "log_region r = log_region s"
    "jp < length (icache r)" "1 \<le> i_ref (ino r jp)" "i_dev (ino r jp) = 1" "i_valid (ino r jp)"
    "dinode_of (ino r jp) = dinode_at r (i_inum (ino r jp))"
    using assms(2) idle_view(1) [OF S(1)] by (simp_all add: rebooted_def log_region_def)
  have da: "dinode_at r = dinode_at s" by (simp add: dinode_at_def fun_eq_iff R)
  have J: "ino r jp = (ino s ip)\<lparr>i_ref := i_ref (ino r jp), i_valid := i_valid (ino r jp)\<rparr>"
    using F(5) R(8,10) ip(2) file_okD(5) [OF F(1)] by (intro loaded_eq) (simp_all add: da)
  note o = file_outside [OF F(1), of r, OF _ R(3-5) J R(6,7)]
  have "table_file jp r"
    using o(1,5) R(2,9,10) F(2-4) by (simp add: table_file_def) (subst J, subst (2) J, simp)
  moreover have "holds_table r (ino r jp) (next_uid s) (utable s)"
    using S(4) R(2) unfolding holds_table_def
    by (subst fbyte_outside [of r "ino r jp" s "ino s ip", OF o(2)]) (simp_all add: table_sizes)
  ultimately show ?thesis using read_usertable_run [OF R(1) _ _ S(3)] by blast
qed

text \<open>
  C40. A call of \<open>getuid\<close> (usermanage.c) with an invalid name or password returns 0, but on the way it
  releases the lock of the user table even when another process holds it.
\<close>

theorem getuid_invalid_unlocks:
  assumes "running s" and "sl_locked (slocks s SL_utable)" and "sl_pid (slocks s SL_utable) \<noteq> p_pid (proc_at s)"
    and "\<not> valid_input name pw"
  shows "\<exists>t. getuid name pw s = Ok 0 t \<and> \<not> sl_locked (slocks t SL_utable)"
  using assms running_releasesleep [OF assms(1), of SL_utable]
  by (intro exI [of _ "unlock SL_utable s"]) (auto simp: getuid_def valid_input_def)

section \<open>An example\<close>

text \<open>The table \<open>create_usertable\<close> makes, stored in block 57 of the example disk.\<close>

definition pw_table :: "user list" where
  "pw_table = root_user # replicate (NUSER - 1) zero_user"

definition pw_dinode :: dinode where
  "pw_dinode = zero_dinode\<lparr>d_type := T_FILE, d_nlink := 1, d_size := 364, d_addrs := 57 # replicate NDIRECT 0, d_owner := 1\<rparr>"

definition pw_disk :: "u32 \<Rightarrow> bytes" where
  "pw_disk bn =
     (if bn = 58 then demo_bitmap else if bn = 57 then put_arr 0 (table_bytes 2 pw_table) (replicate BSIZE 0)
      else if bn = 32 then put_dinode 7 pw_dinode (replicate BSIZE 0) else replicate BSIZE 0)"

definition pw_inode :: inode where
  "pw_inode = (load_dinode pw_dinode zero_inode)\<lparr>i_dev := 1, i_inum := 7, i_ref := 1, i_valid := True\<rparr>"

definition pw_fs :: kuser where
  "pw_fs = fs_state pw_disk [pw_inode] (demo_cons \<lparr>utable = pw_table, next_uid = 2, utable_initialized = True,
     utable_ip = Some 0\<rparr>)"

definition pw_state :: kuser where
  "pw_state = pw_fs\<lparr>l_outstanding := 0\<rparr>"

lemma pw_users: "wf_user root_user" "u_uid root_user = 1" "cname (u_username root_user) = str_root"
  by (simp_all add: root_user_def wf_user_def ROOT_UID_def cname_def cstr_of_strncpy_out)
    (simp add: cname_root [unfolded cname_def])

lemma pw_table_ok: "table_ok pw_table 2"
proof -
  have at: "pw_table ! i = (if i = 0 then root_user else zero_user)" if "i < NUSER" for i
    using that by (simp add: pw_table_def nth_Cons')
  have "set pw_table = {root_user, zero_user}" by (simp add: pw_table_def NUSER_def)
  moreover have "\<not> same_user u zero_user" "\<not> same_user zero_user u" for u by (simp_all add: same_user_def zero_user_def)
  moreover have "accounts pw_table str_root \<noteq> None" by (simp add: accounts_None pw_table_def owns_def pw_users)
  moreover have "length pw_table = NUSER" by (simp add: pw_table_def NUSER_def)
  ultimately show ?thesis
    using wf_zero_user pw_users by (auto simp: table_ok_def at zero_user_def)
qed

lemma pw_disk_like: "demo_like pw_disk"
proof -
  have "length (table_bytes 2 pw_table) = 364" using length_utable [OF pw_table_ok] by (simp add: table_bytes_def table_sizes)
  moreover have "wf_dinode pw_dinode" by (simp add: wf_dinode_def pw_dinode_def zero_dinode_def)
  moreover have "length demo_bitmap = BSIZE" by (simp add: demo_bitmap_def BSIZE_def)
  ultimately show ?thesis by (simp add: demo_like_def pw_disk_def length_put_dinode length_put_arr BSIZE_def)
qed

lemma pw_view: "view pw_fs = pw_disk" "room 27 {} pw_fs"
  using fs_state_room [of pw_disk 27 "[pw_inode]"] pw_disk_like by (simp_all add: pw_fs_def demo_like_def)

lemma pw_ino: "ino pw_fs 0 = pw_inode" "fs_sb pw_fs = demo_sb" "log_region pw_fs = log_region (fs_state pw_disk [pw_inode] ())"
  by (simp_all add: pw_fs_def ino_def log_region_def)

lemma pw_inode_fields [simp]: "i_addrs pw_inode = 57 # replicate NDIRECT 0" "i_size pw_inode = 364" "i_type pw_inode = T_FILE"
  "i_dev pw_inode = 1" "i_inum pw_inode = 7" "i_ref pw_inode = 1" "i_valid pw_inode" "dinode_of pw_inode = pw_dinode"
  by (simp_all add: pw_inode_def load_dinode_def pw_dinode_def dinode_of_def zero_dinode_def)

lemma pw_file: "table_file 0 pw_fs" "holds_table pw_fs pw_inode 2 pw_table"
proof -
  have B: "IBLOCK 7 demo_sb = 32" by (simp add: IBLOCK_def demo_sb_def IPB_def BSIZE_def DINODE_SIZE_def)
  have bp: "bptr pw_fs pw_inode n = (if n = 0 then 57 else 0)" for n
    by (simp add: bptr_def baddr_def nth_Cons' NDIRECT_def MAXFILE_def)
  have wf: "wf_dinode pw_dinode" by (simp add: wf_dinode_def pw_dinode_def zero_dinode_def)
  have "inode_ok 0 pw_fs"
    unfolding inode_ok_def pw_ino by (simp add: B fs_state_region) (simp add: pw_fs_def)
  then have "file_ok 0 pw_fs"
    unfolding file_ok_def pw_ino
    by (simp add: B bp) (simp add: pw_fs_def like_ready [OF pw_disk_like] like_used [OF pw_disk_like])
  moreover have "mapped 0 pw_fs"
    unfolding mapped_def pw_ino by (simp add: baddr_def table_sizes NDIRECT_def)
  moreover have "dinode_at pw_fs 7 = pw_dinode"
    unfolding dinode_at_def pw_ino pw_view B by (simp add: pw_disk_def dinode_put_same [OF wf])
  ultimately show "table_file 0 pw_fs" unfolding table_file_def pw_ino by (simp add: table_sizes)
  have len: "length (table_bytes 2 pw_table) = 364"
    using length_utable [OF pw_table_ok] by (simp add: table_bytes_def table_sizes)
  have "fbyte pw_fs pw_inode p = table_bytes 2 pw_table ! p" if "p < 364" for p
    using that len by (simp add: fbyte_def fblk_def baddr_def pw_view table_sizes NDIRECT_def pw_disk_def put_arr_def nth_append)
  then show "holds_table pw_fs pw_inode 2 pw_table"
    unfolding holds_table_def by (intro nth_equalityI) (simp_all add: len table_sizes)
qed

lemma kuser_fields:
  fixes s :: kuser
  assumes "kino.more s = demo_cons \<lparr>utable = a, next_uid = b, utable_initialized = c, utable_ip = d\<rparr>"
  shows "utable s = a" "next_uid s = b" "utable_ip s = d"
  using assms by (cases s, simp add: demo_cons_def)+

lemma pw_fields: "utable pw_state = pw_table" "next_uid pw_state = 2" "utable_ip pw_state = Some 0"
  using kuser_fields [of pw_fs] by (simp_all add: pw_state_def) (simp_all add: pw_fs_def)

lemma pw_saved: "saved_in 0 pw_state" "ino pw_state 0 = pw_inode"
proof -
  have "head_n (disk pw_fs (l_start pw_fs)) = 0"
    by (simp add: pw_fs_def pw_disk_def head_n_def dec_logheader_def sub_arr_def BSIZE_def dec32_def)
  then have r: "log_ready pw_fs" "bquiet {} pw_fs" "running pw_fs"
    using room_ready [OF pw_view(2)] pw_view(2) by (simp_all add: room_def tx_def)
  have rt: "running pw_state" using r(3) unfolding pw_state_def by (subst running_cong [of _ pw_fs]) simp_all
  have pa: "proc_at pw_state = proc_at pw_fs" by (simp add: pw_state_def proc_at_def)
  have k: "log_ready pw_state" "view pw_state = view pw_fs" "bquiet {} pw_state"
    using log_ready_keep [of pw_state pw_fs, OF _ _ _ _ _ rt] pa r by (simp_all add: pw_state_def)
  have reg: "log_region pw_state = log_region pw_fs" by (simp add: pw_state_def log_region_def)
  have "\<forall>bn\<in>log_region pw_state. bn < disksize pw_state"
    unfolding reg pw_ino(3) by (auto simp: fs_state_region word_less_nat_alt pw_state_def pw_fs_def)
  then have "idle_log pw_state" using k unfolding idle_log_def
    by (simp add: pw_state_def) (simp add: pw_fs_def LOGSIZE_def MAXOPBLOCKS_def)
  moreover show ip: "ino pw_state 0 = pw_inode" using pw_ino(1) by (simp add: pw_state_def ino_def)
  have "table_file 0 pw_state" "holds_table pw_state pw_inode 2 pw_table"
    using table_file_outside [OF pw_file(1), of pw_state] pw_file(2) ip pw_ino(1)
    by (simp_all add: k(2) reg) (simp_all add: pw_state_def pw_fs_def)
  moreover have "\<not> sl_locked (slocks pw_state l)" for l by (simp add: pw_state_def) (simp add: pw_fs_def)
  ultimately show "saved_in 0 pw_state"
    using pw_table_ok ip by (auto simp: saved_in_def store_ok_def pw_fields)
qed

lemma pw_users_ok: "users_ok pw_state"
  using pw_saved by (auto simp: users_ok_def)

abbreviation bob :: bytes where "bob \<equiv> [98, 111, 98]"
abbreviation pw1 :: bytes where "pw1 \<equiv> [49, 50, 51, 52]"

lemma bob_names: "cname bob = bob" "cpasswd pw1 = pw1" "cpasswd [48, 48] = [48, 48]" "valid_input bob pw1" "valid_input bob [48, 48]"
  "valid_input str_root str_0000" "cpasswd str_0000 = str_0000"
  by (simp_all add: cname_def cpasswd_def cstr_of_cptr USERNAME_MAXLEN_def USER_PW_MAXLEN_def valid_input_def
      is_valid_username_def is_valid_passwd_def strlen_cptr str_root_def str_0000_def)

lemma pw_can_add: "fresh_user bob pw1 pw_state"
proof -
  have "accounts pw_table bob = None"
    by (simp add: accounts_None pw_table_def owns_def pw_users NUSER_def zero_user_def) (simp add: str_root_def)
  moreover have "\<exists>u\<in>set pw_table. u_uid u = 0" by (simp add: pw_table_def NUSER_def zero_user_def)
  ultimately show ?thesis
    using bob_names(1,4) by (simp add: fresh_user_def can_add_def pw_fields valid_input_def)
qed

theorem add_user_refines_witness:
  "\<exists>t. add_user bob pw1 pw_state = Ok 2 t \<and> users_ok t \<and> accounts_in t bob = Some (pw1, 2)"
  using add_user_refines [OF pw_users_ok, of bob pw1] pw_can_add bob_names
  by (auto simp: fresh_user_def pw_fields)

theorem login_after_add_user_witness:
  "\<exists>r t. bnd (add_user bob pw1) (\<lambda>r. bnd (getuid bob pw1) (\<lambda>u. ret (r, u))) pw_state = Ok (r, r) t \<and> r \<noteq> 0 \<and>
   (\<exists>t. bnd (add_user bob pw1) (\<lambda>r. bnd (getuid bob [48, 48]) (\<lambda>u. ret (r, u))) pw_state = Ok (r, 0) t)"
proof -
  note w = login_after_add_user [OF pw_users_ok pw_can_add]
  obtain r t where r: "bnd (add_user bob pw1) (\<lambda>r. bnd (getuid bob pw1) (\<lambda>u. ret (r, u))) pw_state = Ok (r, r) t" "r \<noteq> 0"
    using w [OF bob_names(4)] by auto
  obtain q t' where q: "bnd (add_user bob pw1) (\<lambda>r. bnd (getuid bob [48, 48]) (\<lambda>u. ret (r, u))) pw_state = Ok (q, 0) t'"
    using w [OF bob_names(5)] by (auto simp: bob_names)
  have "q = r" using r(1) q by (auto simp: bnd_eq_Ok)
  with r q show ?thesis by blast
qed

theorem delete_user_refines_witness:
  "\<exists>u t. bnd (add_user bob pw1) (\<lambda>r. delete_user bob) pw_state = Ok 0 t \<and> accounts_in t bob = None \<and>
     delete_user str_root pw_state = Ok (-1) u"
proof -
  obtain u where u: "add_user bob pw1 pw_state = Ok 2 u" "users_ok u" "accounts_in u bob = Some (pw1, 2)"
    using add_user_run [OF pw_users_ok, of bob pw1] pw_can_add bob_names
    by (auto simp: fresh_user_def pw_fields accounts_in_def)
  show ?thesis
    using delete_user_refines [OF u(2), of bob] delete_user_refines [OF pw_users_ok, of str_root] u bob_names
    by (auto simp: valid_input_def bnd_Ok cname_root) (auto simp: str_root_def)
qed

theorem getuid_invalid_unlocks_witness:
  "\<exists>t. getuid [] [] (pw_state\<lparr>slocks := (slocks pw_state)(SL_utable := \<lparr>sl_locked = True, sl_pid = 5\<rparr>)\<rparr>) = Ok 0 t \<and>
     \<not> sl_locked (slocks t SL_utable)"
proof -
  let ?s = "pw_state\<lparr>slocks := (slocks pw_state)(SL_utable := \<lparr>sl_locked = True, sl_pid = 5\<rparr>)\<rparr>"
  have "running pw_state" using pw_users_ok idle_view(2) by (auto simp: users_ok_def saved_in_def store_ok_def)
  then have "running ?s" by (subst running_cong [of _ pw_state]) simp_all
  moreover have "p_pid (proc_at ?s) = 1" by (simp add: pw_state_def proc_at_def) (simp add: pw_fs_def)
  ultimately show ?thesis
    using getuid_invalid_unlocks [of ?s "[]" "[]"] by (simp add: valid_input_def is_valid_username_def strlen_cptr)
qed

text \<open>The kernel after a reboot, before it has read the table.\<close>

definition pw_boot :: kuser where
  "pw_boot = fs_state pw_disk [pw_inode] (demo_cons \<lparr>utable = replicate NUSER zero_user, next_uid = 2,
     utable_initialized = False, utable_ip = None\<rparr>)"

theorem passwd_survives_reboot_witness:
  "\<exists>t. read_usertable 0 pw_boot = Ok () t \<and> accounts_in t str_root = Some (str_0000, 1)"
proof -
  have d: "disk pw_state = pw_disk" "fs_sb pw_state = demo_sb" "disksize pw_state = 1000" "l_start pw_state = 2"
    by (simp_all add: pw_state_def) (simp_all add: pw_fs_def)
  have v: "view pw_boot = pw_disk" "room 0 {} pw_boot" "ino pw_boot 0 = pw_inode"
    using fs_state_room [of pw_disk 0 "[pw_inode]"] pw_disk_like by (simp_all add: pw_boot_def ino_def demo_like_def)
  have B: "IBLOCK 7 demo_sb = 32" by (simp add: IBLOCK_def demo_sb_def IPB_def BSIZE_def DINODE_SIZE_def)
  have wf: "wf_dinode pw_dinode" by (simp add: wf_dinode_def pw_dinode_def zero_dinode_def)
  have "dinode_at pw_boot 7 = pw_dinode"
    unfolding dinode_at_def v by (simp add: pw_boot_def B) (simp add: pw_disk_def dinode_put_same [OF wf])
  moreover have "saved_in 0 pw_state \<and> i_inum pw_inode = i_inum (ino pw_state 0)" using pw_saved by simp
  ultimately have "rebooted pw_state 0 pw_boot"
    using v(2) unfolding rebooted_def v(1,3) d by (auto simp: pw_boot_def)
  then obtain t where t: "read_usertable 0 pw_boot = Ok () t" "utable t = pw_table"
    using passwd_survives_reboot [OF pw_users_ok] by (auto simp: pw_fields)
  have "accounts pw_table str_root = Some (str_0000, 1)"
    using pw_users by (simp add: accounts_def pw_table_def owns_def) (simp add: root_user_def cpasswd_def cstr_of_strncpy_out
        bob_names [unfolded cpasswd_def])
  with t show ?thesis by (auto simp: accounts_in_def)
qed

end
