(* ===== verification/Access.thy ===== *)
theory Access
  imports Passwd Args
begin

text \<open>
  Access control at \<open>open\<close> (\<open>sysfile.c\<close>). The system call is followed as a whole: its arguments, the transaction, the
  path, the permission checks and the file descriptor. Without \<open>O_CREATE\<close> it succeeds exactly if the path resolves for the process and
  \<open>may_open\<close> holds of the inode, which is the test the code makes.
\<close>

section \<open>Between two system calls\<close>

text \<open>No transaction is open, no inode is locked, and the directories are in order.\<close>

definition idle_walk :: "u32 set \<Rightarrow> 'm kino_scheme \<Rightarrow> bool" where
  "idle_walk A s \<longleftrightarrow> idle_log s \<and> icache_ok s \<and> (\<forall>i. \<not> sl_locked (slocks s (SL_inode i))) \<and>
     (\<forall>i<NINODE. 0 < i_ref (ino s i) \<longrightarrow> entry_ok A s (ino s i)) \<and> (\<forall>n\<in>A. node_ok A s n)"

text \<open>In the transaction that the call has begun in \<open>s\<close>, with nothing written so far.\<close>

definition in_op :: "'m klog_scheme \<Rightarrow> 'm klog_scheme \<Rightarrow> bool" where
  "in_op s t \<longleftrightarrow> room 0 {} t \<and> l_outstanding t = 1 \<and> \<not> l_committing t \<and> disk t = disk s \<and> view t = view s \<and>
     l_start t = l_start s \<and> l_size t = l_size s \<and> disksize t = disksize s"

lemma begin_walk:
  fixes s :: "'m kino_scheme"
  assumes "idle_walk A s"
  shows "\<exists>t. begin_op s = Ok () t \<and> walk_ok A t \<and> in_op s t \<and> same_view s t \<and> ino t = ino s \<and> tframe s t"
proof -
  have s: "idle_log s" "icache_ok s" "\<forall>i. \<not> sl_locked (slocks s (SL_inode i))"
      "\<forall>i<NINODE. 0 < i_ref (ino s i) \<longrightarrow> entry_ok A s (ino s i)" "\<forall>n\<in>A. node_ok A s n"
    using assms by (simp_all add: idle_walk_def)
  obtain t where t: "begin_op s = Ok () t" "room 27 {} t" "view t = view s" "disk t = disk s" "tframe s t"
      "l_outstanding t = 1" "\<not> l_committing t"
    using begin_op_run [OF s(1)] by blast
  note k = tframe_kino [OF t(5)]
  have v: "same_view s t" using t(3,5) k by (simp add: same_view_def tframe_def)
  have r: "room 0 {} t" using t(2) by (simp add: room_def tx_def)
  then have "walk_ok A t" using s(2-5) k by (simp add: walk_ok_def icache_ok_def same_viewD [OF v])
  moreover have "in_op s t" using t r by (simp add: in_op_def tframe_def)
  ultimately show ?thesis using t(1,5) v k(3) by blast
qed

lemma end_walk:
  fixes s t :: "'m klog_scheme"
  assumes "idle_log s" and "in_op s t"
  shows "\<exists>u. end_op t = Ok () u \<and> idle_log u \<and> tframe t u \<and> (\<forall>bn. bn \<notin> log_region s \<longrightarrow> view u bn = view s bn)"
proof -
  have t: "room 0 {} t" "l_outstanding t = 1" "\<not> l_committing t" "disk t = disk s" "view t = view s"
      "l_start t = l_start s" "l_size t = l_size s" "disksize t = disksize s"
    using assms(2) by (simp_all add: in_op_def)
  have reg: "log_region t = log_region s" by (simp add: log_region_def t(6))
  have "head_n (disk t (l_start t)) = 0" "\<forall>bn\<in>log_region t. bn < disksize t" "int LOGSIZE \<le> l_size t"
    using assms(1) by (simp_all add: idle_log_def log_ready_def t reg)
  from end_op_run [OF t(1-3) this] show ?thesis unfolding reg t(5) by blast
qed

lemma in_op_same:
  fixes s u :: "'m kino_scheme"
  assumes "in_op s t" and "same_fs t u" and "room 0 {} u"
  shows "in_op s u"
  using assms by (simp add: in_op_def same_fs_def fsframe_def)

section \<open>The permission checks\<close>

definition may_open :: "inode \<Rightarrow> proc \<Rightarrow> u32 \<Rightarrow> bool" where
  "may_open I p omode \<longleftrightarrow> (i_type I = T_DIR \<longrightarrow> omode = O_RDONLY) \<and>
     (omode = O_RDONLY \<or> omode = O_RDWR \<longrightarrow> has_read_permission I p) \<and>
     (omode = O_WRONLY \<or> omode = O_RDWR \<longrightarrow> has_write_permission I p)"

lemma permits_rw_at:
  assumes "at_node s ip t"
  shows "permits has_read_permission ip t = Ok (has_read_permission (dnode s (i_inum (ino s ip))) (proc_at s)) t"
    "permits has_write_permission ip t = Ok (has_write_permission (dnode s (i_inum (ino s ip))) (proc_at s)) t"
    "permits has_own ip t = Ok (has_own (dnode s (i_inum (ino s ip))) (proc_at s)) t"
proof -
  note D = at_nodeD [OF assms] and F = dnode_fields [OF at_nodeD(8) [OF assms]]
  have "cur t \<noteq> None" using D(2) by simp
  then show "permits has_read_permission ip t = Ok (has_read_permission (dnode s (i_inum (ino s ip))) (proc_at s)) t"
    "permits has_write_permission ip t = Ok (has_write_permission (dnode s (i_inum (ino s ip))) (proc_at s)) t"
    "permits has_own ip t = Ok (has_own (dnode s (i_inum (ino s ip))) (proc_at s)) t"
    by (simp_all add: permits_def has_read_permission_def has_write_permission_def has_own_def F same_fs_proc [OF D(3)])
qed

text \<open>What a call that has failed leaves behind: no transaction, no lock, and all that is not in the log as it was.\<close>

definition refused :: "'m kino_scheme \<Rightarrow> 'm kino_scheme \<Rightarrow> bool" where
  "refused s t \<longleftrightarrow> idle_log t \<and> held t = [] \<and> proc_at t = proc_at s \<and> kino.more t = kino.more s \<and> mem t = mem s \<and>
     (\<forall>i. \<not> sl_locked (slocks t (SL_inode i))) \<and> (\<forall>i. i_ref (ino t i) = i_ref (ino s i)) \<and>
     (\<forall>bn. bn \<notin> log_region s \<longrightarrow> view t bn = view s bn)"

lemma refuse_run:
  fixes s :: "'m kino_scheme"
  assumes "idle_log s" and "tframe s b" and "in_op s t" and "walk_ok A t" and "same_fs b t"
    and "\<forall>i. i_ref (ino t i) = i_ref (ino s i)"
  shows "\<exists>u. end_op t = Ok () u \<and> refused s u"
proof -
  obtain u where u: "end_op t = Ok () u" "idle_log u" "tframe t u" "\<forall>bn. bn \<notin> log_region s \<longrightarrow> view u bn = view s bn"
    using end_walk [OF assms(1,3)] by blast
  note k = tframe_kino [OF u(3)] and kb = tframe_kino [OF assms(2)]
  have "running u" using u(2) by (simp add: idle_log_def log_ready_def)
  then have "held u = []" by simp
  moreover have "proc_at u = proc_at s" "mem u = mem s"
    using u(3) assms(2,5) by (simp_all add: tframe_def same_fs_def fsframe_def)
  moreover have "kino.more u = kino.more s" using k(4) kb(4) assms(5) by (simp add: same_fs_def fsframe_def)
  moreover have "\<not> sl_locked (slocks u (SL_inode i))" for i using k(7) walk_okD(4) [OF assms(4)] by simp
  ultimately show ?thesis using u assms(6) k(3) by (auto simp: refused_def)
qed

section \<open>The file descriptor\<close>

lemma more_kproc:
  fixes s t :: "'m kfile_scheme"
  assumes "kino.more t = kino.more s"
  shows "ftable t = ftable s"
  using assms by (cases s, cases t) simp

lemma filealloc_run:
  assumes "held s = []" and "find_idx (\<lambda>x. f_ref x = 0) (ftable s) = Some f"
  shows "filealloc s = Ok (Some f) (upd_file f (\<lambda>x. x\<lparr>f_ref := 1\<rparr>) s)"
  using assms by (simp add: filealloc_def upd_file_def)

lemma fdalloc_run:
  assumes "cur s \<noteq> None" and "find_idx (\<lambda>x. x = None) (p_ofile (proc_at s)) = Some fd"
  shows "fdalloc f s =
    Ok (int fd) (upd_proc (the (cur s)) (\<lambda>p. p\<lparr>p_ofile := (p_ofile p)[fd := Some f]\<rparr>) s)"
  using assms by (simp add: fdalloc_def)

lemma upd_proc_fields [simp]:
  fixes s :: "'m kfile_scheme"
  shows "bufs (upd_proc i g s) = bufs s" "lru (upd_proc i g s) = lru s" "disk (upd_proc i g s) = disk s"
    "slocks (upd_proc i g s) = slocks s" "cur (upd_proc i g s) = cur s" "held (upd_proc i g s) = held s"
    "l_n (upd_proc i g s) = l_n s" "l_block (upd_proc i g s) = l_block s" "l_outstanding (upd_proc i g s) = l_outstanding s"
    "l_size (upd_proc i g s) = l_size s" "l_start (upd_proc i g s) = l_start s" "l_dev (upd_proc i g s) = l_dev s"
    "disksize (upd_proc i g s) = disksize s" "icache (upd_proc i g s) = icache s" "ftable (upd_proc i g s) = ftable s"
    "l_committing (upd_proc i g s) = l_committing s" "ptab (upd_proc i g s) = (ptab s)[i := g (ptab s ! i)]"
    "mem (upd_proc i g s) = mem s"
  by (simp_all add: upd_proc_def)

lemma upd_file_fields [simp]:
  fixes s :: "'m kfile_scheme"
  shows "bufs (upd_file i g s) = bufs s" "lru (upd_file i g s) = lru s" "disk (upd_file i g s) = disk s"
    "slocks (upd_file i g s) = slocks s" "cur (upd_file i g s) = cur s" "held (upd_file i g s) = held s"
    "l_n (upd_file i g s) = l_n s" "l_block (upd_file i g s) = l_block s" "l_outstanding (upd_file i g s) = l_outstanding s"
    "l_size (upd_file i g s) = l_size s" "l_start (upd_file i g s) = l_start s" "l_dev (upd_file i g s) = l_dev s"
    "disksize (upd_file i g s) = disksize s" "icache (upd_file i g s) = icache s" "ptab (upd_file i g s) = ptab s"
    "l_committing (upd_file i g s) = l_committing s" "ftable (upd_file i g s) = (ftable s)[i := g (ftable s ! i)]"
    "mem (upd_file i g s) = mem s"
  by (simp_all add: upd_file_def)

lemma proc_at_upd_file [simp]: "proc_at (upd_file i g s) = proc_at s"
  by (simp add: proc_at_def)

lemma proc_at_upd_cur:
  fixes s :: "'m kfile_scheme"
  assumes "running s"
  shows "proc_at (upd_proc (the (cur s)) g s) = g (proc_at s)"
  using runningD(4) [OF assms] by (simp add: proc_at_def)

text \<open>The end of \<open>sys_open\<close> with the inode locked, a free entry in the file table and a free descriptor.\<close>

definition opened :: "nat \<Rightarrow> u32 \<Rightarrow> ofile \<Rightarrow> bool" where
  "opened ip omode x \<longleftrightarrow> f_type x = FD_INODE \<and> f_ref x = 1 \<and> f_ip x = ip \<and> f_off x = 0 \<and>
     f_readable x = (omode AND O_WRONLY = 0) \<and>
     f_writable x = (omode AND O_WRONLY \<noteq> 0 \<or> omode AND O_RDWR \<noteq> 0)"

lemma open_file_run:
  fixes x :: "'m kproc_scheme"
  assumes s: "idle_log s" "in_op s x" and h: "holds (SL_inode ip) x" "1 \<le> i_ref (ino x ip)"
    and f: "find_idx (\<lambda>x. f_ref x = 0) (ftable x) = Some f"
    and fd: "find_idx (\<lambda>x. x = None) (p_ofile (proc_at x)) = Some fd"
  shows "\<exists>t. open_file ip omode x = Ok (int fd) t \<and> idle_log t \<and> ino t = ino x \<and> opened ip omode (ftable t ! f) \<and>
    proc_at t = (proc_at x)\<lparr>p_ofile := (p_ofile (proc_at x))[fd := Some f]\<rparr> \<and>
    (\<forall>bn. bn \<notin> log_region s \<longrightarrow> view t bn = view s bn)"
proof -
  have x: "room 0 {} x" using s(2) by (simp add: in_op_def)
  then have x: "room 0 {} x" "running x" by (simp_all add: room_def tx_def)
  let ?a = "upd_file f (\<lambda>x. x\<lparr>f_ref := 1\<rparr>) x"
  define y where "y = upd_proc (the (cur x)) (\<lambda>p. p\<lparr>p_ofile := (p_ofile p)[fd := Some f]\<rparr>) ?a"
  have fl: "f < length (ftable x)" using f find_idx_Some by blast
  have ra: "running ?a" using x(2) by (subst running_cong [of _ x]) simp_all
  have fa: "filealloc x = Ok (Some f) ?a" using x(2) f by (intro filealloc_run) simp_all
  have fb: "fdalloc f ?a = Ok (int fd) y" using fd fdalloc_run [OF runningD(2) [OF ra], of fd f] by (simp add: y_def)
  have py: "proc_at y = (proc_at x)\<lparr>p_ofile := (p_ofile (proc_at x))[fd := Some f]\<rparr>"
    using proc_at_upd_cur [OF ra] by (simp add: y_def)
  have "held y = held x" "cur y = cur x" "length (ptab y) = length (ptab x)" by (simp_all add: y_def)
  then have ry: "running y" using runningD [OF x(2)] unfolding running_iff [of y] py by simp
  have yf: "bufs y = bufs x" "lru y = lru x" "disk y = disk x" "slocks y = slocks x" "l_n y = l_n x" "l_block y = l_block x"
    "l_outstanding y = l_outstanding x" "l_size y = l_size x" "l_start y = l_start x" "l_dev y = l_dev x"
    "disksize y = disksize x" "icache y = icache x" "l_committing y = l_committing x" "ftable y = ftable ?a"
    by (simp_all add: y_def)
  have ky: "room 0 {} y" "view y = view x" using room_keep [OF x(1) ry] yf py by simp_all
  have iy: "ino y = ino x" by (simp add: ino_def fun_eq_iff yf)
  let ?z = "unlock (SL_inode ip) y"
  have "holds (SL_inode ip) y" using h(1) by (simp add: holds_def yf py)
  then have iu: "iunlock ip y = Ok () ?z" using h(2) iy by (intro iunlock_run [OF ry]) simp_all
  note kz = room_unlock [OF ky(1), of ip]
  have "in_op s ?z" using s(2) kz(1,2) ky(2) yf by (simp add: in_op_def more_unlock)
  then obtain w where w: "end_op ?z = Ok () w" "idle_log w" "tframe ?z w"
      "\<forall>bn. bn \<notin> log_region s \<longrightarrow> view w bn = view s bn"
    using end_walk [OF s(1)] by blast
  have ft: "ftable w = ftable ?a"
    using more_kproc [of w ?z] tframe_kino(4) [OF w(3)] more_kproc [of ?z y] more_unlock(10) [of "SL_inode ip" y] yf by simp
  let ?g = "\<lambda>x. x\<lparr>f_type := FD_INODE, f_ip := ip, f_off := 0, f_readable := omode AND O_WRONLY = 0,
      f_writable := omode AND O_WRONLY \<noteq> 0 \<or> omode AND O_RDWR \<noteq> 0\<rparr>"
  let ?t = "upd_file f ?g w"
  have "open_file ip omode x = Ok (int fd) ?t" using fa fb iu w(1) by (simp add: open_file_def)
  moreover have kt: "idle_log ?t" "view ?t = view w"
  proof -
    have rw: "running w" using w(2) by (simp add: idle_log_def log_ready_def)
    have rt: "running ?t" using rw by (subst running_cong [of _ w]) simp_all
    show "idle_log ?t" "view ?t = view w"
      using w(2) log_ready_keep [of ?t w, OF _ _ _ _ _ rt] by (simp_all add: idle_log_def log_region_def)
  qed
  moreover have "ino ?t = ino x" using tframe_kino(3) [OF w(3)] iy by (simp add: ino_def fun_eq_iff more_unlock)
  moreover have "opened ip omode (ftable ?t ! f)" using fl by (simp add: opened_def ft)
  moreover have "proc_at ?t = proc_at y" using w(3) proc_at_unlock [OF ry] by (simp add: tframe_def)
  ultimately show ?thesis using w(4) py by auto
qed

section \<open>The system call\<close>

lemma walk_run:
  fixes s :: "'m kproc_scheme"
  assumes "idle_walk A s" and "spare (\<lambda>i. i_ref (ino s i))" and "start_ok A s path"
  shows "\<exists>b got nm v. begin_op s = Ok () b \<and> namex path parent b = Ok (got, nm) v \<and> tframe s b \<and> same_fs b v \<and> same_view s v \<and>
    walk_ok A v \<and> in_op s v \<and> refs v (\<lambda>i. i_ref (ino s i)) got \<and>
    (case target s (proc_at s) (start_inum s path) (path_elems path) parent of None \<Rightarrow> got = None
     | Some n \<Rightarrow> \<exists>ip. got = Some ip \<and> ip < NINODE \<and> i_inum (ino v ip) = n) \<and>
    (parent \<longrightarrow> got \<noteq> None \<longrightarrow> nm = last (path_elems path))"
proof -
  obtain b where b: "begin_op s = Ok () b" "walk_ok A b" "in_op s b" "same_view s b" "ino b = ino s" "tframe s b"
    using begin_walk [OF assms(1)] by blast
  have "proc_at b = proc_at s" using b(6) by (simp add: tframe_def)
  note D = same_viewD [OF b(4)] this
  have st: "start_ok A b path" "start_inum b path = start_inum s path"
    using assms(3) unfolding start_ok_def start_inum_def D b(5) by simp_all
  obtain v got nm where v: "namex path parent b = Ok (got, nm) v"
      "walked A (\<lambda>i. i_ref (ino s i)) b (target b (proc_at b) (start_inum b path) (path_elems path) parent) got v"
      "parent \<longrightarrow> got \<noteq> None \<longrightarrow> nm = last (path_elems path)"
    using namex_run [OF b(2) _ st(1), of parent] assms(2) by (auto simp: b(5))
  have w: "walk_ok A v" "same_fs b v" "refs v (\<lambda>i. i_ref (ino s i)) got" using v(2) by (simp_all add: walked_def)
  have "same_view s v" using same_fs_view [OF w(2)] b(4) by (simp add: same_view_def)
  moreover have "in_op s v" using in_op_same [OF b(3) w(2) walk_okD(1) [OF w(1)]] .
  moreover have "target b = target s" by (auto simp: fun_eq_iff target_def resolve_parent_def D split: option.split)
  then have "case target s (proc_at s) (start_inum s path) (path_elems path) parent of None \<Rightarrow> got = None
     | Some n \<Rightarrow> \<exists>ip. got = Some ip \<and> ip < NINODE \<and> i_inum (ino v ip) = n"
    using v(2) by (simp add: walked_def D st(2) split: option.splits)
  ultimately show ?thesis using b(1,6) w v(1,3) by blast
qed

lemma namei_run:
  fixes s :: "'m kproc_scheme"
  assumes "idle_walk A s" and "spare (\<lambda>i. i_ref (ino s i))" and "start_ok A s path"
  shows "\<exists>b got v. begin_op s = Ok () b \<and> namei path b = Ok got v \<and> tframe s b \<and> same_fs b v \<and> same_view s v \<and>
    walk_ok A v \<and> in_op s v \<and> refs v (\<lambda>i. i_ref (ino s i)) got \<and>
    (case resolve s (proc_at s) (start_inum s path) (path_elems path) of None \<Rightarrow> got = None
     | Some n \<Rightarrow> \<exists>ip. got = Some ip \<and> ip < NINODE \<and> i_inum (ino v ip) = n)"
proof -
  obtain b got nm v where r: "begin_op s = Ok () b" "namex path False b = Ok (got, nm) v"
    and rest: "tframe s b" "same_fs b v" "same_view s v" "walk_ok A v" "in_op s v" "refs v (\<lambda>i. i_ref (ino s i)) got"
      "case resolve s (proc_at s) (start_inum s path) (path_elems path) of None \<Rightarrow> got = None
       | Some n \<Rightarrow> \<exists>ip. got = Some ip \<and> ip < NINODE \<and> i_inum (ino v ip) = n"
    using walk_run [OF assms, of False] by (auto simp: target_def)
  have "namei path b = Ok got v" using r(2) by (simp add: namei_def)
  then show ?thesis using r(1) rest by blast
qed

lemma got_lock:
  fixes s :: "'m kino_scheme"
  assumes "idle_walk A s" and "walk_ok A v" and "refs v (\<lambda>i. i_ref (ino s i)) (Some ip)" and "ip < NINODE"
  shows "\<exists>x. ilock ip v = Ok () x \<and> at_node v ip x" "0 < i_ref (ino v ip)"
proof -
  have "0 \<le> i_ref (ino s ip)" using assms(1,4) by (simp add: idle_walk_def icache_ok_def)
  then show "0 < i_ref (ino v ip)" using assms(3) by (simp add: refs_def)
  then show "\<exists>x. ilock ip v = Ok () x \<and> at_node v ip x" using lock_at [OF assms(2,4)] by blast
qed

lemma give_up_run:
  fixes s :: "'m kino_scheme"
  assumes "idle_walk A s" and "tframe s b" and "same_fs b v" and "walk_ok A v" and "in_op s v"
    and "refs v (\<lambda>i. i_ref (ino s i)) (Some ip)" and "ip < NINODE" and "at_node v ip x"
  shows "\<exists>u. sq (iunlockput ip) (sq end_op (ret r)) x = Ok r u \<and> refused s u"
proof -
  have "0 \<le> i_ref (ino s ip)" using assms(1,7) by (simp add: idle_walk_def icache_ok_def)
  then have pos: "0 < i_ref (ino v ip)" using assms(6) by (simp add: refs_def)
  obtain u where u: "iunlockput ip x = Ok () u" "walk_ok A u" "same_fs v u"
      "\<forall>j. i_ref (ino u j) = i_ref (ino v j) - (if j = ip then 1 else 0)"
    using leave_at [OF assms(4,8,7) pos] by blast
  have op: "in_op s u" using in_op_same [OF assms(5) u(3) walk_okD(1) [OF u(2)]] .
  have "\<forall>i. i_ref (ino u i) = i_ref (ino s i)" using u(4) assms(6) by (simp add: refs_def)
  moreover have "idle_log s" using assms(1) by (simp add: idle_walk_def)
  ultimately obtain w where "end_op u = Ok () w" "refused s w"
    using refuse_run [OF _ assms(2) op u(2) same_fs_trans [OF assms(3) u(3)]] by blast
  then show ?thesis using u(1) by auto
qed

text \<open>
  C7. \<open>open\<close> without \<open>O_CREATE\<close> (sys_open in sysfile.c), with a free entry in the file table and a free descriptor, always
  returns and does so exactly as access control demands: when the path does not resolve for the process or
  the checks of \<open>may_open\<close> fail on the inode it leads to, the result is -1, and no lock, no reference, no open
  transaction and no change of the disk remains; otherwise it is the lowest free descriptor, for a file
  entry that refers to that inode with offset 0 and is readable and writable as the mode says.
\<close>

theorem sys_open_access:
  fixes s :: "'m kproc_scheme"
  assumes "idle_walk A s" and "spare (\<lambda>i. i_ref (ino s i))" and "start_ok A s path"
    and "argstr 0 s = Ok (Some path) s" and "argint 1 s = Ok (Some omode) s" and "omode AND O_CREATE = 0"
    and "find_idx (\<lambda>x. f_ref x = 0) (ftable s) = Some f" and "find_idx (\<lambda>x. x = None) (p_ofile (proc_at s)) = Some fd"
  shows "\<exists>r t. sys_open s = Ok r t \<and> (\<forall>bn. bn \<notin> log_region s \<longrightarrow> view t bn = view s bn) \<and>
    (case resolve s (proc_at s) (start_inum s path) (path_elems path) of
       None \<Rightarrow> r = -1 \<and> refused s t
     | Some n \<Rightarrow>
         if may_open (dnode s n) (proc_at s) omode
         then r = int fd \<and> opened (f_ip (ftable t ! f)) omode (ftable t ! f) \<and> i_inum (ino t (f_ip (ftable t ! f))) = n \<and>
              p_ofile (proc_at t) = (p_ofile (proc_at s))[fd := Some f]
         else r = -1 \<and> refused s t)"
proof -
  obtain b got v where v: "begin_op s = Ok () b" "namei path b = Ok got v" "tframe s b" "same_fs b v" "same_view s v"
      "walk_ok A v" "in_op s v" "refs v (\<lambda>i. i_ref (ino s i)) got"
      "case resolve s (proc_at s) (start_inum s path) (path_elems path) of None \<Rightarrow> got = None
       | Some n \<Rightarrow> \<exists>ip. got = Some ip \<and> ip < NINODE \<and> i_inum (ino v ip) = n"
    using namei_run [OF assms(1-3)] by blast
  have idle: "idle_log s" using assms(1) by (simp add: idle_walk_def)
  have out: "\<forall>bn. bn \<notin> log_region s \<longrightarrow> view t bn = view s bn" if "refused s t" for t :: "'m kproc_scheme"
    using that by (simp add: refused_def)
  show ?thesis
  proof (cases "resolve s (proc_at s) (start_inum s path) (path_elems path)")
    case None
    with v(9) have g: "got = None" by simp
    have "\<forall>i. i_ref (ino v i) = i_ref (ino s i)" using v(8) g by (simp add: refs_def)
    then obtain t where t: "end_op v = Ok () t" "refused s t" using refuse_run [OF idle v(3,7,6,4)] by blast
    then have "sys_open s = Ok (-1) t"
      using v(1,2) assms(4-6) g by (simp add: sys_open_def open_inode_def)
    then show ?thesis using t(2) out None by auto
  next
    case (Some n)
    with v(9) obtain ip where ip: "got = Some ip" "ip < NINODE" "i_inum (ino v ip) = n" by auto
    have rf: "refs v (\<lambda>i. i_ref (ino s i)) (Some ip)" using v(8) ip(1) by simp
    obtain x where x: "ilock ip v = Ok () x" "at_node v ip x" using got_lock(1) [OF assms(1) v(6) rf ip(2)] by blast
    let ?I = "dnode s n" and ?p = "proc_at s"
    have "proc_at v = proc_at s" using v(3) same_fs_proc [OF v(4)] by (simp add: tframe_def)
    note V = same_viewD [OF v(5)] this
    have P: "permits has_read_permission ip x = Ok (has_read_permission ?I ?p) x"
        "permits has_write_permission ip x = Ok (has_write_permission ?I ?p) x" "i_type (ino x ip) = i_type ?I"
      using permits_rw_at(1,2) [OF x(2)] permits_at(2) [OF x(2)] by (simp_all add: ip(3) V)
    note X = at_nodeD [OF x(2)]
    note give_up = give_up_run [OF assms(1) v(3,4,6,7) rf ip(2) x(2)]
    consider (dir) "i_type ?I = T_DIR \<and> omode \<noteq> O_RDONLY" | (no) "\<not> may_open ?I ?p omode" "\<not> (i_type ?I = T_DIR \<and> omode \<noteq> O_RDONLY)"
      | (yes) "may_open ?I ?p omode" by blast
    then show ?thesis
    proof cases
      case dir
      obtain t where t: "sq (iunlockput ip) (sq end_op (ret None)) x = Ok (None :: nat option) t" "refused s t"
        using give_up [of "None :: nat option"] by auto
      have "sys_open s = Ok (-1) t"
        using v(1,2) assms(4-6) ip(1) x(1) P(3) dir t(1) by (simp add: sys_open_def open_inode_def)
      moreover have "\<not> may_open ?I ?p omode" using dir by (auto simp: may_open_def)
      ultimately show ?thesis using t(2) out Some by auto
    next
      case no
      obtain t where t: "open_fail ip x = Ok (-1) t" "refused s t" using give_up [of "-1 :: int"] unfolding open_fail_def by auto
      have "sys_open s = Ok (-1) t"
        using v(1,2) assms(4-6) ip(1) x(1) P no t(1) by (auto simp: sys_open_def open_inode_def may_open_def)
      then show ?thesis using t(2) out Some no by auto
    next
      case yes
      have op: "in_op s x" using in_op_same [OF v(7) X(3,1)] .
      have kx: "kino.more x = kino.more s" "proc_at x = proc_at s"
        using X(3) v(3,4) tframe_kino(4) [OF v(3)] by (simp_all add: same_fs_def fsframe_def tframe_def)
      obtain t where t: "open_file ip omode x = Ok (int fd) t" "ino t = ino x" "opened ip omode (ftable t ! f)"
          "proc_at t = (proc_at x)\<lparr>p_ofile := (p_ofile (proc_at x))[fd := Some f]\<rparr>"
          "\<forall>bn. bn \<notin> log_region s \<longrightarrow> view t bn = view s bn"
        using open_file_run [OF idle op X(5), of f fd omode] assms(7,8) more_kproc [OF kx(1)] kx(2) X(9)
          got_lock(2) [OF assms(1) v(6) rf ip(2)] by auto
      have "sys_open s = Ok (int fd) t"
        using v(1,2) assms(4-6) ip(1) x(1) P yes t(1) by (auto simp: sys_open_def open_inode_def may_open_def)
      moreover have "f_ip (ftable t ! f) = ip" using t(3) by (simp add: opened_def)
      moreover have "i_inum (ino t ip) = n" using t(2) X(11) ip(3) by simp
      ultimately show ?thesis using t Some yes kx(2) by auto
    qed
  qed
qed

text \<open>
  C8. \<open>chmod\<close> (sys_chmod in sysfile.c) by a process that is neither root nor the owner of the inode, or with a path that does
  not resolve for it, returns -1 and leaves nothing behind: no lock, no reference, no open transaction and no
  change of the disk.
\<close>

theorem sys_chmod_refused:
  fixes s :: "'m kproc_scheme"
  assumes "idle_walk A s" and "spare (\<lambda>i. i_ref (ino s i))" and "start_ok A s path"
    and "argstr 0 s = Ok (Some path) s" and "argint 1 s = Ok (Some mode) s"
    and "\<forall>n. resolve s (proc_at s) (start_inum s path) (path_elems path) = Some n \<longrightarrow> \<not> has_own (dnode s n) (proc_at s)"
  shows "\<exists>t. sys_chmod s = Ok (-1) t \<and> refused s t"
proof -
  obtain b got v where v: "begin_op s = Ok () b" "namei path b = Ok got v" "tframe s b" "same_fs b v" "same_view s v"
      "walk_ok A v" "in_op s v" "refs v (\<lambda>i. i_ref (ino s i)) got"
      "case resolve s (proc_at s) (start_inum s path) (path_elems path) of None \<Rightarrow> got = None
       | Some n \<Rightarrow> \<exists>ip. got = Some ip \<and> ip < NINODE \<and> i_inum (ino v ip) = n"
    using namei_run [OF assms(1-3)] by blast
  show ?thesis
  proof (cases "resolve s (proc_at s) (start_inum s path) (path_elems path)")
    case None
    with v(9) have g: "got = None" by simp
    have "\<forall>i. i_ref (ino v i) = i_ref (ino s i)" "idle_log s"
      using v(8) g assms(1) by (simp_all add: refs_def idle_walk_def)
    then obtain t where "end_op v = Ok () t" "refused s t" using refuse_run [OF _ v(3,7,6,4)] by blast
    then show ?thesis using v(1,2) assms(4,5) g by (auto simp: sys_chmod_def)
  next
    case (Some n)
    with v(9) obtain ip where ip: "got = Some ip" "ip < NINODE" "i_inum (ino v ip) = n" by auto
    obtain x where x: "ilock ip v = Ok () x" "at_node v ip x" using got_lock(1) [OF assms(1) v(6) _ ip(2)] v(8) ip(1) by blast
    have "proc_at v = proc_at s" using v(3) same_fs_proc [OF v(4)] by (simp add: tframe_def)
    then have no: "permits has_own ip x = Ok False x"
      using permits_rw_at(3) [OF x(2)] assms(6) Some by (simp add: ip(3) same_viewD [OF v(5)])
    have "refs v (\<lambda>i. i_ref (ino s i)) (Some ip)" using v(8) ip(1) by simp
    from give_up_run [OF assms(1) v(3,4,6,7) this ip(2) x(2), of "-1 :: int"]
    obtain t where "sq (iunlockput ip) (sq end_op (ret (-1))) x = Ok (-1 :: int) t" "refused s t" by auto
    moreover from this(1) have "sys_chmod s = Ok (-1) t"
      using v(1,2) assms(4,5) ip(1) x(1) no by (simp add: sys_chmod_def bnd_def [of "permits has_own ip"])
    ultimately show ?thesis by blast
  qed
qed

lemma resolve_append:
  "resolve s p n (es @ es') = (case resolve s p n es of None \<Rightarrow> None | Some m \<Rightarrow> resolve s p m es')"
  by (induction es arbitrary: n) (auto split: option.splits)

lemma resolve_last:
  assumes "es \<noteq> []"
  shows "resolve s p n es = (case resolve_parent s p n es of None \<Rightarrow> None
    | Some d \<Rightarrow> map_option ucast (dir_map s (dnode s d) (last es)))"
    and "resolve_parent s p n es = Some d \<Longrightarrow> searchable (dnode s d) p"
  using resolve_append [of s p n "butlast es" "[last es]"] assms
  by (auto simp: resolve_parent_def split: option.splits if_splits)

text \<open>
  C9. A defect of \<open>open\<close> with \<open>O_CREATE\<close> (create in sysfile.c): when the path leads to a file that the process may not write, the
  call fails with -1 but the inode stays locked and referenced after the system call, so that every later use of the
  file waits for ever.
\<close>

theorem sys_open_create_leaves_lock:
  fixes s :: "'m kproc_scheme"
  assumes "idle_walk A s" and "spare (\<lambda>i. i_ref (ino s i))" and "start_ok A s path"
    and "argstr 0 s = Ok (Some path) s" and "argint 1 s = Ok (Some omode) s" and "omode AND O_CREATE \<noteq> 0"
    and "path_elems path \<noteq> []" and "resolve s (proc_at s) (start_inum s path) (path_elems path) = Some n"
    and "i_type (dnode s n) = T_FILE" and "\<not> has_write_permission (dnode s n) (proc_at s)"
  shows "\<exists>t ip. sys_open s = Ok (-1) t \<and> ip < NINODE \<and> i_inum (ino t ip) = n \<and> i_ref (ino t ip) = i_ref (ino s ip) + 1 \<and>
    sl_locked (slocks t (SL_inode ip)) \<and> idle_log t"
proof -
  let ?es = "path_elems path" and ?p = "proc_at s"
  obtain d j where d: "resolve_parent s ?p (start_inum s path) ?es = Some d" "dir_map s (dnode s d) (last ?es) = Some j" "ucast j = n"
    using assms(8) by (auto simp: resolve_last(1) [OF assms(7)] split: option.splits)
  have dt: "i_type (dnode s d) = T_DIR" using resolve_last(2) [OF assms(7) d(1)] by (simp add: searchable_def)
  obtain b got nm v where v: "begin_op s = Ok () b" "namex path True b = Ok (got, nm) v" "tframe s b" "same_fs b v" "same_view s v"
      "walk_ok A v" "in_op s v" "refs v (\<lambda>i. i_ref (ino s i)) got" "got \<noteq> None \<longrightarrow> nm = last ?es"
      "\<exists>dp. got = Some dp \<and> dp < NINODE \<and> i_inum (ino v dp) = d"
    using walk_run [OF assms(1-3), of True] d(1) by (auto simp: target_def)
  then obtain dp where dp: "got = Some dp" "dp < NINODE" "i_inum (ino v dp) = d" by blast
  have rf: "refs v (\<lambda>i. i_ref (ino s i)) (Some dp)" using v(8) dp(1) by simp
  note L = got_lock [OF assms(1) v(6) rf dp(2)]
  obtain x where x: "ilock dp v = Ok () x" "at_node v dp x" using L(1) by blast
  note V = same_viewD [OF v(5)]
  obtain x2 ip off u where u: "dirlookup dp (last ?es) x = Ok (Some (ip, off)) x2" "iunlockput dp x2 = Ok () u" "walk_ok A u"
      "same_fs v u" "ip < NINODE" "0 < i_ref (ino u ip)" "i_inum (ino u ip) = n"
      "\<forall>k. i_ref (ino u k) = i_ref (ino v k) - (if k = dp then 1 else 0) + (if k = ip then 1 else 0)"
    using next_at [OF v(6) x(2) dp(2) L(2), of "last ?es" j] dt d(2,3) dp(3) spare_free [OF rf assms(2)] by (auto simp: V)
  obtain y where y: "ilock ip u = Ok () y" "at_node u ip y" using lock_at [OF u(3,5,6)] by blast
  note Y = at_nodeD [OF y(2)] and U = same_fsD [OF u(4)]
  have pr: "proc_at u = ?p" using v(3) same_fs_proc [OF v(4)] U by (simp add: tframe_def)
  have ty: "i_type (ino y ip) = T_FILE" using permits_at(2) [OF y(2)] assms(9) by (simp add: u(7) U V)
  have no: "permits has_write_permission ip y = Ok False y" using permits_rw_at(2) [OF y(2)] assms(10) pr by (simp add: u(7) U V)
  have cr: "create path T_FILE 0 0 b = Ok None y"
    using v(2,9) dp(1) x(1) u(1,2) y(1) ty no
    by (simp add: create_def nameiparent_def create_existing_def bnd_def [of "permits has_write_permission ip"])
  have "in_op s y" using in_op_same [OF v(7) same_fs_trans [OF u(4) Y(3)] Y(1)] .
  then obtain t where t: "end_op y = Ok () t" "idle_log t" "tframe y t"
    using end_walk [of s y] assms(1) by (auto simp: idle_walk_def)
  note k = tframe_kino [OF t(3)]
  have "sys_open s = Ok (-1) t" using v(1) assms(4-6) cr t(1) by (simp add: sys_open_def open_inode_def)
  moreover have "i_inum (ino t ip) = n" "i_ref (ino t ip) = i_ref (ino s ip) + 1"
    using k(3) Y(9,11) u(7,8) rf by (auto simp: refs_def)
  moreover have "sl_locked (slocks t (SL_inode ip))" using k(7) Y(5) by (simp add: holds_def)
  ultimately show ?thesis using t(2) u(5) by blast
qed

section \<open>Examples\<close>

text \<open>
  Process 1 of user 5 calls \<open>open("/ab", omode)\<close>: its one page holds the arguments at address 8 and the path at address 16. The file
  belongs to user 1 and has mode \<open>rw-r--\<close>.
\<close>

definition open_pages :: "u8 \<Rightarrow> u8 \<Rightarrow> memory" where
  "open_pages m h a =
     (if a = 0x80001000 \<or> a = 0x80002000 then 7 else if a = 0x80001001 then 0x20
      else if a = 0x80002001 then 0x30 else if a = 0x80003008 then 16 else if a = 0x8000300c then m else if a = 0x8000300d then h
      else if a = 0x80003010 then SLASH else if a = 0x80003011 then 97 else if a = 0x80003012 then 98 else 0)"

definition open_proc :: proc where
  "open_proc = zero_proc\<lparr>p_state := RUNNING, p_pid := 1, p_sz := 32, p_tf := zero_trapframe\<lparr>tf_esp := 4\<rparr>, p_uid := 5\<rparr>"

definition tree_kernel :: "'x \<Rightarrow> 'x kfile_scheme" where
  "tree_kernel x = fs_state tree_disk tree_cache (demo_cons \<lparr>utable = [], next_uid = 6, utable_initialized = True,
     utable_ip = None, kdata = 0, kpgdir = 0, cr3 = 0x1000, ts_esp0 = 0,
     ftable = [\<lparr>f_type = FD_NONE, f_ref = 0, f_readable = False, f_writable = False, f_pipe = 0, f_ip = 0, f_off = 0\<rparr>],
     pipes = \<lambda>_. demo_pipe, \<dots> = x\<rparr>)"

definition tree_state :: kproc where
  "tree_state = tree_kernel \<lparr>sym_forkret = 0, sym_trapret = 0, sym_initcode = [], forkret_first = False,
    ticks = 0, this_cpu = 0, cr2 = 0\<rparr>"

definition open_kernel :: "u8 \<Rightarrow> u8 \<Rightarrow> kproc" where
  "open_kernel m h = tree_state\<lparr>mem := open_pages m h, ptab := [open_proc], l_outstanding := 0\<rparr>"

lemma tree_kernel_fields [simp]:
  "cr3 (tree_kernel x) = 0x1000" "ftable (tree_kernel x) \<noteq> []" "f_ref (ftable (tree_kernel x) ! 0) = 0"
proof -
  have "kino.more (tree_kernel x) = demo_cons \<lparr>utable = [], next_uid = 6, utable_initialized = True,
     utable_ip = None, kdata = 0, kpgdir = 0, cr3 = 0x1000, ts_esp0 = 0,
     ftable = [\<lparr>f_type = FD_NONE, f_ref = 0, f_readable = False, f_writable = False, f_pipe = 0, f_ip = 0, f_off = 0\<rparr>],
     pipes = \<lambda>_. demo_pipe, \<dots> = x\<rparr>"
    by (simp add: tree_kernel_def)
  then show "cr3 (tree_kernel x) = 0x1000" "ftable (tree_kernel x) \<noteq> []" "f_ref (ftable (tree_kernel x) ! 0) = 0"
    by (cases "tree_kernel x", simp add: demo_cons_def)+
qed

lemma open_kernel_fields [simp]:
  "mem (open_kernel m h) = open_pages m h" "cr3 (open_kernel m h) = 0x1000" "cur (open_kernel m h) = Some 0" "held (open_kernel m h) = []"
  "ptab (open_kernel m h) = [open_proc]" "proc_at (open_kernel m h) = open_proc"
  "slocks (open_kernel m h) = (\<lambda>_. \<lparr>sl_locked = False, sl_pid = 0\<rparr>)" "icache (open_kernel m h) = tree_cache"
  "fs_sb (open_kernel m h) = demo_sb" "disksize (open_kernel m h) = 1000" "l_start (open_kernel m h) = 2" "l_n (open_kernel m h) = 0"
  "l_outstanding (open_kernel m h) = 0" "l_size (open_kernel m h) = 30" "\<not> l_committing (open_kernel m h)"
  by (simp_all add: open_kernel_def proc_at_def tree_state_def) (simp_all add: tree_kernel_def)

lemma open_kernel_free [simp]: "find_idx (\<lambda>x. f_ref x = 0) (ftable (open_kernel m h)) = Some 0"
  "find_idx (\<lambda>x. x = None) (p_ofile open_proc) = Some 0"
  by (simp_all add: find_idx_Some) (simp_all add: open_kernel_def tree_state_def open_proc_def zero_proc_def NOFILE_def)

lemma open_kernel_running [simp]: "running (open_kernel m h)"
  by (simp add: running_def) (simp add: open_proc_def)

lemma open_kernel_idle: "idle_log (open_kernel m h)" "view (open_kernel m h) = tree_disk"
proof -
  let ?k = tree_state
  have d: "\<forall>bn. length (tree_disk bn) = BSIZE" using tree_disk_like by (simp add: demo_like_def)
  have r: "room 0 {} ?k" "view ?k = tree_disk"
    unfolding tree_state_def tree_kernel_def by (rule fs_state_room [OF d le0])+
  have "head_n (disk ?k (l_start ?k)) = 0"
    by (simp add: tree_state_def tree_kernel_def tree_disk_def head_n_def dec_logheader_def sub_arr_def BSIZE_def dec32_def)
  then have lr: "log_ready ?k" "bquiet {} ?k" using room_ready [OF r(1)] r(1) by (simp_all add: room_def)
  have o: "open_kernel m h = ?k\<lparr>mem := open_pages m h, ptab := [open_proc], l_outstanding := 0\<rparr>"
    by (simp add: open_kernel_def)
  have p: "p_pid (proc_at (open_kernel m h)) = p_pid (proc_at ?k)"
    by (simp add: tree_state_def tree_kernel_def proc_at_def) (simp add: open_proc_def)
  note K = log_ready_keep [of "open_kernel m h" ?k, OF _ _ _ _ p open_kernel_running]
  have keep: "log_ready (open_kernel m h)" "view (open_kernel m h) = view ?k" "bquiet {} (open_kernel m h)"
    using K lr by (simp_all add: o)
  then show "view (open_kernel m h) = tree_disk" using r(2) by simp
  have "log_region (open_kernel m h) = log_region (fs_state tree_disk tree_cache ())" by (simp add: log_region_def)
  then have "\<forall>bn\<in>log_region (open_kernel m h). bn < disksize (open_kernel m h)"
    by (auto simp: fs_state_region word_less_nat_alt)
  then show "idle_log (open_kernel m h)" using keep by (simp add: idle_log_def LOGSIZE_def MAXOPBLOCKS_def)
qed

lemma open_kernel_view: "same_view tree_state (open_kernel m h)" "ino (open_kernel m h) = ino tree_state"
  by (simp_all add: same_view_def open_kernel_idle log_region_def ino_def fun_eq_iff) (simp_all add: tree_state_def tree_kernel_def)

lemma open_kernel_walk: "idle_walk {1, 7} (open_kernel m h)"
proof -
  have w: "walk_ok {1, 7} tree_state" unfolding tree_state_def tree_kernel_def by (rule tree_walk_ok)
  have "icache_ok (open_kernel m h)" using w open_kernel_view(2) by (simp add: walk_ok_def icache_ok_def) (simp add: tree_state_def tree_kernel_def)
  then show ?thesis
    using w open_kernel_idle unfolding idle_walk_def
    by (simp add: walk_ok_def same_viewD [OF open_kernel_view(1)] open_kernel_view(2))
qed

lemma open_kernel_start:
  "spare (\<lambda>i. i_ref (ino (open_kernel m h) i))" "start_ok {1, 7} (open_kernel m h) (SLASH # p)"
  "start_inum (open_kernel m h) (SLASH # p) = 1" "resolve (open_kernel m h) q 1 [[97, 98]] = Some 7"
  "dnode (open_kernel m h) 7 = dnode tree_state 7"
proof -
  show "spare (\<lambda>i. i_ref (ino (open_kernel m h) i))"
    unfolding open_kernel_view(2) tree_state_def tree_kernel_def by (rule tree_start(1))
  show "resolve (open_kernel m h) q 1 [[97, 98]] = Some 7"
    unfolding same_viewD [OF open_kernel_view(1)] unfolding tree_state_def tree_kernel_def by (rule tree_resolve(1))
  show "dnode (open_kernel m h) 7 = dnode tree_state 7" by (simp only: same_viewD [OF open_kernel_view(1)])
qed (simp_all add: start_ok_def start_inum_def absolute_def ROOTINO_def)

lemma open_kernel_file:
  "i_perm (dnode (open_kernel m h) 7) = 52" "i_owner (dnode (open_kernel m h) 7) = 1" "i_type (dnode (open_kernel m h) 7) = T_FILE"
proof -
  have "dinode_of (dnode tree_state 7) = file_dinode" unfolding tree_state_def tree_kernel_def by (rule tree_dnodes(2))
  then show "i_perm (dnode (open_kernel m h) 7) = 52" "i_owner (dnode (open_kernel m h) 7) = 1" "i_type (dnode (open_kernel m h) 7) = T_FILE"
    unfolding open_kernel_start(5) by (auto simp: dinode_of_def file_dinode_def zero_dinode_def)
qed

lemma open_translate:
  assumes "va < 0x1000"
  shows "translate (open_pages m h) (P2V 0x1000) va = Some (0x80003000 + va)"
proof -
  note a = small_address [OF assms]
  have e: "load32 (open_pages m h) 0x80001000 = 0x2007" "load32 (open_pages m h) 0x80002000 = 0x3007"
    by (simp_all add: load32_def open_pages_def dec32_def)
  show ?thesis
    by (simp add: translate_def Let_def pde_at_def pte_at_def a P2V_def KERNBASE_def e PTE_P_def PTE_ADDR_def)
qed

lemma open_proc_fields [simp]: "p_sz open_proc = 32" "tf_esp (p_tf open_proc) = 4" "p_uid open_proc = 5"
  by (simp_all add: open_proc_def)

lemma open_kernel_mapped: "user_mapped (open_kernel m h)"
proof -
  have "translate (open_pages m h) (P2V 0x1000) va \<noteq> None" if "va < 32" for va
    using open_translate [OF less_trans [OF that]] by simp
  then show ?thesis by (simp add: user_mapped_def KERNBASE_def del: not_None_eq)
qed

lemma open_kernel_byte: "va < 0x1000 \<Longrightarrow> ubyte (open_kernel m h) va = open_pages m h (unat (0x80003000 + va))"
  by (simp add: ubyte_def open_translate)

lemma open_kernel_args:
  "argint 1 (open_kernel m h) = Ok (Some (dec32 [m, h, 0, 0])) (open_kernel m h)"
  "argstr 0 (open_kernel m h) = Ok (Some (SLASH # [97, 98])) (open_kernel m h)"
proof -
  have sl: "arg_slot (open_kernel m h) 0 = 8" "arg_slot (open_kernel m h) 1 = 12" by (simp_all add: arg_slot_def)
  have b: "ubytes (open_kernel m h) 8 4 = [16, 0, 0, 0]" "ubytes (open_kernel m h) 12 4 = [m, h, 0, 0]"
    "ubytes (open_kernel m h) 16 16 = [SLASH, 97, 98, 0, 0, 0, 0, 0, 0, 0, 0, 0, 0, 0, 0, 0]"
    by (simp_all add: ubytes_def upt_rec open_kernel_byte open_pages_def)
  have i: "in_user (open_kernel m h) 8 4" "in_user (open_kernel m h) 12 4" by (simp_all add: in_user_def)
  have "dec32 [16, 0, 0, 0] = 16" by (simp add: dec32_def)
  with i have a: "argint 1 (open_kernel m h) = Ok (Some (dec32 [m, h, 0, 0])) (open_kernel m h)" "argint 0 (open_kernel m h) = Ok (Some 16) (open_kernel m h)"
    unfolding argint_run [OF open_kernel_mapped] sl b by simp_all
  then show "argint 1 (open_kernel m h) = Ok (Some (dec32 [m, h, 0, 0])) (open_kernel m h)" by simp
  have "fetchstr 16 (open_kernel m h) = Ok (Some (SLASH # [97, 98])) (open_kernel m h)"
    unfolding fetchstr_run [OF open_kernel_mapped] by (simp add: b Let_def SLASH_def)
  then show "argstr 0 (open_kernel m h) = Ok (Some (SLASH # [97, 98])) (open_kernel m h)" using a(2) by (simp add: argstr_def)
qed

lemma open_no_write: "\<not> has_write_permission (dnode (open_kernel m h) 7) open_proc"
  by (simp add: has_write_permission_def has_own_def open_kernel_file ROOT_UID_def MODE_WOTH_def T_FILE_def T_DEV_def)

theorem sys_open_access_witness:
  "(\<exists>t. sys_open (open_kernel 1 0) = Ok (-1) t \<and> refused (open_kernel 1 0) t) \<and>
   (\<exists>t. sys_open (open_kernel 3 0) = Ok 0 t \<and> f_writable (ftable t ! 0) \<and> i_inum (ino t (f_ip (ftable t ! 0))) = 7)"
proof -
  have m: "\<not> may_open (dnode (open_kernel 1 0) 7) open_proc 1" "may_open (dnode (open_kernel 3 0) 7) open_proc 3"
    by (simp_all add: may_open_def open_kernel_file open_no_write O_RDONLY_def O_WRONLY_def O_RDWR_def T_FILE_def T_DIR_def)
  have c: "(1 :: u32) AND O_CREATE = 0" "(3 :: u32) AND O_CREATE = 0" by (simp_all add: O_CREATE_def)
  have d: "dec32 [1, 0, 0, 0] = 1" "dec32 [3, 0, 0, 0] = 3" by (simp_all add: dec32_def)
  note A = sys_open_access [OF open_kernel_walk open_kernel_start(1,2) open_kernel_args(2,1) _ open_kernel_free(1), of _ 0]
  have "\<exists>t. sys_open (open_kernel 1 0) = Ok (-1) t \<and> refused (open_kernel 1 0) t"
    using A [of 1 0] c m d unfolding open_kernel_start(3,4) tree_elems by auto
  moreover have "\<exists>t. sys_open (open_kernel 3 0) = Ok 0 t \<and> f_writable (ftable t ! 0) \<and> i_inum (ino t (f_ip (ftable t ! 0))) = 7"
    using A [of 3 0] c m d unfolding open_kernel_start(3,4) tree_elems by (auto simp: opened_def O_WRONLY_def)
  ultimately show ?thesis by blast
qed

theorem sys_chmod_refused_witness:
  "\<exists>t. sys_chmod (open_kernel 63 0) = Ok (-1) t \<and> refused (open_kernel 63 0) t"
proof -
  have "\<not> has_own (dnode (open_kernel 63 0) 7) (proc_at (open_kernel 63 0))"
    by (simp add: has_own_def open_kernel_file ROOT_UID_def)
  then show ?thesis
    using sys_chmod_refused [OF open_kernel_walk open_kernel_start(1,2) open_kernel_args(2,1), of 63 0]
    unfolding open_kernel_start(3,4) tree_elems by simp
qed

theorem sys_open_create_leaves_lock_witness:
  "\<exists>t ip. sys_open (open_kernel 1 2) = Ok (-1) t \<and> i_inum (ino t ip) = 7 \<and> sl_locked (slocks t (SL_inode ip))"
proof -
  have "dec32 [1, 2, 0, 0] AND O_CREATE \<noteq> 0" by (simp add: dec32_def O_CREATE_def)
  then show ?thesis
    using sys_open_create_leaves_lock [OF open_kernel_walk open_kernel_start(1,2) open_kernel_args(2,1), of 1 2 7]
      open_no_write [of 1 2] open_kernel_file(3) [of 1 2]
    unfolding open_kernel_start(3,4) tree_elems by auto
qed

end
