(* ===== verification/Spinlock.thy ===== *)
theory Spinlock
  imports Kstate
begin

text \<open>
  Spin locks on several processors (\<open>spinlock.c\<close>). Each CPU runs \<open>acquire\<close> and \<open>release\<close> in the steps in which they touch the lock:
  \<open>c_phase\<close> says which instruction on the shared lock comes next, and the steps of different CPUs interleave in every order.
  What a function does to its own CPU (\<open>pushcli\<close>, \<open>popcli\<close>) belongs to the step that follows or precedes it. \<open>c_held\<close> is
  a history variable: the locks for which \<open>acquire\<close> has returned and \<open>release\<close> has not passed its check. An interrupt handler
  balances its calls before it returns and is not a step of its own; \<open>lk_pcs\<close> and the name of a lock serve debugging only and
  are left out.

  The theorems show mutual exclusion for every interleaving, and that the model of theory \<open>Kstate\<close>, in which a lock is an
  element of the list \<open>held\<close> of one CPU, describes what each CPU sees.
\<close>

section \<open>State\<close>

record spinlock =
  lk_locked :: u32
  lk_cpu :: "nat option"

datatype phase =
    Run
  | AcqLocked spinlk
  | AcqCpu spinlk
  | Spin spinlk
  | SetCpu spinlk
  | RelLocked spinlk
  | RelCpu spinlk
  | ClearCpu spinlk
  | ClearLocked spinlk
  | Unlocked spinlk
  | Stuck string

record cpu =
  c_ncli :: int
  c_intena :: bool
  c_if :: bool
  c_phase :: phase
  c_held :: "spinlk list"

record mcpu =
  locks :: "spinlk \<Rightarrow> spinlock"
  cpus :: "nat \<Rightarrow> cpu"

section \<open>The functions of \<open>spinlock.c\<close>\<close>

definition initlock :: spinlock where
  "initlock = \<lparr>lk_locked = 0, lk_cpu = None\<rparr>"

definition pushcli :: "cpu \<Rightarrow> cpu" where
  "pushcli k =
     (let eflags = c_if k;
          k = k\<lparr>c_if := False\<rparr>;
          k = (if c_ncli k = 0 then k\<lparr>c_intena := eflags\<rparr> else k)
      in k\<lparr>c_ncli := c_ncli k + 1\<rparr>)"

text \<open>After a panic the CPU stays where it is.\<close>

definition goto :: "phase \<Rightarrow> cpu \<Rightarrow> cpu" where
  "goto ph k = (case c_phase k of Stuck e \<Rightarrow> k | _ \<Rightarrow> k\<lparr>c_phase := ph\<rparr>)"

definition popcli :: "cpu \<Rightarrow> cpu" where
  "popcli k =
     (if c_if k then goto (Stuck ''popcli - interruptible'') k
      else
        let k = k\<lparr>c_ncli := c_ncli k - 1\<rparr>
        in if c_ncli k < 0 then goto (Stuck ''popcli'') k
           else if c_ncli k = 0 \<and> c_intena k then k\<lparr>c_if := True\<rparr> else k)"

text \<open>\<open>mycpu\<close> (\<open>proc.c\<close>) for the CPU that calls it.\<close>

definition mycpu :: "cpu \<Rightarrow> cpu \<Rightarrow> cpu" where
  "mycpu k next = (if c_if k then goto (Stuck (''mycpu called with interrupts enabled'' @ [CHR 0x0A])) k else next)"

text \<open>Calling \<open>acquire\<close> and \<open>release\<close>, up to the first read of the lock in \<open>holding\<close>.\<close>

definition start_acquire :: "spinlk \<Rightarrow> cpu \<Rightarrow> cpu" where
  "start_acquire l k = goto (AcqLocked l) (pushcli (pushcli k))"

definition start_release :: "spinlk \<Rightarrow> cpu \<Rightarrow> cpu" where
  "start_release l k = goto (RelLocked l) (pushcli k)"

definition set_cpu :: "nat \<Rightarrow> cpu \<Rightarrow> mcpu \<Rightarrow> mcpu" where
  "set_cpu c k m = m\<lparr>cpus := (cpus m)(c := k)\<rparr>"

definition set_lock :: "spinlk \<Rightarrow> spinlock \<Rightarrow> mcpu \<Rightarrow> mcpu" where
  "set_lock l x m = m\<lparr>locks := (locks m)(l := x)\<rparr>"

definition acquire_step :: "nat \<Rightarrow> mcpu \<Rightarrow> mcpu" where
  "acquire_step c m =
     (let k = cpus m c in
      case c_phase k of
        AcqLocked l \<Rightarrow>
          set_cpu c (if lk_locked (locks m l) = 0 then goto (Spin l) (popcli k) else goto (AcqCpu l) k) m
      | AcqCpu l \<Rightarrow>
          set_cpu c (mycpu k
            (if lk_cpu (locks m l) = Some c then goto (Stuck ''acquire'') (popcli k) else goto (Spin l) (popcli k))) m
      | Spin l \<Rightarrow>
          set_cpu c (if lk_locked (locks m l) \<noteq> 0 then k else goto (SetCpu l) k)
            (set_lock l ((locks m l)\<lparr>lk_locked := 1\<rparr>) m)
      | SetCpu l \<Rightarrow>
          if c_if k then set_cpu c (mycpu k k) m
          else set_cpu c (goto Run (k\<lparr>c_held := l # c_held k\<rparr>)) (set_lock l ((locks m l)\<lparr>lk_cpu := Some c\<rparr>) m)
      | _ \<Rightarrow> m)"

definition release_step :: "nat \<Rightarrow> mcpu \<Rightarrow> mcpu" where
  "release_step c m =
     (let k = cpus m c in
      case c_phase k of
        RelLocked l \<Rightarrow>
          set_cpu c (if lk_locked (locks m l) = 0 then goto (Stuck ''release'') (popcli k) else goto (RelCpu l) k) m
      | RelCpu l \<Rightarrow>
          set_cpu c (mycpu k
            (if lk_cpu (locks m l) = Some c then goto (ClearCpu l) ((popcli k)\<lparr>c_held := remove1 l (c_held k)\<rparr>)
             else goto (Stuck ''release'') (popcli k))) m
      | ClearCpu l \<Rightarrow> set_cpu c (goto (ClearLocked l) k) (set_lock l ((locks m l)\<lparr>lk_cpu := None\<rparr>) m)
      | ClearLocked l \<Rightarrow> set_cpu c (goto (Unlocked l) k) (set_lock l ((locks m l)\<lparr>lk_locked := 0\<rparr>) m)
      | Unlocked l \<Rightarrow> set_cpu c (goto Run (popcli k)) m
      | _ \<Rightarrow> m)"

text \<open>
  A CPU outside these functions calls one of them for any lock, or turns interrupts on or off while it holds none, or takes
  over the \<open>intena\<close> of another kernel thread in \<open>sched\<close>.
\<close>

inductive cpu_step :: "mcpu \<Rightarrow> mcpu \<Rightarrow> bool" where
  call_acquire: "c_phase (cpus m c) = Run \<Longrightarrow> cpu_step m (set_cpu c (start_acquire l (cpus m c)) m)"
| call_release: "c_phase (cpus m c) = Run \<Longrightarrow> cpu_step m (set_cpu c (start_release l (cpus m c)) m)"
| in_acquire: "cpu_step m (acquire_step c m)"
| in_release: "cpu_step m (release_step c m)"
| cli_sti: "c_phase (cpus m c) = Run \<Longrightarrow> c_ncli (cpus m c) = 0 \<Longrightarrow> cpu_step m (set_cpu c ((cpus m c)\<lparr>c_if := b\<rparr>) m)"
| switch: "c_phase (cpus m c) = Run \<Longrightarrow> cpu_step m (set_cpu c ((cpus m c)\<lparr>c_intena := b\<rparr>) m)"

definition boot_cpus :: "mcpu \<Rightarrow> bool" where
  "boot_cpus m \<longleftrightarrow> (\<forall>l. locks m l = initlock) \<and>
     (\<forall>c. c_ncli (cpus m c) = 0 \<and> c_phase (cpus m c) = Run \<and> c_held (cpus m c) = [])"

section \<open>The invariant\<close>

text \<open>How deep the function that runs has nested \<open>pushcli\<close>.\<close>

fun depth :: "phase \<Rightarrow> int" where
  "depth Run = 0"
| "depth (AcqLocked l) = 2"
| "depth (AcqCpu l) = 2"
| "depth (Stuck e) = 0"
| "depth _ = 1"

definition cpu_ok :: "cpu \<Rightarrow> bool" where
  "cpu_ok k \<longleftrightarrow> distinct (c_held k) \<and> (\<forall>l. c_phase k = Spin l \<longrightarrow> l \<notin> set (c_held k)) \<and>
     (case c_phase k of
        Stuck e \<Rightarrow> e = ''acquire'' \<or> e = ''release''
      | ph \<Rightarrow> c_ncli k = int (length (c_held k)) + depth ph \<and> (0 < c_ncli k \<longrightarrow> \<not> c_if k))"

definition marked :: "cpu \<Rightarrow> spinlk \<Rightarrow> bool" where
  "marked k l \<longleftrightarrow> l \<in> set (c_held k) \<or> c_phase k = ClearCpu l"

definition owns :: "cpu \<Rightarrow> spinlk \<Rightarrow> bool" where
  "owns k l \<longleftrightarrow> marked k l \<or> c_phase k = SetCpu l \<or> c_phase k = ClearLocked l"

definition lock_ok :: "mcpu \<Rightarrow> spinlk \<Rightarrow> bool" where
  "lock_ok m l \<longleftrightarrow> (lk_locked (locks m l) \<noteq> 0 \<longleftrightarrow> (\<exists>c. owns (cpus m c) l)) \<and>
     (\<forall>c d. owns (cpus m c) l \<longrightarrow> owns (cpus m d) l \<longrightarrow> c = d) \<and>
     (\<forall>c. lk_cpu (locks m l) = Some c \<longleftrightarrow> marked (cpus m c) l) \<and>
     (\<forall>c. c_phase (cpus m c) = ClearCpu l \<or> c_phase (cpus m c) = SetCpu l \<or> c_phase (cpus m c) = ClearLocked l
        \<longrightarrow> l \<notin> set (c_held (cpus m c)))"

definition locks_ok :: "mcpu \<Rightarrow> bool" where
  "locks_ok m \<longleftrightarrow> (\<forall>c. cpu_ok (cpus m c)) \<and> (\<forall>l. lock_ok m l)"

section \<open>Every step keeps the invariant\<close>

lemma set_cpu_at [simp]:
  "cpus (set_cpu c k m) d = (if d = c then k else cpus m d)" "locks (set_cpu c k m) = locks m"
  "locks (set_lock l x m) r = (if r = l then x else locks m r)" "cpus (set_lock l x m) = cpus m"
  by (simp_all add: set_cpu_def set_lock_def)

lemma pushcli_fields [simp]:
  "c_held (pushcli k) = c_held k" "c_phase (pushcli k) = c_phase k" "c_ncli (pushcli k) = c_ncli k + 1" "\<not> c_if (pushcli k)"
  by (simp_all add: pushcli_def Let_def)

lemma goto_fields [simp]:
  "c_held (goto ph k) = c_held k" "c_ncli (goto ph k) = c_ncli k" "c_if (goto ph k) = c_if k"
  "\<forall>e. c_phase k \<noteq> Stuck e \<Longrightarrow> c_phase (goto ph k) = ph"
  by (simp_all add: goto_def split: phase.splits)

lemma popcli_fields [simp]:
  assumes "0 < c_ncli k" and "\<not> c_if k"
  shows "c_held (popcli k) = c_held k" "c_phase (popcli k) = c_phase k" "c_ncli (popcli k) = c_ncli k - 1"
    "c_if (popcli k) \<longleftrightarrow> c_ncli k = 1 \<and> c_intena k"
  using assms by (auto simp: popcli_def Let_def)

definition busy :: "phase \<Rightarrow> bool" where
  "busy ph \<longleftrightarrow> (\<exists>l. ph = SetCpu l \<or> ph = ClearCpu l \<or> ph = ClearLocked l)"

lemma locks_okD:
  assumes "locks_ok m"
  shows "cpu_ok (cpus m c)" "lock_ok m l"
  using assms by (simp_all add: locks_ok_def)

lemma cpu_ok_live:
  assumes "cpu_ok k" and "\<forall>e. c_phase k \<noteq> Stuck e"
  shows "distinct (c_held k)" "c_ncli k = int (length (c_held k)) + depth (c_phase k)" "0 < c_ncli k \<Longrightarrow> \<not> c_if k"
    "c_phase k = Spin l \<Longrightarrow> l \<notin> set (c_held k)"
  using assms by (auto simp: cpu_ok_def split: phase.splits)

lemma cpu_okI:
  assumes "distinct (c_held k)" and "\<forall>e. c_phase k \<noteq> Stuck e" and "c_ncli k = int (length (c_held k)) + depth (c_phase k)"
    and "0 < c_ncli k \<longrightarrow> \<not> c_if k" and "\<forall>l. c_phase k = Spin l \<longrightarrow> l \<notin> set (c_held k)"
  shows "cpu_ok k"
  using assms by (auto simp: cpu_ok_def split: phase.splits)

text \<open>A step of a CPU that neither takes nor gives away a lock.\<close>

lemma locks_ok_local:
  assumes ok: "locks_ok m" and k: "cpu_ok k" "c_held k = c_held (cpus m c)" "\<not> busy (c_phase k)" "\<not> busy (c_phase (cpus m c))"
  shows "locks_ok (set_cpu c k m)"
proof -
  have e: "marked k l = marked (cpus m c) l" "owns k l = owns (cpus m c) l" for l
    using k(2-4) by (auto simp: marked_def owns_def busy_def)
  have "lock_ok (set_cpu c k m) l" for l
    using locks_okD(2) [OF ok, of l] k(3) unfolding lock_ok_def
    by (auto simp: e busy_def)
  then show ?thesis using ok k(1) by (simp add: locks_ok_def)
qed

definition busy_with :: "spinlk \<Rightarrow> phase \<Rightarrow> bool" where
  "busy_with l ph \<longleftrightarrow> (\<forall>r. ph = SetCpu r \<or> ph = ClearCpu r \<or> ph = ClearLocked r \<longrightarrow> r = l)"

lemma locks_ok_change:
  assumes ok: "locks_ok m" and k: "cpu_ok k" "\<forall>r. r \<noteq> l \<longrightarrow> (r \<in> set (c_held k) \<longleftrightarrow> r \<in> set (c_held (cpus m c)))"
      "busy_with l (c_phase k)" "busy_with l (c_phase (cpus m c))"
    and l: "lock_ok (set_cpu c k (set_lock l x m)) l"
  shows "locks_ok (set_cpu c k (set_lock l x m))"
proof -
  have "lock_ok (set_cpu c k (set_lock l x m)) r" if r: "r \<noteq> l" for r
  proof -
    have e: "marked k r = marked (cpus m c) r" "owns k r = owns (cpus m c) r"
      using k(2-4) r by (auto simp: marked_def owns_def busy_with_def)
    show ?thesis
      using locks_okD(2) [OF ok, of r] k(2,3) r unfolding lock_ok_def by (auto simp: e busy_with_def)
  qed
  with l have "lock_ok (set_cpu c k (set_lock l x m)) r" for r by (cases "r = l") auto
  then show ?thesis using ok k(1) by (simp add: locks_ok_def)
qed

text \<open>A lock that at most one CPU owns.\<close>

lemma sole_owner: "lock_ok m l \<Longrightarrow> owns (cpus m c) l \<Longrightarrow> d \<noteq> c \<Longrightarrow> \<not> owns (cpus m d) l"
  unfolding lock_ok_def by blast

lemma lock_ok_sole:
  assumes others: "\<And>d. d \<noteq> c \<Longrightarrow> \<not> owns (cpus m d) l"
  shows "lock_ok m l \<longleftrightarrow> (lk_locked (locks m l) \<noteq> 0 \<longleftrightarrow> owns (cpus m c) l) \<and>
    lk_cpu (locks m l) = (if marked (cpus m c) l then Some c else None) \<and>
    (c_phase (cpus m c) = ClearCpu l \<or> c_phase (cpus m c) = SetCpu l \<or> c_phase (cpus m c) = ClearLocked l
       \<longrightarrow> l \<notin> set (c_held (cpus m c)))" (is "_ \<longleftrightarrow> ?A \<and> ?B \<and> ?C")
proof -
  have o: "(\<exists>d. owns (cpus m d) l) \<longleftrightarrow> owns (cpus m c) l" using others by metis
  have u: "\<forall>d e. owns (cpus m d) l \<longrightarrow> owns (cpus m e) l \<longrightarrow> d = e" using others by metis
  have n: "\<not> marked (cpus m d) l" "c_phase (cpus m d) \<noteq> ClearCpu l" "c_phase (cpus m d) \<noteq> SetCpu l"
      "c_phase (cpus m d) \<noteq> ClearLocked l" if "d \<noteq> c" for d
    using others [OF that] by (auto simp: owns_def marked_def)
  have "(\<forall>d. lk_cpu (locks m l) = Some d \<longleftrightarrow> marked (cpus m d) l) \<longleftrightarrow> ?B"
  proof
    assume "\<forall>d. lk_cpu (locks m l) = Some d \<longleftrightarrow> marked (cpus m d) l"
    then show ?B using n(1) by (cases "lk_cpu (locks m l)") auto
  next
    assume b: ?B
    show "\<forall>d. lk_cpu (locks m l) = Some d \<longleftrightarrow> marked (cpus m d) l"
    proof
      fix d
      show "lk_cpu (locks m l) = Some d \<longleftrightarrow> marked (cpus m d) l" using b n(1) [of d] by (cases "d = c") auto
    qed
  qed
  moreover have "(\<forall>d. c_phase (cpus m d) = ClearCpu l \<or> c_phase (cpus m d) = SetCpu l \<or> c_phase (cpus m d) = ClearLocked l
      \<longrightarrow> l \<notin> set (c_held (cpus m d))) \<longleftrightarrow> ?C"
    using n(2-4) by metis
  ultimately show ?thesis using o u unfolding lock_ok_def by simp
qed

lemma owned_lock:
  assumes "locks_ok m" and "owns (cpus m c) l"
  shows "lk_locked (locks m l) \<noteq> 0" "lk_cpu (locks m l) = (if marked (cpus m c) l then Some c else None)"
    "c_phase (cpus m c) = ClearCpu l \<or> c_phase (cpus m c) = SetCpu l \<or> c_phase (cpus m c) = ClearLocked l
       \<Longrightarrow> l \<notin> set (c_held (cpus m c))"
  using lock_ok_sole [of c m l] sole_owner [OF locks_okD(2) [OF assms(1)] assms(2)] locks_okD(2) [OF assms(1), of l] assms(2)
  by blast+

lemma step_owned:
  assumes ok: "locks_ok m" and l: "owns (cpus m c) l" and k: "cpu_ok k"
      "\<forall>r. r \<noteq> l \<longrightarrow> (r \<in> set (c_held k) \<longleftrightarrow> r \<in> set (c_held (cpus m c)))" "busy_with l (c_phase k)" "busy_with l (c_phase (cpus m c))"
    and x: "lk_locked x \<noteq> 0 \<longleftrightarrow> owns k l" "lk_cpu x = (if marked k l then Some c else None)"
      "c_phase k = ClearCpu l \<or> c_phase k = SetCpu l \<or> c_phase k = ClearLocked l \<longrightarrow> l \<notin> set (c_held k)"
  shows "locks_ok (set_cpu c k (set_lock l x m))"
proof (rule locks_ok_change [OF ok k])
  have "\<not> owns (cpus m d) l" if "d \<noteq> c" for d using sole_owner [OF locks_okD(2) [OF ok] l that] .
  then show "lock_ok (set_cpu c k (set_lock l x m)) l" using x by (subst lock_ok_sole [of c]) auto
qed

lemma start_keeps:
  assumes "locks_ok m" and "c_phase (cpus m c) = Run"
  shows "locks_ok (set_cpu c (start_acquire l (cpus m c)) m)" "locks_ok (set_cpu c (start_release l (cpus m c)) m)"
proof -
  note K = cpu_ok_live [OF locks_okD(1) [OF assms(1)], of c]
  have "cpu_ok (start_acquire l (cpus m c))" "cpu_ok (start_release l (cpus m c))"
    using K assms(2) by (auto intro!: cpu_okI simp: start_acquire_def start_release_def)
  then show "locks_ok (set_cpu c (start_acquire l (cpus m c)) m)" "locks_ok (set_cpu c (start_release l (cpus m c)) m)"
    using assms by (auto intro!: locks_ok_local simp: start_acquire_def start_release_def busy_def)
qed

lemma acquire_keeps:
  assumes ok: "locks_ok m"
  shows "locks_ok (acquire_step c m)"
proof -
  let ?k = "cpus m c"
  note K = cpu_ok_live [OF locks_okD(1) [OF ok], of c]
  show ?thesis
  proof (cases "c_phase ?k")
    case (AcqLocked l)
    with K have n: "0 < c_ncli ?k" "\<not> c_if ?k" by auto
    have "lk_locked (locks m l) = 0 \<Longrightarrow> l \<notin> set (c_held ?k)"
      using owned_lock(1) [OF ok, of c l] by (auto simp: owns_def marked_def)
    then have "lk_locked (locks m l) = 0 \<Longrightarrow> cpu_ok (goto (Spin l) (popcli ?k))" "cpu_ok (goto (AcqCpu l) ?k)"
      using K n AcqLocked by (auto intro!: cpu_okI)
    then show ?thesis using AcqLocked n by (auto intro!: locks_ok_local [OF ok] simp: acquire_step_def Let_def busy_def)
  next
    case (AcqCpu l)
    with K have n: "0 < c_ncli ?k" "\<not> c_if ?k" by auto
    have "lk_cpu (locks m l) \<noteq> Some c \<Longrightarrow> l \<notin> set (c_held ?k)"
      using owned_lock(2) [OF ok, of c l] by (auto simp: owns_def marked_def)
    then have "lk_cpu (locks m l) \<noteq> Some c \<Longrightarrow> cpu_ok (goto (Spin l) (popcli ?k))"
        "cpu_ok (goto (Stuck ''acquire'') (popcli ?k))"
      using K n AcqCpu by (auto simp: cpu_ok_def)
    then show ?thesis using AcqCpu n by (auto intro!: locks_ok_local [OF ok] simp: acquire_step_def Let_def mycpu_def busy_def)
  next
    case (Spin l)
    then have nb: "busy_with l (c_phase ?k)" by (simp add: busy_with_def)
    note L = locks_okD(2) [OF ok, of l]
    let ?m = "\<lambda>k. set_cpu c k (set_lock l ((locks m l)\<lparr>lk_locked := 1\<rparr>) m)"
    show ?thesis
    proof (cases "lk_locked (locks m l) = 0")
      case True
      have "cpu_ok (goto (SetCpu l) ?k)" using K Spin by (auto intro!: cpu_okI)
      moreover have "lock_ok (?m (goto (SetCpu l) ?k)) l"
        using L True Spin unfolding lock_ok_def by (auto simp: owns_def marked_def)
      ultimately show ?thesis using True Spin nb
        by (auto intro!: locks_ok_change [OF ok] simp: acquire_step_def Let_def busy_with_def)
    next
      case False
      have "cpus (?m ?k) = cpus m" by (simp add: fun_eq_iff)
      then have "lock_ok (?m ?k) l" using L False by (simp add: lock_ok_def)
      then show ?thesis using False Spin nb locks_okD(1) [OF ok]
        by (auto intro!: locks_ok_change [OF ok] simp: acquire_step_def Let_def)
    qed
  next
    case (SetCpu l)
    with K have n: "\<not> c_if ?k" by auto
    let ?k' = "goto Run (?k\<lparr>c_held := l # c_held ?k\<rparr>)" and ?x = "(locks m l)\<lparr>lk_cpu := Some c\<rparr>"
    have o: "owns ?k l" using SetCpu by (simp add: owns_def)
    note S = owned_lock [OF ok o]
    have nl: "l \<notin> set (c_held ?k)" "lk_locked ?x \<noteq> 0" using S SetCpu by auto
    then have "cpu_ok ?k'" using K n SetCpu by (auto intro!: cpu_okI)
    then have "locks_ok (set_cpu c ?k' (set_lock l ?x m))"
      using SetCpu nl by (intro step_owned [OF ok o]) (auto simp: busy_with_def owns_def marked_def)
    then show ?thesis using SetCpu n by (simp add: acquire_step_def Let_def)
  qed (use ok in \<open>simp_all add: acquire_step_def Let_def\<close>)
qed

lemma release_keeps:
  assumes ok: "locks_ok m"
  shows "locks_ok (release_step c m)"
proof -
  let ?k = "cpus m c"
  note K = cpu_ok_live [OF locks_okD(1) [OF ok], of c]
  show ?thesis
  proof (cases "c_phase ?k")
    case (RelLocked l)
    with K have n: "0 < c_ncli ?k" "\<not> c_if ?k" by auto
    have "cpu_ok (goto (Stuck ''release'') (popcli ?k))" "cpu_ok (goto (RelCpu l) ?k)"
      using K n RelLocked by (auto simp: cpu_ok_def)
    then show ?thesis using RelLocked n by (auto intro!: locks_ok_local [OF ok] simp: release_step_def Let_def busy_def)
  next
    case (RelCpu l)
    with K have n: "0 < c_ncli ?k" "\<not> c_if ?k" by auto
    show ?thesis
    proof (cases "lk_cpu (locks m l) = Some c")
      case True
      let ?k' = "goto (ClearCpu l) ((popcli ?k)\<lparr>c_held := remove1 l (c_held ?k)\<rparr>)"
      have "marked ?k l" using True locks_okD(2) [OF ok, of l] unfolding lock_ok_def by blast
      then have o: "owns ?k l" and h: "l \<in> set (c_held ?k)" using RelCpu by (simp_all add: marked_def owns_def)
      note S = owned_lock [OF ok o]
      obtain n where len: "length (c_held ?k) = Suc n" using h by (cases "c_held ?k") auto
      have "cpu_ok ?k'" using K n RelCpu h len by (auto intro!: cpu_okI simp: length_remove1)
      moreover have "lk_locked (locks m l) \<noteq> 0" using S by simp
      ultimately have "locks_ok (set_cpu c ?k' (set_lock l (locks m l) m))"
        using RelCpu n K True by (intro step_owned [OF ok o]) (auto simp: busy_with_def owns_def marked_def)
      then show ?thesis using True RelCpu n by (simp add: release_step_def Let_def mycpu_def set_lock_def)
    next
      case False
      have "cpu_ok (goto (Stuck ''release'') (popcli ?k))" using K n RelCpu by (auto simp: cpu_ok_def)
      then show ?thesis using False RelCpu n
        by (auto intro!: locks_ok_local [OF ok] simp: release_step_def Let_def mycpu_def busy_def)
    qed
  next
    case (ClearCpu l)
    have o: "owns ?k l" using ClearCpu by (simp add: owns_def marked_def)
    note S = owned_lock [OF ok o]
    have "cpu_ok (goto (ClearLocked l) ?k)" using K ClearCpu by (auto intro!: cpu_okI)
    moreover have "lk_locked (locks m l) \<noteq> 0" "l \<notin> set (c_held ?k)" using S ClearCpu by auto
    ultimately have "locks_ok (set_cpu c (goto (ClearLocked l) ?k) (set_lock l ((locks m l)\<lparr>lk_cpu := None\<rparr>) m))"
      using ClearCpu by (intro step_owned [OF ok o]) (auto simp: busy_with_def owns_def marked_def)
    then show ?thesis using ClearCpu by (simp add: release_step_def Let_def)
  next
    case (ClearLocked l)
    have o: "owns ?k l" using ClearLocked by (simp add: owns_def marked_def)
    note S = owned_lock [OF ok o]
    have "cpu_ok (goto (Unlocked l) ?k)" using K ClearLocked by (auto intro!: cpu_okI)
    moreover have "lk_cpu (locks m l) = None" "l \<notin> set (c_held ?k)"
      using S ClearLocked by (auto simp: marked_def)
    ultimately have "locks_ok (set_cpu c (goto (Unlocked l) ?k) (set_lock l ((locks m l)\<lparr>lk_locked := 0\<rparr>) m))"
      using ClearLocked by (intro step_owned [OF ok o]) (auto simp: busy_with_def owns_def marked_def)
    then show ?thesis using ClearLocked by (simp add: release_step_def Let_def)
  next
    case (Unlocked l)
    with K have n: "0 < c_ncli ?k" "\<not> c_if ?k" by auto
    have "cpu_ok (goto Run (popcli ?k))" using K n Unlocked by (auto intro!: cpu_okI)
    then show ?thesis using Unlocked n by (auto intro!: locks_ok_local [OF ok] simp: release_step_def Let_def busy_def)
  qed (use ok in \<open>simp_all add: release_step_def Let_def\<close>)
qed

interpretation spin: invariant_system boot_cpus cpu_step locks_ok
proof
  fix m :: mcpu
  assume "boot_cpus m"
  then show "locks_ok m"
    by (auto simp: boot_cpus_def locks_ok_def cpu_ok_def lock_ok_def initlock_def owns_def marked_def)
next
  fix m n :: mcpu
  assume ok: "locks_ok m" and "cpu_step m n"
  from this(2) show "locks_ok n"
  proof cases
    case (cli_sti c b)
    then show ?thesis using cpu_ok_live [OF locks_okD(1) [OF ok], of c] ok
      by (auto intro!: locks_ok_local cpu_okI simp: busy_def)
  next
    case (switch c b)
    then show ?thesis using cpu_ok_live [OF locks_okD(1) [OF ok], of c] ok
      by (auto intro!: locks_ok_local cpu_okI simp: busy_def)
  qed (use ok start_keeps acquire_keeps release_keeps in auto)
qed

section \<open>Mutual exclusion\<close>

text \<open>
  C10. Spin locks exclude each other's critical sections (acquire and release in spinlock.c): however the steps of the CPUs
  interleave, no lock is held by two CPUs, no CPU spins on a lock it holds, a CPU that holds a lock has its interrupts off and as many
  levels of \<open>pushcli\<close> as it holds locks, and the only panics are those for taking a lock twice and for releasing a lock that is not held.
\<close>

theorem spinlock_mutual_exclusion:
  assumes "reachable boot_cpus cpu_step m"
  shows "(\<forall>c d. c \<noteq> d \<longrightarrow> set (c_held (cpus m c)) \<inter> set (c_held (cpus m d)) = {}) \<and>
    (\<forall>c l. c_phase (cpus m c) = Spin l \<longrightarrow> l \<notin> set (c_held (cpus m c))) \<and>
    (\<forall>c. c_phase (cpus m c) = Run \<longrightarrow> c_ncli (cpus m c) = int (length (c_held (cpus m c))) \<and>
       (c_held (cpus m c) \<noteq> [] \<longrightarrow> \<not> c_if (cpus m c))) \<and>
    (\<forall>c e. c_phase (cpus m c) = Stuck e \<longrightarrow> e = ''acquire'' \<or> e = ''release'')"
proof -
  have ok: "locks_ok m" using assms by (rule spin.reachable_inv)
  note K = locks_okD(1) [OF ok]
  have "set (c_held (cpus m c)) \<inter> set (c_held (cpus m d)) = {}" if "c \<noteq> d" for c d
  proof -
    have "l \<notin> set (c_held (cpus m d))" if "l \<in> set (c_held (cpus m c))" for l
      using sole_owner [OF locks_okD(2) [OF ok], of c l d] that \<open>c \<noteq> d\<close> by (simp add: owns_def marked_def)
    then show ?thesis by blast
  qed
  moreover have "c_phase (cpus m c) = Spin l \<Longrightarrow> l \<notin> set (c_held (cpus m c))" for c l
    using K [of c] by (simp add: cpu_ok_def)
  moreover have "c_phase (cpus m c) = Run \<Longrightarrow> c_ncli (cpus m c) = int (length (c_held (cpus m c))) \<and>
       (c_held (cpus m c) \<noteq> [] \<longrightarrow> \<not> c_if (cpus m c))" for c
    using K [of c] by (simp add: cpu_ok_def)
  moreover have "c_phase (cpus m c) = Stuck e \<Longrightarrow> e = ''acquire'' \<or> e = ''release''" for c e
    using K [of c] by (simp add: cpu_ok_def)
  ultimately show ?thesis by blast
qed

section \<open>What one CPU sees\<close>

fun lock_call :: "phase \<Rightarrow> ('m kbase_scheme, unit) km option" where
  "lock_call (AcqLocked l) = Some (acquire l)"
| "lock_call (AcqCpu l) = Some (acquire l)"
| "lock_call (Spin l) = Some (acquire l)"
| "lock_call (SetCpu l) = Some (acquire l)"
| "lock_call (RelLocked l) = Some (release l)"
| "lock_call (RelCpu l) = Some (release l)"
| "lock_call _ = None"

text \<open>A step of CPU \<open>c\<close> in a state that satisfies the invariant, as theory \<open>Kstate\<close> describes it.\<close>

definition sees :: "mcpu \<Rightarrow> mcpu \<Rightarrow> nat \<Rightarrow> 'm kbase_scheme \<Rightarrow> bool" where
  "sees m n c s \<longleftrightarrow>
     (case lock_call (c_phase (cpus m c)) of
        None \<Rightarrow> False
      | Some f \<Rightarrow> f s = Ok () (s\<lparr>held := c_held (cpus n c)\<rparr>) \<and> lock_call (c_phase (cpus n c)) = (None :: ('m kbase_scheme, unit) km option)
          \<or> (\<exists>e. f s = Panic e \<and> c_phase (cpus n c) = Stuck e)) \<or>
     c_held (cpus n c) = c_held (cpus m c) \<and> (\<forall>e. c_phase (cpus n c) = Stuck e \<longrightarrow> c_phase (cpus m c) = Stuck e)"

lemma sees_same:
  "c_held (cpus n c) = c_held (cpus m c) \<Longrightarrow> (\<forall>e. c_phase (cpus n c) \<noteq> Stuck e) \<or> cpus n c = cpus m c \<Longrightarrow> sees m n c s"
  by (auto simp: sees_def)

lemma sees_acquire:
  assumes ok: "locks_ok m" and s: "held s = c_held (cpus m c)"
  shows "sees m (acquire_step c m) c s"
proof -
  let ?k = "cpus m c"
  note K = cpu_ok_live [OF locks_okD(1) [OF ok], of c]
  show ?thesis
  proof (cases "c_phase ?k")
    case (AcqLocked l)
    with K have "0 < c_ncli ?k" "\<not> c_if ?k" by auto
    then show ?thesis using AcqLocked by (intro sees_same) (simp_all add: acquire_step_def Let_def)
  next
    case (AcqCpu l)
    with K have n: "0 < c_ncli ?k" "\<not> c_if ?k" by auto
    have "l \<in> set (c_held ?k)" if "lk_cpu (locks m l) = Some c"
    proof -
      have "marked ?k l" using that locks_okD(2) [OF ok, of l] unfolding lock_ok_def by blast
      then show ?thesis using AcqCpu by (simp add: marked_def)
    qed
    then show ?thesis using AcqCpu n s by (auto simp: sees_def acquire_step_def Let_def mycpu_def acquire_def holding_def)
  next
    case (Spin l)
    then show ?thesis by (intro sees_same) (simp_all add: acquire_step_def Let_def)
  next
    case (SetCpu l)
    have "\<not> c_if ?k" "l \<notin> set (c_held ?k)"
      using K SetCpu owned_lock(3) [OF ok, of c l] by (auto simp: owns_def)
    then show ?thesis using SetCpu s by (simp add: sees_def acquire_step_def Let_def acquire_def holding_def)
  qed (simp_all add: sees_same acquire_step_def Let_def)
qed

lemma sees_release:
  assumes ok: "locks_ok m" and s: "held s = c_held (cpus m c)"
  shows "sees m (release_step c m) c s"
proof -
  let ?k = "cpus m c"
  note K = cpu_ok_live [OF locks_okD(1) [OF ok], of c]
  show ?thesis
  proof (cases "c_phase ?k")
    case (RelLocked l)
    with K have n: "0 < c_ncli ?k" "\<not> c_if ?k" by auto
    have "l \<notin> set (c_held ?k)" if "lk_locked (locks m l) = 0"
      using owned_lock(1) [OF ok, of c l] that by (auto simp: owns_def marked_def)
    then show ?thesis using RelLocked n s by (auto simp: sees_def release_step_def Let_def release_def holding_def)
  next
    case (RelCpu l)
    with K have n: "0 < c_ncli ?k" "\<not> c_if ?k" by auto
    have "lk_cpu (locks m l) = Some c \<longleftrightarrow> l \<in> set (c_held ?k)"
    proof -
      have "lk_cpu (locks m l) = Some c \<longleftrightarrow> marked ?k l" using locks_okD(2) [OF ok, of l] unfolding lock_ok_def by blast
      then show ?thesis using RelCpu by (simp add: marked_def)
    qed
    then show ?thesis using RelCpu n s by (auto simp: sees_def release_step_def Let_def mycpu_def release_def holding_def)
  next
    case (Unlocked l)
    with K have "0 < c_ncli ?k" "\<not> c_if ?k" by auto
    then show ?thesis using Unlocked by (intro sees_same) (simp_all add: release_step_def Let_def)
  qed (simp_all add: sees_same release_step_def Let_def)
qed

text \<open>
  C11. The locks of theory \<open>Kstate\<close> are what a CPU sees of the multiprocessor (acquire and release in spinlock.c): with any
  state whose list of held locks is the CPU's, a step of the machine either completes the call of \<open>acquire\<close> or \<open>release\<close> the CPU
  is in, with exactly the result and the panic of \<open>Kstate\<close>, or leaves the locks the CPU holds as they are.
\<close>

theorem spinlock_refines:
  assumes "reachable boot_cpus cpu_step m" and "cpu_step m n" and "held s = c_held (cpus m c)"
  shows "sees m n c s"
proof -
  have ok: "locks_ok m" using assms(1) by (rule spin.reachable_inv)
  have other: "cpus (acquire_step d m) c = cpus m c" "cpus (release_step d m) c = cpus m c" if "c \<noteq> d" for d
    using that by (auto simp: acquire_step_def release_step_def Let_def split: phase.split)
  from assms(2) show ?thesis
  proof cases
    case (in_acquire d)
    then show ?thesis using sees_acquire [OF ok assms(3)] other(1) [of d] by (cases "c = d") (simp_all add: sees_same)
  next
    case (in_release d)
    then show ?thesis using sees_release [OF ok assms(3)] other(2) [of d] by (cases "c = d") (simp_all add: sees_same)
  next
    case (call_acquire d l)
    then show ?thesis by (intro sees_same) (auto simp: start_acquire_def start_release_def)
  next
    case (call_release d l)
    then show ?thesis by (intro sees_same) (auto simp: start_acquire_def start_release_def)
  next
    case (cli_sti d b)
    then show ?thesis by (intro sees_same) (auto simp: start_acquire_def start_release_def)
  next
    case (switch d b)
    then show ?thesis by (intro sees_same) (auto simp: start_acquire_def start_release_def)
  qed
qed

section \<open>Examples\<close>

text \<open>Two CPUs compete for the lock of the process table; CPU 2 wins although CPU 0 called \<open>acquire\<close> first.\<close>

definition boot_state :: mcpu where
  "boot_state = \<lparr>locks = \<lambda>_. initlock,
     cpus = \<lambda>_. \<lparr>c_ncli = 0, c_intena = False, c_if = True, c_phase = Run, c_held = []\<rparr>\<rparr>"

definition called :: mcpu where
  "called = (let m = set_cpu 0 (start_acquire LK_ptable (cpus boot_state 0)) boot_state
     in set_cpu 2 (start_acquire LK_ptable (cpus m 2)) m)"

definition contend :: mcpu where
  "contend = acquire_step 0 (acquire_step 2 (acquire_step 2 (acquire_step 0 called)))"

lemmas lock_eval = called_def contend_def acquire_step_def start_acquire_def goto_def pushcli_def popcli_def mycpu_def
  set_cpu_def set_lock_def boot_state_def initlock_def Let_def

lemma contend_phases:
  "c_phase (cpus contend 0) = Spin LK_ptable" "c_phase (cpus contend 2) = SetCpu LK_ptable" "c_held (cpus contend 0) = []"
  "c_held (cpus contend 2) = []" "c_held (cpus (acquire_step 2 contend) 2) = [LK_ptable]"
  "c_phase (cpus (acquire_step 2 contend) 2) = Run" "c_phase (cpus (acquire_step 2 contend) 0) = Spin LK_ptable"
  by (simp_all add: lock_eval)

lemma reach_acquire: "reachable boot_cpus cpu_step m \<Longrightarrow> reachable boot_cpus cpu_step (acquire_step c m)"
  by (erule reach_step) (rule in_acquire)

lemma contend_reachable: "reachable boot_cpus cpu_step contend"
proof -
  have "boot_cpus boot_state" by (simp add: boot_cpus_def boot_state_def)
  then have "reachable boot_cpus cpu_step boot_state" by (rule reach_init)
  then have "reachable boot_cpus cpu_step (set_cpu 0 (start_acquire LK_ptable (cpus boot_state 0)) boot_state)"
    by (rule reach_step) (rule call_acquire, simp add: boot_state_def)
  then have "reachable boot_cpus cpu_step called"
    unfolding called_def Let_def by (rule reach_step) (rule call_acquire, simp add: boot_state_def)
  then show ?thesis unfolding contend_def by (intro reach_acquire)
qed

theorem spinlock_mutual_exclusion_witness:
  "reachable boot_cpus cpu_step (acquire_step 2 contend) \<and>
   LK_ptable \<in> set (c_held (cpus (acquire_step 2 contend) 2)) \<and> LK_ptable \<notin> set (c_held (cpus (acquire_step 2 contend) 0)) \<and>
   \<not> c_if (cpus (acquire_step 2 contend) 2)"
proof -
  have r: "reachable boot_cpus cpu_step (acquire_step 2 contend)" by (rule reach_acquire [OF contend_reachable])
  have h: "LK_ptable \<in> set (c_held (cpus (acquire_step 2 contend) 2))" by (simp add: contend_phases)
  note M = spinlock_mutual_exclusion [OF r]
  have "set (c_held (cpus (acquire_step 2 contend) 2)) \<inter> set (c_held (cpus (acquire_step 2 contend) 0)) = {}"
    using M by simp
  moreover have "\<not> c_if (cpus (acquire_step 2 contend) 2)" using M contend_phases(5,6) by auto
  ultimately show ?thesis using r h by blast
qed

theorem spinlock_refines_witness:
  "sees contend (acquire_step 2 contend) 2 (one_proc ()) \<and>
   acquire LK_ptable (one_proc ()) = Ok () ((one_proc ())\<lparr>held := c_held (cpus (acquire_step 2 contend) 2)\<rparr>)"
proof -
  have "sees contend (acquire_step 2 contend) 2 (one_proc ())"
    by (rule spinlock_refines [OF contend_reachable in_acquire]) (simp add: contend_phases)
  then show ?thesis by (simp add: sees_def contend_phases)
qed

end
