(* ===== verification/Sched.thy ===== *)
theory Sched
  imports Args
begin

text \<open>
  The scheduler (\<open>proc.c\<close>): each round of its loop goes through the whole table in order and runs the processes that wait for the CPU.
\<close>

section \<open>Rounds of the scheduler\<close>

definition sched_ok :: "'m kproc_scheme \<Rightarrow> bool" where
  "sched_ok s \<longleftrightarrow> length (ptab s) = NPROC \<and>
     (\<forall>j<NPROC. p_state (ptab s ! j) = RUNNABLE \<longrightarrow> p_kstack (ptab s ! j) \<noteq> 0 \<and> p_pgdir (ptab s ! j) \<noteq> 0)"

text \<open>
  What the scheduler relies on while a process runs: the process comes back holding only the lock of the table, runnable
  processes have a stack and a page table, and it does not stop another process from being RUNNABLE.
\<close>

definition gives_back :: "(nat \<Rightarrow> 'm kproc_scheme \<Rightarrow> 'm kproc_scheme) \<Rightarrow> bool" where
  "gives_back run \<longleftrightarrow> (\<forall>k<NPROC. \<forall>s. sched_ok s \<longrightarrow> held s = [LK_ptable] \<longrightarrow>
     sched_ok (run k s) \<and> held (run k s) = [LK_ptable] \<and>
     (\<forall>j<NPROC. j \<noteq> k \<longrightarrow> p_state (ptab s ! j) = RUNNABLE \<longrightarrow> p_state (ptab (run k s) ! j) = RUNNABLE))"

text \<open>
  The state in which process \<open>k\<close> is given the CPU: it is the current process and RUNNING, with its page table and its kernel stack in place; and
  the state of the scheduler when the process has given the CPU back, on the page table of the kernel and with no current process.
\<close>

definition dispatched :: "nat \<Rightarrow> 'm kproc_scheme \<Rightarrow> 'm kproc_scheme" where
  "dispatched k s = upd_proc k (\<lambda>p. p\<lparr>p_state := RUNNING\<rparr>)
     (s\<lparr>cur := Some k, ts_esp0 := p_kstack (ptab s ! k) + of_nat KSTACKSIZE, cr3 := V2P (p_pgdir (ptab s ! k))\<rparr>)"

definition taken_back :: "'m kproc_scheme \<Rightarrow> 'm kproc_scheme" where
  "taken_back s = s\<lparr>cr3 := V2P (kpgdir s), cur := None\<rparr>"

definition runnable :: "'m kproc_scheme \<Rightarrow> nat \<Rightarrow> bool" where
  "runnable s j \<longleftrightarrow> p_state (ptab s ! j) = RUNNABLE"

lemma turn_run:
  assumes "gives_back run" and "sched_ok s" and "held s = [LK_ptable]" and "k < NPROC" and "runnable s k"
  defines "t \<equiv> taken_back (run k (dispatched k s))"
  shows "scheduler_turn run k s = Ok () t" and "sched_ok t" and "held t = [LK_ptable]"
    and "j < NPROC \<Longrightarrow> j \<noteq> k \<Longrightarrow> runnable s j \<Longrightarrow> runnable t j"
proof -
  let ?p = "ptab s ! k" and ?u = "dispatched k s"
  have p: "p_kstack ?p \<noteq> 0" "p_pgdir ?p \<noteq> 0" using assms(2,4,5) by (auto simp: sched_ok_def runnable_def)
  have len: "length (ptab s) = NPROC" using assms(2) by (simp add: sched_ok_def)
  have pu: "ptab ?u ! j = (if j = k then ?p\<lparr>p_state := RUNNING\<rparr> else ptab s ! j)" if "j < NPROC" for j
    using that len assms(4) by (simp add: dispatched_def upd_proc_def nth_list_update)
  have u: "sched_ok ?u" "held ?u = [LK_ptable]"
    using assms(2,3) len by (auto simp: sched_ok_def pu) (simp_all add: dispatched_def upd_proc_def)
  show "scheduler_turn run k s = Ok () t"
    using p by (simp add: scheduler_turn_def switchuvm_def switchkvm_def lcr3_def t_def taken_back_def dispatched_def)
  have r: "sched_ok (run k ?u)" "held (run k ?u) = [LK_ptable]"
      "\<forall>j<NPROC. j \<noteq> k \<longrightarrow> p_state (ptab ?u ! j) = RUNNABLE \<longrightarrow> p_state (ptab (run k ?u) ! j) = RUNNABLE"
    using assms(1,4) u by (auto simp: gives_back_def)
  show "sched_ok t" "held t = [LK_ptable]" using r(1,2) by (simp_all add: t_def taken_back_def sched_ok_def)
  show "j < NPROC \<Longrightarrow> j \<noteq> k \<Longrightarrow> runnable s j \<Longrightarrow> runnable t j"
    using r(3) by (simp add: t_def taken_back_def runnable_def pu)
qed

text \<open>The state of the scheduler when it comes to entry \<open>j\<close> of the table, for a round that begins in \<open>s\<close>.\<close>

primrec at_turn :: "(nat \<Rightarrow> 'm kproc_scheme \<Rightarrow> 'm kproc_scheme) \<Rightarrow> 'm kproc_scheme \<Rightarrow> nat \<Rightarrow> 'm kproc_scheme" where
  "at_turn run s 0 = s"
| "at_turn run s (Suc j) =
     (if runnable (at_turn run s j) j then taken_back (run j (dispatched j (at_turn run s j))) else at_turn run s j)"

lemma at_turn_ok:
  assumes "gives_back run" and "sched_ok s" and "held s = [LK_ptable]" and "j \<le> NPROC"
  shows "sched_ok (at_turn run s j)" and "held (at_turn run s j) = [LK_ptable]"
    and "k < NPROC \<Longrightarrow> j \<le> k \<Longrightarrow> runnable s k \<Longrightarrow> runnable (at_turn run s j) k"
proof -
  have "sched_ok (at_turn run s j) \<and> held (at_turn run s j) = [LK_ptable] \<and>
    (\<forall>k<NPROC. j \<le> k \<longrightarrow> runnable s k \<longrightarrow> runnable (at_turn run s j) k)"
    using assms(4)
  proof (induction j)
    case (Suc j)
    then show ?case using turn_run [OF assms(1), of "at_turn run s j" j] by auto
  qed (use assms in simp)
  then show "sched_ok (at_turn run s j)" "held (at_turn run s j) = [LK_ptable]"
    "k < NPROC \<Longrightarrow> j \<le> k \<Longrightarrow> runnable s k \<Longrightarrow> runnable (at_turn run s j) k" by blast+
qed

lemma loop_run:
  assumes "gives_back run" and "sched_ok s" and "held s = [LK_ptable]" and "j + n = NPROC"
  shows "scheduler_loop run [j..<NPROC] (at_turn run s j) =
    Ok (filter (\<lambda>k. runnable (at_turn run s k) k) [j..<NPROC]) (at_turn run s NPROC)"
  using assms(4)
proof (induction n arbitrary: j)
  case (Suc n)
  let ?u = "at_turn run s j"
  have j: "j < NPROC" "[j..<NPROC] = j # [Suc j..<NPROC]" using Suc.prems by (simp_all add: upt_conv_Cons)
  have ih: "scheduler_loop run [Suc j..<NPROC] (at_turn run s (Suc j)) =
      Ok (filter (\<lambda>k. runnable (at_turn run s k) k) [Suc j..<NPROC]) (at_turn run s NPROC)"
    by (rule Suc.IH) (use Suc.prems in simp)
  note ok = at_turn_ok [OF assms(1-3) less_imp_le [OF j(1)]]
  show ?case
  proof (cases "runnable ?u j")
    case True
    note tr = turn_run(1) [OF assms(1) ok(1,2) j(1) True]
    show ?thesis using True ih tr by (simp add: j(2) runnable_def [of ?u])
  next
    case False
    then show ?thesis using ih by (simp add: j(2) runnable_def [of ?u])
  qed
qed simp

text \<open>
  C13. A round of the scheduler (scheduler in proc.c) comes to the processes one after the other in the order of the table, and gives the
  CPU to exactly those that are RUNNABLE when it comes to them, each once, whatever the processes do as long as they come back holding only the lock
  of the table and leave the other runnable processes runnable: \<open>us j\<close> is the state when it comes to entry \<open>j\<close>, \<open>ps\<close> the
  processes that ran. A process runs as the current process, RUNNING, on its own page table and kernel stack; afterwards the
  scheduler is back on the page table of the kernel. The round ends with the lock of the table released, and it starves nobody: every process that
  was RUNNABLE when it began has run.
\<close>

theorem scheduler_runs_all:
  assumes "gives_back run" and "sched_ok s" and "held s = []"
  shows "\<exists>us ps t. scheduler run s = Ok ps t \<and> us 0 = s\<lparr>held := [LK_ptable]\<rparr> \<and> t = (us NPROC)\<lparr>held := []\<rparr> \<and>
    (\<forall>j<NPROC. us (Suc j) =
      (if p_state (ptab (us j) ! j) = RUNNABLE then taken_back (run j (dispatched j (us j))) else us j)) \<and>
    ps = filter (\<lambda>j. p_state (ptab (us j) ! j) = RUNNABLE) [0..<NPROC] \<and> sorted_wrt (<) ps \<and>
    (\<forall>j<NPROC. p_state (ptab s ! j) = RUNNABLE \<longrightarrow> j \<in> set ps) \<and> sched_ok t"
proof -
  define s' where "s' = s\<lparr>held := [LK_ptable]\<rparr>"
  have s': "sched_ok s'" "held s' = [LK_ptable]" using assms(2) by (simp_all add: s'_def sched_ok_def)
  let ?us = "at_turn run s'" and ?ps = "filter (\<lambda>k. runnable (at_turn run s' k) k) [0..<NPROC]"
  have lp: "scheduler_loop run [0..<NPROC] s' = Ok ?ps (?us NPROC)" using loop_run [OF assms(1) s', of 0 NPROC] by simp
  note ok = at_turn_ok [OF assms(1) s']
  have "scheduler run s = Ok ?ps ((?us NPROC)\<lparr>held := []\<rparr>)"
    using assms(3) lp ok(2) [OF le_refl] by (simp add: scheduler_def acquire_def release_def holding_def s'_def)
  moreover have "j \<in> set ?ps" if "j < NPROC" "p_state (ptab s ! j) = RUNNABLE" for j
    using that ok(3) [of j j] by (simp add: runnable_def s'_def)
  moreover have "sorted_wrt (<) ?ps" by (simp add: sorted_wrt_filter)
  moreover have "sched_ok ((?us NPROC)\<lparr>held := []\<rparr>)" using ok(1) [OF le_refl] by (simp add: sched_ok_def)
  ultimately show ?thesis
    by (intro exI [of _ ?us] exI [of _ ?ps] exI [of _ "(?us NPROC)\<lparr>held := []\<rparr>"] conjI)
      (simp_all add: runnable_def s'_def)
qed

section \<open>Example\<close>

text \<open>Processes 5 and 9 are RUNNABLE, and each goes to sleep when it has run.\<close>

definition ready_proc :: proc where
  "ready_proc = zero_proc\<lparr>p_state := RUNNABLE, p_kstack := 0x80007000, p_pgdir := 0x80001000\<rparr>"

definition ready_kernel :: kproc where
  "ready_kernel = arg_kernel\<lparr>ptab := map (\<lambda>i. if i = 5 \<or> i = 9 then ready_proc else zero_proc) [0..<NPROC]\<rparr>"

definition runs_and_sleeps :: "nat \<Rightarrow> kproc \<Rightarrow> kproc" where
  "runs_and_sleeps k = upd_proc k (\<lambda>p. p\<lparr>p_state := SLEEPING\<rparr>)"

lemma runs_and_sleeps_gives_back: "gives_back runs_and_sleeps"
  by (auto simp: gives_back_def sched_ok_def runs_and_sleeps_def upd_proc_def nth_list_update)

theorem scheduler_runs_all_witness:
  "\<exists>ps t. scheduler runs_and_sleeps ready_kernel = Ok ps t \<and> sorted_wrt (<) ps \<and> 5 \<in> set ps \<and> 9 \<in> set ps \<and> held t = []"
proof -
  have p: "ptab ready_kernel ! j = (if j = 5 \<or> j = 9 then ready_proc else zero_proc)" if "j < NPROC" for j
    using that by (simp add: ready_kernel_def)
  have "sched_ok ready_kernel" "held ready_kernel = []"
    by (auto simp: sched_ok_def p) (simp_all add: ready_kernel_def ready_proc_def zero_proc_def)
  from scheduler_runs_all [OF runs_and_sleeps_gives_back this] obtain us ps t
    where r: "scheduler runs_and_sleeps ready_kernel = Ok ps t" "sorted_wrt (<) ps" "t = (us NPROC)\<lparr>held := []\<rparr>"
      "\<forall>j<NPROC. p_state (ptab ready_kernel ! j) = RUNNABLE \<longrightarrow> j \<in> set ps" by blast
  have "5 \<in> set ps" "9 \<in> set ps" using r(4) p [of 5] p [of 9] by (simp_all add: NPROC_def ready_proc_def)
  then show ?thesis using r(1-3) by auto
qed

end
