(* ===== verification/Ide.thy ===== *)
theory Ide
  imports Bio
begin

text \<open>
  The disk driver (\<open>ide.c\<close>): a queue of buffers, of which the first is in progress, and an interrupt handler that finishes
  it and starts the next. Theory \<open>Bio\<close> uses the driver of \<open>memide.c\<close>, which performs a request at once; the theorem of this
  theory shows that the two have the same effect on buffers and disk, in the order of the requests.

  The queue through \<open>qnext\<close> is the list \<open>idequeue\<close>. \<open>regs\<close> are the registers of the controller as the driver has written
  them, with the words sent by \<open>outsl\<close>. What the controller does with them is a parameter \<open>ctl\<close>: from the registers and the
  disk it makes the new disk and the words that \<open>insl\<close> reads. A poll of the status register ends with the first value that
  shows the controller ready, which is an argument of the functions that poll.
\<close>

section \<open>State\<close>

record ata =
  a_count :: u8
  a_lba0 :: u8
  a_lba1 :: u8
  a_lba2 :: u8
  a_sel :: u8
  a_cmd :: u8
  a_data :: bytes

record kide = kbio +
  idequeue :: "nat list"
  havedisk1 :: bool
  regs :: ata

definition SECTOR_SIZE :: nat where "SECTOR_SIZE = 512"
definition IDE_BSY :: u8 where "IDE_BSY = 0x80"
definition IDE_DRDY :: u8 where "IDE_DRDY = 0x40"
definition IDE_DF :: u8 where "IDE_DF = 0x20"
definition IDE_ERR :: u8 where "IDE_ERR = 0x01"
definition IDE_CMD_READ :: u8 where "IDE_CMD_READ = 0x20"
definition IDE_CMD_WRITE :: u8 where "IDE_CMD_WRITE = 0x30"
definition IDE_CMD_RDMUL :: u8 where "IDE_CMD_RDMUL = 0xc4"
definition IDE_CMD_WRMUL :: u8 where "IDE_CMD_WRMUL = 0xc5"

section \<open>The driver\<close>

definition idewait :: "bool \<Rightarrow> u8 \<Rightarrow> int" where
  "idewait checkerr r = (if checkerr \<and> r AND (IDE_DF OR IDE_ERR) \<noteq> 0 then -1 else 0)"

text \<open>\<open>ideinit\<close> with the values of the status register it reads for disk 1; the drive register ends with disk 0.\<close>

definition ideinit :: "u8 list \<Rightarrow> ('m kide_scheme, unit) km" where
  "ideinit rs =
     sq (whenk (list_ex (\<lambda>r. r \<noteq> 0) (take 1000 rs)) (modk (\<lambda>s. s\<lparr>havedisk1 := True\<rparr>)))
        (modk (\<lambda>s. s\<lparr>regs := (regs s)\<lparr>a_sel := 0xe0\<rparr>\<rparr>))"

definition ide_regs :: "buf \<Rightarrow> ata \<Rightarrow> ata" where
  "ide_regs B a =
     (let sector_per_block = BSIZE div SECTOR_SIZE;
          sector = b_blockno B * of_nat sector_per_block;
          read_cmd = (if sector_per_block = 1 then IDE_CMD_READ else IDE_CMD_RDMUL);
          write_cmd = (if sector_per_block = 1 then IDE_CMD_WRITE else IDE_CMD_WRMUL);
          a = a\<lparr>a_count := of_nat sector_per_block,
                a_lba0 := ucast (sector AND 0xff),
                a_lba1 := ucast (drop_bit 8 sector AND 0xff),
                a_lba2 := ucast (drop_bit 16 sector AND 0xff),
                a_sel := ucast (0xe0 OR push_bit 4 (b_dev B AND 1) OR (drop_bit 24 sector AND 0x0f))\<rparr>
      in if b_dirty B then a\<lparr>a_cmd := write_cmd, a_data := b_data B\<rparr> else a\<lparr>a_cmd := read_cmd\<rparr>)"

definition idestart :: "nat \<Rightarrow> ('m kide_scheme, unit) km" where
  "idestart b =
     bnd (getk (\<lambda>s. buf_at s b)) (\<lambda>B.
     if b_blockno B \<ge> of_nat FSSIZE then kpanic ''incorrect blockno''
     else if BSIZE div SECTOR_SIZE > 7 then kpanic ''idestart''
     else modk (\<lambda>s. s\<lparr>regs := ide_regs B (regs s)\<rparr>))"

text \<open>The interrupt handler, with the status it polls and the words that \<open>insl\<close> delivers.\<close>

definition ideintr :: "u8 \<Rightarrow> bytes \<Rightarrow> ('m kide_scheme, unit) km" where
  "ideintr r words =
     sq (acquire LK_ide)
    (bnd (getk idequeue) (\<lambda>q.
     case q of
       [] \<Rightarrow> release LK_ide
     | b # rest \<Rightarrow>
         sq (modk (\<lambda>s. s\<lparr>idequeue := rest\<rparr>))
        (bnd (getk (\<lambda>s. buf_at s b)) (\<lambda>B.
         sq (whenk (\<not> b_dirty B \<and> idewait True r \<ge> 0) (modk (upd_buf b (\<lambda>B. B\<lparr>b_data := words\<rparr>))))
        (sq (modk (upd_buf b (\<lambda>B. B\<lparr>b_valid := True, b_dirty := False\<rparr>)))
        (sq (wakeup (CH_buf b))
        (sq (case rest of [] \<Rightarrow> ret () | n # _ \<Rightarrow> idestart n)
            (release LK_ide))))))))"

definition iderw_start :: "nat \<Rightarrow> ('m kide_scheme, unit) km" where
  "iderw_start b =
     bnd (holdingsleep (SL_buf b)) (\<lambda>h.
     if \<not> h then kpanic ''iderw: buf not locked'' else
     bnd (getk (\<lambda>s. (buf_at s b, havedisk1 s))) (\<lambda>(B, have1).
     if b_valid B \<and> \<not> b_dirty B then kpanic ''iderw: nothing to do''
     else if b_dev B \<noteq> 0 \<and> \<not> have1 then kpanic ''iderw: ide disk 1 not present''
     else
       sq (acquire LK_ide)
      (sq (modk (\<lambda>s. s\<lparr>idequeue := idequeue s @ [b]\<rparr>))
      (bnd (getk (\<lambda>s. hd (idequeue s) = b)) (\<lambda>first.
       whenk first (idestart b))))))"

definition iderw_wait :: "nat \<Rightarrow> ('m kide_scheme, unit) km" where
  "iderw_wait b =
     bnd (getk (\<lambda>s. buf_at s b)) (\<lambda>B.
     if \<not> (b_valid B \<and> \<not> b_dirty B) then sleep (CH_buf b) LK_ide
     else release LK_ide)"

definition iderw_ide :: "nat \<Rightarrow> ('m kide_scheme, unit) km" where
  "iderw_ide b = sq (iderw_start b) (iderw_wait b)"

section \<open>The driver and the controller\<close>

definition lba :: "ata \<Rightarrow> u32" where
  "lba a = ucast (a_lba0 a) OR push_bit 8 (ucast (a_lba1 a)) OR push_bit 16 (ucast (a_lba2 a)) OR
     push_bit 24 (ucast (a_sel a AND 0x0f))"

text \<open>What the driver relies on: a controller with disk 1 selected reads or writes the sector its registers name.\<close>

definition ata_disk :: "(ata \<Rightarrow> (u32 \<Rightarrow> bytes) \<Rightarrow> (u32 \<Rightarrow> bytes) \<times> bytes) \<Rightarrow> bool" where
  "ata_disk ctl \<longleftrightarrow> (\<forall>a d. a_count a = 1 \<longrightarrow> a_sel a AND 0x10 \<noteq> 0 \<longrightarrow>
     (a_cmd a = IDE_CMD_READ \<longrightarrow> ctl a d = (d, d (lba a))) \<and>
     (a_cmd a = IDE_CMD_WRITE \<longrightarrow> fst (ctl a d) = d(lba a := a_data a)))"

text \<open>
  The events: process \<open>p\<close> calls \<open>iderw\<close> and goes to sleep, after which the scheduler has the CPU; or the controller raises its
  interrupt, having finished the request in progress if there is one.
\<close>

datatype ide_event = Request nat nat | Complete u8

definition ide_do ::
  "(ata \<Rightarrow> (u32 \<Rightarrow> bytes) \<Rightarrow> (u32 \<Rightarrow> bytes) \<times> bytes) \<Rightarrow> ide_event \<Rightarrow> ('m kide_scheme, unit) km" where
  "ide_do ctl e s =
     (case e of
        Request p b \<Rightarrow>
          (case iderw_ide b (s\<lparr>cur := Some p\<rparr>) of
             Switch t \<Rightarrow> Ok () (t\<lparr>held := [], cur := None\<rparr>)
           | r \<Rightarrow> r)
      | Complete r \<Rightarrow>
          (let (d, words) = (if idequeue s = [] then (disk s, []) else ctl (regs s) (disk s)) in ideintr r words (s\<lparr>disk := d\<rparr>)))"

definition ide_run ::
  "(ata \<Rightarrow> (u32 \<Rightarrow> bytes) \<Rightarrow> (u32 \<Rightarrow> bytes) \<times> bytes) \<Rightarrow> ide_event list \<Rightarrow> ('m kide_scheme, unit) km" where
  "ide_run ctl evs = for_each evs (ide_do ctl)"

section \<open>The effect of a request\<close>

definition rw_effect :: "nat \<Rightarrow> buf list \<times> (u32 \<Rightarrow> bytes) \<Rightarrow> buf list \<times> (u32 \<Rightarrow> bytes)" where
  "rw_effect b = (\<lambda>(bs, d). let B = bs ! b in
     if b_dirty B then (bs[b := B\<lparr>b_dirty := False, b_valid := True\<rparr>], d(b_blockno B := b_data B))
     else (bs[b := B\<lparr>b_data := d (b_blockno B), b_valid := True\<rparr>], d))"

lemma update_twice [simp]: "xs[i := f (xs[i := v] ! i)] = xs[i := f v]"
  by (cases "i < length xs") (simp_all add: list_update_beyond)

text \<open>It is the effect of \<open>memide.c\<close>.\<close>

lemma memide_effect:
  assumes "iderw b s = Ok () t"
  shows "(bufs t, disk t) = rw_effect b (bufs s, disk s)"
  using assms
  by (auto simp: iderw_def bnd_eq_Ok sq_eq_Ok rw_effect_def upd_buf_def buf_at_def Let_def holdingsleep_def acquire_def release_def curproc_def
      update_twice [where f = "b_valid_update (\<lambda>_. True)"] split: if_splits option.splits)

section \<open>The registers name the block\<close>

lemma two_bytes:
  assumes "unat x < 65536"
  shows "ucast (ucast (x AND 0xff) :: u8) OR push_bit 8 (ucast (ucast (drop_bit 8 x AND 0xff) :: u8)) = (x :: u32)"
proof (rule bit_eqI)
  fix n assume "possible_bit TYPE(u32) n"
  have m: "(0xff :: u32) = mask 8" by (simp add: mask_eq_exp_minus_1)
  have "x = take_bit 16 x" using assms by (simp add: word_unat_eq_iff take_bit_eq_mod unat_mod)
  then have b: "bit x n \<longleftrightarrow> n < 16 \<and> bit x n" by (metis bit_take_bit_iff)
  show "bit (ucast (ucast (x AND 0xff) :: u8) OR push_bit 8 (ucast (ucast (drop_bit 8 x AND 0xff) :: u8)) :: u32) n = bit x n"
    unfolding m using b by (auto simp: bit_simps)
qed

lemma high_sector:
  assumes "unat (x :: u32) < 65536"
  shows "drop_bit 16 x = 0" "drop_bit 24 x = 0"
  using assms by (simp_all add: word_unat_eq_iff drop_bit_eq_div unat_div)

lemma and_power: "(d :: u32) AND 2 ^ n = (if bit d n then 2 ^ n else 0)"
  by (rule bit_eqI) (auto simp: bit_simps)

lemma select_bits: "(ucast (224 OR (d :: u32) AND 16) :: u8) AND 15 = 0"
proof -
  have "d AND 16 = 16 \<or> d AND 16 = 0" using and_power [of d 4] by (simp split: if_splits)
  then show ?thesis by auto
qed

lemma lba_regs:
  assumes "b_blockno B < of_nat FSSIZE"
  shows "lba (ide_regs B a) = b_blockno B"
proof -
  have x: "unat (b_blockno B) < 65536" using assms by (simp add: FSSIZE_def word_less_nat_alt)
  have "BSIZE div SECTOR_SIZE = 1" by (simp add: BSIZE_def SECTOR_SIZE_def)
  then show ?thesis
    using two_bytes [OF x] by (simp add: lba_def ide_regs_def Let_def high_sector [OF x] select_bits)
qed

lemma regs_fields:
  "a_count (ide_regs B a) = 1" "a_cmd (ide_regs B a) = (if b_dirty B then IDE_CMD_WRITE else IDE_CMD_READ)"
  "b_dirty B \<Longrightarrow> a_data (ide_regs B a) = b_data B"
  "b_dev B = 1 \<Longrightarrow> b_blockno B < of_nat FSSIZE \<Longrightarrow> a_sel (ide_regs B a) AND 0x10 \<noteq> 0"
proof -
  have e: "BSIZE div SECTOR_SIZE = 1" by (simp add: BSIZE_def SECTOR_SIZE_def)
  then show "a_count (ide_regs B a) = 1" "a_cmd (ide_regs B a) = (if b_dirty B then IDE_CMD_WRITE else IDE_CMD_READ)"
    "b_dirty B \<Longrightarrow> a_data (ide_regs B a) = b_data B"
    by (simp_all add: ide_regs_def Let_def)
  assume B: "b_dev B = 1" "b_blockno B < of_nat FSSIZE"
  then have x: "unat (b_blockno B) < 65536" by (simp add: FSSIZE_def word_less_nat_alt)
  show "a_sel (ide_regs B a) AND 0x10 \<noteq> 0"
    by (simp add: ide_regs_def Let_def e B(1) high_sector [OF x])
qed

section \<open>The queue\<close>

definition todo :: "buf \<Rightarrow> bool" where
  "todo B \<longleftrightarrow> b_dev B = 1 \<and> b_blockno B < of_nat FSSIZE \<and> (b_valid B \<longrightarrow> b_dirty B)"

definition ide_ok :: "'m kide_scheme \<Rightarrow> bool" where
  "ide_ok s \<longleftrightarrow> held s = [] \<and> havedisk1 s \<and> distinct (idequeue s) \<and>
     (\<forall>b\<in>set (idequeue s). b < length (bufs s) \<and> todo (bufs s ! b)) \<and>
     (case idequeue s of [] \<Rightarrow> True | b # _ \<Rightarrow> (\<exists>a. regs s = ide_regs (bufs s ! b) a))"

text \<open>Buffers and disk when all requests in the queue are done.\<close>

definition flush :: "'m kide_scheme \<Rightarrow> buf list \<times> (u32 \<Rightarrow> bytes)" where
  "flush s = fold rw_effect (idequeue s) (bufs s, disk s)"

fun requests :: "ide_event list \<Rightarrow> (nat \<times> nat) list" where
  "requests [] = []"
| "requests (Request p b # evs) = (p, b) # requests evs"
| "requests (Complete r # evs) = requests evs"

fun statuses :: "ide_event list \<Rightarrow> u8 list" where
  "statuses [] = []"
| "statuses (Request p b # evs) = statuses evs"
| "statuses (Complete r # evs) = r # statuses evs"

definition may_request :: "nat \<Rightarrow> nat \<Rightarrow> 'm kide_scheme \<Rightarrow> bool" where
  "may_request p b s \<longleftrightarrow> p < length (ptab s) \<and> sl_locked (slocks s (SL_buf b)) \<and>
     sl_pid (slocks s (SL_buf b)) = p_pid (ptab s ! p) \<and> b < length (bufs s) \<and> todo (bufs s ! b)"

definition same_owners :: "'m kide_scheme \<Rightarrow> 'm kide_scheme \<Rightarrow> bool" where
  "same_owners s t \<longleftrightarrow> slocks t = slocks s \<and> map p_pid (ptab t) = map p_pid (ptab s) \<and> length (bufs t) = length (bufs s)"

lemma same_owners_pid: "same_owners s t \<Longrightarrow> length (ptab t) = length (ptab s) \<and> (p < length (ptab s) \<longrightarrow> p_pid (ptab t ! p) = p_pid (ptab s ! p))"
  unfolding same_owners_def by (metis length_map nth_map)

lemma rw_effect_other: "c \<noteq> b \<Longrightarrow> fst (rw_effect b x) ! c = fst x ! c" "length (fst (rw_effect b x)) = length (fst x)"
  by (cases x; simp add: rw_effect_def Let_def)+

lemma idestart_run:
  assumes "b_blockno (bufs s ! b) < of_nat FSSIZE"
  shows "idestart b s = Ok () (s\<lparr>regs := ide_regs (bufs s ! b) (regs s)\<rparr>)"
  using assms by (simp add: idestart_def buf_at_def BSIZE_def SECTOR_SIZE_def not_le)

lemma request_run:
  assumes ok: "ide_ok s" and r: "may_request p b s" "b \<notin> set (idequeue s)"
  shows "\<exists>t. ide_do ctl (Request p b) s = Ok () t \<and> ide_ok t \<and> idequeue t = idequeue s @ [b] \<and> bufs t = bufs s \<and>
    disk t = disk s \<and> same_owners s t"
proof -
  let ?s = "s\<lparr>cur := Some p\<rparr>" and ?B = "bufs s ! b"
  have d: "b_blockno ?B < of_nat FSSIZE" "\<not> (b_valid ?B \<and> \<not> b_dirty ?B)" "held s = []" "havedisk1 s"
    using ok r by (auto simp: may_request_def todo_def ide_ok_def)
  have "holdingsleep (SL_buf b) ?s = Ok True ?s"
    using r(1) d(3) by (simp add: holdingsleep_run holds_def proc_at_def may_request_def)
  moreover define u where "u = (let u = ?s\<lparr>held := [LK_ide], idequeue := idequeue s @ [b]\<rparr> in
    if idequeue s = [] then u\<lparr>regs := ide_regs ?B (regs s)\<rparr> else u)"
  ultimately have st: "iderw_start b ?s = Ok () u"
    using d r(2) by (cases "idequeue s") (auto simp: iderw_start_def buf_at_def acquire_def holding_def idestart_run Let_def)
  have u: "held u = [LK_ide]" "cur u = Some p" "bufs u = bufs s" "ptab u = ptab s" "disk u = disk s" "slocks u = slocks s"
      "idequeue u = idequeue s @ [b]" "havedisk1 u" "regs u = (if idequeue s = [] then ide_regs ?B (regs s) else regs s)"
    using d by (simp_all add: u_def Let_def)
  define t where "t = upd_proc p (\<lambda>q. q\<lparr>p_chan := Some (CH_buf b), p_state := SLEEPING\<rparr>) (u\<lparr>held := [LK_ptable]\<rparr>)"
  have "iderw_wait b u = Switch t"
    using u r(1) d(2) by (auto simp: iderw_wait_def buf_at_def sleep_def myproc_def acquire_def release_def holding_def sched_def t_def upd_proc_def may_request_def)
  then have e: "ide_do ctl (Request p b) s = Ok () (t\<lparr>held := [], cur := None\<rparr>)"
    using st by (simp add: ide_do_def iderw_ide_def)
  have "ide_ok (t\<lparr>held := [], cur := None\<rparr>)"
    using ok r u by (cases "idequeue s") (auto simp: ide_ok_def t_def upd_proc_def may_request_def)
  moreover have "(map p_pid (ptab s))[p := p_pid (ptab s ! p)] = map p_pid (ptab s)" by (metis list_update_id map_update)
  then have "same_owners s (t\<lparr>held := [], cur := None\<rparr>)"
    using u by (simp add: same_owners_def t_def upd_proc_def map_update)
  ultimately show ?thesis using e u by (auto simp: t_def upd_proc_def)
qed

lemma complete_run:
  assumes ctl: "ata_disk ctl" and ok: "ide_ok s" and r: "r AND (IDE_DF OR IDE_ERR) = 0"
  shows "\<exists>t. ide_do ctl (Complete r) s = Ok () t \<and> ide_ok t \<and> flush t = flush s \<and> idequeue t = tl (idequeue s) \<and>
    (\<forall>b. b \<notin> set (idequeue s) \<longrightarrow> bufs t ! b = bufs s ! b) \<and> same_owners s t"
proof (cases "idequeue s")
  case Nil
  then have "ide_do ctl (Complete r) s = Ok () s"
    using ok by (simp add: ide_do_def ideintr_def acquire_def release_def holding_def ide_ok_def)
  then show ?thesis using ok Nil by (auto simp: same_owners_def)
next
  case (Cons b rest)
  let ?B = "bufs s ! b"
  obtain a where S: "regs s = ide_regs ?B a" "held s = []" "distinct (b # rest)" "havedisk1 s"
      "\<forall>c\<in>set (b # rest). c < length (bufs s) \<and> todo (bufs s ! c)"
    using ok Cons by (auto simp: ide_ok_def)
  then have B: "b_dev ?B = 1" "b_blockno ?B < of_nat FSSIZE" "b < length (bufs s)" by (auto simp: todo_def)
  obtain d w where dw: "ctl (regs s) (disk s) = (d, w)" by fastforce
  have D: "if b_dirty ?B then d = (disk s)(b_blockno ?B := b_data ?B) else d = disk s \<and> w = disk s (b_blockno ?B)"
    using ctl dw regs_fields [of ?B a] B(1,2) lba_regs [OF B(2), of a] unfolding ata_disk_def S(1)
    by (auto split: if_splits) (metis fst_conv)+
  define B' where "B' = (if b_dirty ?B then ?B else ?B\<lparr>b_data := w\<rparr>)\<lparr>b_valid := True, b_dirty := False\<rparr>"
  define u where "u = wakeup1 (CH_buf b) (s\<lparr>disk := d, held := [LK_ide], idequeue := rest, bufs := (bufs s)[b := B']\<rparr>)"
  define t where "t = (case rest of [] \<Rightarrow> u | n # _ \<Rightarrow> u\<lparr>regs := ide_regs (bufs s ! n) (regs s)\<rparr>)\<lparr>held := []\<rparr>"
  have eff: "((bufs s)[b := B'], d) = rw_effect b (bufs s, disk s)"
    using D by (cases "bufs s ! b") (auto simp: rw_effect_def Let_def B'_def)
  have nx: "idestart n u = Ok () (u\<lparr>regs := ide_regs (bufs s ! n) (regs s)\<rparr>)" if "rest = n # ns" for n ns
  proof -
    have "bufs u ! n = bufs s ! n" "b_blockno (bufs s ! n) < of_nat FSSIZE"
      using that S(3,5) by (auto simp: u_def todo_def wakeup1_def)
    then show ?thesis using idestart_run [of u n] by (simp add: u_def wakeup1_def)
  qed
  have "(bufs s)[b := B'] = (let bs = (if b_dirty ?B then bufs s else (bufs s)[b := ?B\<lparr>b_data := w\<rparr>])
      in bs[b := (bs ! b)\<lparr>b_valid := True, b_dirty := False\<rparr>])"
    using B(3) by (simp add: B'_def Let_def)
  then have e: "ide_do ctl (Complete r) s = Ok () t"
    using S(2) Cons dw r nx
    by (cases rest; cases "b_dirty ?B")
      (simp_all add: ide_do_def ideintr_def acquire_def release_def holding_def buf_at_def idewait_def upd_buf_def u_def t_def Let_def wakeup1_def)
  have t: "bufs t = (bufs s)[b := B']" "disk t = d" "idequeue t = rest" "slocks t = slocks s" "held t = []" "havedisk1 t"
      "ptab t = map (wake_proc (CH_buf b)) (ptab s)" "\<forall>n ns. rest = n # ns \<longrightarrow> regs t = ide_regs (bufs s ! n) (regs s)"
    using S(4) by (auto simp: t_def u_def wakeup1_def split: list.split)
  have keep: "bufs t ! c = bufs s ! c" if "c \<in> set rest" for c using that S(3) t(1) by (cases "c = b") auto
  have "ide_ok t" using t(3,5,6,8) S(3,5) keep t(1) by (auto simp: ide_ok_def split: list.split)
  moreover have "flush t = flush s" by (simp add: flush_def t Cons eff)
  moreover have "same_owners s t" by (simp add: same_owners_def t comp_def)
  ultimately show ?thesis using e t(1,3) Cons by auto
qed

lemma ide_run_serves:
  assumes ctl: "ata_disk ctl"
  shows "ide_ok s \<Longrightarrow> \<forall>(p, b)\<in>set (requests evs). may_request p b s \<Longrightarrow>
    distinct (map snd (requests evs) @ idequeue s) \<Longrightarrow> \<forall>r\<in>set (statuses evs). r AND (IDE_DF OR IDE_ERR) = 0 \<Longrightarrow>
    \<exists>t. ide_run ctl evs s = Ok () t \<and> ide_ok t \<and> flush t = fold rw_effect (map snd (requests evs)) (flush s) \<and>
      length (idequeue t) \<le> length (idequeue s) + length (requests evs) \<and>
      (requests evs = [] \<longrightarrow> length (idequeue t) = length (idequeue s) - length (statuses evs))"
proof (induction evs arbitrary: s rule: requests.induct)
  case 1
  then show ?case by (simp add: ide_run_def)
next
  case (2 p b evs)
  obtain t where t: "ide_do ctl (Request p b) s = Ok () t" "ide_ok t" "idequeue t = idequeue s @ [b]" "bufs t = bufs s"
      "disk t = disk s" "same_owners s t"
    using request_run [OF 2(2), of p b ctl] 2(3,4) by auto
  have m: "may_request q c t" if "may_request q c s" for q c
    using that same_owners_pid [OF t(6), of q] t(4,6) by (simp add: may_request_def same_owners_def)
  have r: "\<forall>(q, c)\<in>set (requests evs). may_request q c t" using 2(3) m by auto
  have f: "flush t = rw_effect b (flush s)" by (simp add: flush_def t(3-5))
  obtain u where u: "ide_run ctl evs t = Ok () u" "ide_ok u" "flush u = fold rw_effect (map snd (requests evs)) (flush t)"
      "length (idequeue u) \<le> length (idequeue t) + length (requests evs)"
    using "2.IH" [OF t(2)] r 2(3-5) t(3) by auto
  have "ide_run ctl (Request p b # evs) s = Ok () u" using t(1) u(1) by (simp add: ide_run_def)
  then show ?case using u(2-4) t(3) f by auto
next
  case (3 r evs)
  obtain t where t: "ide_do ctl (Complete r) s = Ok () t" "ide_ok t" "flush t = flush s" "idequeue t = tl (idequeue s)"
      "\<forall>b. b \<notin> set (idequeue s) \<longrightarrow> bufs t ! b = bufs s ! b" "same_owners s t"
    using complete_run [OF ctl 3(2), of r] 3(5) by auto
  have m: "may_request q c t" if "may_request q c s" "c \<notin> set (idequeue s)" for q c
    using that same_owners_pid [OF t(6), of q] t(5,6) by (simp add: may_request_def same_owners_def)
  have "\<forall>(q, c)\<in>set (requests evs). may_request q c t" using 3(3,4) m by fastforce
  moreover have "distinct (map snd (requests evs) @ idequeue t)"
    using 3(4) t(4) by (cases "idequeue s") auto
  ultimately obtain u where u: "ide_run ctl evs t = Ok () u" "ide_ok u" "flush u = fold rw_effect (map snd (requests evs)) (flush t)"
      "length (idequeue u) \<le> length (idequeue t) + length (requests evs)"
      "requests evs = [] \<longrightarrow> length (idequeue u) = length (idequeue t) - length (statuses evs)"
    using "3.IH" [OF t(2)] 3(5) by auto
  have "ide_run ctl (Complete r # evs) s = Ok () u" using t(1) u(1) by (simp add: ide_run_def)
  then show ?case using u(2-5) t(3,4) by auto
qed

lemma requests_complete [simp]:
  "requests (map Complete rs) = []" "statuses (map Complete rs) = rs"
  by (induction rs) simp_all

text \<open>
  C12. The interrupt driven driver implements the memory disk (ideintr, idestart and iderw in ide.c, iderw in memide.c): when
  processes request buffers that they hold while interrupts of the controller complete requests in between, nothing panics, and after as many
  further interrupts as there can be requests left the queue is empty and the buffers and the disk are as if each request had
  been performed at once, in the order of the calls, where performing a request at once (rw_effect) is what a call of the iderw of
  memide.c does. It relies on a controller that reads and writes the sector its registers name
  and reports no error.
\<close>

theorem ide_implements_memide:
  assumes "ata_disk ctl" and "ide_ok s" and "idequeue s = []"
    and "\<forall>(p, b)\<in>set (requests evs). may_request p b s" and "distinct (map snd (requests evs))"
    and "\<forall>r\<in>set (statuses evs @ rs). r AND (IDE_DF OR IDE_ERR) = 0" and "length (requests evs) \<le> length rs"
  shows "(\<exists>t. ide_run ctl (evs @ map Complete rs) s = Ok () t \<and> idequeue t = [] \<and> ide_ok t \<and>
      (bufs t, disk t) = fold rw_effect (map snd (requests evs)) (bufs s, disk s)) \<and>
    (\<forall>b (v :: kbio) w. iderw b v = Ok () w \<longrightarrow> (bufs w, disk w) = rw_effect b (bufs v, disk v))"
proof -
  obtain u where u: "ide_run ctl evs s = Ok () u" "ide_ok u" "flush u = fold rw_effect (map snd (requests evs)) (flush s)"
      "length (idequeue u) \<le> length (idequeue s) + length (requests evs)"
    using ide_run_serves [OF assms(1,2), of evs] assms(3-6) by auto
  have "distinct (idequeue u)" using u(2) by (simp add: ide_ok_def)
  then obtain t where t: "ide_run ctl (map Complete rs) u = Ok () t" "ide_ok t" "flush t = flush u"
      "length (idequeue t) = length (idequeue u) - length rs"
    using ide_run_serves [OF assms(1) u(2), of "map Complete rs"] assms(6) by auto
  have "idequeue t = []" using t(4) u(4) assms(3,7) by simp
  moreover from this have "(bufs t, disk t) = fold rw_effect (map snd (requests evs)) (bufs s, disk s)"
    using t(3) u(3) assms(3) by (simp add: flush_def)
  moreover have "ide_run ctl (evs @ map Complete rs) s = Ok () t" using u(1) t(1) by (simp add: ide_run_def for_each_append)
  ultimately show ?thesis using t(2) memide_effect by blast
qed

section \<open>Example\<close>

text \<open>
  Process 0 writes block 5 through buffer 0, process 1 asks for the same block through buffer 1 before the disk has finished. The controller
  of the example does what the registers say.
\<close>

definition demo_ctl :: "ata \<Rightarrow> (u32 \<Rightarrow> bytes) \<Rightarrow> (u32 \<Rightarrow> bytes) \<times> bytes" where
  "demo_ctl a d = (if a_cmd a = IDE_CMD_WRITE then (d(lba a := a_data a), []) else (d, d (lba a)))"

lemma demo_ctl_disk: "ata_disk demo_ctl"
  by (auto simp: ata_disk_def demo_ctl_def IDE_CMD_READ_def IDE_CMD_WRITE_def)

definition ide_demo :: kide where
  "ide_demo =
     (disk_state (\<lambda>_. replicate BSIZE 0) 1000 \<lparr>idequeue = [], havedisk1 = True,
        regs = \<lparr>a_count = 0, a_lba0 = 0, a_lba1 = 0, a_lba2 = 0, a_sel = 0, a_cmd = 0, a_data = []\<rparr>\<rparr>)
     \<lparr>ptab := [zero_proc\<lparr>p_state := RUNNING, p_pid := 1\<rparr>, zero_proc\<lparr>p_state := RUNNING, p_pid := 2\<rparr>],
      slocks := \<lambda>l. \<lparr>sl_locked = True, sl_pid = (if l = SL_buf 0 then 1 else 2)\<rparr>,
      bufs := [zero_buf\<lparr>b_dev := 1, b_blockno := 5, b_dirty := True, b_data := replicate BSIZE 7\<rparr>,
               zero_buf\<lparr>b_dev := 1, b_blockno := 5\<rparr>]\<rparr>"

lemma kide_fields:
  fixes s :: kide
  assumes "kbio.more s = \<lparr>idequeue = q, havedisk1 = h, regs = a\<rparr>"
  shows "idequeue s = q" "havedisk1 s = h"
  using assms by (cases s, simp)+

lemma ide_demo_fields:
  "idequeue ide_demo = []" "havedisk1 ide_demo" "held ide_demo = []" "disk ide_demo = (\<lambda>_. replicate BSIZE 0)"
  "length (ptab ide_demo) = 2" "length (bufs ide_demo) = 2"
  using kide_fields [of ide_demo] by (simp_all add: ide_demo_def)

theorem ide_implements_memide_witness:
  "\<exists>t. ide_run demo_ctl ([Request 0 0, Request 1 1] @ map Complete [0x40, 0x40]) ide_demo = Ok () t \<and>
     b_data (bufs t ! 1) = replicate BSIZE 7 \<and> disk t 5 = replicate BSIZE 7"
proof -
  have "ide_ok ide_demo" by (simp add: ide_ok_def ide_demo_fields)
  moreover have "may_request 0 0 ide_demo" "may_request 1 1 ide_demo"
    by (simp_all add: may_request_def ide_demo_fields) (simp_all add: ide_demo_def todo_def zero_buf_def FSSIZE_def)
  ultimately obtain t where
      "ide_run demo_ctl ([Request 0 0, Request 1 1] @ map Complete [0x40, 0x40]) ide_demo = Ok () t"
      "(bufs t, disk t) = fold rw_effect [0, 1] (bufs ide_demo, disk ide_demo)"
    using ide_implements_memide [OF demo_ctl_disk, of ide_demo "[Request 0 0, Request 1 1]" "[0x40, 0x40]"]
    by (auto simp: ide_demo_fields IDE_DF_def IDE_ERR_def)
  then show ?thesis by (auto simp: rw_effect_def ide_demo_def zero_buf_def Let_def)
qed

end
