(* ===== verification/Shape.thy ===== *)
theory Shape
  imports Trap Frw
begin

text \<open>
  The sizes of the kernel's own tables. In C they are arrays and the pointers into them are never checked; in the model they are lists and
  indices. \<open>shape\<close> says that every table and every block has the size of its array, that every index stored anywhere is below the size of the table it
  points into, and that the input ring and the cursor of the screen are inside their arrays. Every function of the kernel keeps it, whether it returns or
  gives up the CPU: one rule per function, in the order of the theories, used by the rules of the functions that call it.

  A function whose result is stored or used as an index has a rule that also bounds the result, and a function that stores an
  index it is given has a rule with a bound on it as premise.
\<close>

section \<open>The invariant\<close>

text \<open>An index that is a null pointer or below the size of its table.\<close>

abbreviation below :: "nat \<Rightarrow> nat option \<Rightarrow> bool" where
  "below n \<equiv> pred_option (\<lambda>i. i < n)"

definition wf_proc :: "proc \<Rightarrow> bool" where
  "wf_proc p \<longleftrightarrow> length (p_ofile p) = NOFILE \<and> list_all (below NFILE) (p_ofile p) \<and>
     below NINODE (p_cwd p) \<and> below NPROC (p_parent p)"

definition wf_inode :: "inode \<Rightarrow> bool" where
  "wf_inode I \<longleftrightarrow> length (i_addrs I) = NDIRECT + 1"

definition wf_file :: "ofile \<Rightarrow> bool" where
  "wf_file f \<longleftrightarrow> f_ip f < NINODE"

definition wf_buf :: "buf \<Rightarrow> bool" where
  "wf_buf B \<longleftrightarrow> length (b_data B) = BSIZE"

text \<open>The indices of the input ring: what is read is at most what is committed, and that at most what is typed.\<close>

definition ring_ok :: "u32 \<Rightarrow> u32 \<Rightarrow> u32 \<Rightarrow> bool" where
  "ring_ok r w e \<longleftrightarrow> unat (w - r) \<le> unat (e - r) \<and> unat (e - r) \<le> INPUT_BUF"

definition shape :: "'m kproc_scheme \<Rightarrow> bool" where
  "shape s \<longleftrightarrow>
     length (ptab s) = NPROC \<and> (\<forall>p\<in>set (ptab s). wf_proc p) \<and>
     below NPROC (cur s) \<and> below NPROC (initproc s) \<and>
     length (bufs s) = NBUF \<and> (\<forall>B\<in>set (bufs s). wf_buf B) \<and> (\<forall>bn. length (disk s bn) = BSIZE) \<and> set (lru s) \<subseteq> {..<NBUF} \<and>
     length (l_block s) = LOGSIZE \<and> l_n s \<le> LOGSIZE \<and>
     length (icache s) = NINODE \<and> (\<forall>I\<in>set (icache s). wf_inode I) \<and>
     length (utable s) = NUSER \<and> below NINODE (utable_ip s) \<and>
     length (ftable s) = NFILE \<and> (\<forall>f\<in>set (ftable s). wf_file f) \<and>
     (\<forall>a. length (pi_data (pipes s a)) = PIPESIZE) \<and>
     length (crt s) = 25 * 80 \<and> crt_pos s \<le> 24 * 80 \<and>
     length (in_buf s) = INPUT_BUF \<and> ring_ok (in_r s) (in_w s) (in_e s)"

section \<open>Updates\<close>

named_theorems shape_rules \<open>updates that keep the sizes\<close>

text \<open>What the invariant says of the entries of the tables.\<close>

lemma shapeD:
  assumes "shape s"
  shows "i < NPROC \<Longrightarrow> wf_proc (ptab s ! i)" "below NPROC (cur s)" "below NPROC (initproc s)"
    "b \<in> set (lru s) \<Longrightarrow> b < NBUF" "below NINODE (utable_ip s)"
    "below NPROC (find_idx P (ptab s))" "below NINODE (find_idx R (icache s))" "below NFILE (find_idx F (ftable s))"
    "b < NBUF \<Longrightarrow> wf_buf (buf_at s b)" "length (disk s bn) = BSIZE" "length (l_block s) = LOGSIZE" "l_n s \<le> LOGSIZE" "length (utable s) = NUSER"
    "ip < NINODE \<Longrightarrow> wf_inode (ino s ip)" "f < NFILE \<Longrightarrow> f_ip (ftable s ! f) < NINODE"
  using assms by (auto simp: shape_def pred_option_def buf_at_def ino_def wf_file_def dest: find_idx_SomeD(1))

lemma wf_procD:
  assumes "wf_proc p"
  shows "fd < NOFILE \<Longrightarrow> below NFILE (p_ofile p ! fd)" "below NINODE (p_cwd p)" "below NPROC (p_parent p)"
  using assms by (simp_all add: wf_proc_def list_all_length)

lemma wf_proc_fields [simp]:
  "wf_proc (p_sz_update f1 p) = wf_proc p" "wf_proc (p_pgdir_update f2 p) = wf_proc p" "wf_proc (p_kstack_update f3 p) = wf_proc p"
  "wf_proc (p_state_update f4 p) = wf_proc p" "wf_proc (p_pid_update f5 p) = wf_proc p" "wf_proc (p_tf_update f6 p) = wf_proc p"
  "wf_proc (p_context_update f7 p) = wf_proc p" "wf_proc (p_chan_update f8 p) = wf_proc p" "wf_proc (p_killed_update f9 p) = wf_proc p"
  "wf_proc (p_name_update f10 p) = wf_proc p" "wf_proc (p_uid_update f11 p) = wf_proc p"
  by (simp_all add: wf_proc_def)

lemma list_all_update: "list_all P xs \<Longrightarrow> P x \<Longrightarrow> list_all P (xs[i := x])"
  by (auto simp: list_all_iff dest!: set_update_subset_insert [THEN subsetD])

lemma wf_proc_upd [simp]:
  assumes "wf_proc p"
  shows "below NINODE x \<Longrightarrow> wf_proc (p\<lparr>p_cwd := x\<rparr>)" "below NPROC y \<Longrightarrow> wf_proc (p\<lparr>p_parent := y\<rparr>)"
    "below NFILE z \<Longrightarrow> wf_proc (p\<lparr>p_ofile := (p_ofile p)[fd := z]\<rparr>)"
  using assms by (simp_all add: wf_proc_def list_all_update)

lemma wf_wake_proc [simp]: "wf_proc (wake_proc ch p) = wf_proc p"
  by (simp add: wake_proc_def)

lemma ball_update: "\<forall>x\<in>set xs. P x \<Longrightarrow> (\<And>x. P x \<Longrightarrow> P (f x)) \<Longrightarrow> \<forall>x\<in>set (xs[i := f (xs ! i)]). P x"
  by (cases "i < length xs") (auto simp: list_update_beyond dest!: set_update_subset_insert [THEN subsetD])

lemma shape_upd_proc [shape_rules]: "shape s \<Longrightarrow> (\<And>p. wf_proc p \<Longrightarrow> wf_proc (f p)) \<Longrightarrow> shape (upd_proc i f s)"
  using ball_update [of "ptab s" wf_proc f i] by (simp add: shape_def upd_proc_def)

lemma shape_upd_ino [shape_rules]: "shape s \<Longrightarrow> (\<And>I. wf_inode I \<Longrightarrow> wf_inode (f I)) \<Longrightarrow> shape (upd_ino i f s)"
  using ball_update [of "icache s" wf_inode f i] by (simp add: shape_def upd_ino_def)

lemma shape_upd_file [shape_rules]: "shape s \<Longrightarrow> (\<And>x. wf_file x \<Longrightarrow> wf_file (h x)) \<Longrightarrow> shape (upd_file i h s)"
  using ball_update [of "ftable s" wf_file h i] by (simp add: shape_def upd_file_def)

lemma shape_upd_pipe [shape_rules]: "shape s \<Longrightarrow> (\<And>x. length (pi_data (h x)) = length (pi_data x)) \<Longrightarrow> shape (upd_pipe q h s)"
  by (simp add: shape_def upd_pipe_def)

lemma shape_upd_buf [shape_rules]: "shape s \<Longrightarrow> (\<And>B. wf_buf B \<Longrightarrow> wf_buf (g B)) \<Longrightarrow> shape (upd_buf i g s)"
  using ball_update [of "bufs s" wf_buf g i] by (simp add: shape_def upd_buf_def)

lemma shape_disk [shape_rules]: "shape s \<Longrightarrow> wf_buf B \<Longrightarrow> shape (s\<lparr>disk := (disk s)(bn := b_data B)\<rparr>)"
  by (simp add: shape_def wf_buf_def)

lemma shape_wakeup1 [shape_rules]: "shape s \<Longrightarrow> shape (wakeup1 ch s)"
  by (auto simp: shape_def wakeup1_def)

lemma shape_initsleeplock [shape_rules]: "shape s \<Longrightarrow> shape (initsleeplock l s)"
  by (simp add: shape_def initsleeplock_def)

lemma shape_fields [simp]:
  "shape (held_update f1 s) = shape s" "shape (nextpid_update f3 s) = shape s"
  "shape (slocks_update f5 s) = shape s" "shape (mem_update f6 s) = shape s"
  "shape (kend_update f7 s) = shape s" "shape (use_lock_update f8 s) = shape s" "shape (freelist_update f9 s) = shape s"
  "shape (disksize_update f12 s) = shape s"
  "shape (dwrites_update f13 s) = shape s" "shape (l_start_update f14 s) = shape s" "shape (l_size_update f15 s) = shape s"
  "shape (l_outstanding_update f16 s) = shape s" "shape (l_committing_update f17 s) = shape s" "shape (l_dev_update f18 s) = shape s"
  "shape (fs_sb_update f20 s) = shape s" "shape (cons_locking_update f21 s) = shape s" "shape (uart_update f27 s) = shape s"
  "shape (devsw_console_update f28 s) = shape s" "shape (next_uid_update f29 s) = shape s"
  "shape (utable_initialized_update f30 s) = shape s" "shape (kdata_update f32 s) = shape s"
  "shape (kpgdir_update f33 s) = shape s" "shape (cr3_update f34 s) = shape s" "shape (ts_esp0_update f35 s) = shape s"
  "shape (sym_forkret_update f37 s) = shape s" "shape (sym_trapret_update f38 s) = shape s"
  "shape (sym_initcode_update f39 s) = shape s" "shape (forkret_first_update f40 s) = shape s" "shape (ticks_update f41 s) = shape s"
  "shape (this_cpu_update f42 s) = shape s" "shape (cr2_update f43 s) = shape s"
  by (simp_all add: shape_def)

lemma shape_kbd [simp]: "shape (kbd_shift_update f s) = shape s"
  by (simp add: shape_def)

lemma shape_indices [shape_rules]:
  assumes "shape s"
  shows "below NPROC x \<Longrightarrow> shape (s\<lparr>cur := x\<rparr>)" "below NPROC x \<Longrightarrow> shape (s\<lparr>initproc := x\<rparr>)"
    "below NINODE x \<Longrightarrow> shape (s\<lparr>utable_ip := x\<rparr>)"
    "set bs \<subseteq> {..<NBUF} \<Longrightarrow> shape (s\<lparr>lru := bs\<rparr>)"
    "n \<le> LOGSIZE \<Longrightarrow> shape (s\<lparr>l_n := n\<rparr>)" "length ns = LOGSIZE \<Longrightarrow> shape (s\<lparr>l_block := ns\<rparr>)"
    "length us = NUSER \<Longrightarrow> shape (s\<lparr>utable := us\<rparr>)"
  using assms by (simp_all add: shape_def)

lemma shape_to_front [shape_rules]: "shape s \<Longrightarrow> b < NBUF \<Longrightarrow> shape (s\<lparr>lru := to_front b (lru s)\<rparr>)"
  using set_remove1_subset [of b "lru s"] by (auto simp: shape_def to_front_def)

lemma shape_lru_Cons [shape_rules]: "shape s \<Longrightarrow> b < NBUF \<Longrightarrow> shape (s\<lparr>lru := b # lru s\<rparr>)"
  by (simp add: shape_def)

lemma shape_found:
  assumes "shape s"
  shows "find_idx P (ptab s) = Some i \<Longrightarrow> i < NPROC" "find_idx R (icache s) = Some ip \<Longrightarrow> ip < NINODE"
    "find_idx F (ftable s) = Some f \<Longrightarrow> f < NFILE" "cur s = Some i \<Longrightarrow> i < NPROC" "utable_ip s = Some ip \<Longrightarrow> ip < NINODE"
  using assms by (auto simp: shape_def dest: find_idx_SomeD(1))

lemma wf_proc_found:
  assumes "wf_proc p"
  shows "p_cwd p = Some ip \<Longrightarrow> ip < NINODE" "p_parent p = Some i \<Longrightarrow> i < NPROC" "fd < NOFILE \<Longrightarrow> p_ofile p ! fd = Some f \<Longrightarrow> f < NFILE"
  using wf_procD [OF assms] by (metis option.pred_inject(2))+

lemma shape_proc_found:
  assumes "shape s" and "i < NPROC"
  shows "p_cwd (ptab s ! i) = Some ip \<Longrightarrow> ip < NINODE" "p_parent (ptab s ! i) = Some j \<Longrightarrow> j < NPROC"
    "fd < NOFILE \<Longrightarrow> p_ofile (ptab s ! i) ! fd = Some f \<Longrightarrow> f < NFILE"
  using wf_proc_found [OF shapeD(1) [OF assms]] by blast+

lemma wf_kill_proc [simp]: "wf_proc (kill_proc p) = wf_proc p"
  by (simp add: kill_proc_def)

lemma shape_wakeup1_proc [shape_rules]: "shape s \<Longrightarrow> shape (wakeup1_proc p s)"
  by (simp add: wakeup1_proc_def shape_wakeup1 split: option.split)

lemma shape_reparent [shape_rules]: "shape s \<Longrightarrow> shape (reparent c i s)"
  by (simp add: reparent_def Let_def shape_rules shapeD(3))

lemma wf_inode_fields [simp]:
  "wf_inode (i_dev_update f1 I) = wf_inode I" "wf_inode (i_inum_update f2 I) = wf_inode I" "wf_inode (i_ref_update f3 I) = wf_inode I"
  "wf_inode (i_valid_update f4 I) = wf_inode I" "wf_inode (i_perm_update f5 I) = wf_inode I" "wf_inode (i_type_update f6 I) = wf_inode I"
  "wf_inode (i_major_update f7 I) = wf_inode I" "wf_inode (i_minor_update f8 I) = wf_inode I" "wf_inode (i_nlink_update f9 I) = wf_inode I"
  "wf_inode (i_size_update f10 I) = wf_inode I" "wf_inode (i_owner_update f11 I) = wf_inode I"
  "wf_inode (I\<lparr>i_addrs := (i_addrs I)[k := a]\<rparr>) = wf_inode I"
  "wf_inode (load_dinode (dinode_in d n) I)"
  by (simp_all add: wf_inode_def load_dinode_def dinode_in_def dec_dinode_def)

lemma wf_file_fields [simp]:
  "wf_file (f_ref_update f1 x) = wf_file x" "wf_file (f_readable_update f2 x) = wf_file x" "wf_file (f_writable_update f3 x) = wf_file x"
  "wf_file (f_pipe_update f4 x) = wf_file x" "wf_file (f_off_update f5 x) = wf_file x" "wf_file (f_type_update f6 x) = wf_file x"
  "wf_file (x\<lparr>f_ip := ip\<rparr>) = (ip < NINODE)"
  by (simp_all add: wf_file_def)

lemma wf_buf_fields [simp]:
  "wf_buf (b_valid_update f1 B) = wf_buf B" "wf_buf (b_dirty_update f2 B) = wf_buf B" "wf_buf (b_dev_update f3 B) = wf_buf B"
  "wf_buf (b_blockno_update f4 B) = wf_buf B" "wf_buf (b_refcnt_update f5 B) = wf_buf B"
  "wf_buf (B\<lparr>b_data := d\<rparr>) = (length d = BSIZE)"
  by (simp_all add: wf_buf_def)

lemma block_sizes [simp]:
  assumes "length d = BSIZE"
  shows "wf_inode I \<Longrightarrow> length (put_dinode n (dinode_of I) d) = BSIZE"
    "length (put_dinode n (zero_dinode\<lparr>d_type := ty\<rparr>) d) = BSIZE"
    "k < NINDIRECT \<Longrightarrow> length (put_arr (4 * k) (enc32 a) d) = BSIZE"
    "m \<le> LOGSIZE \<Longrightarrow> length (put_arr 0 (head_bytes m bs) d) = BSIZE"
  using assms length_put_dinode [OF _ assms]
  by (simp_all add: wf_inode_def dinode_of_def wf_dinode_def zero_dinode_def head_bytes_def size_defs)

lemma chunks_in_block: "c \<in> set (chunks off n) \<Longrightarrow> fst c mod BSIZE + snd c \<le> BSIZE"
proof (induction off n rule: chunks.induct)
  case (1 off n)
  then show ?case by (subst (asm) (2) chunks.simps) (auto simp: Let_def BSIZE_def split: if_splits)
qed

lemma table_lengths [simp]: "length (lh_block (dec_logheader d)) = LOGSIZE" "length (dec_utable bs) = NUSER" "Suc (NUSER - Suc 0) = NUSER"
  by (simp_all add: dec_logheader_def dec_utable_def NUSER_def)

lemma gives_case_filetype [gives_rules]:
  "(x = FD_NONE \<Longrightarrow> gives I Q m) \<Longrightarrow> (x = FD_PIPE \<Longrightarrow> gives I Q n) \<Longrightarrow> (x = FD_INODE \<Longrightarrow> gives I Q k) \<Longrightarrow>
   gives I Q (case x of FD_NONE \<Rightarrow> m | FD_PIPE \<Rightarrow> n | FD_INODE \<Rightarrow> k)"
  by (cases x) simp_all

lemma pipe_sizes [simp]: "length (pi_data (pipe_push b x)) = length (pi_data x)" "length (pi_data (pipe_pop x)) = length (pi_data x)"
  by (simp_all add: pipe_push_def pipe_pop_def)

lemma post_acquire: "post n R W (\<lambda>_. True) (s\<lparr>held := l # held s\<rparr>) \<Longrightarrow> post (sq (acquire l) n) R W (\<lambda>_. True) s"
  by (simp add: post_def sq_def acquire_def)

lemmas shape_simps = shape_rules shapeD(2,3,5-15)
lemmas shape_dest = shape_found shape_proc_found wf_proc_found

section \<open>The functions of theory Kstate\<close>

lemma acquire_shape [gives_rules]: "gives shape (\<lambda>_. True) (acquire lk)"
  by (auto simp: gives_def post_def acquire_def shape_rules split: option.split)

lemma release_shape [gives_rules]: "gives shape (\<lambda>_. True) (release lk)"
  by (auto simp: gives_def post_def release_def shape_rules split: option.split)

lemma myproc_shape: "gives shape (below NPROC) myproc"
  unfolding myproc_def by (intro bind_rules gives_rules; auto simp: shape_simps dest: shape_dest)

lemmas myproc_bind [bind_rules] = myproc_shape [THEN gives_bind]
lemmas myproc_any [gives_rules] = myproc_shape myproc_shape [THEN gives_any]

lemma curproc_shape: "gives shape wf_proc curproc"
  by (auto simp: gives_def post_def curproc_def split: option.split) (metis shapeD(1,2) option.pred_inject(2))

lemmas curproc_bind [bind_rules] = curproc_shape [THEN gives_bind]

lemma upd_curproc_shape [gives_rules]:
  "(\<And>p. wf_proc p \<Longrightarrow> wf_proc (f p)) \<Longrightarrow> gives shape (\<lambda>_. True) (upd_curproc f)"
  by (auto simp: gives_def post_def upd_curproc_def intro!: shape_rules split: option.split)

lemma sched_shape [gives_rules]: "gives shape (\<lambda>_. True) sched"
  by (auto simp: gives_def post_def sched_def shape_rules split: option.split)

lemma yield_shape [gives_rules]: "gives shape (\<lambda>_. True) yield"
  unfolding yield_def by (intro bind_rules gives_rules; auto simp: shape_simps dest: shape_dest)

lemma sleep_shape [gives_rules]: "gives shape (\<lambda>_. True) (sleep ch lk)"
  unfolding sleep_def by (intro bind_rules gives_rules; auto simp: shape_simps dest: shape_dest)

lemma sleep_resume_shape [gives_rules]: "gives shape (\<lambda>_. True) (sleep_resume lk)"
  unfolding sleep_resume_def by (intro bind_rules gives_rules; auto simp: shape_simps dest: shape_dest)

lemma wakeup_shape [gives_rules]: "gives shape (\<lambda>_. True) (wakeup ch)"
  unfolding wakeup_def by (intro bind_rules gives_rules; auto simp: shape_simps dest: shape_dest)

lemma acquiresleep_shape [gives_rules]: "gives shape (\<lambda>_. True) (acquiresleep l)"
  unfolding acquiresleep_def by (intro bind_rules gives_rules; auto simp: shape_simps dest: shape_dest)

lemma releasesleep_shape [gives_rules]: "gives shape (\<lambda>_. True) (releasesleep l)"
  unfolding releasesleep_def by (intro bind_rules gives_rules; auto simp: shape_simps dest: shape_dest)

lemma holdingsleep_shape [gives_rules]: "gives shape (\<lambda>_. True) (holdingsleep l)"
  unfolding holdingsleep_def by (intro bind_rules gives_rules; auto simp: shape_simps dest: shape_dest)

section \<open>The functions of theory Kalloc\<close>

lemma kfree_shape [gives_rules]: "gives shape (\<lambda>_. True) (kfree v)"
  unfolding kfree_def by (intro bind_rules gives_rules; auto simp: shape_simps dest: shape_dest)

lemma kalloc_shape [gives_rules]: "gives shape (\<lambda>_. True) kalloc"
  unfolding kalloc_def by (intro bind_rules gives_rules; auto simp: shape_simps dest: shape_dest)

lemma freerange_loop_shape [gives_rules]: "gives shape (\<lambda>_. True) (freerange_loop x1 x2)"
  by (induction x1 arbitrary: x2; simp only: freerange_loop.simps; intro bind_rules gives_rules; auto simp: shape_simps dest: shape_dest)

lemma freerange_shape [gives_rules]: "gives shape (\<lambda>_. True) (freerange vstart vend)"
  unfolding freerange_def by (intro bind_rules gives_rules; auto simp: shape_simps dest: shape_dest)

lemma kinit1_shape [gives_rules]: "gives shape (\<lambda>_. True) (kinit1 vstart vend)"
  unfolding kinit1_def by (intro bind_rules gives_rules; auto simp: shape_simps dest: shape_dest)

lemma kinit2_shape [gives_rules]: "gives shape (\<lambda>_. True) (kinit2 vstart vend)"
  unfolding kinit2_def by (intro bind_rules gives_rules; auto simp: shape_simps dest: shape_dest)

section \<open>The functions of theory Bio\<close>

lemma iderw_shape [gives_rules]: "b < NBUF \<Longrightarrow> gives shape (\<lambda>_. True) (iderw b)"
  unfolding iderw_def by (intro bind_rules gives_rules; auto simp: shape_simps dest: shape_dest)

lemma binit_shape [gives_rules]: "gives shape (\<lambda>_. True) binit"
  unfolding binit_def by (intro bind_rules gives_rules; auto simp: shape_simps dest: shape_dest)

lemma bget_shape: "gives shape (\<lambda>b. b < NBUF) (bget dev blockno)"
  unfolding bget_def by (intro bind_rules gives_rules; auto simp: shape_simps dest: shape_dest dest!: find_SomeD(1) dest: shapeD(4))

lemmas bget_bind [bind_rules] = bget_shape [THEN gives_bind]
lemmas bget_any [gives_rules] = bget_shape bget_shape [THEN gives_any]

lemma bread_shape: "gives shape (\<lambda>b. b < NBUF) (bread dev blockno)"
  unfolding bread_def by (intro bind_rules gives_rules; auto simp: shape_simps dest: shape_dest)

lemmas bread_bind [bind_rules] = bread_shape [THEN gives_bind]
lemmas bread_any [gives_rules] = bread_shape bread_shape [THEN gives_any]

lemma bwrite_shape [gives_rules]: "b < NBUF \<Longrightarrow> gives shape (\<lambda>_. True) (bwrite b)"
  unfolding bwrite_def by (intro bind_rules gives_rules; auto simp: shape_simps dest: shape_dest)

lemma brelse_shape [gives_rules]: "b < NBUF \<Longrightarrow> gives shape (\<lambda>_. True) (brelse b)"
  unfolding brelse_def by (intro bind_rules gives_rules; auto simp: shape_simps dest: shape_dest)

lemma bdata_shape: "b < NBUF \<Longrightarrow> gives shape (\<lambda>d. length d = BSIZE) (bdata b)"
  unfolding bdata_def by (intro bind_rules gives_rules; auto simp: shape_simps dest: shape_dest dest: shapeD(9) simp: wf_buf_def)

lemmas bdata_bind [bind_rules] = bdata_shape [THEN gives_bind]
lemmas bdata_any [gives_rules] = bdata_shape bdata_shape [THEN gives_any]

lemma set_bdata_shape [gives_rules]: "b < NBUF \<Longrightarrow> length d = BSIZE \<Longrightarrow> gives shape (\<lambda>_. True) (set_bdata b d)"
  unfolding set_bdata_def by (intro bind_rules gives_rules; auto simp: shape_simps dest: shape_dest)

section \<open>The functions of theory Klog\<close>

lemma readsb_shape [gives_rules]: "gives shape (\<lambda>_. True) (readsb dev)"
  unfolding readsb_def by (intro bind_rules gives_rules; auto simp: shape_simps dest: shape_dest)

lemma install_block_shape [gives_rules]: "gives shape (\<lambda>_. True) (install_block tail)"
  unfolding install_block_def by (intro bind_rules gives_rules; auto simp: shape_simps dest: shape_dest)

lemma install_trans_shape [gives_rules]: "gives shape (\<lambda>_. True) install_trans"
  unfolding install_trans_def by (intro bind_rules gives_rules; auto simp: shape_simps dest: shape_dest)

lemma read_head_shape [gives_rules]: "gives shape (\<lambda>_. True) read_head"
  unfolding read_head_def by (intro bind_rules gives_rules; auto simp: shape_simps dest: shape_dest)

lemma write_head_shape [gives_rules]: "gives shape (\<lambda>_. True) write_head"
  unfolding write_head_def by (intro bind_rules gives_rules; auto simp: shape_simps dest: shape_dest)

lemma recover_from_log_shape [gives_rules]: "gives shape (\<lambda>_. True) recover_from_log"
  unfolding recover_from_log_def by (intro bind_rules gives_rules; auto simp: shape_simps dest: shape_dest)

lemma initlog_shape [gives_rules]: "gives shape (\<lambda>_. True) (initlog dev)"
  unfolding initlog_def by (intro bind_rules gives_rules; auto simp: shape_simps dest: shape_dest)

lemma begin_op_shape [gives_rules]: "gives shape (\<lambda>_. True) begin_op"
  unfolding begin_op_def by (intro bind_rules gives_rules; auto simp: shape_simps dest: shape_dest)

lemma log_block_shape [gives_rules]: "gives shape (\<lambda>_. True) (log_block tail)"
  unfolding log_block_def by (intro bind_rules gives_rules; auto simp: shape_simps dest: shape_dest)

lemma write_log_shape [gives_rules]: "gives shape (\<lambda>_. True) write_log"
  unfolding write_log_def by (intro bind_rules gives_rules; auto simp: shape_simps dest: shape_dest)

lemma commit_shape [gives_rules]: "gives shape (\<lambda>_. True) commit"
  unfolding commit_def by (intro bind_rules gives_rules; auto simp: shape_simps dest: shape_dest)

lemma end_op_shape [gives_rules]: "gives shape (\<lambda>_. True) end_op"
  unfolding end_op_def by (intro bind_rules gives_rules; auto simp: shape_simps dest: shape_dest)

lemma log_write_shape [gives_rules]: "gives shape (\<lambda>_. True) (log_write b)"
  unfolding log_write_def
  by (rule gives_at; intro post_at(2-) post_acquire; (rule post_at(1))?; (intro bind_rules gives_rules)?; auto simp: shape_rules shapeD)

section \<open>The functions of theory Inode\<close>

lemma bzero_shape [gives_rules]: "gives shape (\<lambda>_. True) (bzero dev bno)"
  unfolding bzero_def by (intro bind_rules gives_rules; auto simp: shape_simps dest: shape_dest)

lemma balloc_from_shape [gives_rules]: "gives shape (\<lambda>_. True) (balloc_from x1 x2)"
  by (induction x1 arbitrary: x2; simp only: balloc_from.simps; intro bind_rules gives_rules; auto simp: shape_simps dest: shape_dest)

lemma balloc_shape [gives_rules]: "gives shape (\<lambda>_. True) (balloc dev)"
  unfolding balloc_def by (intro bind_rules gives_rules; auto simp: shape_simps dest: shape_dest)

lemma bfree_shape [gives_rules]: "gives shape (\<lambda>_. True) (bfree dev b)"
  unfolding bfree_def by (intro bind_rules gives_rules; auto simp: shape_simps dest: shape_dest)

lemma iget_shape: "gives shape (\<lambda>ip. ip < NINODE) (iget dev inum)"
  unfolding iget_def by (intro bind_rules gives_rules; auto simp: shape_simps dest: shape_dest)

lemmas iget_bind [bind_rules] = iget_shape [THEN gives_bind]
lemmas iget_any [gives_rules] = iget_shape iget_shape [THEN gives_any]

lemma ialloc_from_shape: "gives shape (\<lambda>ip. ip < NINODE) (ialloc_from x1 x2 x3)"
  by (induction x1 arbitrary: x2 x3; simp only: ialloc_from.simps; intro bind_rules gives_rules; auto simp: shape_simps dest: shape_dest)

lemmas ialloc_from_bind [bind_rules] = ialloc_from_shape [THEN gives_bind]
lemmas ialloc_from_any [gives_rules] = ialloc_from_shape ialloc_from_shape [THEN gives_any]

lemma ialloc_shape: "gives shape (\<lambda>ip. ip < NINODE) (ialloc dev type)"
  unfolding ialloc_def by (intro bind_rules gives_rules; auto simp: shape_simps dest: shape_dest)

lemmas ialloc_bind [bind_rules] = ialloc_shape [THEN gives_bind]
lemmas ialloc_any [gives_rules] = ialloc_shape ialloc_shape [THEN gives_any]

lemma iupdate_shape [gives_rules]: "ip < NINODE \<Longrightarrow> gives shape (\<lambda>_. True) (iupdate ip)"
  unfolding iupdate_def by (intro bind_rules gives_rules; auto simp: shape_simps dest: shape_dest)

lemma idup_shape: "ip < NINODE \<Longrightarrow> gives shape (\<lambda>ip. ip < NINODE) (idup ip)"
  unfolding idup_def by (intro bind_rules gives_rules; auto simp: shape_simps dest: shape_dest)

lemmas idup_bind [bind_rules] = idup_shape [THEN gives_bind]
lemmas idup_any [gives_rules] = idup_shape idup_shape [THEN gives_any]

lemma ilock_shape [gives_rules]: "gives shape (\<lambda>_. True) (ilock ip)"
  unfolding ilock_def by (intro bind_rules gives_rules; auto simp: shape_simps dest: shape_dest)

lemma iunlock_shape [gives_rules]: "gives shape (\<lambda>_. True) (iunlock ip)"
  unfolding iunlock_def by (intro bind_rules gives_rules; auto simp: shape_simps dest: shape_dest)

lemma bmap_shape [gives_rules]: "gives shape (\<lambda>_. True) (bmap ip bn)"
  unfolding bmap_def by (intro bind_rules gives_rules; auto simp: shape_simps dest: shape_dest)

lemma itrunc_shape [gives_rules]: "ip < NINODE \<Longrightarrow> gives shape (\<lambda>_. True) (itrunc ip)"
  unfolding itrunc_def by (intro bind_rules gives_rules; auto simp: shape_simps dest: shape_dest)

lemma iput_shape [gives_rules]: "ip < NINODE \<Longrightarrow> gives shape (\<lambda>_. True) (iput ip)"
  unfolding iput_def by (intro bind_rules gives_rules; auto simp: shape_simps dest: shape_dest)

lemma iunlockput_shape [gives_rules]: "ip < NINODE \<Longrightarrow> gives shape (\<lambda>_. True) (iunlockput ip)"
  unfolding iunlockput_def by (intro bind_rules gives_rules; auto simp: shape_simps dest: shape_dest)

section \<open>The functions of theory Console\<close>

lemma shape_screen: "shape s \<Longrightarrow> length m = 25 * 80 \<Longrightarrow> p \<le> 24 * 80 \<Longrightarrow> shape (s\<lparr>crt_pos := p, crt := m\<rparr>)"
  by (simp add: shape_def)

lemma word_pos_le: "0 \<le> p \<Longrightarrow> p \<le> 24 * 80 \<Longrightarrow> (word_of_int p :: u16) \<le> 24 * 80"
  by (simp add: word_le_def uint_word_of_int take_bit_int_eq_self)

text \<open>The screen never runs over: the cursor stays in the first 24 lines, and so the check of \<open>cgaputc\<close> never fails.\<close>

lemma cgaputc_run:
  assumes "shape s"
  shows "\<exists>p m. cgaputc c s = Ok () (s\<lparr>crt_pos := p, crt := m\<rparr>) \<and> length m = 25 * 80 \<and> p \<le> 24 * 80"
proof -
  define p0 where "p0 = uint (crt_pos s)"
  define pm where "pm = (if c = 10 then (p0 + (80 - p0 mod 80), crt s)
    else if c = BACKSPACE then (if p0 > 0 then p0 - 1 else p0, crt s)
    else (p0 + 1, (crt s)[nat p0 := (word_of_int c AND 0xff) OR 0x0700]))"
  obtain pos m where pos: "pm = (pos, m)" by (cases pm)
  have s: "0 \<le> p0" "p0 \<le> 24 * 80" "length (crt s) = 25 * 80"
    using assms by (simp_all add: shape_def p0_def word_le_def)
  then have "0 \<le> pos" "pos \<le> 25 * 80" "length m = 25 * 80"
    using pos pos_mod_bound [of 80 p0] pos_mod_sign [of 80 p0] by (auto simp: pm_def split: if_splits)
  note m = this
  define up where "up = take (23 * 80) (drop 80 m) @ drop (23 * 80) m"
  define qm where "qm = (if pos div 80 \<ge> 24
    then (pos - 80, take (nat (pos - 80)) up @ replicate (24 * 80 - nat (pos - 80)) 0 @ drop (24 * 80) up) else (pos, m))"
  obtain q m' where q: "qm = (q, m')" by (cases qm)
  have "24 \<le> pos div 80 \<longleftrightarrow> 24 * 80 \<le> pos" by presburger
  then have m': "0 \<le> q" "q \<le> 24 * 80" "length m' = 25 * 80"
    using q m by (auto simp: qm_def up_def split: if_splits)
  have "cgaputc c s = Ok () (s\<lparr>crt_pos := word_of_int q, crt := m'[nat q := 0x0720]\<rparr>)"
    unfolding cgaputc_def bnd_def getk_run outcome.case prod.case p0_def [symmetric] pm_def [symmetric] pos Let_def
      up_def [symmetric] qm_def [symmetric] q
    using m by simp
  moreover have "length (m'[nat q := 0x0720]) = 25 * 80" using m'(3) by simp
  ultimately show ?thesis using word_pos_le [OF m'(1,2)] by blast
qed

lemma cgaputc_shape [gives_rules]: "gives shape (\<lambda>_. True) (cgaputc c)"
proof -
  have "post (cgaputc c) (\<lambda>x t. shape t \<and> True) shape (\<lambda>_. True) s" if "shape s" for s :: "'a kproc_scheme"
    using cgaputc_run [OF that, of c] shape_screen [OF that] by (auto simp: post_def)
  then show ?thesis by (simp add: gives_def)
qed

lemma consputc_shape [gives_rules]: "gives shape (\<lambda>_. True) (consputc c)"
  unfolding consputc_def by (intro bind_rules gives_rules; auto simp: shape_simps dest: shape_dest)

lemma cprintf_shape [gives_rules]: "gives shape (\<lambda>_. True) (cprintf fmt as)"
  unfolding cprintf_def by (intro bind_rules gives_rules; auto simp: shape_simps dest: shape_dest)

lemma ring_steps:
  assumes "ring_ok r w e"
  shows "e \<noteq> w \<Longrightarrow> ring_ok r w (e - 1)" "r \<noteq> w \<Longrightarrow> ring_ok (r + 1) w e"
    "unat (e - r) < INPUT_BUF \<Longrightarrow> ring_ok r w (e + 1)" "ring_ok r e e"
proof -
  have xy: "unat (w - r) \<le> unat (e - r)" "unat (e - r) \<le> INPUT_BUF" using assms by (simp_all add: ring_ok_def)
  have dec: "unat (z - 1) = unat z - 1" if "0 < unat z" for z :: u32
    using that by (intro unat_minus_one) auto
  have sh: "e - 1 - r = e - r - 1" "w - (r + 1) = w - r - 1" "e - (r + 1) = e - r - 1" "e + 1 - r = e - r + 1"
    by (simp_all add: algebra_simps)
  show "ring_ok r w (e - 1)" if "e \<noteq> w"
  proof -
    have "unat (w - r) \<noteq> unat (e - r)" using that by (metis word_unat_eq_iff diff_add_cancel)
    with xy have "unat (w - r) < unat (e - r)" by linarith
    then show ?thesis unfolding ring_ok_def sh using xy dec [of "e - r"] by linarith
  qed
  show "ring_ok (r + 1) w e" if "r \<noteq> w"
  proof -
    have "0 < unat (w - r)" using that by (simp add: unat_gt_0)
    with xy show ?thesis unfolding ring_ok_def sh using dec [of "w - r"] dec [of "e - r"] by linarith
  qed
  show "ring_ok r w (e + 1)" if "unat (e - r) < INPUT_BUF"
  proof -
    have "unat (e - r + 1) = unat (e - r) + 1" using that by (simp add: unat_word_ariths INPUT_BUF_def)
    with xy that show ?thesis by (simp add: ring_ok_def sh)
  qed
  show "ring_ok r e e" using xy by (simp add: ring_ok_def)
qed

lemma shape_input:
  assumes "shape s"
  shows "in_e s \<noteq> in_w s \<Longrightarrow> shape (s\<lparr>in_e := in_e s - 1\<rparr>)"
    "in_r s \<noteq> in_w s \<Longrightarrow> shape (s\<lparr>in_r := in_r s + 1\<rparr>)"
    "unat (in_e s - in_r s) < INPUT_BUF \<Longrightarrow> shape (s\<lparr>in_buf := (in_buf s)[k := b], in_e := in_e s + 1\<rparr>)"
    "shape (s\<lparr>in_w := in_e s\<rparr>)"
  using assms ring_steps(4) [of "in_r s" "in_w s" "in_e s"] by (simp_all add: shape_def ring_steps(1-3))

lemma kill_line_shape [gives_rules]: "gives shape (\<lambda>_. True) (kill_line x1)"
proof (induction x1)
  case (Suc n)
  then show ?case
    by (simp only: kill_line.simps) (rule gives_at; intro post_at(2-); (rule post_at(1))?; (intro bind_rules gives_rules)?; auto simp: shape_input)
qed (simp only: kill_line.simps, intro gives_rules TrueI)

lemma console_char_shape [gives_rules]: "gives shape (\<lambda>_. True) (console_char c)"
  unfolding console_char_def
  by (rule gives_at; intro post_at(2-); (rule post_at(1))?; (intro bind_rules gives_rules)?; auto simp: shape_input)

lemma consoleintr_shape [gives_rules]: "gives shape (\<lambda>_. True) (consoleintr cs)"
  unfolding consoleintr_def by (intro bind_rules gives_rules; auto simp: shape_simps dest: shape_dest)

lemma consoleread_loop_shape [gives_rules]: "gives shape (\<lambda>_. True) (consoleread_loop x1 x2 x3)"
proof (induction x2 arbitrary: x3)
  case (Suc n)
  then show ?case
    by (simp only: consoleread_loop.simps)
      (rule gives_at; intro post_at(2-); (rule post_at(1))?; (intro bind_rules gives_rules)?; auto simp: shape_input)
qed (simp only: consoleread_loop.simps, intro gives_rules TrueI)

lemma consoleread_shape [gives_rules]: "gives shape (\<lambda>_. True) (consoleread ip n)"
  unfolding consoleread_def by (intro bind_rules gives_rules; auto simp: shape_simps dest: shape_dest)

lemma consolewrite_shape [gives_rules]: "gives shape (\<lambda>_. True) (consolewrite ip buf)"
  unfolding consolewrite_def by (intro bind_rules gives_rules; auto simp: shape_simps dest: shape_dest)

lemma consoleinit_shape [gives_rules]: "gives shape (\<lambda>_. True) consoleinit"
  unfolding consoleinit_def by (intro bind_rules gives_rules; auto simp: shape_simps dest: shape_dest)

section \<open>The functions of theory Fs\<close>

lemma iinit_shape [gives_rules]: "gives shape (\<lambda>_. True) (iinit dev)"
  unfolding iinit_def by (intro bind_rules gives_rules; auto simp: shape_simps dest: shape_dest)

lemma read_chunks_shape [gives_rules]: "gives shape (\<lambda>_. True) (read_chunks x1 x2)"
  by (induction x2 arbitrary: x1; simp only: read_chunks.simps; intro bind_rules gives_rules; auto simp: shape_simps dest: shape_dest)

lemma readi_shape [gives_rules]: "gives shape (\<lambda>_. True) (readi ip off n)"
  unfolding readi_def by (intro bind_rules gives_rules; auto simp: shape_simps dest: shape_dest)

lemma write_chunks_shape [gives_rules]: "\<forall>c\<in>set x2. fst c mod BSIZE + snd c \<le> BSIZE \<Longrightarrow> gives shape (\<lambda>_. True) (write_chunks x1 x2 x3)"
  by (induction x2 arbitrary: x1 x3; simp only: write_chunks.simps; intro bind_rules gives_rules; auto simp: shape_simps dest: shape_dest)

lemma writei_shape [gives_rules]: "ip < NINODE \<Longrightarrow> gives shape (\<lambda>_. True) (writei ip src off)"
  unfolding writei_def by (intro bind_rules gives_rules; auto simp: shape_simps dest: shape_dest chunks_in_block [of "(_, _)", simplified] )

lemma dirlookup_from_shape: "gives shape (pred_option (\<lambda>r. fst r < NINODE)) (dirlookup_from x1 x2 x3)"
  by (induction x1 arbitrary: x2 x3; simp only: dirlookup_from.simps; intro bind_rules gives_rules; auto simp: shape_simps dest: shape_dest)

lemmas dirlookup_from_bind [bind_rules] = dirlookup_from_shape [THEN gives_bind]
lemmas dirlookup_from_any [gives_rules] = dirlookup_from_shape dirlookup_from_shape [THEN gives_any]

lemma dirlookup_shape: "gives shape (pred_option (\<lambda>r. fst r < NINODE)) (dirlookup dp name)"
  unfolding dirlookup_def by (intro bind_rules gives_rules; auto simp: shape_simps dest: shape_dest)

lemmas dirlookup_bind [bind_rules] = dirlookup_shape [THEN gives_bind]
lemmas dirlookup_any [gives_rules] = dirlookup_shape dirlookup_shape [THEN gives_any]

lemma dirlink_from_shape [gives_rules]: "gives shape (\<lambda>_. True) (dirlink_from x1 x2 x3)"
  by (induction x1 arbitrary: x2 x3; simp only: dirlink_from.simps; intro bind_rules gives_rules; auto simp: shape_simps dest: shape_dest)

lemma dirlink_shape [gives_rules]: "dp < NINODE \<Longrightarrow> gives shape (\<lambda>_. True) (dirlink dp name inum)"
  unfolding dirlink_def by (intro bind_rules gives_rules; auto simp: shape_simps dest: shape_dest)

lemma permits_shape [gives_rules]: "gives shape (\<lambda>_. True) (permits has ip)"
  unfolding permits_def by (intro bind_rules gives_rules; auto simp: shape_simps dest: shape_dest)

lemma namex_loop_shape: "x4 < NINODE \<Longrightarrow> gives shape (\<lambda>r. below NINODE (fst r)) (namex_loop x1 x2 x3 x4)"
proof (induction "length x1" arbitrary: x1 x3 x4 rule: less_induct)
  case less
  show ?case
    using less(2) by (subst namex_loop.simps) (intro less(1) bind_rules gives_rules; auto simp: shape_rules dest: skipelem_shorter)
qed

lemmas namex_loop_bind [bind_rules] = namex_loop_shape [THEN gives_bind]
lemmas namex_loop_any [gives_rules] = namex_loop_shape namex_loop_shape [THEN gives_any]

lemma namex_shape: "gives shape (\<lambda>r. below NINODE (fst r)) (namex path parent)"
  unfolding namex_def
  by (rule gives_bind [where P = "\<lambda>ip. ip < NINODE"]; intro bind_rules gives_rules; auto dest: wf_proc_found)

lemmas namex_bind [bind_rules] = namex_shape [THEN gives_bind]
lemmas namex_any [gives_rules] = namex_shape namex_shape [THEN gives_any]

lemma namei_shape: "gives shape (below NINODE) (namei path)"
  unfolding namei_def by (intro bind_rules gives_rules; auto simp: shape_simps dest: shape_dest)

lemmas namei_bind [bind_rules] = namei_shape [THEN gives_bind]
lemmas namei_any [gives_rules] = namei_shape namei_shape [THEN gives_any]

lemma nameiparent_shape: "gives shape (\<lambda>r. below NINODE (fst r)) (nameiparent path)"
  unfolding nameiparent_def by (intro bind_rules gives_rules; auto simp: shape_simps dest: shape_dest)

lemmas nameiparent_bind [bind_rules] = nameiparent_shape [THEN gives_bind]
lemmas nameiparent_any [gives_rules] = nameiparent_shape nameiparent_shape [THEN gives_any]

lemma create_existing_shape: "dp < NINODE \<Longrightarrow> ip < NINODE \<Longrightarrow> gives shape (below NINODE) (create_existing dp ip type)"
  unfolding create_existing_def by (intro bind_rules gives_rules; auto simp: shape_simps dest: shape_dest)

lemmas create_existing_bind [bind_rules] = create_existing_shape [THEN gives_bind]
lemmas create_existing_any [gives_rules] = create_existing_shape create_existing_shape [THEN gives_any]

lemma create_new_shape: "dp < NINODE \<Longrightarrow> gives shape (below NINODE) (create_new dp name type major minor)"
  unfolding create_new_def by (intro bind_rules gives_rules; auto simp: shape_simps dest: shape_dest)

lemmas create_new_bind [bind_rules] = create_new_shape [THEN gives_bind]
lemmas create_new_any [gives_rules] = create_new_shape create_new_shape [THEN gives_any]

lemma create_shape: "gives shape (below NINODE) (create path type major minor)"
  unfolding create_def by (intro bind_rules gives_rules; auto simp: shape_simps dest: shape_dest)

lemmas create_bind [bind_rules] = create_shape [THEN gives_bind]
lemmas create_any [gives_rules] = create_shape create_shape [THEN gives_any]

section \<open>The functions of theory Users\<close>

lemma write_usertable_shape [gives_rules]: "ip < NINODE \<Longrightarrow> gives shape (\<lambda>_. True) (write_usertable ip)"
  unfolding write_usertable_def by (intro bind_rules gives_rules; auto simp: shape_simps dest: shape_dest)

lemma export_usertable_shape [gives_rules]: "gives shape (\<lambda>_. True) export_usertable"
  unfolding export_usertable_def by (intro bind_rules gives_rules; auto simp: shape_simps dest: shape_dest)

lemma create_usertable_shape: "gives shape (\<lambda>ip. ip < NINODE) create_usertable"
  unfolding create_usertable_def by (intro bind_rules gives_rules; auto simp: shape_simps dest: shape_dest)

lemmas create_usertable_bind [bind_rules] = create_usertable_shape [THEN gives_bind]
lemmas create_usertable_any [gives_rules] = create_usertable_shape create_usertable_shape [THEN gives_any]

lemma read_usertable_shape [gives_rules]: "gives shape (\<lambda>_. True) (read_usertable ip)"
  unfolding read_usertable_def by (intro bind_rules gives_rules; auto simp: shape_simps dest: shape_dest)

lemmas bind_inode = gives_bind_case [where P = "\<lambda>ip. ip < NINODE"]
lemmas bind_below = gives_bind [where P = "below NINODE"]

lemma init_usertable_shape [gives_rules]: "gives shape (\<lambda>_. True) init_usertable"
  unfolding init_usertable_def
  by (intro bind_inode bind_rules gives_rules; auto simp: shape_rules)

lemma getuid_shape [gives_rules]: "gives shape (\<lambda>_. True) (getuid username passwd)"
  unfolding getuid_def by (intro bind_rules gives_rules; auto simp: shape_simps dest: shape_dest)

lemma add_user_shape [gives_rules]: "gives shape (\<lambda>_. True) (add_user username passwd)"
  unfolding add_user_def by (intro bind_rules gives_rules; auto simp: shape_simps dest: shape_dest)

lemma delete_user_shape [gives_rules]: "gives shape (\<lambda>_. True) (delete_user username)"
  unfolding delete_user_def by (intro bind_rules gives_rules; auto simp: shape_simps dest: shape_dest)

lemma get_username_with_uid_shape [gives_rules]: "gives shape (\<lambda>_. True) (get_username_with_uid uid)"
  unfolding get_username_with_uid_def by (intro bind_rules gives_rules; auto simp: shape_simps dest: shape_dest)

lemma stati_shape [gives_rules]: "gives shape (\<lambda>_. True) (stati ip old)"
  unfolding stati_def by (intro bind_rules gives_rules; auto simp: shape_simps dest: shape_dest)

section \<open>The functions of theory Vm\<close>

lemma get32_shape [gives_rules]: "gives shape (\<lambda>_. True) (get32 a)"
  unfolding get32_def by (intro bind_rules gives_rules; auto simp: shape_simps dest: shape_dest)

lemma put32_shape [gives_rules]: "gives shape (\<lambda>_. True) (put32 a w)"
  unfolding put32_def by (intro bind_rules gives_rules; auto simp: shape_simps dest: shape_dest)

lemma zero_page_shape [gives_rules]: "gives shape (\<lambda>_. True) (zero_page a)"
  unfolding zero_page_def by (intro bind_rules gives_rules; auto simp: shape_simps dest: shape_dest)

lemma put_bytes_shape [gives_rules]: "gives shape (\<lambda>_. True) (put_bytes a bs)"
  unfolding put_bytes_def by (intro bind_rules gives_rules; auto simp: shape_simps dest: shape_dest)

lemma walkpgdir_shape [gives_rules]: "gives shape (\<lambda>_. True) (walkpgdir pgdir va alloc)"
  unfolding walkpgdir_def by (intro bind_rules gives_rules; auto simp: shape_simps dest: shape_dest)

lemma mappages_loop_shape [gives_rules]: "gives shape (\<lambda>_. True) (mappages_loop x1 x2 x3 x4 x5)"
  by (induction x1 arbitrary: x2 x3 x4 x5; simp only: mappages_loop.simps; intro bind_rules gives_rules; auto simp: shape_simps dest: shape_dest)

lemma mappages_shape [gives_rules]: "gives shape (\<lambda>_. True) (mappages pgdir va n pa perm)"
  unfolding mappages_def by (intro bind_rules gives_rules; auto simp: shape_simps dest: shape_dest)

lemma deallocuvm_loop_shape [gives_rules]: "gives shape (\<lambda>_. True) (deallocuvm_loop x1 x2 x3 x4)"
  by (induction x1 arbitrary: x2 x3 x4; simp only: deallocuvm_loop.simps; intro bind_rules gives_rules; auto simp: shape_simps dest: shape_dest)

lemma deallocuvm_shape [gives_rules]: "gives shape (\<lambda>_. True) (deallocuvm pgdir oldsz newsz)"
  unfolding deallocuvm_def by (intro bind_rules gives_rules; auto simp: shape_simps dest: shape_dest)

lemma free_pgtab_shape [gives_rules]: "gives shape (\<lambda>_. True) (free_pgtab pgdir i)"
  unfolding free_pgtab_def by (intro bind_rules gives_rules; auto simp: shape_simps dest: shape_dest)

lemma freevm_shape [gives_rules]: "gives shape (\<lambda>_. True) (freevm pgdir)"
  unfolding freevm_def by (intro bind_rules gives_rules; auto simp: shape_simps dest: shape_dest)

lemma map_kernel_shape [gives_rules]: "gives shape (\<lambda>_. True) (map_kernel x1 x2)"
  by (induction x1 arbitrary: x2; simp only: map_kernel.simps; intro bind_rules gives_rules; auto simp: shape_simps dest: shape_dest)

lemma setupkvm_shape [gives_rules]: "gives shape (\<lambda>_. True) setupkvm"
  unfolding setupkvm_def by (intro bind_rules gives_rules; auto simp: shape_simps dest: shape_dest)

lemma lcr3_shape [gives_rules]: "gives shape (\<lambda>_. True) (lcr3 v)"
  unfolding lcr3_def by (intro bind_rules gives_rules; auto simp: shape_simps dest: shape_dest)

lemma switchkvm_shape [gives_rules]: "gives shape (\<lambda>_. True) switchkvm"
  unfolding switchkvm_def by (intro bind_rules gives_rules; auto simp: shape_simps dest: shape_dest)

lemma kvmalloc_shape [gives_rules]: "gives shape (\<lambda>_. True) kvmalloc"
  unfolding kvmalloc_def by (intro bind_rules gives_rules; auto simp: shape_simps dest: shape_dest)

lemma switchuvm_shape [gives_rules]: "gives shape (\<lambda>_. True) (switchuvm p)"
  unfolding switchuvm_def by (intro bind_rules gives_rules; auto simp: shape_simps dest: shape_dest)

lemma inituvm_shape [gives_rules]: "gives shape (\<lambda>_. True) (inituvm pgdir init)"
  unfolding inituvm_def by (intro bind_rules gives_rules; auto simp: shape_simps dest: shape_dest)

lemma loaduvm_loop_shape [gives_rules]: "gives shape (\<lambda>_. True) (loaduvm_loop x1 x2 x3 x4 x5 x6 x7)"
  by (induction x1 arbitrary: x2 x3 x4 x5 x6 x7; simp only: loaduvm_loop.simps; intro bind_rules gives_rules; auto simp: shape_simps dest: shape_dest)

lemma loaduvm_shape [gives_rules]: "gives shape (\<lambda>_. True) (loaduvm pgdir addr ip off sz)"
  unfolding loaduvm_def by (intro bind_rules gives_rules; auto simp: shape_simps dest: shape_dest)

lemma allocuvm_loop_shape [gives_rules]: "gives shape (\<lambda>_. True) (allocuvm_loop x1 x2 x3 x4 x5)"
  by (induction x1 arbitrary: x2 x3 x4 x5; simp only: allocuvm_loop.simps; intro bind_rules gives_rules; auto simp: shape_simps dest: shape_dest)

lemma allocuvm_shape [gives_rules]: "gives shape (\<lambda>_. True) (allocuvm pgdir oldsz newsz)"
  unfolding allocuvm_def by (intro bind_rules gives_rules; auto simp: shape_simps dest: shape_dest)

lemma clearpteu_shape [gives_rules]: "gives shape (\<lambda>_. True) (clearpteu pgdir uva)"
  unfolding clearpteu_def by (intro bind_rules gives_rules; auto simp: shape_simps dest: shape_dest)

lemma copyuvm_loop_shape [gives_rules]: "gives shape (\<lambda>_. True) (copyuvm_loop x1 x2 x3 x4)"
  by (induction x1 arbitrary: x2 x3 x4; simp only: copyuvm_loop.simps; intro bind_rules gives_rules; auto simp: shape_simps dest: shape_dest)

lemma copyuvm_shape [gives_rules]: "gives shape (\<lambda>_. True) (copyuvm pgdir sz)"
  unfolding copyuvm_def by (intro bind_rules gives_rules; auto simp: shape_simps dest: shape_dest)

lemma uva2ka_shape [gives_rules]: "gives shape (\<lambda>_. True) (uva2ka pgdir uva)"
  unfolding uva2ka_def by (intro bind_rules gives_rules; auto simp: shape_simps dest: shape_dest)

lemma copyout_loop_shape [gives_rules]: "gives shape (\<lambda>_. True) (copyout_loop x1 x2 x3)"
proof (induction "length x3" arbitrary: x2 x3 rule: less_induct)
  case less
  show ?case
    by (subst copyout_loop.simps) (intro less bind_rules gives_rules; use page_offset_less [of x2] in \<open>auto simp: PGSIZE_def\<close>)
qed

lemma copyout_shape [gives_rules]: "gives shape (\<lambda>_. True) (copyout pgdir va bs)"
  unfolding copyout_def by (intro bind_rules gives_rules; auto simp: shape_simps dest: shape_dest)

lemma uload8_shape [gives_rules]: "gives shape (\<lambda>_. True) (uload8 va)"
  by (auto simp: gives_def post_def uload8_def shape_rules split: option.split)

lemma ustore8_shape [gives_rules]: "gives shape (\<lambda>_. True) (ustore8 va b)"
  by (auto simp: gives_def post_def ustore8_def shape_rules split: option.split)

lemma uload_shape [gives_rules]: "gives shape (\<lambda>_. True) (uload x1 x2)"
  by (induction x1 arbitrary: x2; simp only: uload.simps; intro bind_rules gives_rules; auto simp: shape_simps dest: shape_dest)

lemma ustore_shape [gives_rules]: "gives shape (\<lambda>_. True) (ustore x1 x2)"
  by (induction x2 arbitrary: x1; simp only: ustore.simps; intro bind_rules gives_rules; auto simp: shape_simps dest: shape_dest)

section \<open>The functions of theory Files\<close>

lemma filealloc_shape: "gives shape (below NFILE) filealloc"
  unfolding filealloc_def by (intro bind_rules gives_rules; auto simp: shape_simps dest: shape_dest)

lemmas filealloc_bind [bind_rules] = filealloc_shape [THEN gives_bind]
lemmas filealloc_any [gives_rules] = filealloc_shape filealloc_shape [THEN gives_any]

lemma filedup_shape: "f < NFILE \<Longrightarrow> gives shape (\<lambda>f. f < NFILE) (filedup f)"
  unfolding filedup_def by (intro bind_rules gives_rules; auto simp: shape_simps dest: shape_dest)

lemmas filedup_bind [bind_rules] = filedup_shape [THEN gives_bind]
lemmas filedup_any [gives_rules] = filedup_shape filedup_shape [THEN gives_any]

lemma pipeclose_shape [gives_rules]: "gives shape (\<lambda>_. True) (pipeclose p writable)"
  unfolding pipeclose_def by (intro bind_rules gives_rules; auto simp: shape_simps dest: shape_dest)

lemma fileclose_shape [gives_rules]: "f < NFILE \<Longrightarrow> gives shape (\<lambda>_. True) (fileclose f)"
  unfolding fileclose_def by (intro bind_rules gives_rules; auto simp: shape_simps dest: shape_dest)

lemma pipealloc_bad_shape: "below NFILE f0 \<Longrightarrow> below NFILE f1 \<Longrightarrow> gives shape (pred_option (\<lambda>(f, g). f < NFILE \<and> g < NFILE)) (pipealloc_bad f0 f1)"
  unfolding pipealloc_bad_def by (intro bind_rules gives_rules; auto simp: shape_simps dest: shape_dest)

lemmas pipealloc_bad_bind [bind_rules] = pipealloc_bad_shape [THEN gives_bind]
lemmas pipealloc_bad_any [gives_rules] = pipealloc_bad_shape pipealloc_bad_shape [THEN gives_any]

lemma pipealloc_shape: "gives shape (pred_option (\<lambda>(f, g). f < NFILE \<and> g < NFILE)) pipealloc"
  unfolding pipealloc_def by (intro bind_rules gives_rules; auto simp: shape_simps dest: shape_dest)

lemmas pipealloc_bind [bind_rules] = pipealloc_shape [THEN gives_bind]
lemmas pipealloc_any [gives_rules] = pipealloc_shape pipealloc_shape [THEN gives_any]

lemma pipewrite_loop_shape [gives_rules]: "gives shape (\<lambda>_. True) (pipewrite_loop x1 x2 x3 x4)"
  by (induction x1 arbitrary: x2 x3 x4; simp only: pipewrite_loop.simps; intro bind_rules gives_rules; auto simp: shape_simps dest: shape_dest)

lemma pipewrite_shape [gives_rules]: "gives shape (\<lambda>_. True) (pipewrite p addr n)"
  unfolding pipewrite_def by (intro bind_rules gives_rules; auto simp: shape_simps dest: shape_dest)

lemma piperead_loop_shape [gives_rules]: "gives shape (\<lambda>_. True) (piperead_loop x1 x2 x3 x4)"
  by (induction x1 arbitrary: x2 x3 x4; simp only: piperead_loop.simps; intro bind_rules gives_rules; auto simp: shape_simps dest: shape_dest)

lemma piperead_shape [gives_rules]: "gives shape (\<lambda>_. True) (piperead p addr n)"
  unfolding piperead_def by (intro bind_rules gives_rules; auto simp: shape_simps dest: shape_dest)

lemma put_stat_shape [gives_rules]: "gives shape (\<lambda>_. True) (put_stat st k)"
  unfolding put_stat_def by (intro bind_rules gives_rules; auto simp: shape_simps dest: shape_dest)

lemma filestat_shape [gives_rules]: "gives shape (\<lambda>_. True) (filestat f st)"
  unfolding filestat_def by (intro bind_rules gives_rules; auto simp: shape_simps dest: shape_dest)

lemma fileread_shape [gives_rules]: "gives shape (\<lambda>_. True) (fileread f addr n)"
  unfolding fileread_def by (intro bind_rules gives_rules; auto simp: shape_simps dest: shape_dest)

lemma filewrite_loop_shape [gives_rules]: "x2 < NFILE \<Longrightarrow> gives shape (\<lambda>_. True) (filewrite_loop x1 x2 x3)"
proof (induction x1 arbitrary: x3 rule: less_induct)
  case (less k)
  show ?case
    using less(2) by (subst filewrite_loop.simps)
      (intro less(1) bind_rules gives_rules; auto simp: shape_rules shapeD(15) filewrite_max_def MAXOPBLOCKS_def)
qed

lemma filewrite_shape [gives_rules]: "f < NFILE \<Longrightarrow> gives shape (\<lambda>_. True) (filewrite f addr n)"
  unfolding filewrite_def by (intro bind_rules gives_rules; auto simp: shape_simps dest: shape_dest)

section \<open>The functions of theory Proc\<close>

lemma allocproc_shape: "gives shape (below NPROC) allocproc"
  unfolding allocproc_def by (intro bind_rules gives_rules; auto simp: shape_simps dest: shape_dest)

lemmas allocproc_bind [bind_rules] = allocproc_shape [THEN gives_bind]
lemmas allocproc_any [gives_rules] = allocproc_shape allocproc_shape [THEN gives_any]

lemma userinit_shape [gives_rules]: "gives shape (\<lambda>_. True) userinit"
  unfolding userinit_def by (intro bind_rules gives_rules; auto simp: shape_simps dest: shape_dest)

lemma growproc_shape [gives_rules]: "gives shape (\<lambda>_. True) (growproc n)"
  unfolding growproc_def by (intro bind_rules gives_rules; auto simp: shape_simps dest: shape_dest)

lemma change_user_shape [gives_rules]: "gives shape (\<lambda>_. True) (change_user uid)"
  unfolding change_user_def by (intro bind_rules gives_rules; auto simp: shape_simps dest: shape_dest)

lemma fork_file_shape [gives_rules]: "c < NPROC \<Longrightarrow> fd < NOFILE \<Longrightarrow> gives shape (\<lambda>_. True) (fork_file c np fd)"
  unfolding fork_file_def by (intro bind_rules gives_rules; auto simp: shape_simps dest: shape_dest)

lemma fork_shape [gives_rules]: "gives shape (\<lambda>_. True) fork"
  unfolding fork_def by (intro bind_inode bind_rules gives_rules; auto simp: shape_simps dest: shape_dest)

lemma close_fd_shape [gives_rules]: "fd < NOFILE \<Longrightarrow> gives shape (\<lambda>_. True) (close_fd fd)"
  unfolding close_fd_def by (intro bind_rules gives_rules; auto simp: shape_simps dest: shape_dest)

lemma exit_shape [gives_rules]: "gives shape (\<lambda>_. True) exit"
  unfolding exit_def by (intro bind_rules gives_rules; auto simp: shape_simps dest: shape_dest)

lemma wait_shape [gives_rules]: "gives shape (\<lambda>_. True) wait"
  unfolding wait_def by (intro bind_rules gives_rules; auto simp: shape_simps dest: shape_dest)

lemma kill_shape [gives_rules]: "gives shape (\<lambda>_. True) (kill pid)"
  unfolding kill_def by (intro bind_rules gives_rules; auto simp: shape_simps dest: shape_dest)

lemma forkret_shape [gives_rules]: "gives shape (\<lambda>_. True) forkret"
  unfolding forkret_def by (intro bind_rules gives_rules; auto simp: shape_simps dest: shape_dest)

lemma procdump_one_shape [gives_rules]: "gives shape (\<lambda>_. True) (procdump_one i)"
  unfolding procdump_one_def by (intro bind_rules gives_rules; auto simp: shape_simps dest: shape_dest)

lemma procdump_shape [gives_rules]: "gives shape (\<lambda>_. True) procdump"
  unfolding procdump_def by (intro bind_rules gives_rules; auto simp: shape_simps dest: shape_dest)

section \<open>The functions of theory Exec\<close>

lemma exec_bad_shape [gives_rules]: "below NINODE ip \<Longrightarrow> gives shape (\<lambda>_. True) (exec_bad pgdir ip)"
  unfolding exec_bad_def by (intro bind_rules gives_rules; auto simp: shape_simps dest: shape_dest)

lemma exec_load_shape [gives_rules]: "gives shape (\<lambda>_. True) (exec_load x1 x2 x3 x4 x5)"
  by (induction x1 arbitrary: x2 x3 x4 x5; simp only: exec_load.simps; intro bind_rules gives_rules; auto simp: shape_simps dest: shape_dest)

lemma exec_args_shape [gives_rules]: "gives shape (\<lambda>_. True) (exec_args x1 x2 x3 x4)"
  by (induction x1 arbitrary: x2 x3 x4; simp only: exec_args.simps; intro bind_rules gives_rules; auto simp: shape_simps dest: shape_dest)

lemma exec_commit_shape [gives_rules]: "gives shape (\<lambda>_. True) (exec_commit path pgdir sz entry sp)"
  unfolding exec_commit_def by (intro bind_rules gives_rules; auto simp: shape_simps dest: shape_dest)

lemma exec_stack_shape [gives_rules]: "gives shape (\<lambda>_. True) (exec_stack path argv pgdir entry sz0)"
  unfolding exec_stack_def by (intro bind_rules gives_rules; auto simp: shape_simps dest: shape_dest)

lemma exec_shape [gives_rules]: "gives shape (\<lambda>_. True) (exec path argv)"
  unfolding exec_def by (intro bind_rules gives_rules; auto simp: shape_simps dest: shape_dest)

section \<open>The functions of theory Sysfile\<close>

lemma fetchint_shape [gives_rules]: "gives shape (\<lambda>_. True) (fetchint addr)"
  unfolding fetchint_def by (intro bind_rules gives_rules; auto simp: shape_simps dest: shape_dest)

lemma fetchstr_loop_shape [gives_rules]: "gives shape (\<lambda>_. True) (fetchstr_loop x1 x2)"
  by (induction x1 arbitrary: x2; simp only: fetchstr_loop.simps; intro bind_rules gives_rules; auto simp: shape_simps dest: shape_dest)

lemma fetchstr_shape [gives_rules]: "gives shape (\<lambda>_. True) (fetchstr addr)"
  unfolding fetchstr_def by (intro bind_rules gives_rules; auto simp: shape_simps dest: shape_dest)

lemma argint_shape [gives_rules]: "gives shape (\<lambda>_. True) (argint n)"
  unfolding argint_def by (intro bind_rules gives_rules; auto simp: shape_simps dest: shape_dest)

lemma argptr_shape [gives_rules]: "gives shape (\<lambda>_. True) (argptr n k)"
  unfolding argptr_def by (intro bind_rules gives_rules; auto simp: shape_simps dest: shape_dest)

lemma argstr_shape [gives_rules]: "gives shape (\<lambda>_. True) (argstr n)"
  unfolding argstr_def by (intro bind_rules gives_rules; auto simp: shape_simps dest: shape_dest)

lemma fd_range:
  assumes "\<not> sint (fd :: u32) < 0" and "\<not> int NOFILE \<le> sint fd"
  shows "unat fd < NOFILE"
proof -
  have "sint fd = uint fd - 2 ^ 32 * of_bool (bit (uint fd) 31)"
    using uint_lt2p [of fd] by (simp add: sint_uint signed_take_bit_eq_take_bit_minus take_bit_int_eq_self)
  then have "sint fd = uint fd \<or> sint fd = uint fd - 2 ^ 32" by simp
  moreover have "uint fd < 2 ^ 32" using uint_lt2p [of fd] by simp
  ultimately have "uint fd < int NOFILE" using assms by linarith
  then show ?thesis by (metis unat_eq_nat_uint nat_int zless_nat_eq_int_zless nat_less_iff uint_ge_0)
qed

lemma argfd_shape: "gives shape (pred_option (\<lambda>r. snd r < NFILE)) (argfd n)"
  unfolding argfd_def
  by (intro bind_rules gives_rules; auto split: option.split intro: wf_proc_found(3) [OF _ fd_range])

lemmas argfd_bind [bind_rules] = argfd_shape [THEN gives_bind]
lemmas argfd_any [gives_rules] = argfd_shape argfd_shape [THEN gives_any]

lemma fdalloc_shape [gives_rules]: "f < NFILE \<Longrightarrow> gives shape (\<lambda>_. True) (fdalloc f)"
  unfolding fdalloc_def by (intro bind_rules gives_rules; auto simp: shape_simps dest: shape_dest)

lemma sys_dup_shape [gives_rules]: "gives shape (\<lambda>_. True) sys_dup"
  unfolding sys_dup_def by (intro bind_rules gives_rules; auto simp: shape_simps dest: shape_dest)

lemma sys_rw_shape [gives_rules]: "(\<And>f p n. f < NFILE \<Longrightarrow> gives shape (\<lambda>_. True) (io f p n)) \<Longrightarrow> gives shape (\<lambda>_. True) (sys_rw io)"
  unfolding sys_rw_def by (intro bind_rules gives_rules; auto simp: shape_simps dest: shape_dest)

lemma sys_read_shape [gives_rules]: "gives shape (\<lambda>_. True) sys_read"
  unfolding sys_read_def by (intro bind_rules gives_rules; auto simp: shape_simps dest: shape_dest)

lemma sys_write_shape [gives_rules]: "gives shape (\<lambda>_. True) sys_write"
  unfolding sys_write_def by (intro bind_rules gives_rules; auto simp: shape_simps dest: shape_dest)

lemma sys_close_shape [gives_rules]: "gives shape (\<lambda>_. True) sys_close"
  unfolding sys_close_def by (intro bind_rules gives_rules; auto simp: shape_simps dest: shape_dest)

lemma sys_fstat_shape [gives_rules]: "gives shape (\<lambda>_. True) sys_fstat"
  unfolding sys_fstat_def by (intro bind_rules gives_rules; auto simp: shape_simps dest: shape_dest)

lemma sys_link_bad_shape [gives_rules]: "ip < NINODE \<Longrightarrow> gives shape (\<lambda>_. True) (sys_link_bad ip)"
  unfolding sys_link_bad_def by (intro bind_rules gives_rules; auto simp: shape_simps dest: shape_dest)

lemma link_at_shape [gives_rules]: "ip < NINODE \<Longrightarrow> gives shape (\<lambda>_. True) (link_at new ip)"
  unfolding link_at_def by (intro bind_rules gives_rules; auto simp: shape_simps dest: shape_dest)

lemma sys_link_shape [gives_rules]: "gives shape (\<lambda>_. True) sys_link"
  unfolding sys_link_def by (intro bind_rules gives_rules; auto simp: shape_simps dest: shape_dest)

lemma dirempty_from_shape [gives_rules]: "gives shape (\<lambda>_. True) (dirempty_from x1 x2)"
  by (induction x1 arbitrary: x2; simp only: dirempty_from.simps; intro bind_rules gives_rules; auto simp: shape_simps dest: shape_dest)

lemma isdirempty_shape [gives_rules]: "gives shape (\<lambda>_. True) (isdirempty dp)"
  unfolding isdirempty_def by (intro bind_rules gives_rules; auto simp: shape_simps dest: shape_dest)

lemma unlink_bad_shape [gives_rules]: "dp < NINODE \<Longrightarrow> gives shape (\<lambda>_. True) (unlink_bad dp)"
  unfolding unlink_bad_def by (intro bind_rules gives_rules; auto simp: shape_simps dest: shape_dest)

lemma unlink_entry_shape [gives_rules]: "dp < NINODE \<Longrightarrow> ip < NINODE \<Longrightarrow> gives shape (\<lambda>_. True) (unlink_entry dp ip off)"
  unfolding unlink_entry_def by (intro bind_rules gives_rules; auto simp: shape_simps dest: shape_dest)

lemma sys_unlink_shape [gives_rules]: "gives shape (\<lambda>_. True) sys_unlink"
  unfolding sys_unlink_def by (intro bind_rules gives_rules; auto simp: shape_simps dest: shape_dest)

lemma sys_chmod_shape [gives_rules]: "gives shape (\<lambda>_. True) sys_chmod"
  unfolding sys_chmod_def by (intro bind_rules gives_rules; auto simp: shape_simps dest: shape_dest)

lemma set_mode_shape [gives_rules]: "ip < NINODE \<Longrightarrow> gives shape (\<lambda>_. True) (set_mode perm owner ip)"
  unfolding set_mode_def by (intro bind_rules gives_rules; auto simp: shape_simps dest: shape_dest)

lemma open_fail_shape [gives_rules]: "ip < NINODE \<Longrightarrow> gives shape (\<lambda>_. True) (open_fail ip)"
  unfolding open_fail_def by (intro bind_rules gives_rules; auto simp: shape_simps dest: shape_dest)

lemma open_inode_shape: "gives shape (below NINODE) (open_inode path omode)"
  unfolding open_inode_def by (intro bind_rules gives_rules; auto simp: shape_simps dest: shape_dest)

lemmas open_inode_bind [bind_rules] = open_inode_shape [THEN gives_bind]
lemmas open_inode_any [gives_rules] = open_inode_shape open_inode_shape [THEN gives_any]

lemma open_file_shape [gives_rules]: "ip < NINODE \<Longrightarrow> gives shape (\<lambda>_. True) (open_file ip omode)"
  unfolding open_file_def by (intro bind_rules gives_rules; auto simp: shape_simps dest: shape_dest)

lemma sys_open_shape [gives_rules]: "gives shape (\<lambda>_. True) sys_open"
  unfolding sys_open_def by (intro bind_rules gives_rules; auto simp: shape_simps dest: shape_dest)

lemma sys_mkdir_shape [gives_rules]: "gives shape (\<lambda>_. True) sys_mkdir"
  unfolding sys_mkdir_def by (intro bind_below bind_rules gives_rules; auto simp: shape_simps dest: shape_dest)

lemma sys_mknod_shape [gives_rules]: "gives shape (\<lambda>_. True) sys_mknod"
  unfolding sys_mknod_def by (intro bind_below bind_rules gives_rules; auto simp: shape_simps dest: shape_dest)

lemma sys_chdir_shape [gives_rules]: "gives shape (\<lambda>_. True) sys_chdir"
  unfolding sys_chdir_def by (intro bind_below bind_rules gives_rules; auto simp: shape_simps dest: shape_dest)

lemma exec_argv_shape [gives_rules]: "gives shape (\<lambda>_. True) (exec_argv x1 x2)"
  by (induction x1 arbitrary: x2; simp only: exec_argv.simps; intro bind_rules gives_rules; auto simp: shape_simps dest: shape_dest)

lemma sys_exec_shape [gives_rules]: "gives shape (\<lambda>_. True) sys_exec"
  unfolding sys_exec_def by (intro bind_rules gives_rules; auto simp: shape_simps dest: shape_dest)

lemma sys_pipe_bad_shape [gives_rules]: "f < NFILE \<Longrightarrow> g < NFILE \<Longrightarrow> gives shape (\<lambda>_. True) (sys_pipe_bad f g fd0)"
  unfolding sys_pipe_bad_def by (intro bind_rules gives_rules; auto simp: shape_simps dest: shape_dest)

lemma sys_pipe_shape [gives_rules]: "gives shape (\<lambda>_. True) sys_pipe"
  unfolding sys_pipe_def by (intro bind_rules gives_rules; auto simp: shape_simps dest: shape_dest)

section \<open>The functions of theory Trap\<close>

lemma sys_fork_shape [gives_rules]: "gives shape (\<lambda>_. True) sys_fork"
  unfolding sys_fork_def by (intro bind_rules gives_rules; auto simp: shape_simps dest: shape_dest)

lemma sys_exit_shape [gives_rules]: "gives shape (\<lambda>_. True) sys_exit"
  unfolding sys_exit_def by (intro bind_rules gives_rules; auto simp: shape_simps dest: shape_dest)

lemma sys_wait_shape [gives_rules]: "gives shape (\<lambda>_. True) sys_wait"
  unfolding sys_wait_def by (intro bind_rules gives_rules; auto simp: shape_simps dest: shape_dest)

lemma sys_kill_shape [gives_rules]: "gives shape (\<lambda>_. True) sys_kill"
  unfolding sys_kill_def by (intro bind_rules gives_rules; auto simp: shape_simps dest: shape_dest)

lemma sys_getpid_shape [gives_rules]: "gives shape (\<lambda>_. True) sys_getpid"
  unfolding sys_getpid_def by (intro bind_rules gives_rules; auto simp: shape_simps dest: shape_dest)

lemma sys_sbrk_shape [gives_rules]: "gives shape (\<lambda>_. True) sys_sbrk"
  unfolding sys_sbrk_def by (intro bind_rules gives_rules; auto simp: shape_simps dest: shape_dest)

lemma sleep_until_shape [gives_rules]: "gives shape (\<lambda>_. True) (sleep_until n ticks0)"
  unfolding sleep_until_def by (intro bind_rules gives_rules; auto simp: shape_simps dest: shape_dest)

lemma sys_sleep_shape [gives_rules]: "gives shape (\<lambda>_. True) sys_sleep"
  unfolding sys_sleep_def by (intro bind_rules gives_rules; auto simp: shape_simps dest: shape_dest)

lemma sys_uptime_shape [gives_rules]: "gives shape (\<lambda>_. True) sys_uptime"
  unfolding sys_uptime_def by (intro bind_rules gives_rules; auto simp: shape_simps dest: shape_dest)

lemma create_home_directory_shape [gives_rules]: "gives shape (\<lambda>_. True) (create_home_directory username uid)"
  unfolding create_home_directory_def by (intro bind_rules gives_rules; auto simp: shape_simps dest: shape_dest)

lemma set_cwd_as_home_directory_shape [gives_rules]: "gives shape (\<lambda>_. True) (set_cwd_as_home_directory username)"
  unfolding set_cwd_as_home_directory_def by (intro bind_rules gives_rules; auto simp: shape_simps dest: shape_dest)

lemma sys_login_shape [gives_rules]: "gives shape (\<lambda>_. True) sys_login"
  unfolding sys_login_def by (intro bind_rules gives_rules; auto simp: shape_simps dest: shape_dest)

lemma sys_addUser_shape [gives_rules]: "gives shape (\<lambda>_. True) sys_addUser"
  unfolding sys_addUser_def by (intro bind_rules gives_rules; auto simp: shape_simps dest: shape_dest)

lemma sys_deleteUser_shape [gives_rules]: "gives shape (\<lambda>_. True) sys_deleteUser"
  unfolding sys_deleteUser_def by (intro bind_rules gives_rules; auto simp: shape_simps dest: shape_dest)

lemma set_eax_shape [gives_rules]: "gives shape (\<lambda>_. True) (set_eax r)"
  unfolding set_eax_def by (intro bind_rules gives_rules; auto simp: shape_simps dest: shape_dest)

lemma syscalls_shape: "syscalls n = Some f \<Longrightarrow> gives shape (\<lambda>_. True) f"
  by (simp add: syscalls_def split: if_splits; hypsubst; intro gives_rules)

lemma syscall_shape [gives_rules]: "gives shape (\<lambda>_. True) syscall"
  unfolding syscall_def by (intro bind_rules gives_rules; auto intro: syscalls_shape)

lemma exit_if_killed_shape [gives_rules]: "gives shape (\<lambda>_. True) exit_if_killed"
  unfolding exit_if_killed_def by (intro bind_rules gives_rules; auto simp: shape_simps dest: shape_dest)

lemma clock_tick_shape [gives_rules]: "gives shape (\<lambda>_. True) clock_tick"
  unfolding clock_tick_def by (intro bind_rules gives_rules; auto simp: shape_simps dest: shape_dest)

lemma console_input_shape [gives_rules]: "gives shape (\<lambda>_. True) (console_input cs)"
  unfolding console_input_def by (intro bind_rules gives_rules; auto simp: shape_simps dest: shape_dest)

lemma kbdintr_shape [gives_rules]: "gives shape (\<lambda>_. True) (kbdintr codes)"
  unfolding kbdintr_def by (intro bind_rules gives_rules; auto simp: shape_simps dest: shape_dest)

lemma uartintr_shape [gives_rules]: "gives shape (\<lambda>_. True) (uartintr bs)"
  unfolding uartintr_def by (intro bind_rules gives_rules; auto simp: shape_simps dest: shape_dest)

lemma unexpected_trap_shape [gives_rules]: "gives shape (\<lambda>_. True) (unexpected_trap tf)"
  unfolding unexpected_trap_def by (intro bind_rules gives_rules; auto simp: shape_simps dest: shape_dest)

lemma handle_irq_shape [gives_rules]: "gives shape (\<lambda>_. True) (handle_irq tf inp)"
  unfolding handle_irq_def by (intro bind_rules gives_rules; auto simp: shape_simps dest: shape_dest)

lemma exit_to_user_shape [gives_rules]: "gives shape (\<lambda>_. True) (exit_to_user tf)"
  unfolding exit_to_user_def by (intro bind_rules gives_rules; auto simp: shape_simps dest: shape_dest)

lemma trap_resume_shape [gives_rules]: "gives shape (\<lambda>_. True) (trap_resume tf)"
  unfolding trap_resume_def by (intro bind_rules gives_rules; auto simp: shape_simps dest: shape_dest)

lemma trap_shape [gives_rules]: "gives shape (\<lambda>_. True) (trap tf inp)"
  unfolding trap_def by (intro bind_rules gives_rules; auto simp: shape_simps dest: shape_dest)

lemma main_shape [gives_rules]: "gives shape (\<lambda>_. True) main"
  unfolding main_def by (intro bind_rules gives_rules; auto simp: shape_simps dest: shape_dest)

section \<open>The whole kernel\<close>

text \<open>
  The kernel as it is loaded, with zeros in its tables, and disk blocks and a screen of any contents; the states \<open>main\<close> leaves; and the steps from
  there: a trap (system call, interrupt or fault) and the return from one that had given up the CPU, up to where they return or give up
  the CPU, and the scheduler choosing a process and taking the CPU back.
\<close>

definition loaded_kernel :: "'m kproc_scheme \<Rightarrow> bool" where
  "loaded_kernel s \<longleftrightarrow> ptab s = replicate NPROC zero_proc \<and> cur s = None \<and> initproc s = None \<and>
     bufs s = replicate NBUF zero_buf \<and> lru s = [] \<and> (\<forall>bn. length (disk s bn) = BSIZE) \<and>
     l_block s = replicate LOGSIZE 0 \<and> l_n s = 0 \<and> icache s = replicate NINODE zero_inode \<and>
     utable s = replicate NUSER zero_user \<and> utable_ip s = None \<and>
     ftable s = replicate NFILE \<lparr>f_type = FD_NONE, f_ref = 0, f_readable = False, f_writable = False, f_pipe = 0, f_ip = 0, f_off = 0\<rparr> \<and>
     (\<forall>a. length (pi_data (pipes s a)) = PIPESIZE) \<and> length (crt s) = 25 * 80 \<and> crt_pos s \<le> 24 * 80 \<and>
     in_buf s = replicate INPUT_BUF 0 \<and> in_r s = 0 \<and> in_w s = 0 \<and> in_e s = 0"

definition leaves :: "('s, 'a) km \<Rightarrow> 's \<Rightarrow> 's \<Rightarrow> bool" where
  "leaves m s t \<longleftrightarrow> (\<exists>x. m s = Ok x t) \<or> m s = Switch t"

definition booted :: "'m kproc_scheme \<Rightarrow> bool" where
  "booted t \<longleftrightarrow> (\<exists>s. loaded_kernel s \<and> leaves main s t)"

inductive kernel_step :: "'m ktrap_scheme \<Rightarrow> 'm ktrap_scheme \<Rightarrow> bool" where
  step_trap: "leaves (trap tf inp) s t \<Longrightarrow> kernel_step s t"
| step_resume: "leaves (trap_resume tf) s t \<Longrightarrow> kernel_step s t"
| step_chosen: "j < NPROC \<Longrightarrow> leaves (switchuvm (Some j)) (s\<lparr>cur := Some j\<rparr>) t \<Longrightarrow>
    kernel_step s (upd_proc j (\<lambda>p. p\<lparr>p_state := RUNNING\<rparr>) t)"
| step_back: "leaves switchkvm s t \<Longrightarrow> kernel_step s (t\<lparr>cur := None\<rparr>)"

lemma zero_entries: "wf_proc zero_proc" "wf_buf zero_buf" "wf_inode zero_inode"
  "wf_file \<lparr>f_type = FD_NONE, f_ref = 0, f_readable = False, f_writable = False, f_pipe = 0, f_ip = 0, f_off = 0\<rparr>"
  by (simp_all add: wf_proc_def wf_buf_def wf_inode_def wf_file_def zero_proc_def zero_buf_def zero_inode_def list_all_iff NINODE_def)

lemma leaves_keeps: "gives I Q m \<Longrightarrow> I s \<Longrightarrow> leaves m s t \<Longrightarrow> I t"
  unfolding leaves_def gives_def by (elim allE [of _ s] impE disjE exE) (simp_all add: post_def)

lemma loaded_shape: "loaded_kernel s \<Longrightarrow> shape s"
  by (simp add: loaded_kernel_def shape_def zero_entries ring_ok_def)

interpretation kern: invariant_system booted kernel_step shape
proof
  show "booted s \<Longrightarrow> shape s" for s :: "'a ktrap_scheme"
    by (auto simp: booted_def intro: leaves_keeps [OF main_shape] loaded_shape)
next
  fix s t :: "'a ktrap_scheme"
  assume s: "shape s" and "kernel_step s t"
  from this(2) show "shape t"
  proof cases
    case (step_chosen j u)
    have "shape (s\<lparr>cur := Some j\<rparr>)" using step_chosen(2) by (intro shape_indices(1) [OF s]) simp
    from leaves_keeps [OF switchuvm_shape this step_chosen(3)] show ?thesis unfolding step_chosen(1) by (intro shape_upd_proc) simp_all
  next
    case (step_back u)
    from leaves_keeps [OF switchkvm_shape s step_back(2)] show ?thesis unfolding step_back(1) by (intro shape_indices(1)) simp_all
  next
    case (step_trap tf inp)
    show ?thesis by (rule leaves_keeps [OF trap_shape s step_trap])
  next
    case (step_resume tf)
    show ?thesis by (rule leaves_keeps [OF trap_resume_shape s step_resume])
  qed
qed

text \<open>
  In every state the kernel reaches after it has booted, the tables have their sizes and no index kept in them is out of range.
\<close>

theorem kernel_tables_safe: "reachable booted kernel_step s \<Longrightarrow> shape s"
  by (rule kern.reachable_inv)

end
