(* ===== verification/Shell.thy ===== *)
theory Shell
  imports Sysfile
begin

text \<open>
  The command parser of the shell (\<open>sh.c\<close>). The line is the list \<open>s\<close> of its bytes before the terminating NUL; a pointer into it is an
  offset, \<open>es\<close> is \<open>length s\<close>, and \<open>char_at s p\<close> reads the byte there, which is the NUL at \<open>es\<close>. The commands are trees as the code builds
  them, except that \<open>parseexec\<close> collects arguments and redirections in two lists and builds the tree at the end, where the code
  puts the arguments into a node that the redirections already wrap. A panic of the parser ends the shell's child and is the
  result \<open>Syntax\<close>; the message of \<open>parsecmd\<close> about leftovers is not modelled. The functions that call each other take fuel; \<open>parsecmd\<close> starts with enough of it for every line.
\<close>

section \<open>Tokens\<close>

definition whitespace :: bytes where "whitespace = [32, 9, 13, 10, 11]"
definition symbols :: bytes where "symbols = [60, 124, 62, 38, 59, 40, 41]"
definition MAXARGS :: nat where "MAXARGS = 10"

definition strchr :: "bytes \<Rightarrow> u8 \<Rightarrow> bool" where
  "strchr cs c \<longleftrightarrow> c \<in> set (takeWhile (\<lambda>x. x \<noteq> 0) cs)"

definition char_at :: "bytes \<Rightarrow> nat \<Rightarrow> u8" where
  "char_at s p = (if p < length s then s ! p else 0)"

definition skip_white :: "bytes \<Rightarrow> nat \<Rightarrow> nat" where
  "skip_white s p = p + length (takeWhile (strchr whitespace) (drop p s))"

abbreviation wordchar :: "u8 \<Rightarrow> bool" where
  "wordchar c \<equiv> \<not> strchr whitespace c \<and> \<not> strchr symbols c"

text \<open>The switch of \<open>gettoken\<close>: the kind of the token that starts at \<open>q\<close> and where it ends.\<close>

definition token_at :: "bytes \<Rightarrow> nat \<Rightarrow> u8 \<times> nat" where
  "token_at s q =
     (let c = char_at s q in
      if c = 0 then (c, q)
      else if c \<in> {124, 40, 41, 59, 38, 60} then (c, q + 1)
      else if c = 62 then (if char_at s (q + 1) = 62 then (43, q + 2) else (c, q + 1))
      else (97, q + length (takeWhile wordchar (drop q s))))"

text \<open>The kind of the token, where it starts, where it ends and where the next one starts.\<close>

definition gettoken :: "bytes \<Rightarrow> nat \<Rightarrow> u8 \<times> nat \<times> nat \<times> nat" where
  "gettoken s p =
     (let q = skip_white s p; (tok, e) = token_at s q in (tok, q, e, skip_white s e))"

definition peek :: "bytes \<Rightarrow> nat \<Rightarrow> bytes \<Rightarrow> bool \<times> nat" where
  "peek s p toks =
     (let q = skip_white s p in (char_at s q \<noteq> 0 \<and> strchr toks (char_at s q), q))"

section \<open>Commands\<close>

text \<open>A word is a pair of offsets in what the parser builds; the type of words is a parameter so that they can be replaced by their bytes.\<close>

datatype 'w redir = Redir (r_word: 'w) (r_mode: u32) (r_fd: nat)

datatype 'w cmd =
    EXEC "'w list"
  | REDIR "'w cmd" "'w redir"
  | PIPE "'w cmd" "'w cmd"
  | LIST "'w cmd" "'w cmd"
  | BACK "'w cmd"

type_synonym span = "nat \<times> nat"

definition redircmds :: "'w cmd \<Rightarrow> 'w redir list \<Rightarrow> 'w cmd" where
  "redircmds c rs = foldl REDIR c rs"

section \<open>The parser\<close>

datatype 'a parsed = Parsed 'a nat | Syntax string | Fuel

fun then_parse :: "'a parsed \<Rightarrow> ('a \<Rightarrow> nat \<Rightarrow> 'b parsed) \<Rightarrow> 'b parsed" where
  "then_parse (Parsed x p) f = f x p"
| "then_parse (Syntax e) f = Syntax e"
| "then_parse Fuel f = Fuel"

definition redir_for :: "u8 \<Rightarrow> 'w \<Rightarrow> 'w redir" where
  "redir_for tok w = (if tok = 60 then Redir w O_RDONLY 0 else Redir w (O_WRONLY OR O_CREATE) 1)"

fun parseredirs :: "nat \<Rightarrow> bytes \<Rightarrow> nat \<Rightarrow> span redir list parsed" where
  "parseredirs 0 s p = Fuel"
| "parseredirs (Suc n) s p =
     (let (more, p) = peek s p [60, 62] in
      if \<not> more then Parsed [] p
      else
        let (tok, _, _, p) = gettoken s p; (kind, q, eq, p) = gettoken s p in
        if kind \<noteq> 97 then Syntax ''missing file for redirection''
        else then_parse (parseredirs n s p) (\<lambda>rs p. Parsed (redir_for tok (q, eq) # rs) p))"

text \<open>The loop of \<open>parseexec\<close>, with \<open>argc\<close> arguments so far.\<close>

fun parseargs :: "nat \<Rightarrow> nat \<Rightarrow> bytes \<Rightarrow> nat \<Rightarrow> (span list \<times> span redir list) parsed" where
  "parseargs 0 argc s p = Fuel"
| "parseargs (Suc n) argc s p =
     (let (stop, p) = peek s p [124, 41, 38, 59] in
      if stop then Parsed ([], []) p
      else
        let (tok, q, eq, p) = gettoken s p in
        if tok = 0 then Parsed ([], []) p
        else if tok \<noteq> 97 then Syntax ''syntax''
        else if argc + 1 \<ge> MAXARGS then Syntax ''too many args''
        else
          then_parse (parseredirs n s p) (\<lambda>rs p.
          then_parse (parseargs n (argc + 1) s p) (\<lambda>(as, rs') p.
          Parsed ((q, eq) # as, rs @ rs') p)))"

text \<open>The loop of \<open>parseline\<close>: how many times \<open>backcmd\<close> is applied.\<close>

fun parsebacks :: "nat \<Rightarrow> bytes \<Rightarrow> nat \<Rightarrow> nat parsed" where
  "parsebacks 0 s p = Fuel"
| "parsebacks (Suc n) s p =
     (let (more, p) = peek s p [38] in
      if \<not> more then Parsed 0 p
      else
        let (_, _, _, p) = gettoken s p in
        then_parse (parsebacks n s p) (\<lambda>k p. Parsed (Suc k) p))"

fun parseline :: "nat \<Rightarrow> bytes \<Rightarrow> nat \<Rightarrow> span cmd parsed"
and parsepipe :: "nat \<Rightarrow> bytes \<Rightarrow> nat \<Rightarrow> span cmd parsed"
and parseblock :: "nat \<Rightarrow> bytes \<Rightarrow> nat \<Rightarrow> span cmd parsed"
and parseexec :: "nat \<Rightarrow> bytes \<Rightarrow> nat \<Rightarrow> span cmd parsed" where
  "parseline 0 s p = Fuel"
| "parseline (Suc n) s p =
     then_parse (parsepipe n s p) (\<lambda>c p.
     then_parse (parsebacks n s p) (\<lambda>k p.
     let c = (BACK ^^ k) c; (more, p) = peek s p [59] in
     if \<not> more then Parsed c p
     else
       let (_, _, _, p) = gettoken s p in
       then_parse (parseline n s p) (\<lambda>d p. Parsed (LIST c d) p)))"
| "parsepipe 0 s p = Fuel"
| "parsepipe (Suc n) s p =
     then_parse (parseexec n s p) (\<lambda>c p.
     let (more, p) = peek s p [124] in
     if \<not> more then Parsed c p
     else
       let (_, _, _, p) = gettoken s p in
       then_parse (parsepipe n s p) (\<lambda>d p. Parsed (PIPE c d) p))"
| "parseblock 0 s p = Fuel"
| "parseblock (Suc n) s p =
     (let (open, p) = peek s p [40] in
      if \<not> open then Syntax ''parseblock''
      else
        let (_, _, _, p) = gettoken s p in
        then_parse (parseline n s p) (\<lambda>c p.
        let (close, p) = peek s p [41] in
        if \<not> close then Syntax ''syntax - missing )''
        else
          let (_, _, _, p) = gettoken s p in
          then_parse (parseredirs n s p) (\<lambda>rs p. Parsed (redircmds c rs) p)))"
| "parseexec 0 s p = Fuel"
| "parseexec (Suc n) s p =
     (let (block, p) = peek s p [40] in
      if block then parseblock n s p
      else
        then_parse (parseredirs n s p) (\<lambda>rs p.
        then_parse (parseargs n 0 s p) (\<lambda>(as, rs') p.
        Parsed (redircmds (EXEC as) (rs @ rs')) p)))"

definition parse_fuel :: "bytes \<Rightarrow> nat" where
  "parse_fuel s = 4 * length s + 4"

primrec nulterminate :: "span cmd \<Rightarrow> bytes \<Rightarrow> bytes" where
  "nulterminate (EXEC as) buf = fold (\<lambda>(_, e) b. b[e := 0]) as buf"
| "nulterminate (REDIR c r) buf = (nulterminate c buf)[snd (r_word r) := 0]"
| "nulterminate (PIPE c d) buf = nulterminate d (nulterminate c buf)"
| "nulterminate (LIST c d) buf = nulterminate d (nulterminate c buf)"
| "nulterminate (BACK c) buf = nulterminate c buf"

text \<open>The tree and the buffer, with its NUL, that \<open>parsecmd\<close> leaves behind.\<close>

definition parsecmd :: "bytes \<Rightarrow> (span cmd \<times> bytes) parsed" where
  "parsecmd s =
     then_parse (parseline (parse_fuel s) s 0) (\<lambda>c p.
     let (_, p) = peek s p [] in
     if p \<noteq> length s then Syntax ''syntax''
     else Parsed (c, nulterminate c (s @ [0])) p)"

section \<open>The rest of the shell's loop\<close>

definition is_logout :: "bytes \<Rightarrow> bool" where
  "is_logout buf \<longleftrightarrow>
     (\<forall>i<6. [108, 111, 103, 111, 117, 116] ! i = char_at buf i) \<and> strchr whitespace (char_at buf 6)"

section \<open>Tokens lie in the line\<close>

lemma skip_white_le: "p \<le> skip_white s p" "p \<le> length s \<Longrightarrow> skip_white s p \<le> length s"
  using length_takeWhile_le [of "strchr whitespace" "drop p s"] by (auto simp: skip_white_def)

lemma char_at_0: "char_at s p \<noteq> 0 \<Longrightarrow> p < length s"
  by (auto simp: char_at_def split: if_splits)

text \<open>A word: as many word characters as there are, from \<open>q\<close> to before \<open>e\<close>.\<close>

definition tok_ok :: "bytes \<Rightarrow> nat \<times> nat \<Rightarrow> bool" where
  "tok_ok s = (\<lambda>(q, e). q < e \<and> e \<le> length s \<and> (\<forall>i. q \<le> i \<longrightarrow> i < e \<longrightarrow> wordchar (s ! i)) \<and>
     (e < length s \<longrightarrow> \<not> wordchar (s ! e)))"

lemma word_tok:
  assumes "q < length s" and "wordchar (s ! q)"
  shows "tok_ok s (q, q + length (takeWhile wordchar (drop q s)))"
proof -
  let ?w = "takeWhile wordchar (drop q s)"
  have "drop q s = s ! q # drop (Suc q) s" using assms(1) by (simp add: Cons_nth_drop_Suc)
  then have "0 < length ?w" using assms(2) by simp
  moreover have "q + length ?w \<le> length s" using length_takeWhile_le [of wordchar "drop q s"] assms(1) by simp
  moreover have "wordchar (s ! i)" if "q \<le> i" "i < q + length ?w" for i
  proof -
    have "?w ! (i - q) = s ! i" using that assms(1) by (subst takeWhile_nth) (auto simp: nth_drop)
    then show ?thesis using that set_takeWhileD [of "s ! i" wordchar "drop q s"] nth_mem [of "i - q" ?w] by auto
  qed
  moreover have "\<not> wordchar (s ! (q + length ?w))" if "q + length ?w < length s"
    using nth_length_takeWhile [of wordchar "drop q s"] that assms(1) by (auto simp: nth_drop)
  ultimately show ?thesis by (auto simp: tok_ok_def)
qed

lemma symbol_chars [simp]:
  "strchr whitespace c \<longleftrightarrow> c \<in> {32, 9, 13, 10, 11}" "strchr symbols c \<longleftrightarrow> c \<in> {60, 124, 62, 38, 59, 40, 41}"
  by (simp_all add: strchr_def whitespace_def symbols_def)

lemma skip_white_stop: "skip_white s p < length s \<Longrightarrow> \<not> strchr whitespace (s ! skip_white s p)"
  using nth_length_takeWhile [of "strchr whitespace" "drop p s"] by (auto simp: skip_white_def nth_drop simp del: symbol_chars)

lemma token_at_ok:
  assumes "token_at s q = (tok, e)" and "q \<le> length s" and "q < length s \<longrightarrow> \<not> strchr whitespace (s ! q)"
  shows "q \<le> e \<and> e \<le> length s \<and> (tok \<noteq> 0 \<longrightarrow> q < e) \<and> (tok = 97 \<longrightarrow> tok_ok s (q, e)) \<and> (tok = 0 \<longleftrightarrow> char_at s q = 0)"
proof (cases "char_at s q \<in> {0, 124, 40, 41, 59, 38, 60, 62}")
  case True
  show ?thesis
  proof (cases "char_at s q = 62 \<and> char_at s (q + 1) = 62")
    case True
    then show ?thesis using assms(1) char_at_0 [of s "q + 1"] by (simp add: token_at_def)
  next
    case False
    then show ?thesis using True assms(1,2) char_at_0 [of s q] by (auto simp: token_at_def)
  qed
next
  case False
  then have l: "q < length s" and e: "tok = 97" "e = q + length (takeWhile wordchar (drop q s))"
    using assms(1) char_at_0 [of s q] by (simp_all add: token_at_def Let_def del: symbol_chars)
  then have "wordchar (s ! q)" using False assms(3) by (simp add: char_at_def)
  then have t: "tok_ok s (q, e)" using word_tok [OF l] e(2) by (simp del: symbol_chars)
  then show ?thesis using e(1) False by (simp add: tok_ok_def)
qed

lemma gettoken_parts:
  assumes "gettoken s p = (tok, q, e, p')"
  shows "q = skip_white s p" "token_at s q = (tok, e)" "p' = skip_white s e"
  using assms by (simp_all add: gettoken_def Let_def split: prod.splits)

lemma token_end:
  assumes "gettoken s p = (tok, q, e, p')" and "p \<le> length s"
  shows "p \<le> q" "q \<le> e" "e \<le> length s" "tok \<noteq> 0 \<Longrightarrow> q < e" "tok = 97 \<Longrightarrow> tok_ok s (q, e)" "tok = 0 \<longleftrightarrow> char_at s q = 0"
  using token_at_ok [OF gettoken_parts(2) [OF assms(1)]] gettoken_parts(1) [OF assms(1)] skip_white_le [of p s] skip_white_stop [of s p] assms(2)
  by (simp_all del: symbol_chars)

lemma gettoken_ok:
  assumes "p \<le> length s" and "gettoken s p = (tok, q, e, p')"
  shows "p \<le> p'" "p' \<le> length s" "tok \<noteq> 0 \<Longrightarrow> p < p'" "tok = 97 \<Longrightarrow> tok_ok s (q, e)"
  using token_end [OF assms(2,1)] gettoken_parts(3) [OF assms(2)] skip_white_le [of e s] by auto

lemma skip_white_idem [simp]: "skip_white s (skip_white s p) = skip_white s p"
proof -
  let ?q = "skip_white s p"
  have "takeWhile (strchr whitespace) (drop ?q s) = []"
  proof (cases "?q < length s")
    case True
    then have "drop ?q s = s ! ?q # drop (Suc ?q) s" by (simp add: Cons_nth_drop_Suc)
    then show ?thesis using skip_white_stop [OF True] by (simp del: symbol_chars)
  qed simp
  then show ?thesis by (simp add: skip_white_def [of s ?q])
qed

lemma peek_ok:
  assumes "p \<le> length s" and "peek s p cs = (b, p')"
  shows "p \<le> p'" "p' \<le> length s" "b \<Longrightarrow> gettoken s p' = (tok, q, e, p'') \<Longrightarrow> tok \<noteq> 0"
proof -
  have p': "p' = skip_white s p" and b: "b = (char_at s p' \<noteq> 0 \<and> strchr cs (char_at s p'))"
    using assms(2) by (auto simp: peek_def Let_def)
  show "p \<le> p'" and le: "p' \<le> length s" using skip_white_le [of p s] assms(1) p' by simp_all
  assume g: b "gettoken s p' = (tok, q, e, p'')"
  have "q = p'" using gettoken_parts(1) [OF g(2)] skip_white_idem [of s p] by (simp add: p')
  then show "tok \<noteq> 0" using token_end(6) [OF g(2) le] g(1) b by simp
qed

section \<open>The parser ends\<close>

text \<open>The parser has not run out of fuel; on success it has moved forward and the result satisfies \<open>Q\<close>.\<close>

definition parses :: "('a \<Rightarrow> bool) \<Rightarrow> bytes \<Rightarrow> nat \<Rightarrow> 'a parsed \<Rightarrow> bool" where
  "parses Q s p x = (case x of Parsed v p' \<Rightarrow> p \<le> p' \<and> p' \<le> length s \<and> Q v | Syntax e \<Rightarrow> True | Fuel \<Rightarrow> False)"

lemma parses_simps [simp]:
  "parses Q s p (Parsed v p') \<longleftrightarrow> p \<le> p' \<and> p' \<le> length s \<and> Q v" "parses Q s p (Syntax e)" "\<not> parses Q s p Fuel"
  by (simp_all add: parses_def)

lemma parses_then:
  assumes "parses Q s p x" and "\<And>v p'. p \<le> p' \<Longrightarrow> p' \<le> length s \<Longrightarrow> Q v \<Longrightarrow> parses R s p' (f v p')"
  shows "parses R s p (then_parse x f)"
proof (cases x)
  case (Parsed v p')
  then show ?thesis using assms(1) assms(2) [of p' v] by (cases "f v p'") auto
qed (use assms(1) in auto)

lemma parses_less: "parses Q s p' x \<Longrightarrow> p \<le> p' \<Longrightarrow> parses Q s p x"
  by (cases x) auto

text \<open>What \<open>peek\<close> has seen: a token starts here.\<close>

definition at_tok :: "bytes \<Rightarrow> nat \<Rightarrow> bool" where
  "at_tok s p \<longleftrightarrow> p < length s \<and> char_at s p \<noteq> 0 \<and> skip_white s p = p"

lemma parses_peek_any:
  assumes "p \<le> length s" and "\<And>p1. p \<le> p1 \<Longrightarrow> p1 \<le> length s \<Longrightarrow> parses Q s p1 (f False p1)"
    and "\<And>p1. p \<le> p1 \<Longrightarrow> at_tok s p1 \<Longrightarrow> parses Q s p1 (f True p1)"
  shows "parses Q s p (case peek s p cs of (b, p1) \<Rightarrow> f b p1)"
proof -
  let ?q = "skip_white s p"
  note w = skip_white_le [of p s]
  have "parses Q s ?q (f (fst (peek s p cs)) ?q)"
  proof (cases "fst (peek s p cs)")
    case True
    then have "at_tok s ?q" using char_at_0 [of s ?q] by (simp add: peek_def Let_def at_tok_def)
    then show ?thesis using assms(3) [of ?q] w True by simp
  next
    case False
    then show ?thesis using assms(1) assms(2) [of ?q] w by simp
  qed
  then have "parses Q s p (f (fst (peek s p cs)) ?q)" using w(1) by (rule parses_less)
  then show ?thesis by (simp add: peek_def Let_def)
qed

lemma parses_peek:
  assumes "p \<le> length s" and "\<And>p1. p \<le> p1 \<Longrightarrow> p1 \<le> length s \<Longrightarrow> parses Q s p1 (h p1)"
    and "\<And>p1. p \<le> p1 \<Longrightarrow> at_tok s p1 \<Longrightarrow> parses Q s p1 (g p1)"
  shows "parses Q s p (case peek s p cs of (b, p1) \<Rightarrow> if \<not> b then h p1 else g p1)"
  by (rule parses_peek_any) (use assms in auto)

lemma parses_peek_stop:
  assumes "p \<le> length s" and "\<And>p1. p \<le> p1 \<Longrightarrow> p1 \<le> length s \<Longrightarrow> parses Q s p1 (h p1)"
    and "\<And>p1. p \<le> p1 \<Longrightarrow> at_tok s p1 \<Longrightarrow> parses Q s p1 (g p1)"
  shows "parses Q s p (case peek s p cs of (b, p1) \<Rightarrow> if b then g p1 else h p1)"
  by (rule parses_peek_any) (use assms in auto)

lemma parses_if: "(b \<Longrightarrow> parses Q s p x) \<Longrightarrow> (\<not> b \<Longrightarrow> parses Q s p y) \<Longrightarrow> parses Q s p (if b then x else y)"
  by simp

lemma at_tok_less: "at_tok s p \<Longrightarrow> p < length s"
  by (simp add: at_tok_def)

lemma parses_token:
  assumes "at_tok s p" and "\<And>tok q e p1. gettoken s p = (tok, q, e, p1) \<Longrightarrow> p < p1 \<Longrightarrow> p1 \<le> length s \<Longrightarrow> parses Q s p1 (f tok q e p1)"
  shows "parses Q s p (case gettoken s p of (tok, q, e, p1) \<Rightarrow> f tok q e p1)"
proof -
  obtain tok q e p1 where g: "gettoken s p = (tok, q, e, p1)" by (metis prod_cases4)
  have le: "p \<le> length s" "q = p" using assms(1) gettoken_parts(1) [OF g] by (simp_all add: at_tok_def)
  have "p < p1" using gettoken_ok(3) [OF le(1) g] token_end(6) [OF g le(1)] assms(1) le(2) by (simp add: at_tok_def)
  then show ?thesis using assms(2) [OF g] gettoken_ok(2) [OF le(1) g] g parses_less by fastforce
qed

lemma parses_any_token:
  assumes "p \<le> length s" and "\<And>tok q e p1. p \<le> p1 \<Longrightarrow> p1 \<le> length s \<Longrightarrow> tok \<noteq> 0 \<longrightarrow> p < p1 \<Longrightarrow> tok = 97 \<longrightarrow> tok_ok s (q, e) \<Longrightarrow>
    parses Q s p1 (f tok q e p1)"
  shows "parses Q s p (case gettoken s p of (tok, q, e, p1) \<Rightarrow> f tok q e p1)"
proof -
  obtain tok q e p1 where g: "gettoken s p = (tok, q, e, p1)" by (metis prod_cases4)
  note t = gettoken_ok [OF assms(1) g]
  show ?thesis using assms(2) [OF t(1,2), of tok q e] t(1,3,4) g parses_less by fastforce
qed

definition redirs_ok :: "bytes \<Rightarrow> span redir list \<Rightarrow> bool" where
  "redirs_ok s rs \<longleftrightarrow> (\<forall>r\<in>set rs. tok_ok s (r_word r))"

lemma parseredirs_ok:
  "p \<le> length s \<Longrightarrow> length s - p < n \<Longrightarrow> parses (redirs_ok s) s p (parseredirs n s p)"
proof (induction n arbitrary: p)
  case (Suc n)
  show ?case
    unfolding parseredirs.simps Let_def
    by (intro parses_peek parses_token parses_any_token parses_if parses_then [OF Suc.IH])
      (use Suc.prems in \<open>auto simp: redirs_ok_def redir_for_def\<close>)
qed simp

lemma parsebacks_ok:
  "p \<le> length s \<Longrightarrow> length s - p < n \<Longrightarrow> parses (\<lambda>_. True) s p (parsebacks n s p)"
proof (induction n arbitrary: p)
  case (Suc n)
  show ?case
    unfolding parsebacks.simps Let_def
    by (intro parses_peek parses_token parses_then [OF Suc.IH]) (use Suc.prems in auto)
qed simp

lemma parseargs_ok:
  "p \<le> length s \<Longrightarrow> length s - p < n \<Longrightarrow> argc < MAXARGS \<Longrightarrow>
   parses (\<lambda>(as, rs). (\<forall>a\<in>set as. tok_ok s a) \<and> redirs_ok s rs \<and> length as + argc < MAXARGS) s p (parseargs n argc s p)"
proof (induction n arbitrary: p argc)
  case (Suc n)
  show ?case
    unfolding parseargs.simps Let_def
    by (intro parses_peek_stop parses_any_token parses_if parses_then [OF parseredirs_ok] parses_then [OF Suc.IH])
      (use Suc.prems in \<open>auto simp: redirs_ok_def dest: at_tok_less\<close>)
qed simp

primrec words :: "'w cmd \<Rightarrow> 'w list" where
  "words (EXEC as) = as"
| "words (REDIR c r) = words c @ [r_word r]"
| "words (PIPE c d) = words c @ words d"
| "words (LIST c d) = words c @ words d"
| "words (BACK c) = words c"

text \<open>The arguments and the null pointer that ends them fit into \<open>argv\<close>.\<close>

primrec args_fit :: "'w cmd \<Rightarrow> bool" where
  "args_fit (EXEC as) = (length as < MAXARGS)"
| "args_fit (REDIR c r) = args_fit c"
| "args_fit (PIPE c d) = (args_fit c \<and> args_fit d)"
| "args_fit (LIST c d) = (args_fit c \<and> args_fit d)"
| "args_fit (BACK c) = args_fit c"

definition cmd_ok :: "bytes \<Rightarrow> span cmd \<Rightarrow> bool" where
  "cmd_ok s c \<longleftrightarrow> (\<forall>w\<in>set (words c). tok_ok s w) \<and> args_fit c"

lemma cmd_ok_simps [simp]:
  "cmd_ok s (EXEC as) \<longleftrightarrow> (\<forall>w\<in>set as. tok_ok s w) \<and> length as < MAXARGS"
  "cmd_ok s (REDIR c r) \<longleftrightarrow> cmd_ok s c \<and> tok_ok s (r_word r)"
  "cmd_ok s (PIPE c d) \<longleftrightarrow> cmd_ok s c \<and> cmd_ok s d" "cmd_ok s (LIST c d) \<longleftrightarrow> cmd_ok s c \<and> cmd_ok s d"
  "cmd_ok s (BACK c) \<longleftrightarrow> cmd_ok s c" "cmd_ok s ((BACK ^^ k) c) \<longleftrightarrow> cmd_ok s c"
proof -
  show "cmd_ok s ((BACK ^^ k) c) \<longleftrightarrow> cmd_ok s c" by (induction k) (simp_all add: cmd_ok_def)
qed (auto simp: cmd_ok_def)

lemma cmd_ok_redirs: "cmd_ok s c \<Longrightarrow> redirs_ok s rs \<Longrightarrow> cmd_ok s (redircmds c rs)"
  by (induction rs arbitrary: c) (auto simp: redircmds_def redirs_ok_def)

lemma parse_ok:
  "(p \<le> length s \<longrightarrow> 4 * (length s - p) + 4 \<le> n \<longrightarrow> parses (cmd_ok s) s p (parseline n s p)) \<and>
   (p \<le> length s \<longrightarrow> 4 * (length s - p) + 3 \<le> n \<longrightarrow> parses (cmd_ok s) s p (parsepipe n s p)) \<and>
   (p < length s \<longrightarrow> 4 * (length s - p) + 1 \<le> n \<longrightarrow> parses (cmd_ok s) s p (parseblock n s p)) \<and>
   (p \<le> length s \<longrightarrow> 4 * (length s - p) + 2 \<le> n \<longrightarrow> parses (cmd_ok s) s p (parseexec n s p))"
proof (induction n arbitrary: p)
  case 0
  then show ?case by simp
next
  case (Suc n)
  have line: "p \<le> length s \<Longrightarrow> 4 * (length s - p) + 4 \<le> n \<Longrightarrow> parses (cmd_ok s) s p (parseline n s p)"
    and pipe: "p \<le> length s \<Longrightarrow> 4 * (length s - p) + 3 \<le> n \<Longrightarrow> parses (cmd_ok s) s p (parsepipe n s p)"
    and block: "p < length s \<Longrightarrow> 4 * (length s - p) + 1 \<le> n \<Longrightarrow> parses (cmd_ok s) s p (parseblock n s p)"
    and exec: "p \<le> length s \<Longrightarrow> 4 * (length s - p) + 2 \<le> n \<Longrightarrow> parses (cmd_ok s) s p (parseexec n s p)" for p
    using Suc.IH by simp_all
  have "parses (cmd_ok s) s p (parseline (Suc n) s p)" if "p \<le> length s" "4 * (length s - p) + 4 \<le> Suc n"
    unfolding parseline.simps Let_def
    by (intro parses_then [OF pipe] parses_then [OF parsebacks_ok] parses_peek parses_token parses_then [OF line]) (use that in auto)
  moreover have "parses (cmd_ok s) s p (parsepipe (Suc n) s p)" if "p \<le> length s" "4 * (length s - p) + 3 \<le> Suc n"
    unfolding parsepipe.simps Let_def
    by (intro parses_then [OF exec] parses_peek parses_token parses_then [OF pipe]) (use that in auto)
  moreover have "parses (cmd_ok s) s p (parseblock (Suc n) s p)" if "p < length s" "4 * (length s - p) + 1 \<le> Suc n"
    unfolding parseblock.simps Let_def
    by (intro parses_peek parses_token parses_then [OF line] parses_then [OF parseredirs_ok])
      (use that in \<open>auto intro: cmd_ok_redirs\<close>)
  moreover have "parses (cmd_ok s) s p (parseexec (Suc n) s p)" if "p \<le> length s" "4 * (length s - p) + 2 \<le> Suc n"
    unfolding parseexec.simps Let_def
    by (intro parses_peek_stop parses_then [OF parseredirs_ok] parses_then [OF parseargs_ok] block)
      (use that in \<open>auto simp: MAXARGS_def redirs_ok_def dest: at_tok_less intro!: cmd_ok_redirs\<close>)
  ultimately show ?case by blast
qed

section \<open>The words that the commands get\<close>

lemma nulterminate_words: "nulterminate c buf = fold (\<lambda>w b. b[snd w := 0]) (words c) buf"
  by (induction c arbitrary: buf) (simp_all add: case_prod_unfold)

lemma nul_at:
  "i < length buf \<Longrightarrow> fold (\<lambda>w b. b[snd w := 0]) ws buf ! i = (if i \<in> snd ` set ws then 0 else buf ! i)"
  "length (fold (\<lambda>w b. b[snd w := 0]) ws buf) = length buf"
  by (induction ws arbitrary: buf) (auto simp: nth_list_update)

lemma word_string:
  assumes ok: "\<forall>w\<in>set ws. tok_ok s w" and w: "(q, e) \<in> set ws" and s: "0 \<notin> set s"
  shows "takeWhile (\<lambda>c. c \<noteq> 0) (drop q (fold (\<lambda>w b. b[snd w := 0]) ws (s @ [0]))) = take (e - q) (drop q s)"
proof -
  let ?b = "fold (\<lambda>w b. b[snd w := 0]) ws (s @ [0])"
  have t: "q < e" "e \<le> length s" "\<forall>i. q \<le> i \<longrightarrow> i < e \<longrightarrow> wordchar (s ! i)" using ok w by (auto simp: tok_ok_def simp del: symbol_chars)
  have "?b ! i = s ! i" if "q \<le> i" "i < e" for i
  proof -
    have "i \<noteq> snd w" if "w \<in> set ws" for w
    proof
      assume "i = snd w"
      moreover have "tok_ok s w" using ok that by blast
      ultimately have "\<not> wordchar (s ! i)" using \<open>i < e\<close> t(2) by (auto simp: tok_ok_def simp del: symbol_chars)
      then show False using t(3) \<open>q \<le> i\<close> \<open>i < e\<close> by blast
    qed
    then show ?thesis using that t(2) by (auto simp: nul_at nth_append)
  qed
  then have tk: "take (e - q) (drop q ?b) = take (e - q) (drop q s)"
    using t(1,2) by (intro nth_equalityI) (auto simp: nul_at)
  have "?b ! e = 0" using t(2) w by (force simp: nul_at image_iff)
  then have "drop e ?b = 0 # drop (Suc e) ?b" using t(2) by (simp add: Cons_nth_drop_Suc [symmetric] nul_at)
  then have "drop q ?b = take (e - q) (drop q s) @ 0 # drop (Suc e) ?b"
    using append_take_drop_id [of "e - q" "drop q ?b"] tk t(1) by simp
  moreover have "\<forall>c\<in>set (take (e - q) (drop q s)). c \<noteq> 0" using s by (auto dest!: in_set_takeD in_set_dropD)
  ultimately show ?thesis by (simp add: takeWhile_append2)
qed

text \<open>
  C16. The shell's parser (parsecmd and the functions it calls in sh.c) ends on every line, with a command or with a syntax error: the recursion
  is never deeper than four levels for each byte of the line.
\<close>

theorem parsecmd_ends: "(\<exists>c b. parsecmd s = Parsed (c, b) (length s)) \<or> (\<exists>e. parsecmd s = Syntax e)"
proof -
  have "parses (cmd_ok s) s 0 (parseline (parse_fuel s) s 0)" using parse_ok [of 0 s] by (simp add: parse_fuel_def)
  then show ?thesis
    by (cases "parseline (parse_fuel s) s 0") (auto simp: parsecmd_def Let_def split: prod.split if_split)
qed

text \<open>
  C15. After \<open>parsecmd\<close> (sh.c) every argument and every file name of the command is, as a string that ends at the first NUL, exactly the word of
  the line it was parsed from: the NULs that \<open>nulterminate\<close> writes never cut another word. No command has more arguments than its
  array holds with the null pointer at the end.
\<close>

theorem parsecmd_words:
  assumes "parsecmd s = Parsed (c, b) p" and "0 \<notin> set s"
  shows "args_fit c \<and> (\<forall>(q, e)\<in>set (words c). q < e \<and> e \<le> length s \<and> (\<forall>i\<in>{q..<e}. wordchar (s ! i)) \<and>
    takeWhile (\<lambda>x. x \<noteq> 0) (drop q b) = take (e - q) (drop q s))"
proof -
  have ps: "parses (cmd_ok s) s 0 (parseline (parse_fuel s) s 0)" using parse_ok [of 0 s] by (simp add: parse_fuel_def)
  obtain p' where "parseline (parse_fuel s) s 0 = Parsed c p'" and b: "b = nulterminate c (s @ [0])"
    using assms(1) by (cases "parseline (parse_fuel s) s 0") (auto simp: parsecmd_def Let_def split: prod.splits if_splits)
  with ps have c: "\<forall>w\<in>set (words c). tok_ok s w" "args_fit c" by (auto simp: cmd_ok_def)
  have "q < e \<and> e \<le> length s \<and> (\<forall>i\<in>{q..<e}. wordchar (s ! i)) \<and> takeWhile (\<lambda>x. x \<noteq> 0) (drop q b) = take (e - q) (drop q s)"
    if "(q, e) \<in> set (words c)" for q e
    using c(1) that word_string [OF c(1) that assms(2)] by (auto simp: b nulterminate_words tok_ok_def simp del: symbol_chars)
  then show ?thesis using c(2) by blast
qed

end
