(* ===== verification/Shprint.thy ===== *)
theory Shprint
  imports Shell
begin

text \<open>
  Printing and parsing shell commands. \<open>cmd_text\<close> writes a command tree as a line; the parser of theory \<open>Shell\<close> reads it back.
  The lemmas follow the parser from the tokens up: \<open>line_reads\<close> and \<open>atom_reads\<close> say that a command is read back as a line and as
  a part of a line, and are proved together by induction on the command.
\<close>

section \<open>Printing commands\<close>

text \<open>A command as text: each token is followed by a space, and a command inside another one is put in parentheses unless it is a simple one.\<close>

definition word_text :: "bytes \<Rightarrow> bytes" where
  "word_text w = w @ [32]"

definition redir_text :: "bytes redir \<Rightarrow> bytes" where
  "redir_text r = [if r_fd r = 0 then 60 else 62, 32] @ word_text (r_word r)"

fun simple_cmd :: "'w cmd \<Rightarrow> bool" where
  "simple_cmd (EXEC ws) = True"
| "simple_cmd (REDIR c r) = True"
| "simple_cmd c = False"

definition parens :: "'w cmd \<Rightarrow> bytes \<Rightarrow> bytes" where
  "parens c t = (if simple_cmd c then t else [40, 32] @ t @ [41, 32])"

primrec cmd_text :: "bytes cmd \<Rightarrow> bytes" where
  "cmd_text (EXEC ws) = concat (map word_text ws)"
| "cmd_text (REDIR c r) = parens c (cmd_text c) @ redir_text r"
| "cmd_text (PIPE c d) = parens c (cmd_text c) @ [124, 32] @ parens d (cmd_text d)"
| "cmd_text (LIST c d) = parens c (cmd_text c) @ [59, 32] @ parens d (cmd_text d)"
| "cmd_text (BACK c) = parens c (cmd_text c) @ [38, 32]"

definition good_word :: "bytes \<Rightarrow> bool" where
  "good_word w \<longleftrightarrow> w \<noteq> [] \<and> (\<forall>c\<in>set w. wordchar c \<and> c \<noteq> 0)"

definition good_redir :: "bytes redir \<Rightarrow> bool" where
  "good_redir r \<longleftrightarrow> good_word (r_word r) \<and> (r = redir_for 60 (r_word r) \<or> r = redir_for 62 (r_word r))"

primrec good_cmd :: "bytes cmd \<Rightarrow> bool" where
  "good_cmd (EXEC ws) = ((\<forall>w\<in>set ws. good_word w) \<and> length ws < MAXARGS)"
| "good_cmd (REDIR c r) = (good_cmd c \<and> good_redir r)"
| "good_cmd (PIPE c d) = (good_cmd c \<and> good_cmd d)"
| "good_cmd (LIST c d) = (good_cmd c \<and> good_cmd d)"
| "good_cmd (BACK c) = good_cmd c"

lemma strchr_list [simp]: "strchr (c # cs) d \<longleftrightarrow> c \<noteq> 0 \<and> (d = c \<or> strchr cs d)" "\<not> strchr [] d"
  by (auto simp: strchr_def)

section \<open>Reading a token back\<close>

definition span_text :: "bytes \<Rightarrow> span \<Rightarrow> bytes" where
  "span_text s = (\<lambda>(q, e). take (e - q) (drop q s))"

text \<open>The next token starts right here, or the line ends.\<close>

definition fresh :: "bytes \<Rightarrow> bool" where
  "fresh t \<longleftrightarrow> (case t of [] \<Rightarrow> True | c # _ \<Rightarrow> \<not> strchr whitespace c)"

lemma skip_white_fresh: "fresh (drop p s) \<Longrightarrow> skip_white s p = p"
  by (cases "drop p s") (simp_all add: fresh_def skip_white_def del: symbol_chars)

lemma skip_white_space: "drop p s = 32 # t \<Longrightarrow> fresh t \<Longrightarrow> skip_white s p = p + 1"
  by (cases t) (simp_all add: fresh_def skip_white_def)

lemma char_at_drop: "char_at s p = (case drop p s of [] \<Rightarrow> 0 | c # _ \<Rightarrow> c)"
  by (cases "p < length s") (simp_all add: char_at_def Cons_nth_drop_Suc [symmetric])

lemma drop_more: "drop p s = t @ u \<Longrightarrow> p + length t = q \<Longrightarrow> drop q s = u"
  by (metis add.commute append_eq_conv_conj drop_drop)

lemma peek_fresh: "fresh (drop p s) \<Longrightarrow> peek s p cs = (char_at s p \<noteq> 0 \<and> strchr cs (char_at s p), p)"
  by (simp add: peek_def skip_white_fresh)

lemma symbol_token:
  assumes "drop p s = c # 32 # t" and "fresh t" and "c \<in> {124, 40, 41, 59, 38, 60, 62}"
  shows "gettoken s p = (c, p, p + 1, p + 2)"
proof -
  have "drop (p + 1) s = 32 # t" using drop_more [of p s "[c]" "32 # t"] assms(1) by simp
  then have "skip_white s (p + 1) = p + 2" "char_at s (p + 1) = 32" using skip_white_space [OF _ assms(2)] by (simp_all add: char_at_drop)
  moreover have "fresh (drop p s)" using assms(1,3) by (auto simp: fresh_def)
  then have "skip_white s p = p" by (rule skip_white_fresh)
  moreover have "char_at s p = c" using assms(1) by (simp add: char_at_drop)
  ultimately show ?thesis using assms(3) by (auto simp: gettoken_def token_at_def Let_def)
qed

lemma word_token:
  assumes "drop p s = word_text w @ t" and "fresh t" and "good_word w"
  shows "gettoken s p = (97, p, p + length w, p + length w + 1)" "span_text s (p, p + length w) = w" "fresh (drop p s)"
    "char_at s p \<noteq> 0" "wordchar (char_at s p)"
proof -
  have d: "drop p s = w @ 32 # t" using assms(1) by (simp add: word_text_def)
  obtain c u where w: "w = c # u" "wordchar c" "c \<noteq> 0" using assms(3) by (cases w) (auto simp: good_word_def)
  show fr: "fresh (drop p s)" using w d by (simp add: fresh_def)
  show ca: "char_at s p \<noteq> 0" "wordchar (char_at s p)" using w d by (simp_all add: char_at_drop)
  show "span_text s (p, p + length w) = w" using d by (simp add: span_text_def)
  have "takeWhile wordchar (drop p s) = w"
    unfolding d using assms(3) by (subst takeWhile_append2) (auto simp: good_word_def)
  moreover have "skip_white s (p + length w) = p + length w + 1"
    using drop_more [OF d] assms(2) by (intro skip_white_space) auto
  ultimately show "gettoken s p = (97, p, p + length w, p + length w + 1)"
    using skip_white_fresh [OF fr] ca by (auto simp: gettoken_def token_at_def Let_def)
qed

section \<open>Reading arguments and redirections back\<close>

abbreviation redirs_text :: "bytes redir list \<Rightarrow> bytes" where
  "redirs_text rs \<equiv> concat (map redir_text rs)"

abbreviation read_redirs :: "bytes \<Rightarrow> span redir list \<Rightarrow> bytes redir list" where
  "read_redirs s \<equiv> map (map_redir (span_text s))"

definition quiet :: "bytes \<Rightarrow> bool" where
  "quiet t \<longleftrightarrow> fresh t \<and> (case t of [] \<Rightarrow> True | c # _ \<Rightarrow> c \<noteq> 60 \<and> c \<noteq> 62)"

definition stops :: "bytes \<Rightarrow> bool" where
  "stops t \<longleftrightarrow> (case t of [] \<Rightarrow> True | c # _ \<Rightarrow> c \<in> {124, 41, 38, 59})"

lemma stops_quiet: "stops t \<Longrightarrow> quiet t" "quiet t \<Longrightarrow> fresh t"
  by (cases t; auto simp: stops_def quiet_def fresh_def)+

lemma redirs_fresh: "fresh t \<Longrightarrow> fresh (redirs_text rs @ t)"
  by (cases rs) (simp_all add: redir_text_def fresh_def)

lemma redirs_read:
  assumes "\<forall>r\<in>set rs. good_redir r" and "drop p s = redirs_text rs @ t" and "quiet t" and "length s - p < n"
  shows "\<exists>rs'. parseredirs n s p = Parsed rs' (p + length (redirs_text rs)) \<and> read_redirs s rs' = rs"
  using assms(1,2,4)
proof (induction rs arbitrary: p n)
  case Nil
  obtain m where n: "n = Suc m" using Nil.prems(3) by (cases n) auto
  have f: "fresh (drop p s)" using Nil.prems(2) assms(3) by (simp add: quiet_def)
  have "\<not> strchr [60, 62] (char_at s p)" using Nil.prems(2) assms(3) by (cases t) (auto simp: char_at_drop quiet_def )
  then show ?case by (simp add: n peek_fresh [OF f])
next
  case (Cons r rs)
  obtain m where n: "n = Suc m" using Cons.prems(3) by (cases n) auto
  let ?c = "(if r_fd r = 0 then 60 else 62) :: u8" and ?w = "r_word r" and ?u = "redirs_text rs @ t"
  have g: "good_word ?w" "r = redir_for ?c ?w" using Cons.prems(1) by (cases r; auto simp: good_redir_def redir_for_def)+
  have d: "drop p s = ?c # 32 # word_text ?w @ ?u" using Cons.prems(2) by (simp add: redir_text_def [of r])
  have fu: "fresh ?u" using redirs_fresh stops_quiet(2) [OF assms(3)] by simp
  have d2: "drop (p + 2) s = word_text ?w @ ?u" using drop_more [of p s "[?c, 32]"] d by simp
  note w = word_token [OF d2 fu g(1)]
  have tk: "gettoken s p = (?c, p, p + 1, p + 2)" using symbol_token [OF d] w(3) d2 by auto
  have f: "fresh (drop p s)" using d by (simp add: fresh_def)
  have pk: "peek s p [60, 62] = (True, p)" using d by (simp add: peek_fresh [OF f] char_at_drop )
  let ?q = "p + 2 + length ?w + 1"
  have d3: "drop ?q s = ?u" using drop_more [OF d2, of ?q] by (simp add: word_text_def)
  have "p < length s" using d by (metis drop_all leI list.distinct(1))
  then have "length s - ?q < m" using Cons.prems(3) n by linarith
  then obtain rs' where rs': "parseredirs m s ?q = Parsed rs' (?q + length (redirs_text rs))" "read_redirs s rs' = rs"
    using Cons.IH [OF _ d3] Cons.prems(1) by auto
  have "parseredirs n s p = Parsed (redir_for ?c (p + 2, p + 2 + length ?w) # rs') (p + length (redirs_text (r # rs)))"
    using rs'(1) w(1) by (simp add: n pk tk redir_text_def [of r] word_text_def add.assoc)
  moreover have "map_redir (span_text s) (redir_for ?c (p + 2, p + 2 + length ?w)) = r"
    using w(2) g(2) by (simp add: redir_for_def split: if_splits)
  ultimately show ?case using rs'(2) by auto
qed

lemma args_stop:
  assumes "stops (drop p s)" and "p \<le> length s"
  shows "parseargs (Suc n) argc s p = Parsed ([], []) p"
proof -
  have f: "fresh (drop p s)" using stops_quiet assms(1) by blast
  show ?thesis
  proof (cases "drop p s")
    case Nil
    then have "char_at s p = 0" by (simp add: char_at_drop)
    then show ?thesis by (simp add: peek_fresh [OF f] gettoken_def token_at_def skip_white_fresh [OF f])
  next
    case (Cons c t)
    then have "char_at s p = c" "c \<in> {124, 41, 38, 59}" using assms(1) by (simp_all add: char_at_drop stops_def)
    then show ?thesis by (auto simp: peek_fresh [OF f] )
  qed
qed

lemma words_quiet:
  assumes "ws \<noteq> []" and "\<forall>w\<in>set ws. good_word w"
  shows "quiet (concat (map word_text ws) @ x)"
proof -
  obtain v vs where v: "ws = v # vs" "good_word v" using assms by (cases ws) auto
  then show ?thesis by (cases v) (auto simp: good_word_def word_text_def quiet_def fresh_def)
qed

lemma args_read:
  assumes "\<forall>w\<in>set ws. good_word w" and "length ws + argc < MAXARGS" and "\<forall>r\<in>set rs. good_redir r" and "ws = [] \<longrightarrow> rs = []"
    and "drop p s = concat (map word_text ws) @ redirs_text rs @ t" and "stops t" and "p \<le> length s" "length s - p < n"
  shows "\<exists>as rs'. parseargs n argc s p = Parsed (as, rs') (p + length (concat (map word_text ws) @ redirs_text rs)) \<and>
    map (span_text s) as = ws \<and> read_redirs s rs' = rs"
  using assms(1,2,4,5,7,8)
proof (induction ws arbitrary: p n argc)
  case Nil
  then obtain m where n: "n = Suc m" by (cases n) auto
  have "stops (drop p s)" using Nil.prems(3,4) assms(6) by simp
  then show ?case using args_stop [of p s m argc] Nil.prems(3,5) by (simp add: n)
next
  case (Cons w ws)
  then obtain m where n: "n = Suc m" by (cases n) auto
  let ?u = "concat (map word_text ws) @ redirs_text rs @ t" and ?q = "p + length w + 1"
  have qt: "quiet t" "fresh t" using stops_quiet assms(6) by blast+
  have d: "drop p s = word_text w @ ?u" using Cons.prems(4) by simp
  have wq: "ws \<noteq> [] \<Longrightarrow> quiet ?u" using words_quiet [of ws] Cons.prems(1) by simp
  then have fu: "fresh ?u" using stops_quiet(2) redirs_fresh [OF qt(2)] by (cases ws) (simp, blast)
  have g: "good_word w" using Cons.prems(1) by simp
  note w = word_token [OF d fu g]
  have d2: "drop ?q s = ?u" using drop_more [OF d, of ?q] by (simp add: word_text_def)
  have pl: "p < length s" using w(4) char_at_0 by blast
  have ql: "?q \<le> length s" using gettoken_ok(2) [OF _ w(1)] pl by simp
  have fl: "length s - ?q < m" using Cons.prems(6) n pl by linarith
  have more: "parseargs n argc s p = then_parse (parseredirs m s ?q) (\<lambda>rs p. then_parse (parseargs m (argc + 1) s p)
      (\<lambda>(as, rs') p. Parsed ((p_w, ?q - 1) # as, rs @ rs') p))" if "p_w = p" for p_w
    using that w(1,4,5) Cons.prems(2) by (simp add: n peek_fresh [OF w(3)]  Let_def not_le)
  show ?case
  proof (cases "ws = []")
    case True
    obtain rs' where rs': "parseredirs m s ?q = Parsed rs' (?q + length (redirs_text rs))" "read_redirs s rs' = rs"
      using redirs_read [OF assms(3) _ qt(1) fl] d2 True by auto
    let ?e = "?q + length (redirs_text rs)"
    have "drop ?e s = t" using drop_more [of ?q s "redirs_text rs" t ?e] d2 True by simp
    moreover have "?e \<le> length s" using parseredirs_ok [OF ql fl] rs'(1) by simp
    moreover obtain k where "m = Suc k" using fl by (cases m) auto
    ultimately have "parseargs m (argc + 1) s ?e = Parsed ([], []) ?e" using args_stop [of ?e s k] assms(6) by simp
    then show ?thesis using more [of p] rs' w(2) True by (simp add: word_text_def [of w])
  next
    case False
    obtain r0 where r0: "parseredirs m s ?q = Parsed r0 ?q" "r0 = []"
      using redirs_read [of "[]" ?q s ?u m] d2 wq [OF False] fl by auto
    obtain as rs' where "parseargs m (argc + 1) s ?q = Parsed (as, rs') (?q + length (concat (map word_text ws) @ redirs_text rs))"
        "map (span_text s) as = ws" "read_redirs s rs' = rs"
      using Cons.IH [OF _ _ _ d2 ql fl, of "argc + 1"] Cons.prems(1,2) False by auto
    then show ?thesis using more [of p] r0 w(2) by (simp add: word_text_def [of w])
  qed
qed

section \<open>Reading commands back\<close>

abbreviation read_cmd :: "bytes \<Rightarrow> span cmd \<Rightarrow> bytes cmd" where
  "read_cmd s \<equiv> map_cmd (span_text s)"

abbreviation atom_text :: "bytes cmd \<Rightarrow> bytes" where
  "atom_text c \<equiv> parens c (cmd_text c)"

lemma read_redircmds: "read_cmd s (redircmds c rs) = redircmds (read_cmd s c) (read_redirs s rs)"
  by (induction rs arbitrary: c) (simp_all add: redircmds_def)

definition good_at :: "bytes \<Rightarrow> nat \<Rightarrow> nat \<Rightarrow> nat \<Rightarrow> bool" where
  "good_at s p k n \<longleftrightarrow> p \<le> length s \<and> 4 * (length s - p) + k \<le> n"

text \<open>A simple command with redirections.\<close>

lemma exec_read:
  assumes "\<forall>w\<in>set ws. good_word w" and "length ws < MAXARGS" and "\<forall>r\<in>set rs. good_redir r"
    and "drop p s = concat (map word_text ws) @ redirs_text rs @ t" and "stops t" and "good_at s p 2 n"
  shows "\<exists>c. parseexec n s p = Parsed c (p + length (concat (map word_text ws) @ redirs_text rs)) \<and>
    read_cmd s c = redircmds (EXEC ws) rs"
proof -
  obtain m where n: "n = Suc m" using assms(6) by (cases n) (auto simp: good_at_def)
  have fl: "length s - p < m" "p \<le> length s" using assms(6) n by (auto simp: good_at_def)
  have qt: "quiet t" "fresh t" using stops_quiet assms(5) by blast+
  have f: "fresh (drop p s)"
    using assms(4) words_quiet [OF _ assms(1)] stops_quiet(2) redirs_fresh [OF qt(2)] by (cases "ws = []") auto
  have "char_at s p \<noteq> 40"
  proof (cases "ws = []")
    case True
    then show ?thesis using assms(4,5) by (cases rs; cases t) (auto simp: char_at_drop redir_text_def stops_def)
  next
    case False
    then obtain w vs where "ws = w # vs" "good_word w" using assms(1) by (cases ws) auto
    then show ?thesis using assms(4) by (cases w) (auto simp: char_at_drop word_text_def good_word_def)
  qed
  then have run: "parseexec n s p = then_parse (parseredirs m s p) (\<lambda>rs p. then_parse (parseargs m 0 s p)
      (\<lambda>(as, rs') p. Parsed (redircmds (EXEC as) (rs @ rs')) p))"
    by (simp add: n peek_fresh [OF f])
  show ?thesis
  proof (cases "ws = []")
    case True
    obtain rs' where rs': "parseredirs m s p = Parsed rs' (p + length (redirs_text rs))" "read_redirs s rs' = rs"
      using redirs_read [OF assms(3) _ qt(1) fl(1)] assms(4) True by auto
    let ?e = "p + length (redirs_text rs)"
    have "drop ?e s = t" using drop_more [of p s "redirs_text rs" t ?e] assms(4) True by simp
    moreover have "?e \<le> length s" using parseredirs_ok [OF fl(2,1)] rs'(1) by simp
    moreover obtain k where "m = Suc k" using fl(1) by (cases m) auto
    ultimately have "parseargs m 0 s ?e = Parsed ([], []) ?e" using args_stop [of ?e s k] assms(5) by simp
    then show ?thesis using run rs' True by (simp add: read_redircmds)
  next
    case False
    have "parseredirs m s p = Parsed [] p"
      using redirs_read [of "[]" p s "concat (map word_text ws) @ redirs_text rs @ t" m] words_quiet [OF False assms(1)] assms(4) fl(1) by auto
    moreover obtain as rs' where "parseargs m 0 s p = Parsed (as, rs') (p + length (concat (map word_text ws) @ redirs_text rs))"
        "map (span_text s) as = ws" "read_redirs s rs' = rs"
      using args_read [OF assms(1) _ assms(3) _ assms(4,5) fl(2,1), of 0] assms(2) False by auto
    ultimately show ?thesis using run by (simp add: read_redircmds)
  qed
qed

lemma good_at_next:
  assumes "good_at s p k (Suc m)" and "drop p s = u @ t" and "k' + 1 \<le> k + 4 * length u" and "q = p + length u"
  shows "good_at s q k' m" "drop q s = t"
proof -
  have "length s - p = length u + length t" using arg_cong [OF assms(2), of length] by simp
  then show "good_at s q k' m" using assms(1,3,4) unfolding good_at_def by auto
  show "drop q s = t" using drop_more [OF assms(2)] assms(4) by simp
qed

lemma atom_fresh: "good_cmd c \<Longrightarrow> fresh t \<Longrightarrow> fresh (atom_text c @ t)"
proof (induction c arbitrary: t)
  case (EXEC ws)
  then show ?case using words_quiet [of ws t] stops_quiet(2) by (cases "ws = []") (auto simp: parens_def)
next
  case (REDIR c r)
  have "fresh (redir_text r @ t)" by (simp add: redir_text_def fresh_def)
  then show ?case using REDIR by (simp add: parens_def)
qed (simp_all add: parens_def fresh_def)

definition line_reads :: "bytes cmd \<Rightarrow> bool" where
  "line_reads c \<longleftrightarrow> (\<forall>s p n t. drop p s = cmd_text c @ t \<longrightarrow> t = [] \<or> hd t = 41 \<longrightarrow> good_at s p 4 n \<longrightarrow>
     (\<exists>c'. parseline n s p = Parsed c' (p + length (cmd_text c)) \<and> read_cmd s c' = c))"

definition atom_reads :: "bytes cmd \<Rightarrow> bool" where
  "atom_reads c \<longleftrightarrow> (\<forall>s p n t rs. drop p s = atom_text c @ redirs_text rs @ t \<longrightarrow> stops t \<longrightarrow> (\<forall>r\<in>set rs. good_redir r) \<longrightarrow> good_at s p 2 n \<longrightarrow>
     (\<exists>c'. parseexec n s p = Parsed c' (p + length (atom_text c @ redirs_text rs)) \<and> read_cmd s c' = redircmds c rs))"

lemma atom_read:
  assumes "atom_reads c" and "drop p s = atom_text c @ t" and "stops t" and "good_at s p 2 n"
  shows "\<exists>c'. parseexec n s p = Parsed c' (p + length (atom_text c)) \<and> read_cmd s c' = c"
  using assms(1) [unfolded atom_reads_def, rule_format, of p s "[]" t n] assms(2-4) by (simp add: redircmds_def)

lemma peek_stops: "stops (drop p s) \<Longrightarrow> peek s p cs = (drop p s \<noteq> [] \<and> strchr cs (hd (drop p s)), p)"
  using stops_quiet [of "drop p s"] by (cases "drop p s") (auto simp: peek_fresh char_at_drop stops_def)

lemma pipe_end:
  assumes "atom_reads c" and "drop p s = atom_text c @ t" and "stops t" and "t \<noteq> [] \<longrightarrow> hd t \<noteq> 124" and "good_at s p 3 n"
  shows "\<exists>c'. parsepipe n s p = Parsed c' (p + length (atom_text c)) \<and> read_cmd s c' = c"
proof -
  obtain m where n: "n = Suc m" using assms(5) by (cases n) (auto simp: good_at_def)
  have "good_at s p 2 m" using assms(5) n by (auto simp: good_at_def)
  then obtain c' where c': "parseexec m s p = Parsed c' (p + length (atom_text c))" "read_cmd s c' = c"
    using atom_read [OF assms(1-3)] by blast
  have "drop (p + length (atom_text c)) s = t" using drop_more [OF assms(2)] by simp
  then show ?thesis using c' assms(3,4) peek_stops [of "p + length (atom_text c)" s "[124]"] by (auto simp: n Let_def)
qed

lemma backs_none: "stops (drop p s) \<Longrightarrow> drop p s \<noteq> [] \<longrightarrow> hd (drop p s) \<noteq> 38 \<Longrightarrow> parsebacks (Suc m) s p = Parsed 0 p"
  by (auto simp: peek_stops)

text \<open>A command as a whole line, or as what a pair of parentheses holds.\<close>

lemma line_of_pipe:
  assumes "parsepipe m s p = Parsed c' q" and "drop q s = t" and "t = [] \<or> hd t = 41" and "0 < m"
  shows "parseline (Suc m) s p = Parsed c' q"
proof -
  have st: "stops (drop q s)" using assms(2,3) by (cases t) (auto simp: stops_def)
  obtain k where "m = Suc k" using assms(4) by (cases m) auto
  then show ?thesis using assms(1-3) backs_none [OF st, of k] peek_stops [OF st, of "[59]"] by (auto simp: Let_def)
qed

lemma line_of_atom:
  assumes "atom_reads c" and "drop p s = atom_text c @ t" and "t = [] \<or> hd t = 41" and "good_at s p 4 n"
  shows "\<exists>c'. parseline n s p = Parsed c' (p + length (atom_text c)) \<and> read_cmd s c' = c"
proof -
  obtain m where n: "n = Suc m" "0 < m" using assms(4) by (cases n) (auto simp: good_at_def)
  have g: "good_at s p 3 m" using assms(4) n by (auto simp: good_at_def)
  have "stops t" using assms(3) by (cases t) (auto simp: stops_def)
  then obtain c' where c': "parsepipe m s p = Parsed c' (p + length (atom_text c))" "read_cmd s c' = c"
    using pipe_end [OF assms(1,2) _ _ g] assms(3) by auto
  have "drop (p + length (atom_text c)) s = t" using drop_more [OF assms(2)] by simp
  then show ?thesis using line_of_pipe [OF c'(1) _ assms(3) n(2)] c'(2) n by auto
qed

lemma line_PIPE:
  assumes a: "atom_reads a" and b: "atom_reads b" "good_cmd b"
  shows "line_reads (PIPE a b)"
  unfolding line_reads_def
proof (intro allI impI)
  fix s p n t
  assume d: "drop p s = cmd_text (PIPE a b) @ t" and t: "t = [] \<or> hd t = 41" and g: "good_at s p 4 n"
  obtain m where n: "n = Suc (Suc m)" using g by (cases n; cases "n - 1") (auto simp: good_at_def)
  let ?q = "p + length (atom_text a)"
  have st: "stops t" using t by (cases t) (auto simp: stops_def)
  have d0: "drop p s = atom_text a @ 124 # 32 # atom_text b @ t" using d by simp
  have g2: "good_at s p 2 m" using g n by (auto simp: good_at_def)
  obtain a' where a': "parseexec m s p = Parsed a' ?q" "read_cmd s a' = a"
    using atom_read [OF a d0 _ g2] by (auto simp: stops_def)
  have d1: "drop ?q s = 124 # 32 # atom_text b @ t" using drop_more [OF d0] by simp
  have fr: "fresh (atom_text b @ t)" using atom_fresh [OF b(2)] stops_quiet st by blast
  have g3: "good_at s (?q + 2) 3 m" "drop (?q + 2) s = atom_text b @ t"
    using good_at_next [of s p 3 m "atom_text a @ [124, 32]" "atom_text b @ t" 3 "?q + 2"] g n d0 by (auto simp: good_at_def)
  obtain b' where b': "parsepipe m s (?q + 2) = Parsed b' (?q + 2 + length (atom_text b))" "read_cmd s b' = b"
    using pipe_end [OF b(1) g3(2) st _ g3(1)] t by auto
  have "parsepipe (Suc m) s p = Parsed (PIPE a' b') (p + length (cmd_text (PIPE a b)))"
    using a'(1) b'(1) d1 symbol_token [OF d1 fr] peek_stops [of ?q s "[124]"] by (simp add: stops_def Let_def)
  moreover have "drop (p + length (cmd_text (PIPE a b))) s = t" using drop_more [OF d] by simp
  ultimately have "parseline n s p = Parsed (PIPE a' b') (p + length (cmd_text (PIPE a b)))"
    using line_of_pipe [OF _ _ t] n by blast
  then show "\<exists>c'. parseline n s p = Parsed c' (p + length (cmd_text (PIPE a b))) \<and> read_cmd s c' = PIPE a b"
    using a'(2) b'(2) by auto
qed

lemma line_LIST:
  assumes a: "atom_reads a" and b: "atom_reads b" "good_cmd b"
  shows "line_reads (LIST a b)"
  unfolding line_reads_def
proof (intro allI impI)
  fix s p n t
  assume d: "drop p s = cmd_text (LIST a b) @ t" and t: "t = [] \<or> hd t = 41" and g: "good_at s p 4 n"
  obtain m where n: "n = Suc (Suc m)" using g by (cases n; cases "n - 1") (auto simp: good_at_def)
  let ?q = "p + length (atom_text a)"
  have d0: "drop p s = atom_text a @ 59 # 32 # atom_text b @ t" using d by simp
  have ga: "good_at s p 3 (Suc m)" using g n by (auto simp: good_at_def)
  obtain a' where a': "parsepipe (Suc m) s p = Parsed a' ?q" "read_cmd s a' = a"
    using pipe_end [OF a d0 _ _ ga] by (auto simp: stops_def simp del: parsepipe.simps)
  have d1: "drop ?q s = 59 # 32 # atom_text b @ t" using drop_more [OF d0] by simp
  have "fresh t" using t by (cases t) (auto simp: fresh_def)
  then have fr: "fresh (atom_text b @ t)" by (rule atom_fresh [OF b(2)])
  have g3: "good_at s (?q + 2) 4 (Suc m)" "drop (?q + 2) s = atom_text b @ t"
    using good_at_next [of s p 4 "Suc m" "atom_text a @ [59, 32]" "atom_text b @ t" 4 "?q + 2"] g n d0 by (auto simp: good_at_def)
  obtain b' where b': "parseline (Suc m) s (?q + 2) = Parsed b' (?q + 2 + length (atom_text b))" "read_cmd s b' = b"
    using line_of_atom [OF b(1) g3(2) t g3(1)] by blast
  have "parseline n s p = Parsed (LIST a' b') (p + length (cmd_text (LIST a b)))"
    unfolding n parseline.simps(2) [of "Suc m"]
    using a'(1) b'(1) d1 symbol_token [OF d1 fr] peek_stops [of ?q s "[59]"] backs_none [of ?q s m]
    by (simp add: stops_def Let_def del: parseline.simps parsepipe.simps parsebacks.simps)
  then show "\<exists>c'. parseline n s p = Parsed c' (p + length (cmd_text (LIST a b))) \<and> read_cmd s c' = LIST a b"
    using a'(2) b'(2) by auto
qed

lemma line_BACK:
  assumes a: "atom_reads a"
  shows "line_reads (BACK a)"
  unfolding line_reads_def
proof (intro allI impI)
  fix s p n t
  assume d: "drop p s = cmd_text (BACK a) @ t" and t: "t = [] \<or> hd t = 41" and g: "good_at s p 4 n"
  obtain m where n: "n = Suc (Suc (Suc m))"
    using g by (cases n; cases "n - 1"; cases "n - 2") (auto simp: good_at_def)
  let ?q = "p + length (atom_text a)"
  have d0: "drop p s = atom_text a @ 38 # 32 # t" using d by simp
  have ga: "good_at s p 3 (Suc (Suc m))" using g n by (auto simp: good_at_def)
  obtain a' where a': "parsepipe (Suc (Suc m)) s p = Parsed a' ?q" "read_cmd s a' = a"
    using pipe_end [OF a d0 _ _ ga] by (auto simp: stops_def simp del: parsepipe.simps)
  have d1: "drop ?q s = 38 # 32 # t" using drop_more [OF d0] by simp
  have fr: "fresh t" and st: "stops t" using t by (cases t; auto simp: fresh_def stops_def)+
  have d2: "drop (?q + 2) s = t" using drop_more [of ?q s "[38, 32]" t "?q + 2"] d1 by simp
  have "parsebacks (Suc m) s (?q + 2) = Parsed 0 (?q + 2)" using backs_none [of "?q + 2" s m] d2 st t by auto
  then have "parsebacks (Suc (Suc m)) s ?q = Parsed (Suc 0) (?q + 2)"
    unfolding parsebacks.simps(2) [of "Suc m"]
    using d1 symbol_token [OF d1 fr] peek_stops [of ?q s "[38]"] by (simp add: stops_def Let_def del: parsebacks.simps)
  moreover have "peek s (?q + 2) [59] = (False, ?q + 2)" using peek_stops [of "?q + 2" s "[59]"] d2 st t by auto
  ultimately have "parseline n s p = Parsed (BACK a') (p + length (cmd_text (BACK a)))"
    unfolding n parseline.simps(2) [of "Suc (Suc m)"]
    using a'(1) by (simp add: Let_def del: parseline.simps parsepipe.simps parsebacks.simps)
  then show "\<exists>c'. parseline n s p = Parsed c' (p + length (cmd_text (BACK a))) \<and> read_cmd s c' = BACK a" using a'(2) by auto
qed

lemma cmd_fresh:
  assumes "good_cmd c" and "fresh t"
  shows "fresh (cmd_text c @ t)"
proof -
  have y: "fresh (d # x)" if "d \<in> {60, 62, 124, 59, 38}" for d :: u8 and x using that by (auto simp: fresh_def)
  show ?thesis
  proof (cases c)
    case (EXEC ws)
    then show ?thesis using atom_fresh [OF assms] by (simp add: parens_def)
  next
    case (REDIR e r)
    then show ?thesis using assms(1) atom_fresh [of e "redir_text r @ t"] y by (simp add: redir_text_def)
  next
    case (PIPE e f)
    then show ?thesis using assms(1) atom_fresh [of e "124 # 32 # atom_text f @ t"] y by simp
  next
    case (LIST e f)
    then show ?thesis using assms(1) atom_fresh [of e "59 # 32 # atom_text f @ t"] y by simp
  next
    case (BACK e)
    then show ?thesis using assms(1) atom_fresh [of e "38 # 32 # t"] y by simp
  qed
qed

lemma block_reads:
  assumes c: "line_reads c" "good_cmd c" "\<not> simple_cmd c"
  shows "atom_reads c"
  unfolding atom_reads_def
proof (intro allI impI)
  fix s p n t rs
  assume d: "drop p s = atom_text c @ redirs_text rs @ t" and t: "stops t" and rs: "\<forall>r\<in>set rs. good_redir r" and g: "good_at s p 2 n"
  let ?u = "redirs_text rs @ t" and ?q = "p + 2 + length (cmd_text c)"
  have d0: "drop p s = 40 # 32 # cmd_text c @ 41 # 32 # ?u" using d c(3) by (simp add: parens_def)
  have pl: "p < length s" using d0 by (metis drop_all leI list.distinct(1))
  obtain m where n: "n = Suc (Suc m)" using g pl by (cases n; cases "n - 1") (auto simp: good_at_def)
  have f0: "fresh (drop p s)" using d0 by (simp add: fresh_def)
  have pk: "peek s p [40] = (True, p)" using d0 by (simp add: peek_fresh [OF f0] char_at_drop)
  have f1: "fresh (cmd_text c @ 41 # 32 # ?u)" by (rule cmd_fresh [OF c(2)]) (simp add: fresh_def)
  have qt: "quiet t" and fu: "fresh ?u" using stops_quiet t redirs_fresh by blast+
  have g1: "good_at s (p + 2) 4 m" "drop (p + 2) s = cmd_text c @ 41 # 32 # ?u"
    using good_at_next [of s p 1 m "[40, 32]" "cmd_text c @ 41 # 32 # ?u" 4 "p + 2"] g n d0 by (auto simp: good_at_def)
  obtain c' where c': "parseline m s (p + 2) = Parsed c' ?q" "read_cmd s c' = c"
    using c(1) [unfolded line_reads_def, rule_format, OF g1(2) _ g1(1)] by auto
  have d2: "drop ?q s = 41 # 32 # ?u" using drop_more [OF g1(2), of ?q] by simp
  have pk2: "peek s ?q [41] = (True, ?q)" using peek_stops [of ?q s "[41]", unfolded d2] by (simp add: stops_def)
  have d3: "drop (?q + 2) s = ?u" using drop_more [of ?q s "[41, 32]" ?u "?q + 2"] d2 by simp
  have "length s - (?q + 2) < m" using g n pl by (auto simp: good_at_def)
  then obtain rs' where rs': "parseredirs m s (?q + 2) = Parsed rs' (?q + 2 + length (redirs_text rs))" "read_redirs s rs' = rs"
    using redirs_read [OF rs d3 qt] by blast
  have "parseblock (Suc m) s p = Parsed (redircmds c' rs') (?q + 2 + length (redirs_text rs))"
    using pk pk2 symbol_token [OF d0 f1] symbol_token [OF d2 fu] c'(1) rs'(1) by (simp add: Let_def)
  then have "parseexec n s p = Parsed (redircmds c' rs') (p + length (atom_text c @ redirs_text rs))"
    using pk c(3) unfolding n parseexec.simps(2) [of "Suc m"] by (simp add: parens_def del: parseblock.simps)
  then show "\<exists>c'. parseexec n s p = Parsed c' (p + length (atom_text c @ redirs_text rs)) \<and> read_cmd s c' = redircmds c rs"
    using c'(2) rs'(2) by (auto simp: read_redircmds)
qed

lemma simple_line:
  assumes "atom_reads c" and "simple_cmd c"
  shows "line_reads c"
proof -
  have "atom_text c = cmd_text c" using assms(2) by (simp add: parens_def)
  then show ?thesis unfolding line_reads_def using line_of_atom [OF assms(1)] by metis
qed

lemma cmd_reads: "good_cmd c \<Longrightarrow> line_reads c \<and> atom_reads c"
proof (induction c)
  case (EXEC ws)
  then have "atom_reads (EXEC ws)"
    unfolding atom_reads_def using exec_read [of ws] by (simp add: parens_def)
  then show ?case using simple_line by simp
next
  case (REDIR c r)
  have "atom_reads (REDIR c r)"
    unfolding atom_reads_def
  proof (intro allI impI)
    fix s p n t rs
    assume d: "drop p s = atom_text (REDIR c r) @ redirs_text rs @ t" and h: "stops t" "\<forall>r\<in>set rs. good_redir r" "good_at s p 2 n"
    have d': "drop p s = atom_text c @ redirs_text (r # rs) @ t" using d by (simp add: parens_def [of "REDIR c r"])
    have "\<forall>x\<in>set (r # rs). good_redir x" using h(2) REDIR.prems by simp
    then show "\<exists>c'. parseexec n s p = Parsed c' (p + length (atom_text (REDIR c r) @ redirs_text rs)) \<and>
        read_cmd s c' = redircmds (REDIR c r) rs"
      using REDIR.IH [THEN conjunct2, unfolded atom_reads_def, rule_format, OF _ d' h(1) _ h(3)] REDIR.prems
      by (auto simp: parens_def [of "REDIR c r"] redircmds_def)
  qed
  then show ?case using simple_line by simp
next
  case (PIPE a b)
  then show ?case using line_PIPE block_reads by simp
next
  case (LIST a b)
  then show ?case using line_LIST block_reads by simp
next
  case (BACK a)
  then show ?case using line_BACK block_reads by simp
qed

lemma words_set: "set_cmd c = set (words c)"
proof (induction c)
  case (REDIR c r)
  then show ?case by (cases r) simp
qed simp_all

lemma cmd_text_nonzero: "good_cmd c \<Longrightarrow> 0 \<notin> set (cmd_text c)"
  by (induction c) (auto simp: parens_def word_text_def redir_text_def good_word_def good_redir_def)

text \<open>
  C14. The shell's parser (parsecmd in sh.c) understands every command: the text of a command tree, printed with parentheses around the parts that are
  not simple commands, parses without error, and the tree that the parser builds is the same tree when its words are read
  from the buffer that \<open>parsecmd\<close> leaves behind.
\<close>

theorem parse_print_roundtrip:
  assumes "good_cmd c"
  shows "\<exists>c' b. parsecmd (cmd_text c) = Parsed (c', b) (length (cmd_text c)) \<and>
    map_cmd (\<lambda>(q, e). takeWhile (\<lambda>x. x \<noteq> 0) (drop q b)) c' = c"
proof -
  let ?s = "cmd_text c"
  have "good_at ?s 0 4 (parse_fuel ?s)" by (simp add: good_at_def parse_fuel_def)
  then obtain c' where c': "parseline (parse_fuel ?s) ?s 0 = Parsed c' (length ?s)" "read_cmd ?s c' = c"
    using cmd_reads [OF assms, THEN conjunct1, unfolded line_reads_def, rule_format, of 0 ?s "[]"] by auto
  have "cmd_ok ?s c'"
    using parse_ok [of 0 ?s "parse_fuel ?s"] c'(1) by (simp add: parse_fuel_def)
  then have ok: "\<forall>w\<in>set (words c'). tok_ok ?s w" by (simp add: cmd_ok_def)
  let ?b = "nulterminate c' (?s @ [0])"
  have "map_cmd (\<lambda>(q, e). takeWhile (\<lambda>x. x \<noteq> 0) (drop q ?b)) c' = read_cmd ?s c'"
    using word_string [OF ok _ cmd_text_nonzero [OF assms]]
    by (intro cmd.map_cong) (auto simp: words_set nulterminate_words span_text_def)
  moreover have "parsecmd ?s = Parsed (c', ?b) (length ?s)"
    using c'(1) by (simp add: parsecmd_def peek_def Let_def skip_white_def)
  ultimately show ?thesis using c'(2) by auto
qed

section \<open>Examples\<close>

text \<open>\<open>a b>c|d\<close> and \<open>(a < f ; b) | d\<close>.\<close>

lemma parse_example:
  "parsecmd [97, 32, 98, 62, 99, 124, 100] =
     Parsed (PIPE (REDIR (EXEC [(0, 1), (2, 3)]) (Redir (4, 5) 0x201 1)) (EXEC [(6, 7)]), [97, 0, 98, 0, 99, 0, 100, 0]) 7"
  by code_simp

theorem parsecmd_words_witness:
  "parsecmd [97, 32, 98, 62, 99, 124, 100] =
     Parsed (PIPE (REDIR (EXEC [(0, 1), (2, 3)]) (Redir (4, 5) 0x201 1)) (EXEC [(6, 7)]), [97, 0, 98, 0, 99, 0, 100, 0]) 7 \<and>
   takeWhile (\<lambda>x. x \<noteq> 0) (drop 2 ([97, 0, 98, 0, 99, 0, 100, 0] :: bytes)) = take (3 - 2) (drop 2 [97, 32, 98, 62, 99, 124, 100])"
  using parse_example parsecmd_words [OF parse_example] by simp

theorem parse_print_roundtrip_witness:
  "\<exists>c' b. parsecmd (cmd_text (PIPE (LIST (REDIR (EXEC [[97]]) (redir_for 60 [102])) (EXEC [[98]])) (EXEC [[100]]))) = Parsed (c', b) 18 \<and>
     map_cmd (\<lambda>(q, e). takeWhile (\<lambda>x. x \<noteq> 0) (drop q b)) c' =
       PIPE (LIST (REDIR (EXEC [[97]]) (redir_for 60 [102])) (EXEC [[98]])) (EXEC [[100]])"
proof -
  have "good_cmd (PIPE (LIST (REDIR (EXEC [[97]]) (redir_for 60 [102])) (EXEC [[98]])) (EXEC [[100]]))"
    by (simp add: good_word_def good_redir_def redir_for_def MAXARGS_def)
  from parse_print_roundtrip [OF this] show ?thesis
    by (simp add: word_text_def redir_text_def parens_def redir_for_def eval_nat_numeral)
qed

end
