(* ===== verification/Spec2Isabelle.thy ===== *)
theory Spec2Isabelle
  imports Trap Vspace Access Spinlock Sched Ide Shape Shprint
begin

text \<open>
  Verification of the kernel under \<open>src/xv6-public\<close>: xv6 for the i386, extended by user accounts
  (\<open>usermanage.c\<close>, \<open>sysuser.c\<close>) and by file permissions (\<open>fs.c\<close>, \<open>sysfile.c\<close>), and of the command parser of its shell.

  \<^bold>\<open>The program and its model.\<close> A kernel function is a function from the state of the kernel to an outcome: a result with a
  new state, a panic, or a switch to the scheduler (theory \<open>Kprelude\<close>). The functions are composed as the code composes
  them. The state is a record that grows from theory to theory, so that a function works on the state of
  every component above it:
  \<open>kbase\<close> (processes, locks), \<open>kmem\<close> (memory, free list), \<open>kbio\<close> (buffers, disk), \<open>klog\<close>, \<open>kino\<close> (inode cache),
  \<open>kcons\<close> (console), \<open>kuser\<close> (user table), \<open>kvm\<close> (page table register), \<open>kfile\<close> (open files, pipes), \<open>kproc\<close>, \<open>ktrap\<close>.
  Integers are words of their C width, except process ids and reference counts, which are not bounded; pointers into tables are
  indices, pointers to memory are 32-bit addresses.

  The theories with definitions, in the order of the layers:
  \<^item> \<open>Kprelude\<close>, the outcomes, their sequencing and the shared lemmas; \<open>Kstring\<close>, all of \<open>string.c\<close>;
  \<^item> \<open>Kstate\<close>, the process table with \<open>sched\<close>, \<open>sleep\<close>, \<open>wakeup\<close> (\<open>proc.c\<close>), locks as one CPU sees them and
    \<open>sleeplock.c\<close>; \<open>Spinlock\<close>, \<open>spinlock.c\<close> on several CPUs, instruction by instruction on the shared lock;
  \<^item> \<open>Ondisk\<close>, the structures of \<open>fs.h\<close>, \<open>log.c\<close> and \<open>usermanage.c\<close> and their bytes; \<open>Kalloc\<close>, \<open>kalloc.c\<close>;
  \<^item> \<open>Bio\<close>, \<open>bio.c\<close> and \<open>memide.c\<close>; \<open>Ide\<close>, \<open>ide.c\<close>; \<open>Klog\<close>, \<open>log.c\<close>;
  \<^item> \<open>Inode\<close> and \<open>Fs\<close>, \<open>fs.c\<close>; \<open>Console\<close>, \<open>console.c\<close>; \<open>Kbd\<close>, \<open>kbd.c\<close>; \<open>Users\<close>, \<open>usermanage.c\<close>;
  \<^item> \<open>Vm\<close>, \<open>vm.c\<close>; \<open>Files\<close>, \<open>file.c\<close> and \<open>pipe.c\<close>; \<open>Proc\<close>, \<open>proc.c\<close>; \<open>Exec\<close>, \<open>exec.c\<close>;
  \<^item> \<open>Sysfile\<close>, \<open>syscall.c\<close> (arguments) and \<open>sysfile.c\<close>; \<open>Trap\<close>, \<open>sysproc.c\<close>, \<open>sysuser.c\<close>, the dispatch of system calls,
    \<open>trap.c\<close> and the order of initialisation in \<open>main.c\<close>;
  \<^item> \<open>Shell\<close>, the tokens and the parser of \<open>sh.c\<close>.

  \<^bold>\<open>What is shown.\<close>
  \<^item> The log (\<open>Klog\<close>, \<open>Txn\<close>): a crash at any point of a commit is invisible or the whole transaction is there after recovery;
    a transaction from an idle log returns and is on the disk.
  \<^item> Accounts (\<open>Passwd\<close>, locale \<open>account_store\<close>): adding, deleting and looking up users refine a map from names to passwords and ids that
    survives a reboot; \<open>getuid\<close> with invalid input releases a lock it has not taken.
  \<^item> Access (\<open>Access\<close>): \<open>open\<close> and \<open>chmod\<close> as whole system calls, with what they grant, refuse and leave behind, including the
    inode that \<open>create\<close> leaves locked.
  \<^item> Files and paths (\<open>Blocks\<close>, locale \<open>block_allocator\<close>; \<open>Icache\<close>, \<open>Fdata\<close>, \<open>Frw\<close>, \<open>Dir\<close>, \<open>Path\<close>): blocks are given out once, \<open>readi\<close>
    returns what \<open>writei\<close> stored, directories are maps, path lookup is an abstract resolution with execute permissions.
  \<^item> Memory (\<open>Kalloc\<close>, locale \<open>page_allocator\<close>; \<open>Vmem\<close>, \<open>Vspace\<close>, \<open>Args\<close>): pages are neither lost nor given out twice, the two levels of page tables
    are one map from pages to entries, \<open>mappages\<close>, \<open>allocuvm\<close>, \<open>copyuvm\<close>, \<open>copyout\<close> and \<open>deallocuvm\<close> do to it what their callers rely on, and
    arguments of system calls are checked for every bit pattern.
  \<^item> Buffers and disk (\<open>Bio\<close>, \<open>Ide\<close>): a read returns the current contents of the block; the interrupt driven driver has the effect of the memory disk.
  \<^item> Concurrency (\<open>Spinlock\<close>, locale \<open>invariant_system\<close>; \<open>Sched\<close>, \<open>Pipes\<close>, locale \<open>bounded_queue\<close>): mutual exclusion for every interleaving and the refinement
    that justifies the locks of \<open>Kstate\<close>; a round of the scheduler runs, in the order of the table, the processes that are runnable
    when it comes to them, and starves none; pipes are bounded queues and a full
    pipe leaves no reader asleep.
  \<^item> The whole kernel (\<open>Shape\<close>, locale \<open>invariant_system\<close>): through booting, every trap and every context switch the tables keep their
    sizes and the indices stored in them stay in range, with one rule for each function of the kernel.
  \<^item> The shell (\<open>Shell\<close>, \<open>Shprint\<close>): the parser ends on every line, reads back the text of every command, and terminates each word.

  \<^bold>\<open>Bounds and fuel.\<close> Loops over tables and ranges are recursions over the list of their indices or over the number of their
  iterations, computed from the bounds before the loop; for \<open>deallocuvm\<close>, which also jumps ahead, running out of iterations is
  an outcome of its own (\<open>out_of_fuel\<close>), and theory \<open>Vspace\<close> shows that it does not occur and that further iterations change nothing. \<open>strlen\<close> is a partial function that returns for terminated strings. The functions of the parser call each other with
  fuel; \<open>parsecmd\<close> starts with four times the length of the line and four more, because every chain of four calls consumes a byte, and
  theory \<open>Shell\<close> shows that it never runs out. A function that waits ends in a switch; its loop starts again after the wakeup.

  \<^bold>\<open>Parameters.\<close> Code and hardware outside the sources are arguments: the disk controller \<open>ctl\<close> of theory \<open>Ide\<close>, which is
  assumed to read and write the sector its registers name (\<open>ata_disk\<close>); what processes do between two context switches, \<open>run\<close>
  in \<open>scheduler\<close>, which is assumed to come back with the lock of the table (\<open>gives_back\<close>; \<open>scheduler\<close> is one round of the endless loop and also returns the list of the processes it ran); the bytes waiting in the keyboard
  controller and the serial port; addresses that the linker chooses.

  \<^bold>\<open>Not modelled.\<close> Context switches and entry code in assembly; the boot loader; the interrupt controllers, the table of
  processors and the segment descriptors, which are hardware set-up without effect on the modelled state; user programs other than
  the parser of the shell, which consist of system calls; the user library; \<open>mkfs.c\<close>, which runs on the host. Apart from theory \<open>Spinlock\<close> the
  functions run on one CPU and are interrupted only where they switch; the theorems on whole operations say which locks
  and buffers must be free for that.
\<close>

end
